(* ===== verification/Munt_Prelude.thy ===== *)
theory Munt_Prelude
  imports Main "HOL-Library.Word"
begin

text \<open>
  Shared vocabulary of the development: the fixed-width integer types of the C++ sources, the
  two's-complement reduction of signed 64-bit arithmetic, the error monad in which every
  throwing or early-returning routine is written, vectors accessed as
  \<^verbatim>\<open>std::vector::at\<close> does, and the little-endian byte codecs of
  \<^verbatim>\<open>src/src/crypto/common.h\<close>. The generic lemmas the component theories share are
  collected here and declared to the simplifier or to the collections \<open>exn_simps\<close>
  (inversion of monadic code) and \<open>vec_simps\<close> (vector access).
\<close>

unbundle bit_operations_syntax

named_theorems exn_simps \<open>inversion of computations in the error monad\<close>
named_theorems vec_simps \<open>access to the elements of a vector\<close>

section \<open>Machine types\<close>

type_synonym byte = "8 word"
type_synonym u8 = "8 word"
type_synonym u16 = "16 word"
type_synonym u32 = "32 word"
type_synonym u64 = "64 word"
type_synonym uint160 = "160 word"
type_synonym uint256 = "256 word"
type_synonym valtype = "byte list"

text \<open>A signed 64-bit result: the mathematical value reduced to two's complement.\<close>

definition i64 :: "int \<Rightarrow> int" where
  "i64 x = signed_take_bit 63 x"

definition i32 :: "int \<Rightarrow> int" where
  "i32 x = signed_take_bit 31 x"

definition in_i64 :: "int \<Rightarrow> bool" where
  "in_i64 x \<longleftrightarrow> - (2 ^ 63) \<le> x \<and> x < 2 ^ 63"

definition in_i32 :: "int \<Rightarrow> bool" where
  "in_i32 x \<longleftrightarrow> - (2 ^ 31) \<le> x \<and> x < 2 ^ 31"

lemma unat_less_2p: "unat (x :: 'a::len word) < 2 ^ LENGTH('a)"
  by (rule unsigned_less)

lemma i64_id [simp]: "in_i64 x \<Longrightarrow> i64 x = x"
  by (simp add: i64_def in_i64_def signed_take_bit_int_eq_self)

lemma i32_id [simp]: "in_i32 x \<Longrightarrow> i32 x = x"
  by (simp add: i32_def in_i32_def signed_take_bit_int_eq_self)

lemma in_i64_i64 [simp]: "in_i64 (i64 x)"
  using signed_take_bit_int_greater_eq_minus_exp [of 63 x]
    signed_take_bit_int_less_exp [of 63 x]
  by (simp add: in_i64_def i64_def)

lemma in_i32_i32 [simp]: "in_i32 (i32 x)"
  using signed_take_bit_int_greater_eq_minus_exp [of 31 x]
    signed_take_bit_int_less_exp [of 31 x]
  by (simp add: in_i32_def i32_def)

text \<open>C++ integer division and remainder truncate towards zero.\<close>

definition c_div :: "int \<Rightarrow> int \<Rightarrow> int" where
  "c_div a b = sgn a * sgn b * (\<bar>a\<bar> div \<bar>b\<bar>)"

definition c_mod :: "int \<Rightarrow> int \<Rightarrow> int" where
  "c_mod a b = a - c_div a b * b"

lemma c_div_nonneg [simp]: "0 \<le> a \<Longrightarrow> 0 < b \<Longrightarrow> c_div a b = a div b"
  by (cases "a = 0") (auto simp: c_div_def)

lemma c_mod_nonneg [simp]: "0 \<le> a \<Longrightarrow> 0 < b \<Longrightarrow> c_mod a b = a mod b"
  by (simp add: c_mod_def minus_div_mult_eq_mod)

section \<open>The error monad\<close>

definition bind_e :: "('e + 'a) \<Rightarrow> ('a \<Rightarrow> 'e + 'b) \<Rightarrow> 'e + 'b" where
  "bind_e m f = (case m of Inl e \<Rightarrow> Inl e | Inr x \<Rightarrow> f x)"

lemma bind_e_Inl [simp]: "bind_e (Inl e) f = Inl e"
  by (simp add: bind_e_def)

lemma bind_e_Inr [simp]: "bind_e (Inr x) f = f x"
  by (simp add: bind_e_def)

lemma bind_e_eq_Inr [exn_simps]:
  "bind_e m f = Inr y \<longleftrightarrow> (\<exists>x. m = Inr x \<and> f x = Inr y)"
  by (cases m) auto

lemma bind_e_eq_Inl [exn_simps]:
  "bind_e m f = Inl e \<longleftrightarrow> m = Inl e \<or> (\<exists>x. m = Inr x \<and> f x = Inl e)"
  by (cases m) auto

lemma bind_e_cong [fundef_cong]:
  "m = m' \<Longrightarrow> (\<And>x. m' = Inr x \<Longrightarrow> f x = f' x) \<Longrightarrow> bind_e m f = bind_e m' f'"
  by (cases m') auto

section \<open>Vectors\<close>

text \<open>
  The exceptions a routine can throw by itself: \<^verbatim>\<open>std::out_of_range\<close> from
  \<^verbatim>\<open>vector::at\<close>, the \<^verbatim>\<open>runtime_error\<close> of
  \<^verbatim>\<open>popstack\<close>, the \<^verbatim>\<open>scriptnum_error\<close> of
  \<^verbatim>\<open>CScriptNum\<close> any other \<^verbatim>\<open>runtime_error\<close> and the
  \<^verbatim>\<open>ios_base::failure\<close> of a stream; \<open>AssertFail\<close> is a failed \<^verbatim>\<open>assert\<close>, which
  no handler catches, and \<open>UndefinedBehaviour\<close> marks an access the language gives no meaning
  to (an unchecked index outside a vector, an inactive union member).
\<close>

datatype cpp_exn = OutOfRange | StackEmpty | ScriptNumError | RuntimeError | AssertFail
  | IosFailure | UndefinedBehaviour

text \<open>An indexed read that must stay inside the vector.\<close>

definition vec_at :: "'a list \<Rightarrow> nat \<Rightarrow> cpp_exn + 'a" where
  "vec_at v i = (if i < length v then Inr (v ! i) else Inl OutOfRange)"

lemma vec_at_Inr [vec_simps]: "i < length v \<Longrightarrow> vec_at v i = Inr (v ! i)"
  by (simp add: vec_at_def)

text \<open>The unchecked \<^verbatim>\<open>v[i]\<close>.\<close>

definition vec_index :: "'a list \<Rightarrow> nat \<Rightarrow> cpp_exn + 'a" where
  "vec_index v i = (if i < length v then Inr (v ! i) else Inl UndefinedBehaviour)"

lemma vec_index_Inr [vec_simps]: "i < length v \<Longrightarrow> vec_index v i = Inr (v ! i)"
  by (simp add: vec_index_def)

text \<open>\<^verbatim>\<open>v.at(v.size()-k)\<close>: the \<open>k\<close>-th element from the back.\<close>

definition from_back :: "'a list \<Rightarrow> nat \<Rightarrow> cpp_exn + 'a" where
  "from_back v k = (if 1 \<le> k \<and> k \<le> length v then Inr (v ! (length v - k)) else Inl OutOfRange)"

definition pop_back :: "'a list \<Rightarrow> cpp_exn + 'a list" where
  "pop_back v = (if v = [] then Inl StackEmpty else Inr (butlast v))"

lemma from_back_Inr [vec_simps]:
  "1 \<le> k \<Longrightarrow> k \<le> length v \<Longrightarrow> from_back v k = Inr (v ! (length v - k))"
  by (simp add: from_back_def)

lemma from_back_in_set: "from_back v k = Inr x \<Longrightarrow> x \<in> set v"
  by (auto simp: from_back_def split: if_splits)

lemma from_back_Inl: "from_back v k = Inl e \<longleftrightarrow> e = OutOfRange \<and> \<not> (1 \<le> k \<and> k \<le> length v)"
  by (auto simp: from_back_def)

lemma from_back_append [simp]:
  "from_back (v @ w) k = (if 1 \<le> k \<and> k \<le> length w then Inr (w ! (length w - k))
     else if 1 \<le> k then from_back v (k - length w) else Inl OutOfRange)"
proof -
  have "(v @ w) ! (length v + length w - k) = v ! (length v - (k - length w))"
    if "length w < k" "k \<le> length v + length w"
  proof -
    have eq: "length v + length w - k = length v - (k - length w)" using that by simp
    have lt: "length v - (k - length w) < length v" using that by simp
    show ?thesis by (simp only: eq nth_append lt if_True)
  qed
  moreover have "(v @ w) ! (length v + length w - k) = w ! (length w - k)"
    if "1 \<le> k" "k \<le> length w"
  proof -
    have eq: "length v + length w - k = length v + (length w - k)" using that by simp
    show ?thesis by (simp only: eq nth_append_length_plus)
  qed
  ultimately show ?thesis by (auto simp: from_back_def)
qed

lemma pop_back_snoc [simp]: "pop_back (v @ [x]) = Inr v"
  by (simp add: pop_back_def)

lemma pop_back_Inr [vec_simps]: "v \<noteq> [] \<Longrightarrow> pop_back v = Inr (butlast v)"
  by (simp add: pop_back_def)

lemma pop_back_eq_Inr [exn_simps]: "pop_back v = Inr w \<longleftrightarrow> v \<noteq> [] \<and> w = butlast v"
  by (auto simp: pop_back_def)

lemma set_butlast_subset: "set (butlast v) \<subseteq> set v"
  by (auto dest: in_set_butlastD)

lemma length_ge_1_snoc: "1 \<le> length v \<Longrightarrow> \<exists>w x. v = w @ [x]"
  by (metis append_butlast_last_id length_0_conv not_one_le_zero)

lemma take_last_split:
  "n \<le> length v \<Longrightarrow> \<exists>w u. v = w @ u \<and> length u = n"
  by (rule exI [of _ "take (length v - n) v"], rule exI [of _ "drop (length v - n) v"]) simp

lemma length_add_split:
  "length v = m + n \<Longrightarrow> \<exists>u w. v = u @ w \<and> length u = m \<and> length w = n"
  by (rule exI [of _ "take m v"], rule exI [of _ "drop m v"]) simp

section \<open>Little-endian byte strings\<close>

fun le_nat :: "byte list \<Rightarrow> nat" where
  "le_nat [] = 0"
| "le_nat (b # bs) = unat b + 256 * le_nat bs"

fun le_bytes :: "nat \<Rightarrow> nat \<Rightarrow> byte list" where
  "le_bytes 0 n = []"
| "le_bytes (Suc k) n = word_of_nat (n mod 256) # le_bytes k (n div 256)"

lemma unat_byte_less [simp]: "unat (b :: byte) < 256"
  using unat_less_2p [of b] by simp

lemma unat_byte_of_nat [simp]: "unat (word_of_nat n :: byte) = n mod 256"
  by (simp add: unat_of_nat)

lemma length_le_bytes [simp]: "length (le_bytes k n) = k"
  by (induction k arbitrary: n) auto

lemma le_nat_less: "le_nat bs < 256 ^ length bs"
proof (induction bs)
  case (Cons b bs)
  have "unat b + 256 * le_nat bs < 256 + 256 * le_nat bs" by simp
  also have "\<dots> = 256 * (le_nat bs + 1)" by simp
  also have "\<dots> \<le> 256 * 256 ^ length bs" using Cons by (intro mult_le_mono2) simp
  finally show ?case by simp
qed simp

lemma le_nat_le_bytes [simp]: "le_nat (le_bytes k n) = n mod 256 ^ k"
proof (induction k arbitrary: n)
  case (Suc k)
  have "n mod 256 ^ Suc k = n mod 256 + 256 * (n div 256 mod 256 ^ k)"
    by (simp add: mod_mult2_eq)
  with Suc show ?case by simp
qed simp

lemma le_bytes_le_nat [simp]: "length bs = k \<Longrightarrow> le_bytes k (le_nat bs) = bs"
proof (induction bs arbitrary: k)
  case (Cons b bs)
  then show ?case by auto
qed auto

lemma le_nat_append: "le_nat (xs @ ys) = le_nat xs + 256 ^ length xs * le_nat ys"
  by (induction xs) (auto simp: algebra_simps)

text \<open>The readers and writers of \<^verbatim>\<open>crypto/common.h\<close>, on byte vectors.\<close>

definition ReadLE16 :: "byte list \<Rightarrow> u16" where
  "ReadLE16 p = word_of_nat (le_nat (take 2 p))"

definition ReadLE32 :: "byte list \<Rightarrow> u32" where
  "ReadLE32 p = word_of_nat (le_nat (take 4 p))"

definition ReadLE64 :: "byte list \<Rightarrow> u64" where
  "ReadLE64 p = word_of_nat (le_nat (take 8 p))"

definition WriteLE16 :: "u16 \<Rightarrow> byte list" where
  "WriteLE16 x = le_bytes 2 (unat x)"

definition WriteLE32 :: "u32 \<Rightarrow> byte list" where
  "WriteLE32 x = le_bytes 4 (unat x)"

definition WriteLE64 :: "u64 \<Rightarrow> byte list" where
  "WriteLE64 x = le_bytes 8 (unat x)"

lemma length_WriteLE [simp]:
  "length (WriteLE16 x) = 2" "length (WriteLE32 y) = 4" "length (WriteLE64 z) = 8"
  by (simp_all add: WriteLE16_def WriteLE32_def WriteLE64_def)

lemma ReadLE16_WriteLE16 [simp]: "ReadLE16 (WriteLE16 x @ rest) = x"
  using unat_less_2p [of x] by (simp add: ReadLE16_def WriteLE16_def)

lemma ReadLE32_WriteLE32 [simp]: "ReadLE32 (WriteLE32 x @ rest) = x"
  using unat_less_2p [of x] by (simp add: ReadLE32_def WriteLE32_def)

lemma ReadLE64_WriteLE64 [simp]: "ReadLE64 (WriteLE64 x @ rest) = x"
  using unat_less_2p [of x] by (simp add: ReadLE64_def WriteLE64_def)

lemma unat_ReadLE16: "length p \<ge> 2 \<Longrightarrow> unat (ReadLE16 p) = le_nat (take 2 p)"
  using le_nat_less [of "take 2 p"]
  by (simp add: ReadLE16_def unat_of_nat min_absorb2)

lemma unat_ReadLE32: "length p \<ge> 4 \<Longrightarrow> unat (ReadLE32 p) = le_nat (take 4 p)"
  using le_nat_less [of "take 4 p"]
  by (simp add: ReadLE32_def unat_of_nat min_absorb2)

lemma unat_ReadLE64: "length p \<ge> 8 \<Longrightarrow> unat (ReadLE64 p) = le_nat (take 8 p)"
  using le_nat_less [of "take 8 p"]
  by (simp add: ReadLE64_def unat_of_nat min_absorb2)

section \<open>Bit facts on bytes\<close>

lemma byte_bit7: "bit (b :: byte) 7 \<longleftrightarrow> 128 \<le> unat b"
proof -
  have "bit b 7 \<longleftrightarrow> bit (unat b) 7"
    by (simp add: bit_unsigned_iff)
  also have "\<dots> \<longleftrightarrow> odd (unat b div 2 ^ 7)"
    by (rule bit_iff_odd)
  also have "\<dots> \<longleftrightarrow> 128 \<le> unat b"
  proof (cases "128 \<le> unat b")
    case True
    then have "unat b div 128 = 1" using unat_byte_less [of b] by (intro div_nat_eqI) auto
    with True show ?thesis by simp
  qed simp
  finally show ?thesis .
qed

lemma byte_and_128: "(b :: byte) AND 128 = 0 \<longleftrightarrow> unat b < 128"
proof -
  have "b AND 2 ^ 7 = 0 \<longleftrightarrow> \<not> bit b 7" by (rule and_exp_eq_0_iff_not_bit)
  moreover have "(2 :: byte) ^ 7 = 128" by simp
  ultimately show ?thesis by (simp only: byte_bit7 not_le)
qed

lemma unat_byte_and_127: "unat ((b :: byte) AND 127) = unat b mod 128"
proof -
  have "unat (b AND 127) = unat b AND mask 7"
    by (simp add: unsigned_and_eq mask_numeral)
  also have "\<dots> = unat b mod 128"
    by (simp add: take_bit_eq_mod flip: take_bit_eq_mask)
  finally show ?thesis .
qed

lemma byte_and_127: "(b :: byte) AND 127 = 0 \<longleftrightarrow> unat b mod 128 = 0"
  by (simp only: flip: unat_byte_and_127) (simp add: unat_eq_zero)

lemma unat_byte_or_128: "unat b < 128 \<Longrightarrow> unat ((b :: byte) OR 128) = unat b + 128"
proof -
  assume b: "unat b < 128"
  then have nb: "\<not> bit b 7" by (simp add: byte_bit7)
  have "b OR 128 = b + 128"
  proof (rule disjunctive_add [symmetric])
    fix n
    have "bit (128 :: byte) n \<longleftrightarrow> n = 7"
      using bit_exp_iff [where 'a = "8 word", of 7 n] by auto
    then show "\<not> bit b n \<or> \<not> bit (128 :: byte) n" using nb by auto
  qed
  then show ?thesis using b by (simp add: unat_word_ariths)
qed

lemma byte_mod_128: "\<not> unat (b :: byte) < 128 \<Longrightarrow> unat b mod 128 = unat b - 128"
proof -
  assume b: "\<not> unat b < 128"
  have "unat b - 128 < 128" using unat_byte_less [of b] by linarith
  with b show ?thesis by (simp add: le_mod_geq)
qed

lemma byte_and_127_low: "unat (b :: byte) < 128 \<Longrightarrow> b AND 127 = b"
  by (rule word_unat_eq_iff [THEN iffD2]) (simp add: unat_byte_and_127)

lemma byte_and_127_high: "\<not> unat (b :: byte) < 128 \<Longrightarrow> (b AND 127) OR 128 = b"
proof (rule word_unat_eq_iff [THEN iffD2])
  assume b: "\<not> unat b < 128"
  have "unat (b AND 127) < 128" by (simp add: unat_byte_and_127)
  then have "unat ((b AND 127) OR 128) = unat b mod 128 + 128"
    by (simp only: unat_byte_or_128 unat_byte_and_127)
  with b show "unat ((b AND 127) OR 128) = unat b" by (simp add: byte_mod_128)
qed

lemma byte_mod_128_0: "unat (b :: byte) mod 128 = 0 \<Longrightarrow> b = (if unat b < 128 then 0 else 128)"
proof (cases "unat b < 128")
  case False
  assume "unat b mod 128 = 0"
  with False have "unat b = 128" using byte_mod_128 [OF False] by linarith
  then have "b = 128" by (simp add: word_unat_eq_iff)
  with False show ?thesis by simp
qed (simp add: unat_eq_zero)

end
