(* ===== verification/Script_Opcodes.thy ===== *)
theory Script_Opcodes
  imports Munt_Prelude
begin

text \<open>
  The opcode bytes of \<^verbatim>\<open>enum opcodetype\<close> and the size limits of
  \<^verbatim>\<open>src/src/script/script.h\<close>. An \<^verbatim>\<open>opcodetype\<close> read from a script is any
  byte (the parser casts whatever it finds), so opcodes are natural numbers and the enumerators
  are abbreviations of their values; comparisons such as \<^verbatim>\<open>opcode > OP_16\<close> are then
  the comparisons of the source.
\<close>

section \<open>Limits\<close>

abbreviation (input) MAX_SCRIPT_ELEMENT_SIZE :: nat where
  "MAX_SCRIPT_ELEMENT_SIZE \<equiv> 520"

abbreviation (input) MAX_OPS_PER_SCRIPT :: int where
  "MAX_OPS_PER_SCRIPT \<equiv> 201"

abbreviation (input) MAX_PUBKEYS_PER_MULTISIG :: int where
  "MAX_PUBKEYS_PER_MULTISIG \<equiv> 20"

abbreviation (input) MAX_SCRIPT_SIZE :: nat where
  "MAX_SCRIPT_SIZE \<equiv> 10000"

abbreviation (input) MAX_STACK_SIZE :: nat where
  "MAX_STACK_SIZE \<equiv> 1000"

abbreviation (input) LOCKTIME_THRESHOLD :: int where
  "LOCKTIME_THRESHOLD \<equiv> 500000000"

section \<open>Opcodes\<close>

abbreviation (input) OP_0 :: nat where
  "OP_0 \<equiv> 0"

abbreviation (input) OP_FALSE :: nat where
  "OP_FALSE \<equiv> 0"

abbreviation (input) OP_PUSHDATA1 :: nat where
  "OP_PUSHDATA1 \<equiv> 76"

abbreviation (input) OP_PUSHDATA2 :: nat where
  "OP_PUSHDATA2 \<equiv> 77"

abbreviation (input) OP_PUSHDATA4 :: nat where
  "OP_PUSHDATA4 \<equiv> 78"

abbreviation (input) OP_1NEGATE :: nat where
  "OP_1NEGATE \<equiv> 79"

abbreviation (input) OP_RESERVED :: nat where
  "OP_RESERVED \<equiv> 80"

abbreviation (input) OP_1 :: nat where
  "OP_1 \<equiv> 81"

abbreviation (input) OP_TRUE :: nat where
  "OP_TRUE \<equiv> 81"

abbreviation (input) OP_2 :: nat where
  "OP_2 \<equiv> 82"

abbreviation (input) OP_3 :: nat where
  "OP_3 \<equiv> 83"

abbreviation (input) OP_4 :: nat where
  "OP_4 \<equiv> 84"

abbreviation (input) OP_5 :: nat where
  "OP_5 \<equiv> 85"

abbreviation (input) OP_6 :: nat where
  "OP_6 \<equiv> 86"

abbreviation (input) OP_7 :: nat where
  "OP_7 \<equiv> 87"

abbreviation (input) OP_8 :: nat where
  "OP_8 \<equiv> 88"

abbreviation (input) OP_9 :: nat where
  "OP_9 \<equiv> 89"

abbreviation (input) OP_10 :: nat where
  "OP_10 \<equiv> 90"

abbreviation (input) OP_11 :: nat where
  "OP_11 \<equiv> 91"

abbreviation (input) OP_12 :: nat where
  "OP_12 \<equiv> 92"

abbreviation (input) OP_13 :: nat where
  "OP_13 \<equiv> 93"

abbreviation (input) OP_14 :: nat where
  "OP_14 \<equiv> 94"

abbreviation (input) OP_15 :: nat where
  "OP_15 \<equiv> 95"

abbreviation (input) OP_16 :: nat where
  "OP_16 \<equiv> 96"

abbreviation (input) OP_NOP :: nat where
  "OP_NOP \<equiv> 97"

abbreviation (input) OP_VER :: nat where
  "OP_VER \<equiv> 98"

abbreviation (input) OP_IF :: nat where
  "OP_IF \<equiv> 99"

abbreviation (input) OP_NOTIF :: nat where
  "OP_NOTIF \<equiv> 100"

abbreviation (input) OP_VERIF :: nat where
  "OP_VERIF \<equiv> 101"

abbreviation (input) OP_VERNOTIF :: nat where
  "OP_VERNOTIF \<equiv> 102"

abbreviation (input) OP_ELSE :: nat where
  "OP_ELSE \<equiv> 103"

abbreviation (input) OP_ENDIF :: nat where
  "OP_ENDIF \<equiv> 104"

abbreviation (input) OP_VERIFY :: nat where
  "OP_VERIFY \<equiv> 105"

abbreviation (input) OP_RETURN :: nat where
  "OP_RETURN \<equiv> 106"

abbreviation (input) OP_TOALTSTACK :: nat where
  "OP_TOALTSTACK \<equiv> 107"

abbreviation (input) OP_FROMALTSTACK :: nat where
  "OP_FROMALTSTACK \<equiv> 108"

abbreviation (input) OP_2DROP :: nat where
  "OP_2DROP \<equiv> 109"

abbreviation (input) OP_2DUP :: nat where
  "OP_2DUP \<equiv> 110"

abbreviation (input) OP_3DUP :: nat where
  "OP_3DUP \<equiv> 111"

abbreviation (input) OP_2OVER :: nat where
  "OP_2OVER \<equiv> 112"

abbreviation (input) OP_2ROT :: nat where
  "OP_2ROT \<equiv> 113"

abbreviation (input) OP_2SWAP :: nat where
  "OP_2SWAP \<equiv> 114"

abbreviation (input) OP_IFDUP :: nat where
  "OP_IFDUP \<equiv> 115"

abbreviation (input) OP_DEPTH :: nat where
  "OP_DEPTH \<equiv> 116"

abbreviation (input) OP_DROP :: nat where
  "OP_DROP \<equiv> 117"

abbreviation (input) OP_DUP :: nat where
  "OP_DUP \<equiv> 118"

abbreviation (input) OP_NIP :: nat where
  "OP_NIP \<equiv> 119"

abbreviation (input) OP_OVER :: nat where
  "OP_OVER \<equiv> 120"

abbreviation (input) OP_PICK :: nat where
  "OP_PICK \<equiv> 121"

abbreviation (input) OP_ROLL :: nat where
  "OP_ROLL \<equiv> 122"

abbreviation (input) OP_ROT :: nat where
  "OP_ROT \<equiv> 123"

abbreviation (input) OP_SWAP :: nat where
  "OP_SWAP \<equiv> 124"

abbreviation (input) OP_TUCK :: nat where
  "OP_TUCK \<equiv> 125"

abbreviation (input) OP_CAT :: nat where
  "OP_CAT \<equiv> 126"

abbreviation (input) OP_SUBSTR :: nat where
  "OP_SUBSTR \<equiv> 127"

abbreviation (input) OP_LEFT :: nat where
  "OP_LEFT \<equiv> 128"

abbreviation (input) OP_RIGHT :: nat where
  "OP_RIGHT \<equiv> 129"

abbreviation (input) OP_SIZE :: nat where
  "OP_SIZE \<equiv> 130"

abbreviation (input) OP_INVERT :: nat where
  "OP_INVERT \<equiv> 131"

abbreviation (input) OP_AND :: nat where
  "OP_AND \<equiv> 132"

abbreviation (input) OP_OR :: nat where
  "OP_OR \<equiv> 133"

abbreviation (input) OP_XOR :: nat where
  "OP_XOR \<equiv> 134"

abbreviation (input) OP_EQUAL :: nat where
  "OP_EQUAL \<equiv> 135"

abbreviation (input) OP_EQUALVERIFY :: nat where
  "OP_EQUALVERIFY \<equiv> 136"

abbreviation (input) OP_RESERVED1 :: nat where
  "OP_RESERVED1 \<equiv> 137"

abbreviation (input) OP_RESERVED2 :: nat where
  "OP_RESERVED2 \<equiv> 138"

abbreviation (input) OP_1ADD :: nat where
  "OP_1ADD \<equiv> 139"

abbreviation (input) OP_1SUB :: nat where
  "OP_1SUB \<equiv> 140"

abbreviation (input) OP_2MUL :: nat where
  "OP_2MUL \<equiv> 141"

abbreviation (input) OP_2DIV :: nat where
  "OP_2DIV \<equiv> 142"

abbreviation (input) OP_NEGATE :: nat where
  "OP_NEGATE \<equiv> 143"

abbreviation (input) OP_ABS :: nat where
  "OP_ABS \<equiv> 144"

abbreviation (input) OP_NOT :: nat where
  "OP_NOT \<equiv> 145"

abbreviation (input) OP_0NOTEQUAL :: nat where
  "OP_0NOTEQUAL \<equiv> 146"

abbreviation (input) OP_ADD :: nat where
  "OP_ADD \<equiv> 147"

abbreviation (input) OP_SUB :: nat where
  "OP_SUB \<equiv> 148"

abbreviation (input) OP_MUL :: nat where
  "OP_MUL \<equiv> 149"

abbreviation (input) OP_DIV :: nat where
  "OP_DIV \<equiv> 150"

abbreviation (input) OP_MOD :: nat where
  "OP_MOD \<equiv> 151"

abbreviation (input) OP_LSHIFT :: nat where
  "OP_LSHIFT \<equiv> 152"

abbreviation (input) OP_RSHIFT :: nat where
  "OP_RSHIFT \<equiv> 153"

abbreviation (input) OP_BOOLAND :: nat where
  "OP_BOOLAND \<equiv> 154"

abbreviation (input) OP_BOOLOR :: nat where
  "OP_BOOLOR \<equiv> 155"

abbreviation (input) OP_NUMEQUAL :: nat where
  "OP_NUMEQUAL \<equiv> 156"

abbreviation (input) OP_NUMEQUALVERIFY :: nat where
  "OP_NUMEQUALVERIFY \<equiv> 157"

abbreviation (input) OP_NUMNOTEQUAL :: nat where
  "OP_NUMNOTEQUAL \<equiv> 158"

abbreviation (input) OP_LESSTHAN :: nat where
  "OP_LESSTHAN \<equiv> 159"

abbreviation (input) OP_GREATERTHAN :: nat where
  "OP_GREATERTHAN \<equiv> 160"

abbreviation (input) OP_LESSTHANOREQUAL :: nat where
  "OP_LESSTHANOREQUAL \<equiv> 161"

abbreviation (input) OP_GREATERTHANOREQUAL :: nat where
  "OP_GREATERTHANOREQUAL \<equiv> 162"

abbreviation (input) OP_MIN :: nat where
  "OP_MIN \<equiv> 163"

abbreviation (input) OP_MAX :: nat where
  "OP_MAX \<equiv> 164"

abbreviation (input) OP_WITHIN :: nat where
  "OP_WITHIN \<equiv> 165"

abbreviation (input) OP_RIPEMD160 :: nat where
  "OP_RIPEMD160 \<equiv> 166"

abbreviation (input) OP_SHA1 :: nat where
  "OP_SHA1 \<equiv> 167"

abbreviation (input) OP_SHA256 :: nat where
  "OP_SHA256 \<equiv> 168"

abbreviation (input) OP_HASH160 :: nat where
  "OP_HASH160 \<equiv> 169"

abbreviation (input) OP_HASH256 :: nat where
  "OP_HASH256 \<equiv> 170"

abbreviation (input) OP_CODESEPARATOR :: nat where
  "OP_CODESEPARATOR \<equiv> 171"

abbreviation (input) OP_CHECKSIG :: nat where
  "OP_CHECKSIG \<equiv> 172"

abbreviation (input) OP_CHECKSIGVERIFY :: nat where
  "OP_CHECKSIGVERIFY \<equiv> 173"

abbreviation (input) OP_CHECKMULTISIG :: nat where
  "OP_CHECKMULTISIG \<equiv> 174"

abbreviation (input) OP_CHECKMULTISIGVERIFY :: nat where
  "OP_CHECKMULTISIGVERIFY \<equiv> 175"

abbreviation (input) OP_NOP1 :: nat where
  "OP_NOP1 \<equiv> 176"

abbreviation (input) OP_CHECKLOCKTIMEVERIFY :: nat where
  "OP_CHECKLOCKTIMEVERIFY \<equiv> 177"

abbreviation (input) OP_NOP2 :: nat where
  "OP_NOP2 \<equiv> 177"

abbreviation (input) OP_CHECKSEQUENCEVERIFY :: nat where
  "OP_CHECKSEQUENCEVERIFY \<equiv> 178"

abbreviation (input) OP_NOP3 :: nat where
  "OP_NOP3 \<equiv> 178"

abbreviation (input) OP_NOP4 :: nat where
  "OP_NOP4 \<equiv> 179"

abbreviation (input) OP_NOP5 :: nat where
  "OP_NOP5 \<equiv> 180"

abbreviation (input) OP_NOP6 :: nat where
  "OP_NOP6 \<equiv> 181"

abbreviation (input) OP_NOP7 :: nat where
  "OP_NOP7 \<equiv> 182"

abbreviation (input) OP_NOP8 :: nat where
  "OP_NOP8 \<equiv> 183"

abbreviation (input) OP_NOP9 :: nat where
  "OP_NOP9 \<equiv> 184"

abbreviation (input) OP_NOP10 :: nat where
  "OP_NOP10 \<equiv> 185"

abbreviation (input) OP_SMALLINTEGER :: nat where
  "OP_SMALLINTEGER \<equiv> 250"

abbreviation (input) OP_PUBKEYS :: nat where
  "OP_PUBKEYS \<equiv> 251"

abbreviation (input) OP_PUBKEYHASH :: nat where
  "OP_PUBKEYHASH \<equiv> 253"

abbreviation (input) OP_PUBKEY :: nat where
  "OP_PUBKEY \<equiv> 254"

abbreviation (input) OP_INVALIDOPCODE :: nat where
  "OP_INVALIDOPCODE \<equiv> 255"

abbreviation (input) MAX_OPCODE :: nat where
  "MAX_OPCODE \<equiv> OP_NOP10"

end
