(* ===== verification/Script_Num.thy ===== *)
theory Script_Num
  imports Munt_Prelude
begin

text \<open>
  \<^verbatim>\<open>CScriptNum\<close> of \<^verbatim>\<open>src/src/script/script.h\<close>: the signed integers
  of the script language, their byte encoding (little-endian magnitude with the sign in the top
  bit of the last byte) and the arithmetic of the class. A value is the \<^verbatim>\<open>int64_t\<close>
  member \<^verbatim>\<open>m_value\<close>, read as an integer; the two's-complement reduction is
  written out at every operation that could leave the range. The lemmas show that the encoding
  and the decoding are inverse to each other, and that with the minimality check on, the byte
  string determines the number and the number the byte string.
\<close>

section \<open>The encoding\<close>

text \<open>
  The magnitude bytes of the \<^verbatim>\<open>while (absvalue)\<close> loop of \<^verbatim>\<open>serialize\<close>.
\<close>

fun abs_bytes :: "nat \<Rightarrow> byte list" where
  "abs_bytes n = (if n = 0 then [] else word_of_nat (n mod 256) # abs_bytes (n div 256))"

declare abs_bytes.simps [simp del]

definition serialize :: "int \<Rightarrow> valtype" where
  "serialize value =
     (if value = 0 then []
      else let neg = value < 0;
               result = abs_bytes (nat \<bar>value\<bar>)
           in if last result AND 0x80 \<noteq> 0 then result @ [if neg then 0x80 else 0]
              else if neg then butlast result @ [last result OR 0x80]
              else result)"

text \<open>
  The decoding ors the bytes into a 64-bit accumulator and clears the sign bit of the top byte.
\<close>

fun or_bytes :: "nat \<Rightarrow> byte list \<Rightarrow> u64" where
  "or_bytes i [] = 0"
| "or_bytes i (b # bs) = push_bit (8 * i) (ucast b) OR or_bytes (Suc i) bs"

definition set_vch :: "valtype \<Rightarrow> int" where
  "set_vch vch =
     (if vch = [] then 0
      else let result = or_bytes 0 vch
           in if last vch AND 0x80 \<noteq> 0
              then i64 (- sint (result AND NOT (push_bit (8 * (length vch - 1)) 0x80)))
              else sint result)"

text \<open>
  The constructor from a byte vector: \<open>nMaxNumSize\<close> is 4 by default, 5 for the two lock-time
  opcodes; both failures are \<^verbatim>\<open>scriptnum_error\<close>s.
\<close>

definition nDefaultMaxNumSize :: nat where
  "nDefaultMaxNumSize = 4"

definition CScriptNum :: "valtype \<Rightarrow> bool \<Rightarrow> nat \<Rightarrow> cpp_exn + int" where
  "CScriptNum vch fRequireMinimal nMaxNumSize =
     (if length vch > nMaxNumSize then Inl ScriptNumError
      else if fRequireMinimal \<and> length vch > 0 \<and> last vch AND 0x7f = 0 \<and>
              (length vch \<le> 1 \<or> vch ! (length vch - 2) AND 0x80 = 0)
      then Inl ScriptNumError
      else Inr (set_vch vch))"

text \<open>The arithmetic operators; \<^verbatim>\<open>assert\<close> failures are \<open>AssertFail\<close>.\<close>

definition num_plus :: "int \<Rightarrow> int \<Rightarrow> int" where
  "num_plus a b = i64 (a + b)"

definition num_minus :: "int \<Rightarrow> int \<Rightarrow> int" where
  "num_minus a b = i64 (a - b)"

definition num_neg :: "int \<Rightarrow> cpp_exn + int" where
  "num_neg a = (if a = - (2 ^ 63) then Inl AssertFail else Inr (i64 (- a)))"

definition num_plus_assign :: "int \<Rightarrow> int \<Rightarrow> cpp_exn + int" where
  "num_plus_assign a rhs =
     (if rhs = 0 \<or> (rhs > 0 \<and> a \<le> 2 ^ 63 - 1 - rhs) \<or> (rhs < 0 \<and> a \<ge> - (2 ^ 63) - rhs)
      then Inr (i64 (a + rhs)) else Inl AssertFail)"

definition num_minus_assign :: "int \<Rightarrow> int \<Rightarrow> cpp_exn + int" where
  "num_minus_assign a rhs =
     (if rhs = 0 \<or> (rhs > 0 \<and> a \<ge> - (2 ^ 63) + rhs) \<or> (rhs < 0 \<and> a \<le> 2 ^ 63 - 1 + rhs)
      then Inr (i64 (a - rhs)) else Inl AssertFail)"

definition getint :: "int \<Rightarrow> int" where
  "getint v = (if v > 2 ^ 31 - 1 then 2 ^ 31 - 1 else if v < - (2 ^ 31) then - (2 ^ 31) else v)"

definition getvch :: "int \<Rightarrow> valtype" where
  "getvch v = serialize v"

section \<open>The decoded value\<close>

lemma or_bytes_Suc: "or_bytes (Suc i) bs = push_bit 8 (or_bytes i bs)"
  by (induction bs arbitrary: i) (simp_all add: push_bit_push_bit push_bit_or add.commute)

lemma or_bytes_value: "or_bytes 0 bs = word_of_nat (le_nat bs)"
proof (induction bs)
  case (Cons b bs)
  have "or_bytes 0 (b # bs) = ucast b OR push_bit 8 (or_bytes 0 bs)"
    by (simp add: or_bytes_Suc)
  also have "\<dots> = ucast b + push_bit 8 (or_bytes 0 bs)"
    by (rule disjunctive_add [symmetric]) (auto simp: bit_push_bit_iff bit_ucast_iff dest!: bit_imp_le_length)
  also have "\<dots> = word_of_nat (unat b) + 256 * or_bytes 0 bs"
    by (simp add: push_bit_eq_mult mult.commute unsigned_ucast_eq)
  finally show ?case using Cons by simp
qed simp


lemma le_nat_snoc: "le_nat (w @ [b]) = le_nat w + 256 ^ length w * unat b"
  by (simp add: le_nat_append)

lemma le_nat_snoc_0: "le_nat (w @ [0]) = le_nat w" "le_nat (w @ [x, 0]) = le_nat (w @ [x])"
  by (simp_all add: le_nat_append)

lemma pow256: "(256 :: nat) ^ k = 2 ^ (8 * k)"
  by (simp add: power_mult)

lemma le_nat_snoc_less: "unat b < 128 \<Longrightarrow> le_nat (w @ [b]) < 2 ^ (8 * length w + 7)"
proof -
  assume "unat b < 128"
  then have "256 ^ length w * (unat b + 1) \<le> 256 ^ length w * (128 :: nat)" by simp
  moreover have "le_nat (w @ [b]) < 256 ^ length w * (unat b + 1)"
    using le_nat_less [of w] by (simp add: le_nat_snoc algebra_simps)
  ultimately have "le_nat (w @ [b]) < 256 ^ length w * 128" by (rule less_le_trans [rotated])
  then show ?thesis by (simp add: pow256 power_add)
qed

lemma clear_top_bit:
  assumes "N < 2 ^ Suc k" and "k < 64"
  shows "(word_of_nat N :: u64) AND NOT (2 ^ k) = word_of_nat (take_bit k N)"
proof (rule bit_word_eqI)
  fix n assume n: "n < LENGTH(64)"
  have "\<not> bit N n" if "k < n"
  proof -
    have "N < 2 ^ n" using assms(1) that by (meson less_le_trans power_increasing Suc_leI one_le_numeral)
    then show ?thesis by (simp add: bit_iff_odd)
  qed
  then show "bit ((word_of_nat N :: u64) AND NOT (2 ^ k)) n \<longleftrightarrow> bit (word_of_nat (take_bit k N) :: u64) n"
    using n assms(2)
    by (cases n k rule: linorder_cases) (auto simp: bit_simps bit_of_nat_iff bit_exp_iff)
qed

lemma sint_word_of_nat: "N < 2 ^ 63 \<Longrightarrow> sint (word_of_nat N :: u64) = int N"
proof -
  assume N: "N < 2 ^ 63"
  then have "unat (word_of_nat N :: u64) = N" by (simp add: unat_of_nat)
  then have "uint (word_of_nat N :: u64) = int N" by (metis uint_nat)
  moreover have "signed_take_bit 63 (int N) = int N"
    using N by (intro signed_take_bit_int_eq_self) simp_all
  ultimately show ?thesis by (simp add: sint_uint)
qed

lemma take_bit_le_nat_snoc:
  "take_bit (8 * length w + 7) (le_nat (w @ [b])) = le_nat (w @ [b AND 127])"
proof -
  have lt: "le_nat (w @ [b AND 127]) < 2 ^ (8 * length w + 7)"
    by (rule le_nat_snoc_less) (simp add: unat_byte_and_127)
  have "256 ^ length w * unat b = 256 ^ length w * (unat b mod 128 + 128 * (unat b div 128))"
    by simp
  also have "\<dots> = 256 ^ length w * (unat b mod 128) + 256 ^ length w * 128 * (unat b div 128)"
    by (simp only: distrib_left mult.assoc)
  finally have "256 ^ length w * unat b =
      256 ^ length w * (unat b mod 128) + 256 ^ length w * 128 * (unat b div 128)" .
  then have "le_nat (w @ [b]) = le_nat (w @ [b AND 127]) + 2 ^ (8 * length w + 7) * (unat b div 128)"
    by (simp add: le_nat_snoc unat_byte_and_127 pow256 power_add)
  with lt show ?thesis by (simp add: take_bit_eq_mod)
qed

lemma set_vch_snoc:
  assumes "length w \<le> 7"
  shows "set_vch (w @ [b]) =
    (if unat b < 128 then int (le_nat (w @ [b])) else - int (le_nat (w @ [b AND 127])))"
proof -
  let ?k = "8 * length w + 7"
  have k: "?k < 64" using assms by simp
  have lt: "le_nat (w @ [c]) < 2 ^ 63" if "unat c < 128" for c
  proof -
    have "(2 :: nat) ^ ?k \<le> 2 ^ 63" using k by (intro power_increasing) simp_all
    with le_nat_snoc_less [OF that, of w] show ?thesis by (rule less_le_trans)
  qed
  have top: "le_nat (w @ [b]) < 2 ^ Suc ?k"
    using le_nat_less [of "w @ [b]"] by (simp add: pow256 power_add)
  have "push_bit (8 * length w) 128 = (2 :: u64) ^ ?k"
    by (simp add: push_bit_eq_mult power_add)
  then have "or_bytes 0 (w @ [b]) AND NOT (push_bit (8 * length w) 128)
      = word_of_nat (le_nat (w @ [b AND 127]))"
    using clear_top_bit [OF top k] by (simp only: or_bytes_value take_bit_le_nat_snoc)
  then have neg: "sint (or_bytes 0 (w @ [b]) AND NOT (push_bit (8 * length w) 128))
      = int (le_nat (w @ [b AND 127]))"
    using lt [of "b AND 127"] by (simp add: sint_word_of_nat unat_byte_and_127)
  have "in_i64 (- int (le_nat (w @ [b AND 127])))"
    using lt [of "b AND 127"] by (simp add: in_i64_def unat_byte_and_127)
  with neg show ?thesis
    using lt [of b]
    by (simp add: set_vch_def byte_and_128 or_bytes_value sint_word_of_nat Let_def del: or_bytes.simps)
qed

section \<open>Encoding and decoding are inverse\<close>

lemma le_nat_abs_bytes [simp]: "le_nat (abs_bytes n) = n"
  by (induction n rule: abs_bytes.induct) (simp add: abs_bytes.simps)

lemma abs_bytes_eq_Nil [simp]: "abs_bytes n = [] \<longleftrightarrow> n = 0"
  by (simp add: abs_bytes.simps)

lemma last_abs_bytes: "0 < n \<Longrightarrow> last (abs_bytes n) \<noteq> 0"
proof (induction n rule: abs_bytes.induct)
  case (1 n)
  show ?case
  proof (cases "n div 256 = 0")
    case True
    then have "n < 256" by simp
    with True 1(2) show ?thesis
      by (simp add: abs_bytes.simps [of n] word_of_nat_eq_0_iff nat_dvd_not_less)
  next
    case False
    with 1 show ?thesis by (simp add: abs_bytes.simps [of n])
  qed
qed

lemma abs_bytes_unique: "bs = [] \<or> last bs \<noteq> 0 \<Longrightarrow> abs_bytes (le_nat bs) = bs"
proof (induction bs)
  case (Cons b bs)
  show ?case
  proof (cases "bs = []")
    case True
    with Cons.prems have "unat b \<noteq> 0" by (simp add: unat_eq_zero)
    with True show ?thesis by (simp add: abs_bytes.simps [of "unat b"])
  next
    case False
    with Cons have eq: "abs_bytes (le_nat bs) = bs" by simp
    with False have "le_nat bs \<noteq> 0" using abs_bytes_eq_Nil [of "le_nat bs"] by auto
    then have "0 < unat b + 256 * le_nat bs" by simp
    then show ?thesis using eq by (simp add: abs_bytes.simps [of "unat b + 256 * le_nat bs"])
  qed
qed simp

lemma length_abs_bytes_le: "length (abs_bytes n) \<le> k \<longleftrightarrow> n < 256 ^ k"
proof (induction k arbitrary: n)
  case (Suc k)
  have "n < 256 ^ Suc k \<longleftrightarrow> n div 256 < 256 ^ k"
    by (simp add: div_less_iff_less_mult mult.commute)
  with Suc [of "n div 256"] show ?case by (simp add: abs_bytes.simps [of n])
qed simp

text \<open>The three shapes of an encoding, by the sign and the top bit of the magnitude.\<close>

lemma serialize_cases:
  assumes "n \<noteq> 0"
  obtains (extra) w c where "abs_bytes (nat \<bar>n\<bar>) = w @ [c]" "128 \<le> unat c"
      "serialize n = w @ [c, if n < 0 then 128 else 0]"
    | (neg) w c where "abs_bytes (nat \<bar>n\<bar>) = w @ [c]" "c \<noteq> 0" "unat c < 128" "n < 0"
      "serialize n = w @ [c OR 128]"
    | (pos) w c where "abs_bytes (nat \<bar>n\<bar>) = w @ [c]" "c \<noteq> 0" "unat c < 128" "0 < n"
      "serialize n = w @ [c]"
proof -
  have n_pos: "0 < nat \<bar>n\<bar>" using assms by simp
  then obtain w c where wc: "abs_bytes (nat \<bar>n\<bar>) = w @ [c]"
    by (metis abs_bytes_eq_Nil less_irrefl rev_exhaust)
  have c: "c \<noteq> 0" using last_abs_bytes [OF n_pos] by (simp add: wc)
  have ser: "serialize n = (if \<not> unat c < 128 then w @ [c, if n < 0 then 128 else 0]
      else if n < 0 then w @ [c OR 128] else w @ [c])"
    using assms by (simp add: serialize_def Let_def wc byte_and_128)
  show thesis
    using extra [OF wc] neg [OF wc c] pos [OF wc c] assms
    by (cases "unat c < 128"; cases "n < 0") (simp_all add: ser)
qed

lemma length_serialize:
  assumes "nat \<bar>n\<bar> < 2 ^ (8 * k + 7)"
  shows "length (serialize n) \<le> Suc k"
proof (cases "n = 0")
  case False
  then show ?thesis
  proof (cases n rule: serialize_cases)
    case (extra w c)
    have "256 ^ length w * 128 \<le> le_nat (w @ [c])"
      using extra(2) by (simp add: le_nat_snoc trans_le_add2)
    moreover have "le_nat (w @ [c]) = nat \<bar>n\<bar>"
      by (simp only: extra(1) [symmetric] le_nat_abs_bytes)
    ultimately have "256 ^ length w * 128 < (2 :: nat) ^ (8 * k + 7)"
      using assms by (metis le_less_trans)
    then have "(2 :: nat) ^ (8 * length w + 7) < 2 ^ (8 * k + 7)"
      by (simp add: pow256 power_add)
    then have "8 * length w + 7 < 8 * k + 7" by (rule power_less_imp_less_exp [rotated]) simp
    then have "length w < k" by simp
    then show ?thesis by (simp add: extra(3))
  next
    case (neg w c)
    have "nat \<bar>n\<bar> < 256 ^ Suc k"
      using assms by (simp add: pow256 power_add)
    then have "length (w @ [c]) \<le> Suc k"
      by (simp only: length_abs_bytes_le flip: neg(1))
    then show ?thesis by (simp add: neg(5))
  next
    case (pos w c)
    have "nat \<bar>n\<bar> < 256 ^ Suc k"
      using assms by (simp add: pow256 power_add)
    then have "length (w @ [c]) \<le> Suc k"
      by (simp only: length_abs_bytes_le flip: pos(1))
    then show ?thesis by (simp add: pos(5))
  qed
qed (simp add: serialize_def)

lemma set_vch_serialize:
  assumes "\<bar>n\<bar> < 2 ^ 63"
  shows "set_vch (serialize n) = n"
proof (cases "n = 0")
  case False
  have "nat \<bar>n\<bar> < 2 ^ (8 * 7 + 7)" using assms by simp
  then have len: "length (serialize n) \<le> 8"
    using length_serialize [of n 7] by simp
  from False show ?thesis
  proof (cases n rule: serialize_cases)
    case (extra w c)
    have "le_nat (w @ [c]) = nat \<bar>n\<bar>"
      by (simp only: extra(1) [symmetric] le_nat_abs_bytes)
    moreover have "length (w @ [c]) \<le> 7" using len by (simp add: extra(3))
    ultimately show ?thesis
      using set_vch_snoc [of "w @ [c]" "if n < 0 then 128 else 0"]
      by (cases "n < 0") (simp_all add: extra(3) le_nat_snoc_0 del: le_nat.simps)
  next
    case (neg w c)
    have "(c OR 128) AND 127 = c"
      using neg(3) by (intro word_unat_eq_iff [THEN iffD2])
        (simp add: unat_byte_and_127 unat_byte_or_128)
    moreover have "le_nat (w @ [c]) = nat \<bar>n\<bar>"
      by (simp only: neg(1) [symmetric] le_nat_abs_bytes)
    ultimately show ?thesis
      using len neg(3,4) set_vch_snoc [of w "c OR 128"]
      by (simp add: neg(5) unat_byte_or_128)
  next
    case (pos w c)
    have "le_nat (w @ [c]) = nat \<bar>n\<bar>"
      by (simp only: pos(1) [symmetric] le_nat_abs_bytes)
    then show ?thesis
      using len pos(3,4) set_vch_snoc [of w c] by (simp add: pos(5))
  qed
qed (simp add: serialize_def set_vch_def)

lemma length_serialize_iff: "length (serialize n) \<le> Suc k \<longleftrightarrow> nat \<bar>n\<bar> < 2 ^ (8 * k + 7)"
proof
  assume len: "length (serialize n) \<le> Suc k"
  have mono: "(2 :: nat) ^ (8 * i + 7) \<le> 2 ^ (8 * k + 7)" if "i \<le> k" for i
    using that by (intro power_increasing) simp_all
  show "nat \<bar>n\<bar> < 2 ^ (8 * k + 7)"
  proof (cases "n = 0")
    case False
    then show ?thesis
    proof (cases n rule: serialize_cases)
      case (extra w c)
      then have "le_nat (w @ [c, 0]) < 2 ^ (8 * length (w @ [c]) + 7)"
        using le_nat_snoc_less [of 0 "w @ [c]"] by simp
      moreover have "length (w @ [c]) \<le> k" using len by (simp add: extra(3))
      moreover have "le_nat (w @ [c, 0]) = nat \<bar>n\<bar>"
        by (simp only: le_nat_snoc_0 extra(1) [symmetric] le_nat_abs_bytes)
      ultimately show ?thesis using mono [of "length (w @ [c])"] by linarith
    next
      case (neg w c)
      have "le_nat (w @ [c]) = nat \<bar>n\<bar>"
        by (simp only: neg(1) [symmetric] le_nat_abs_bytes)
      moreover have "length w \<le> k" using len by (simp add: neg(5))
      ultimately show ?thesis using le_nat_snoc_less [OF neg(3), of w] mono [of "length w"]
        by linarith
    next
      case (pos w c)
      have "le_nat (w @ [c]) = nat \<bar>n\<bar>"
        by (simp only: pos(1) [symmetric] le_nat_abs_bytes)
      moreover have "length w \<le> k" using len by (simp add: pos(5))
      ultimately show ?thesis using le_nat_snoc_less [OF pos(3), of w] mono [of "length w"]
        by linarith
    qed
  qed simp
qed (rule length_serialize)

lemma set_vch_bound:
  assumes "length v \<le> Suc k" and "k \<le> 7"
  shows "\<bar>set_vch v\<bar> < 2 ^ (8 * k + 7)"
proof (cases v rule: rev_cases)
  case (snoc w b)
  have *: "le_nat (w @ [c]) < 2 ^ (8 * k + 7)" if "unat c < 128" for c
  proof -
    have "(2 :: nat) ^ (8 * length w + 7) \<le> 2 ^ (8 * k + 7)"
      using assms snoc by (intro power_increasing) simp_all
    with le_nat_snoc_less [OF that, of w] show ?thesis by (rule less_le_trans)
  qed
  have "int (le_nat (w @ [c])) < 2 ^ (8 * k + 7)" if "unat c < 128" for c
    using * [OF that] by (metis of_nat_less_iff of_nat_numeral of_nat_power)
  from this [of b] this [of "b AND 127"] show ?thesis
    using assms set_vch_snoc [of w b]
    by (simp add: snoc unat_byte_and_127)
qed (simp add: set_vch_def)

lemma CScriptNum_bound:
  assumes "CScriptNum v m (Suc k) = Inr n" and "k \<le> 7"
  shows "\<bar>n\<bar> < 2 ^ (8 * k + 7)"
  using assms set_vch_bound [of v k] by (auto simp: CScriptNum_def split: if_splits)

lemma CScriptNum_serialize:
  assumes "length (serialize n) \<le> k" and "k \<le> 8"
  shows "CScriptNum (serialize n) m k = Inr n"
proof -
  have "\<bar>n\<bar> < 2 ^ 63"
    using assms length_serialize_iff [of n 7] by simp
  then have eq: "set_vch (serialize n) = n" by (rule set_vch_serialize)
  show ?thesis
  proof (cases "n = 0")
    case True
    with eq show ?thesis by (simp add: CScriptNum_def serialize_def)
  next
    case False
    then show ?thesis
    proof (cases n rule: serialize_cases)
      case (extra w c)
      then show ?thesis using assms eq
        by (simp add: CScriptNum_def byte_and_128 nth_append)
    next
      case (neg w c)
      then have "unat c \<noteq> 0" by (simp add: unat_eq_zero)
      then show ?thesis using assms eq neg
        by (simp add: CScriptNum_def byte_and_127 unat_byte_or_128)
    next
      case (pos w c)
      then have "unat c \<noteq> 0" by (simp add: unat_eq_zero)
      then show ?thesis using assms eq pos
        by (simp add: CScriptNum_def byte_and_127)
    qed
  qed
qed

lemma serialize_set_vch:
  assumes "CScriptNum v True k = Inr n" and "k \<le> 8"
  shows "serialize n = v"
proof (cases v rule: rev_cases)
  case Nil
  with assms show ?thesis by (simp add: CScriptNum_def set_vch_def serialize_def)
next
  case (snoc w b)
  have n: "n = set_vch (w @ [b])" and len: "length w \<le> 7"
    and min: "unat b mod 128 = 0 \<Longrightarrow> w \<noteq> [] \<and> 128 \<le> unat (last w)"
    using assms snoc
    by (auto simp: CScriptNum_def byte_and_127 byte_and_128 nth_append last_conv_nth split: if_splits)
  let ?b = "b AND 127"
  have b: "unat ?b < 128" by (simp add: unat_byte_and_127)
  have n_eq: "n = (if unat b < 128 then int (le_nat (w @ [?b])) else - int (le_nat (w @ [?b])))"
    using set_vch_snoc [OF len, of b] n by (auto simp: byte_and_127_low)
  show ?thesis
  proof (cases "?b = 0")
    case False
    then have abs: "abs_bytes (le_nat (w @ [?b])) = w @ [?b]" by (intro abs_bytes_unique) simp
    then have "le_nat (w @ [?b]) \<noteq> 0" by (metis abs_bytes_eq_Nil snoc_eq_iff_butlast)
    moreover have "v = w @ [if unat b < 128 then ?b else ?b OR 128]"
      by (simp add: snoc byte_and_127_low byte_and_127_high)
    ultimately show ?thesis using b
      by (cases "unat b < 128") (simp_all add: serialize_def n_eq abs byte_and_128 del: le_nat.simps)
  next
    case True
    then have mod: "unat b mod 128 = 0" by (simp add: byte_and_127)
    with min have w: "w \<noteq> []" "128 \<le> unat (last w)" by auto
    then have abs: "abs_bytes (le_nat w) = w" by (intro abs_bytes_unique) auto
    then have pos: "le_nat w \<noteq> 0" using w(1) abs_bytes_eq_Nil by metis
    have "b = (if unat b < 128 then 0 else 128)" using mod by (rule byte_mod_128_0)
    with w abs pos show ?thesis
      by (auto simp: snoc serialize_def n_eq True le_nat_snoc_0 byte_and_128 split: if_split_asm)
  qed
qed

section \<open>Properties\<close>

text \<open>
  C27. With the minimality check on, \<^verbatim>\<open>CScriptNum\<close> accepts exactly the byte strings that
  \<^verbatim>\<open>serialize\<close> produces (up to the size limit), and reads back the number that was
  written: the two functions are inverse to each other and no number has a second accepted
  encoding.
\<close>

theorem script_num_canonical:
  assumes "k \<le> 8"
  shows "CScriptNum v True k = Inr n \<longleftrightarrow> v = serialize n \<and> length v \<le> k"
proof
  assume "CScriptNum v True k = Inr n"
  then show "v = serialize n \<and> length v \<le> k"
    using serialize_set_vch [OF _ assms, of v n] by (auto simp: CScriptNum_def split: if_splits)
next
  assume "v = serialize n \<and> length v \<le> k"
  then show "CScriptNum v True k = Inr n"
    using CScriptNum_serialize [OF _ assms] by blast
qed

theorem script_num_canonical_witness:
  "(4 :: nat) \<le> 8 \<and> CScriptNum [0xff, 0x80] True 4 = Inr (- 255) \<and> serialize (- 255) = [0xff, 0x80]"
proof -
  have ser: "serialize (- 255) = [0xff, 0x80]"
    by (simp add: serialize_def abs_bytes.simps byte_and_128)
  with script_num_canonical [of 4 "[0xff, 0x80]" "- 255"] show ?thesis by simp
qed

end
