(* ===== verification/Script_Base.thy ===== *)
theory Script_Base
  imports Script_Opcodes Script_Num
begin

text \<open>
  \<^verbatim>\<open>CScript\<close> (\<^verbatim>\<open>src/src/script/script.h\<close> and
  \<^verbatim>\<open>script.cpp\<close>): a script is the byte vector itself, an iterator is an index into it.
  The theory models the builder operators (\<^verbatim>\<open>operator<<\<close>), the instruction reader
  \<^verbatim>\<open>GetOp2\<close>, and the loops written over it: \<^verbatim>\<open>FindAndDelete\<close>,
  \<^verbatim>\<open>Find\<close>, \<^verbatim>\<open>GetSigOpCount\<close>, \<^verbatim>\<open>IsPushOnly\<close>,
  \<^verbatim>\<open>HasValidOps\<close> and the template tests. A \<^verbatim>\<open>CScriptBase\<close> is a
  \<^verbatim>\<open>prevector\<close> whose size is a \<^verbatim>\<open>uint32_t\<close>, so the casts of iterator
  differences to \<^verbatim>\<open>unsigned int\<close> in the source lose nothing and lengths are natural
  numbers here.
\<close>

type_synonym cscript = "byte list"

abbreviation byte_of :: "nat \<Rightarrow> byte" where
  "byte_of n \<equiv> word_of_nat n"

section \<open>Building scripts\<close>

definition push_opcode :: "cscript \<Rightarrow> nat \<Rightarrow> cpp_exn + cscript" where
  "push_opcode s opcode = (if opcode > 0xff then Inl RuntimeError else Inr (s @ [byte_of opcode]))"

definition push_data :: "cscript \<Rightarrow> valtype \<Rightarrow> cscript" where
  "push_data s b =
     (if length b < OP_PUSHDATA1 then s @ [byte_of (length b)]
      else if length b \<le> 0xff then s @ [byte_of OP_PUSHDATA1, byte_of (length b)]
      else if length b \<le> 0xffff then s @ [byte_of OP_PUSHDATA2] @ WriteLE16 (word_of_nat (length b))
      else s @ [byte_of OP_PUSHDATA4] @ WriteLE32 (word_of_nat (length b))) @ b"

definition push_int64 :: "cscript \<Rightarrow> int \<Rightarrow> cscript" where
  "push_int64 s n =
     (if n = -1 \<or> (n \<ge> 1 \<and> n \<le> 16) then s @ [word_of_int (n + (int OP_1 - 1))]
      else if n = 0 then s @ [byte_of OP_0]
      else push_data s (serialize n))"

definition EncodeOP_N :: "int \<Rightarrow> cpp_exn + nat" where
  "EncodeOP_N n = (if n \<ge> 0 \<and> n \<le> 16 then Inr (if n = 0 then OP_0 else OP_1 + nat n - 1)
                   else Inl AssertFail)"

definition DecodeOP_N :: "nat \<Rightarrow> cpp_exn + int" where
  "DecodeOP_N opcode =
     (if opcode = OP_0 then Inr 0
      else if opcode \<ge> OP_1 \<and> opcode \<le> OP_16 then Inr (int opcode - (int OP_1 - 1))
      else Inl AssertFail)"

text \<open>\<^verbatim>\<open>CScriptUInt64\<close>: the fixed eight-byte little-endian integers of witness scripts.\<close>

definition uint64_bytes :: "u64 \<Rightarrow> valtype" where
  "uint64_bytes n = WriteLE64 n"

definition uint64_number :: "valtype \<Rightarrow> cpp_exn + u64" where
  "uint64_number vch = (if length vch = 8 then Inr (or_bytes 0 vch) else Inl AssertFail)"

section \<open>Reading instructions\<close>

text \<open>The operand size after an opcode up to \<^verbatim>\<open>OP_PUSHDATA4\<close>, and where the operand starts.\<close>

definition push_size :: "cscript \<Rightarrow> nat \<Rightarrow> nat \<Rightarrow> (nat \<times> nat) option" where
  "push_size s opcode pc =
     (if opcode < OP_PUSHDATA1 then Some (opcode, pc)
      else if opcode = OP_PUSHDATA1 then
        (if length s - pc < 1 then None else Some (unat (s ! pc), pc + 1))
      else if opcode = OP_PUSHDATA2 then
        (if length s - pc < 2 then None else Some (unat (ReadLE16 (drop pc s)), pc + 2))
      else
        (if length s - pc < 4 then None else Some (unat (ReadLE32 (drop pc s)), pc + 4)))"

text \<open>
  \<^verbatim>\<open>GetOp2\<close> returns the advanced iterator and, unless it fails, the opcode and the bytes
  pushed. A failing call also moves the iterator: past the opcode when the size is cut off, past
  the size when the operand is.
\<close>

definition GetOp2 :: "cscript \<Rightarrow> nat \<Rightarrow> nat \<times> (nat \<times> valtype) option" where
  "GetOp2 s pc =
     (if pc \<ge> length s then (pc, None)
      else let opcode = unat (s ! pc) in
        if opcode \<le> OP_PUSHDATA4 then
          (case push_size s opcode (pc + 1) of
             None \<Rightarrow> (pc + 1, None)
           | Some (nSize, pc') \<Rightarrow>
               if length s - pc' < nSize then (pc', None)
               else (pc' + nSize, Some (opcode, take nSize (drop pc' s))))
        else (pc + 1, Some (opcode, [])))"

lemma GetOp2_advances: "GetOp2 s pc = (pc', Some r) \<Longrightarrow> pc < pc' \<and> pc' \<le> length s"
  by (auto simp: GetOp2_def push_size_def Let_def split: if_splits)

lemma GetOp2_decreases: "(pc', Some r) = GetOp2 s pc \<Longrightarrow> length s - pc' < length s - pc"
  using GetOp2_advances [of s pc pc' r] by auto

lemma GetOp2_data_length:
  "GetOp2 s pc = (pc', Some (opcode, vch)) \<Longrightarrow> pc + 1 + length vch \<le> pc'"
  by (auto simp: GetOp2_def push_size_def Let_def split: if_splits)

lemma GetOp2_non_push: "GetOp2 s pc = (pc', Some (opcode, vch)) \<Longrightarrow> OP_PUSHDATA4 < opcode \<Longrightarrow> vch = []"
  by (auto simp: GetOp2_def push_size_def Let_def split: if_splits)

lemma GetOp2_end [simp]: "length s \<le> pc \<Longrightarrow> GetOp2 s pc = (pc, None)"
  by (simp add: GetOp2_def)

lemma GetOp2_opcode: "GetOp2 s pc = (pc', Some (opcode, vch)) \<Longrightarrow> opcode < 256"
  by (auto simp: GetOp2_def Let_def split: if_splits option.splits)

text \<open>Reading is relative to the position: what stands before the iterator does not matter.\<close>

lemma push_size_append:
  "push_size (pre @ s) opcode (length pre + pc) =
     map_option (\<lambda>(n, p). (n, length pre + p)) (push_size s opcode pc)"
  by (simp add: push_size_def nth_append)

lemma GetOp2_append:
  "GetOp2 (pre @ s) (length pre + pc) = apfst ((+) (length pre)) (GetOp2 s pc)"
  by (auto simp: GetOp2_def push_size_append [of pre s _ "Suc pc", simplified] nth_append Let_def
      split: option.splits)

lemma GetOp2_push_data_0:
  assumes "length b < 2 ^ 32"
  shows "\<exists>opcode. opcode \<le> OP_PUSHDATA4 \<and>
    GetOp2 (push_data [] b @ rest) 0 = (length (push_data [] b), Some (opcode, b))"
proof -
  consider "length b < 76" | "76 \<le> length b" "length b \<le> 0xff"
    | "0xff < length b" "length b \<le> 0xffff" | "0xffff < length b" by linarith
  then show ?thesis
  proof cases
    case 1
    then show ?thesis by (simp add: push_data_def GetOp2_def push_size_def Let_def)
  next
    case 2
    then show ?thesis by (simp add: push_data_def GetOp2_def push_size_def Let_def)
  next
    case 3
    then have "unat (word_of_nat (length b) :: u16) = length b" by (simp add: unat_of_nat)
    with 3 show ?thesis by (simp add: push_data_def GetOp2_def push_size_def Let_def)
  next
    case 4
    then have "unat (word_of_nat (length b) :: u32) = length b" using assms by (simp add: unat_of_nat)
    with 4 show ?thesis by (simp add: push_data_def GetOp2_def push_size_def Let_def)
  qed
qed

lemma push_data_append: "push_data s b = s @ push_data [] b"
  by (simp add: push_data_def)

lemma GetOp2_push_data:
  assumes "length b < 2 ^ 32"
  shows "\<exists>opcode. opcode \<le> OP_PUSHDATA4 \<and>
    GetOp2 (push_data s b @ rest) (length s) = (length (push_data s b), Some (opcode, b))"
  using GetOp2_push_data_0 [OF assms, of rest] GetOp2_append [of s "push_data [] b @ rest" 0]
  by (auto simp: push_data_append [of s b])

section \<open>Loops over the instructions\<close>

function Find_loop :: "cscript \<Rightarrow> nat \<Rightarrow> nat \<Rightarrow> int \<Rightarrow> int" where
  "Find_loop s op pc nFound =
     (if pc = length s then nFound
      else case GetOp2 s pc of
             (pc', None) \<Rightarrow> nFound
           | (pc', Some (opcode, vch)) \<Rightarrow>
               Find_loop s op pc' (if opcode = op then nFound + 1 else nFound))"
  by pat_completeness auto
termination
  by (relation "measure (\<lambda>(s, op, pc, n). length s - pc)") (auto dest: GetOp2_decreases)

definition Find :: "cscript \<Rightarrow> nat \<Rightarrow> int" where
  "Find s op = Find_loop s op 0 0"

text \<open>
  \<^verbatim>\<open>GetSigOpCount(fAccurate)\<close>: an accurate count reads the number of keys of a
  multisignature from the small integer before it. \<open>lastOpcode\<close> starts as
  \<^verbatim>\<open>OP_INVALIDOPCODE\<close>; \<^verbatim>\<open>DecodeOP_N\<close> is called within its range only.
\<close>

definition sigops_of :: "bool \<Rightarrow> nat \<Rightarrow> nat \<Rightarrow> nat" where
  "sigops_of fAccurate lastOpcode opcode =
     (if opcode = OP_CHECKSIG \<or> opcode = OP_CHECKSIGVERIFY then 1
      else if opcode = OP_CHECKMULTISIG \<or> opcode = OP_CHECKMULTISIGVERIFY then
        (if fAccurate \<and> lastOpcode \<ge> OP_1 \<and> lastOpcode \<le> OP_16
         then (case DecodeOP_N lastOpcode of Inr k \<Rightarrow> nat k | Inl _ \<Rightarrow> 0)
         else nat MAX_PUBKEYS_PER_MULTISIG)
      else 0)"

function GetSigOpCount_loop :: "cscript \<Rightarrow> bool \<Rightarrow> nat \<Rightarrow> nat \<Rightarrow> nat \<Rightarrow> nat" where
  "GetSigOpCount_loop s fAccurate pc lastOpcode n =
     (if pc < length s then
        (case GetOp2 s pc of
           (pc', None) \<Rightarrow> n
         | (pc', Some (opcode, vch)) \<Rightarrow>
             GetSigOpCount_loop s fAccurate pc' opcode (n + sigops_of fAccurate lastOpcode opcode))
      else n)"
  by pat_completeness auto
termination
  by (relation "measure (\<lambda>(s, a, pc, l, n). length s - pc)") (auto dest: GetOp2_decreases)

definition GetSigOpCount :: "cscript \<Rightarrow> bool \<Rightarrow> nat" where
  "GetSigOpCount s fAccurate = GetSigOpCount_loop s fAccurate 0 OP_INVALIDOPCODE 0"

function IsPushOnly_from :: "cscript \<Rightarrow> nat \<Rightarrow> bool" where
  "IsPushOnly_from s pc =
     (if pc < length s then
        (case GetOp2 s pc of
           (pc', None) \<Rightarrow> False
         | (pc', Some (opcode, vch)) \<Rightarrow> if opcode > OP_16 then False else IsPushOnly_from s pc')
      else True)"
  by pat_completeness auto
termination
  by (relation "measure (\<lambda>(s, pc). length s - pc)") (auto dest: GetOp2_decreases)

definition IsPushOnly :: "cscript \<Rightarrow> bool" where
  "IsPushOnly s = IsPushOnly_from s 0"

function HasValidOps_from :: "cscript \<Rightarrow> nat \<Rightarrow> bool" where
  "HasValidOps_from s it =
     (if it < length s then
        (case GetOp2 s it of
           (it', None) \<Rightarrow> False
         | (it', Some (opcode, item)) \<Rightarrow>
             if opcode > MAX_OPCODE \<or> length item > MAX_SCRIPT_ELEMENT_SIZE then False
             else HasValidOps_from s it')
      else True)"
  by pat_completeness auto
termination
  by (relation "measure (\<lambda>(s, pc). length s - pc)") (auto dest: GetOp2_decreases)

definition HasValidOps :: "cscript \<Rightarrow> bool" where
  "HasValidOps s = HasValidOps_from s 0"

definition IsPayToScriptHash :: "cscript \<Rightarrow> bool" where
  "IsPayToScriptHash s \<longleftrightarrow>
     length s = 23 \<and> s ! 0 = byte_of OP_HASH160 \<and> s ! 1 = 0x14 \<and> s ! 22 = byte_of OP_EQUAL"

definition IsPayToPubkeyHash :: "cscript \<Rightarrow> valtype option" where
  "IsPayToPubkeyHash s =
     (if length s = 25 \<and> s ! 0 = byte_of OP_DUP \<and> s ! 1 = byte_of OP_HASH160 \<and> s ! 2 = 20 \<and>
         s ! 23 = byte_of OP_EQUALVERIFY \<and> s ! 24 = byte_of OP_CHECKSIG
      then Some (take 20 (drop 3 s)) else None)"

definition IsUnspendable :: "cscript \<Rightarrow> bool" where
  "IsUnspendable s \<longleftrightarrow> (length s > 0 \<and> s ! 0 = byte_of OP_RETURN) \<or> length s > MAX_SCRIPT_SIZE"

text \<open>
  \<^verbatim>\<open>GetSigOpCount(scriptSig)\<close>: for a pay-to-script-hash output, the signature operations of
  the script that \<open>scriptSig\<close> pushes last.
\<close>

function last_push :: "cscript \<Rightarrow> nat \<Rightarrow> valtype \<Rightarrow> valtype option" where
  "last_push s pc vData =
     (if pc < length s then
        (case GetOp2 s pc of
           (pc', None) \<Rightarrow> None
         | (pc', Some (opcode, vch)) \<Rightarrow> if opcode > OP_16 then None else last_push s pc' vch)
      else Some vData)"
  by pat_completeness auto
termination
  by (relation "measure (\<lambda>(s, pc, v). length s - pc)") (auto dest: GetOp2_decreases)

definition GetSigOpCount_p2sh :: "cscript \<Rightarrow> cscript \<Rightarrow> nat" where
  "GetSigOpCount_p2sh s scriptSig =
     (if \<not> IsPayToScriptHash s then GetSigOpCount s True
      else case last_push scriptSig 0 [] of None \<Rightarrow> 0 | Some vData \<Rightarrow> GetSigOpCount vData True)"

declare Find_loop.simps [simp del] GetSigOpCount_loop.simps [simp del]
  IsPushOnly_from.simps [simp del] HasValidOps_from.simps [simp del] last_push.simps [simp del]

section \<open>FindAndDelete\<close>

definition vec_range :: "nat \<Rightarrow> nat \<Rightarrow> 'a list \<Rightarrow> 'a list" where
  "vec_range i j xs = take (j - i) (drop i xs)"

lemma diff_advance: "0 < k \<Longrightarrow> k \<le> n - p \<Longrightarrow> p + k \<le> n \<and> n - (p + k) < n - (p :: nat)"
  by auto

text \<open>The inner loop: skip every copy of \<open>b\<close> (which is not empty) at the iterator.\<close>

function skip_matches :: "cscript \<Rightarrow> cscript \<Rightarrow> nat \<Rightarrow> nat \<Rightarrow> nat \<times> nat" where
  "skip_matches s b pc nFound =
     (if b \<noteq> [] \<and> length s - pc \<ge> length b \<and> take (length b) (drop pc s) = b
      then skip_matches s b (pc + length b) (nFound + 1) else (pc, nFound))"
  by pat_completeness auto
termination
proof (relation "measure (\<lambda>(s, b, pc, n). length s - pc)", goal_cases)
  case (2 s b pc n)
  then show ?case using diff_advance [of "length b" "length s" pc] by simp
qed simp

declare skip_matches.simps [simp del]

lemma skip_matches_pc:
  "skip_matches s b pc n = (pc', n') \<Longrightarrow> pc \<le> length s \<Longrightarrow>
     pc \<le> pc' \<and> pc' \<le> length s \<and> n \<le> n' \<and> pc' = pc + (n' - n) * length b"
proof (induction s b pc n rule: skip_matches.induct)
  case (1 s b pc n)
  show ?case
  proof (cases "b \<noteq> [] \<and> length b \<le> length s - pc \<and> take (length b) (drop pc s) = b")
    case True
    with 1(2) have eq: "skip_matches s b (pc + length b) (n + 1) = (pc', n')"
      by (simp add: skip_matches.simps [of s b pc n])
    moreover from True have "pc + length b \<le> length s" using diff_advance [of "length b" "length s" pc] by simp
    ultimately have "pc + length b \<le> pc' \<and> pc' \<le> length s \<and> n + 1 \<le> n' \<and>
        pc' = pc + length b + (n' - (n + 1)) * length b"
      by (rule 1(1) [OF True])
    moreover from this have "Suc (n' - (n + 1)) = n' - n" by (metis Suc_diff_Suc Suc_eq_plus1 Suc_le_eq)
    ultimately show ?thesis by (metis add.assoc add_leD1 mult_Suc)
  next
    case False
    with 1(2,3) show ?thesis by (auto simp: skip_matches.simps [of s b pc n] split: if_splits)
  qed
qed

text \<open>
  The outer do-while loop, entered with the part of the script kept so far, the iterator
  \<open>pc\<close> and the start \<open>pc2\<close> of the part not copied yet.
\<close>

function FindAndDelete_loop ::
  "cscript \<Rightarrow> cscript \<Rightarrow> cscript \<Rightarrow> nat \<Rightarrow> nat \<Rightarrow> nat \<Rightarrow> cscript \<times> nat \<times> nat" where
  "FindAndDelete_loop s b result pc pc2 nFound =
     (let result' = result @ vec_range pc2 pc s;
          m = skip_matches s b pc nFound
      in case GetOp2 s (fst m) of
           (pc', None) \<Rightarrow> (result', fst m, snd m)
         | (pc', Some r) \<Rightarrow> FindAndDelete_loop s b result' pc' (fst m) (snd m))"
  by pat_completeness auto

lemma FindAndDelete_step:
  assumes "(pc', Some r) = GetOp2 s (fst (skip_matches s b pc n))"
  shows "length s - pc' < length s - pc"
proof -
  obtain q k where m: "skip_matches s b pc n = (q, k)" by fastforce
  from assms have "q < pc' \<and> pc' \<le> length s" using GetOp2_advances [of s q pc' r] by (simp add: m)
  moreover have "pc \<le> q"
  proof (cases "pc \<le> length s")
    case True
    with skip_matches_pc [OF m] show ?thesis by simp
  next
    case False
    then show ?thesis using m by (auto simp: skip_matches.simps [of s b pc n] split: if_splits)
  qed
  ultimately show ?thesis by auto
qed

termination FindAndDelete_loop
  by (relation "measure (\<lambda>(s, b, r, pc, pc2, n). length s - pc)") (auto dest: FindAndDelete_step)

declare FindAndDelete_loop.simps [simp del]

definition FindAndDelete :: "cscript \<Rightarrow> cscript \<Rightarrow> nat \<times> cscript" where
  "FindAndDelete s b =
     (if b = [] then (0, s)
      else case FindAndDelete_loop s b [] 0 0 0 of
             (result, pc2, nFound) \<Rightarrow>
               if nFound > 0 then (nFound, result @ drop pc2 s) else (0, s))"

text \<open>
  A reference reading of the same operation: at every instruction boundary a copy of \<open>b\<close> is
  dropped, otherwise one instruction is kept; what cannot be parsed is kept.
\<close>

function delete_at_boundaries :: "cscript \<Rightarrow> cscript \<Rightarrow> nat \<Rightarrow> nat \<times> cscript" where
  "delete_at_boundaries s b pc =
     (if b \<noteq> [] \<and> length s - pc \<ge> length b \<and> take (length b) (drop pc s) = b
      then apfst Suc (delete_at_boundaries s b (pc + length b))
      else case GetOp2 s pc of
             (pc', None) \<Rightarrow> (0, drop pc s)
           | (pc', Some r) \<Rightarrow> apsnd ((@) (vec_range pc pc' s)) (delete_at_boundaries s b pc'))"
  by pat_completeness auto
termination
proof (relation "measure (\<lambda>(s, b, pc). length s - pc)", goal_cases)
  case (2 s b pc)
  then show ?case using diff_advance [of "length b" "length s" pc] by simp
qed (auto dest: GetOp2_decreases)

declare delete_at_boundaries.simps [simp del]

lemma vec_range_append_drop: "i \<le> j \<Longrightarrow> j \<le> length s \<Longrightarrow> vec_range i j s @ drop j s = drop i s"
  by (metis append_take_drop_id drop_drop le_add_diff_inverse2 vec_range_def)

lemma length_vec_range [simp]: "j \<le> length s \<Longrightarrow> length (vec_range i j s) = j - i"
  by (simp add: vec_range_def)

lemma skip_matches_boundaries:
  "skip_matches s b pc n = (q, n') \<Longrightarrow>
     n \<le> n' \<and> delete_at_boundaries s b pc =
       apfst ((+) (n' - n))
         (case GetOp2 s q of
            (pc', None) \<Rightarrow> (0, drop q s)
          | (pc', Some r) \<Rightarrow> apsnd ((@) (vec_range q pc' s)) (delete_at_boundaries s b pc'))"
proof (induction s b pc n rule: skip_matches.induct)
  case (1 s b pc n)
  show ?case
  proof (cases "b \<noteq> [] \<and> length b \<le> length s - pc \<and> take (length b) (drop pc s) = b")
    case True
    with 1(2) have "skip_matches s b (pc + length b) (n + 1) = (q, n')"
      by (simp add: skip_matches.simps [of s b pc n])
    from 1(1) [OF True this] True show ?thesis
      by (auto simp: delete_at_boundaries.simps [of s b pc] apfst_compose comp_def Suc_diff_le
          simp flip: add_Suc intro!: arg_cong2 [where f = apfst])
  next
    case False
    with 1(2) have "q = pc" and "n' = n" by (auto simp: skip_matches.simps [of s b pc n])
    with False show ?thesis
      by (auto simp: delete_at_boundaries.simps [of s b pc] apfst_def map_prod_def split: prod.splits option.splits)
  qed
qed

lemma FindAndDelete_loop_boundaries:
  "FindAndDelete_loop s b result pc pc2 n = (res, q, n') \<Longrightarrow> pc \<le> length s \<Longrightarrow>
     n \<le> n' \<and> fst (delete_at_boundaries s b pc) = n' - n \<and>
     res @ drop q s = result @ vec_range pc2 pc s @ snd (delete_at_boundaries s b pc)"
proof (induction s b result pc pc2 n rule: FindAndDelete_loop.induct)
  case (1 s b result pc pc2 n)
  obtain m k where m: "skip_matches s b pc n = (m, k)" by fastforce
  have k: "n \<le> k" and m_le: "m \<le> length s" using skip_matches_pc [OF m 1(3)] by simp_all
  obtain pc' r where g: "GetOp2 s m = (pc', r)" by fastforce
  note skip = skip_matches_boundaries [OF m, unfolded g]
  show ?case
  proof (cases r)
    case None
    with 1(2) g m have "res = result @ vec_range pc2 pc s" "q = m" "n' = k"
      by (auto simp: FindAndDelete_loop.simps [of s b result pc] Let_def)
    with None skip k m_le show ?thesis by simp
  next
    case (Some rr)
    with 1(2) g m have eq: "FindAndDelete_loop s b (result @ vec_range pc2 pc s) pc' m k = (res, q, n')"
      by (simp add: FindAndDelete_loop.simps [of s b result pc] Let_def)
    from g Some have pc': "pc' \<le> length s" using GetOp2_advances by blast
    from 1(1) [OF refl refl, of pc' "Some rr" rr, unfolded m, simplified, OF g [unfolded Some, symmetric] eq pc']
      skip k show ?thesis by (auto simp: Some)
  qed
qed

lemma delete_at_boundaries_0: "fst (delete_at_boundaries s b pc) = 0 \<Longrightarrow> pc \<le> length s \<Longrightarrow>
   snd (delete_at_boundaries s b pc) = drop pc s"
proof (induction s b pc rule: delete_at_boundaries.induct)
  case (1 s b pc)
  then show ?case
    using GetOp2_advances [of s pc]
    by (auto simp: delete_at_boundaries.simps [of s b pc] vec_range_append_drop
        split: if_splits prod.splits option.splits)
qed

lemma delete_at_boundaries_length: "pc \<le> length s \<Longrightarrow>
   length (snd (delete_at_boundaries s b pc)) + fst (delete_at_boundaries s b pc) * length b = length s - pc"
proof (induction s b pc rule: delete_at_boundaries.induct)
  case (1 s b pc)
  show ?case
  proof (cases "b \<noteq> [] \<and> length b \<le> length s - pc \<and> take (length b) (drop pc s) = b")
    case True
    moreover from True have "pc + length b \<le> length s" using diff_advance [of "length b" "length s" pc] by simp
    ultimately show ?thesis using 1(1) by (auto simp: delete_at_boundaries.simps [of s b pc])
  next
    case False
    obtain pc' r where g: "GetOp2 s pc = (pc', r)" by fastforce
    show ?thesis
    proof (cases r)
      case None
      with False g show ?thesis by (auto simp: delete_at_boundaries.simps [of s b pc])
    next
      case (Some rr)
      then have "pc < pc'" and "pc' \<le> length s" using g GetOp2_advances by blast+
      with 1(2) [OF False g [symmetric] Some] False g Some show ?thesis
        by (auto simp: delete_at_boundaries.simps [of s b pc])
    qed
  qed
qed

lemma delete_at_boundaries_match:
  "b \<noteq> [] \<Longrightarrow> length b \<le> length s - pc \<Longrightarrow> take (length b) (drop pc s) = b \<Longrightarrow>
   delete_at_boundaries s b pc = apfst Suc (delete_at_boundaries s b (pc + length b))"
  by (simp add: delete_at_boundaries.simps [of s b pc])

lemma delete_at_boundaries_keep:
  "GetOp2 s pc = (pc', Some r) \<Longrightarrow> \<not> (length b \<le> length s - pc \<and> take (length b) (drop pc s) = b) \<Longrightarrow>
   delete_at_boundaries s b pc = apsnd ((@) (vec_range pc pc' s)) (delete_at_boundaries s b pc')"
  by (auto simp: delete_at_boundaries.simps [of s b pc])

lemma delete_at_boundaries_stop:
  "GetOp2 s pc = (pc', None) \<Longrightarrow> \<not> (length b \<le> length s - pc \<and> take (length b) (drop pc s) = b) \<Longrightarrow>
   delete_at_boundaries s b pc = (0, drop pc s)"
  by (auto simp: delete_at_boundaries.simps [of s b pc])

lemmas delete_at_boundaries_steps =
  delete_at_boundaries_match delete_at_boundaries_keep delete_at_boundaries_stop

lemma FindAndDelete_boundaries:
  assumes "b \<noteq> []"
  shows "FindAndDelete s b = delete_at_boundaries s b 0"
proof -
  obtain res q n where l: "FindAndDelete_loop s b [] 0 0 0 = (res, q, n)"
    by (metis prod_cases3)
  from FindAndDelete_loop_boundaries [OF l] have "delete_at_boundaries s b 0 = (n, res @ drop q s)"
    by (simp add: vec_range_def prod_eq_iff)
  then show ?thesis
    using delete_at_boundaries_0 [of s b 0] assms by (auto simp: FindAndDelete_def l)
qed

text \<open>
  C3. \<^verbatim>\<open>CScript::FindAndDelete\<close> with its two nested loops over three iterators returns
  exactly the count and the script of the reference reading: every copy of a non-empty \<open>b\<close> that
  starts at an instruction boundary is removed, nothing else is, and the script shrinks by the
  number of copies times their size.
\<close>

theorem FindAndDelete_correct:
  assumes "b \<noteq> []"
  shows "FindAndDelete s b = delete_at_boundaries s b 0 \<and>
    length (snd (FindAndDelete s b)) + fst (FindAndDelete s b) * length b = length s"
  using FindAndDelete_boundaries [OF assms] delete_at_boundaries_length [of 0 s b] by simp

theorem FindAndDelete_correct_witness:
  "FindAndDelete [0xac, 0x51, 0xac, 0x01, 0xac] [0xac] = (2, [0x51, 0x01, 0xac])"
  using FindAndDelete_correct [of "[0xac]" "[0xac, 0x51, 0xac, 0x01, 0xac]"]
  by (simp add: delete_at_boundaries_steps GetOp2_def push_size_def vec_range_def)

section \<open>Counting signature operations\<close>

lemma DecodeOP_N_range:
  "OP_1 \<le> opcode \<Longrightarrow> opcode \<le> OP_16 \<Longrightarrow> \<exists>k. DecodeOP_N opcode = Inr k \<and> 1 \<le> k \<and> k \<le> 16"
  by (auto simp: DecodeOP_N_def)

lemma DecodeOP_N_EncodeOP_N:
  "0 \<le> n \<Longrightarrow> n \<le> 16 \<Longrightarrow> bind_e (EncodeOP_N n) DecodeOP_N = Inr n"
  by (auto simp: EncodeOP_N_def DecodeOP_N_def)

lemma sigops_of_mono: "sigops_of True l opcode \<le> sigops_of False l' opcode"
  using DecodeOP_N_range [of l] by (auto simp: sigops_of_def)

lemma sigops_of_le: "sigops_of a l opcode \<le> 20"
  using DecodeOP_N_range [of l] by (auto simp: sigops_of_def)

lemma GetSigOpCount_loop_mono:
  "m \<le> n \<Longrightarrow> GetSigOpCount_loop s True pc l m \<le> GetSigOpCount_loop s False pc l' n"
proof (induction s True pc l m arbitrary: l' n rule: GetSigOpCount_loop.induct)
  case (1 s pc l m)
  obtain pc' r where g: "GetOp2 s pc = (pc', r)" by fastforce
  show ?case
  proof (cases r)
    case None
    with g 1(2) show ?thesis by (simp add: GetSigOpCount_loop.simps [of s _ pc])
  next
    case (Some x)
    obtain opcode vch where x: "x = (opcode, vch)" by fastforce
    have "m + sigops_of True l opcode \<le> n + sigops_of False l' opcode"
      using 1(2) sigops_of_mono by (rule add_mono)
    with 1(1) [OF _ g [symmetric] Some x [symmetric]] 1(2) g Some x show ?thesis
      by (simp add: GetSigOpCount_loop.simps [of s _ pc])
  qed
qed

lemma GetSigOpCount_loop_le:
  "pc \<le> length s \<Longrightarrow> GetSigOpCount_loop s a pc l n \<le> n + 20 * (length s - pc)"
proof (induction s a pc l n rule: GetSigOpCount_loop.induct)
  case (1 s a pc l n)
  obtain pc' r where g: "GetOp2 s pc = (pc', r)" by fastforce
  show ?case
  proof (cases "pc < length s \<and> r \<noteq> None")
    case False
    with g show ?thesis by (auto simp: GetSigOpCount_loop.simps [of s _ pc] split: option.splits)
  next
    case True
    then obtain opcode vch where r: "r = Some (opcode, vch)" by auto
    have adv: "pc < pc'" "pc' \<le> length s" using g r GetOp2_advances by blast+
    from 1(1) [OF _ g [symmetric] r refl] True adv
    have "GetSigOpCount_loop s a pc' opcode (n + sigops_of a l opcode)
        \<le> n + sigops_of a l opcode + 20 * (length s - pc')" by simp
    with adv sigops_of_le [of a l opcode]
    have "GetSigOpCount_loop s a pc' opcode (n + sigops_of a l opcode) \<le> n + 20 * (length s - pc)"
      by linarith
    with True g r show ?thesis by (simp add: GetSigOpCount_loop.simps [of s a pc])
  qed
qed

text \<open>
  The accurate count of signature operations never exceeds the inaccurate one, which charges
  \<^verbatim>\<open>MAX_PUBKEYS_PER_MULTISIG\<close> for every multisignature and is itself at most that
  many per script byte.
\<close>

theorem GetSigOpCount_bounds:
  "GetSigOpCount s True \<le> GetSigOpCount s False \<and>
   GetSigOpCount s False \<le> nat MAX_PUBKEYS_PER_MULTISIG * length s"
  using GetSigOpCount_loop_mono [of 0 0 s 0] GetSigOpCount_loop_le [of 0 s False _ 0]
  by (simp add: GetSigOpCount_def)

end
