(* ===== verification/Sig_Encoding.thy ===== *)
theory Sig_Encoding
  imports Script_Base
begin

text \<open>
  The encoding rules of \<^verbatim>\<open>src/src/script/interpreter.cpp\<close> that stand before the
  interpreter proper: the script errors, the verification flags, the truth value of a stack
  element, the strict DER test of signatures, the public key and signature encoding checks and
  the minimal push rule. The indexed reads of the DER test are written with
  \<open>vec_at\<close>, so that reading past the end of the signature would show as a value. The low-S
  test of \<^verbatim>\<open>CPubKey\<close> belongs to the elliptic curve library and is an argument.
\<close>

section \<open>Errors, flags and versions\<close>

datatype script_error =
    SCRIPT_ERR_OK | SCRIPT_ERR_UNKNOWN_ERROR | SCRIPT_ERR_EVAL_FALSE | SCRIPT_ERR_OP_RETURN
  | SCRIPT_ERR_SCRIPT_SIZE | SCRIPT_ERR_PUSH_SIZE | SCRIPT_ERR_OP_COUNT | SCRIPT_ERR_STACK_SIZE
  | SCRIPT_ERR_SIG_COUNT | SCRIPT_ERR_PUBKEY_COUNT
  | SCRIPT_ERR_VERIFY | SCRIPT_ERR_EQUALVERIFY | SCRIPT_ERR_CHECKMULTISIGVERIFY
  | SCRIPT_ERR_CHECKSIGVERIFY | SCRIPT_ERR_NUMEQUALVERIFY
  | SCRIPT_ERR_BAD_OPCODE | SCRIPT_ERR_DISABLED_OPCODE | SCRIPT_ERR_INVALID_STACK_OPERATION
  | SCRIPT_ERR_INVALID_ALTSTACK_OPERATION | SCRIPT_ERR_UNBALANCED_CONDITIONAL
  | SCRIPT_ERR_NEGATIVE_LOCKTIME | SCRIPT_ERR_UNSATISFIED_LOCKTIME
  | SCRIPT_ERR_SIG_HASHTYPE | SCRIPT_ERR_SIG_DER | SCRIPT_ERR_MINIMALDATA
  | SCRIPT_ERR_SIG_PUSHONLY | SCRIPT_ERR_SIG_HIGH_S | SCRIPT_ERR_PUBKEYTYPE
  | SCRIPT_ERR_CLEANSTACK | SCRIPT_ERR_MINIMALIF | SCRIPT_ERR_SIG_NULLFAIL
  | SCRIPT_ERR_DISCOURAGE_UPGRADABLE_NOPS | SCRIPT_ERR_DISCOURAGE_UPGRADABLE_WITNESS_PROGRAM
  | SCRIPT_ERR_SEGSIG_PUBKEYTYPE | SCRIPT_ERR_ERROR_COUNT

text \<open>How a routine of the interpreter can end early: by \<^verbatim>\<open>set_error\<close>, or by an exception.\<close>

datatype failure = Err script_error | Exn cpp_exn

definition throws :: "cpp_exn + 'a \<Rightarrow> failure + 'a" where
  "throws m = (case m of Inl e \<Rightarrow> Inl (Exn e) | Inr x \<Rightarrow> Inr x)"

definition require :: "bool \<Rightarrow> script_error \<Rightarrow> failure + unit" where
  "require c e = (if c then Inr () else Inl (Err e))"

lemma throws_Inr [simp]: "throws (Inr x) = Inr x"
  by (simp add: throws_def)

lemma throws_Inl [simp]: "throws (Inl e) = Inl (Exn e)"
  by (simp add: throws_def)

lemma throws_eq_Inr [exn_simps]: "throws m = Inr x \<longleftrightarrow> m = Inr x"
  by (cases m) auto

lemma throws_eq_Inl [exn_simps]: "throws m = Inl f \<longleftrightarrow> (\<exists>e. m = Inl e \<and> f = Exn e)"
  by (cases m) auto

lemma require_eq_Inr [exn_simps]: "require c e = Inr u \<longleftrightarrow> c"
  by (simp add: require_def)

lemma require_eq_Inl [exn_simps]: "require c e = Inl f \<longleftrightarrow> \<not> c \<and> f = Err e"
  by (auto simp: require_def)

lemma require_simps [simp]: "require True e = Inr ()" "require False e = Inl (Err e)"
  by (simp_all add: require_def)

type_synonym script_flags = u32

definition SCRIPT_VERIFY_P2SH :: script_flags where
  "SCRIPT_VERIFY_P2SH = push_bit 0 1"
definition SCRIPT_VERIFY_STRICTENC :: script_flags where
  "SCRIPT_VERIFY_STRICTENC = push_bit 1 1"
definition SCRIPT_VERIFY_DERSIG :: script_flags where
  "SCRIPT_VERIFY_DERSIG = push_bit 2 1"
definition SCRIPT_VERIFY_LOW_S :: script_flags where
  "SCRIPT_VERIFY_LOW_S = push_bit 3 1"
definition SCRIPT_VERIFY_SIGPUSHONLY :: script_flags where
  "SCRIPT_VERIFY_SIGPUSHONLY = push_bit 4 1"
definition SCRIPT_VERIFY_MINIMALDATA :: script_flags where
  "SCRIPT_VERIFY_MINIMALDATA = push_bit 5 1"
definition SCRIPT_VERIFY_DISCOURAGE_UPGRADABLE_NOPS :: script_flags where
  "SCRIPT_VERIFY_DISCOURAGE_UPGRADABLE_NOPS = push_bit 6 1"
definition SCRIPT_VERIFY_CLEANSTACK :: script_flags where
  "SCRIPT_VERIFY_CLEANSTACK = push_bit 7 1"
definition SCRIPT_VERIFY_CHECKLOCKTIMEVERIFY :: script_flags where
  "SCRIPT_VERIFY_CHECKLOCKTIMEVERIFY = push_bit 8 1"
definition SCRIPT_VERIFY_CHECKSEQUENCEVERIFY :: script_flags where
  "SCRIPT_VERIFY_CHECKSEQUENCEVERIFY = push_bit 9 1"
definition SCRIPT_VERIFY_MINIMALIF :: script_flags where
  "SCRIPT_VERIFY_MINIMALIF = push_bit 10 1"
definition SCRIPT_VERIFY_NULLFAIL :: script_flags where
  "SCRIPT_VERIFY_NULLFAIL = push_bit 11 1"

definition has_flag :: "script_flags \<Rightarrow> script_flags \<Rightarrow> bool" where
  "has_flag flags f \<longleftrightarrow> flags AND f \<noteq> 0"

datatype SigVersion = SIGVERSION_BASE | SIGVERSION_SEGSIG
datatype ScriptVersion = SCRIPT_V1 | SCRIPT_V2

section \<open>Truth values\<close>

text \<open>The loop of \<^verbatim>\<open>CastToBool\<close>, over the bytes not examined yet.\<close>

fun CastToBool :: "valtype \<Rightarrow> bool" where
  "CastToBool [] = False"
| "CastToBool (b # bs) =
     (if b \<noteq> 0 then (if bs = [] \<and> b = 0x80 then False else True) else CastToBool bs)"

section \<open>Public keys and signatures\<close>

definition IsCompressedOrUncompressedPubKey :: "valtype \<Rightarrow> bool" where
  "IsCompressedOrUncompressedPubKey vchPubKey =
     (if length vchPubKey < 33 then False
      else if vchPubKey ! 0 = 0x04 then length vchPubKey = 65
      else if vchPubKey ! 0 = 0x02 \<or> vchPubKey ! 0 = 0x03 then length vchPubKey = 33
      else False)"

text \<open>\<open>x && !(sig[i] & 0x80)\<close>, the second operand read only when the first holds.\<close>

definition and_not_negative :: "bool \<Rightarrow> valtype \<Rightarrow> nat \<Rightarrow> cpp_exn + bool" where
  "and_not_negative c sig i =
     (if c then bind_e (vec_at sig i) (\<lambda>b. Inr (b AND 0x80 = 0)) else Inr False)"

text \<open>The tests on one of the two integers: \<open>start\<close> is the index of its first byte.\<close>

definition valid_der_integer :: "valtype \<Rightarrow> nat \<Rightarrow> nat \<Rightarrow> cpp_exn + bool" where
  "valid_der_integer sig start len =
     bind_e (vec_at sig (start - 2)) (\<lambda>tag.
     if tag \<noteq> 0x02 then Inr False
     else if len = 0 then Inr False
     else bind_e (vec_at sig start) (\<lambda>b.
       if b AND 0x80 \<noteq> 0 then Inr False
       else bind_e (and_not_negative (len > 1 \<and> b = 0) sig (start + 1)) (\<lambda>padded.
         Inr (\<not> padded))))"

definition IsValidSignatureEncoding :: "valtype \<Rightarrow> cpp_exn + bool" where
  "IsValidSignatureEncoding sig =
     (if length sig < 9 then Inr False
      else if length sig > 73 then Inr False
      else bind_e (vec_at sig 0) (\<lambda>b0.
        if b0 \<noteq> 0x30 then Inr False
        else bind_e (vec_at sig 1) (\<lambda>b1.
          if unat b1 \<noteq> length sig - 3 then Inr False
          else bind_e (vec_at sig 3) (\<lambda>b3.
            let lenR = unat b3 in
            if 5 + lenR \<ge> length sig then Inr False
            else bind_e (vec_at sig (5 + lenR)) (\<lambda>bS.
              let lenS = unat bS in
              if lenR + lenS + 7 \<noteq> length sig then Inr False
              else bind_e (valid_der_integer sig 4 lenR) (\<lambda>okR.
                if \<not> okR then Inr False
                else valid_der_integer sig (lenR + 6) lenS))))))"

definition IsLowDERSignature :: "(valtype \<Rightarrow> bool) \<Rightarrow> valtype \<Rightarrow> failure + unit" where
  "IsLowDERSignature CheckLowS vchSig =
     bind_e (throws (IsValidSignatureEncoding vchSig)) (\<lambda>valid.
     if \<not> valid then Inl (Err SCRIPT_ERR_SIG_DER)
     else require (CheckLowS (butlast vchSig)) SCRIPT_ERR_SIG_HIGH_S)"

definition IsDefinedHashtypeSignature :: "valtype \<Rightarrow> bool" where
  "IsDefinedHashtypeSignature vchSig =
     (if length vchSig = 0 then False
      else let nHashType = vchSig ! (length vchSig - 1) AND NOT 0x80
           in \<not> (nHashType < 1 \<or> nHashType > 3))"

definition CheckSignatureEncoding ::
  "(valtype \<Rightarrow> bool) \<Rightarrow> valtype \<Rightarrow> script_flags \<Rightarrow> failure + unit" where
  "CheckSignatureEncoding CheckLowS vchSig flags =
     (if length vchSig = 0 then Inr ()
      else bind_e
        (if flags AND (SCRIPT_VERIFY_DERSIG OR SCRIPT_VERIFY_LOW_S OR SCRIPT_VERIFY_STRICTENC) \<noteq> 0
         then throws (IsValidSignatureEncoding vchSig) else Inr True)
        (\<lambda>der.
          if \<not> der then Inl (Err SCRIPT_ERR_SIG_DER)
          else bind_e (if has_flag flags SCRIPT_VERIFY_LOW_S
                       then IsLowDERSignature CheckLowS vchSig else Inr ())
            (\<lambda>_. require (\<not> (has_flag flags SCRIPT_VERIFY_STRICTENC \<and>
                             \<not> IsDefinedHashtypeSignature vchSig)) SCRIPT_ERR_SIG_HASHTYPE)))"

definition CheckPubKeyEncoding :: "valtype \<Rightarrow> script_flags \<Rightarrow> SigVersion \<Rightarrow> failure + unit" where
  "CheckPubKeyEncoding vchPubKey flags sigversion =
     require (\<not> (has_flag flags SCRIPT_VERIFY_STRICTENC \<and>
                 \<not> IsCompressedOrUncompressedPubKey vchPubKey)) SCRIPT_ERR_PUBKEYTYPE"

definition CheckMinimalPush :: "valtype \<Rightarrow> nat \<Rightarrow> bool" where
  "CheckMinimalPush data opcode =
     (if length data = 0 then opcode = OP_0
      else if length data = 1 \<and> data ! 0 \<ge> 1 \<and> data ! 0 \<le> 16 then opcode = OP_1 + (unat (data ! 0) - 1)
      else if length data = 1 \<and> data ! 0 = 0x81 then opcode = OP_1NEGATE
      else if length data \<le> 75 then opcode = length data
      else if length data \<le> 255 then opcode = OP_PUSHDATA1
      else if length data \<le> 65535 then opcode = OP_PUSHDATA2
      else True)"

section \<open>What the DER test accepts\<close>

text \<open>The format of the source's comment: a positive integer in its shortest big-endian encoding.\<close>

definition der_integer :: "valtype \<Rightarrow> bool" where
  "der_integer R \<longleftrightarrow> R \<noteq> [] \<and> R ! 0 AND 0x80 = 0 \<and> (length R > 1 \<and> R ! 0 = 0 \<longrightarrow> R ! 1 AND 0x80 \<noteq> 0)"

definition der_format :: "valtype \<Rightarrow> valtype \<Rightarrow> byte \<Rightarrow> valtype" where
  "der_format R S hashtype =
     [0x30, byte_of (length R + length S + 4), 0x02, byte_of (length R)] @ R @
     [0x02, byte_of (length S)] @ S @ [hashtype]"

definition der_signature :: "valtype \<Rightarrow> bool" where
  "der_signature sig \<longleftrightarrow>
     length sig \<le> 73 \<and> (\<exists>R S h. sig = der_format R S h \<and> der_integer R \<and> der_integer S)"

lemma valid_der_integer_append:
  fixes pre R rest :: valtype
  assumes sig: "sig = pre @ [a, b] @ R @ c # rest" and start: "start = length pre + 2"
    and len: "len = length R"
  shows "valid_der_integer sig start len = Inr (a = 0x02 \<and> der_integer R)"
proof -
  have tag: "vec_at sig (start - 2) = Inr a"
    by (simp add: vec_at_def sig start)
  have first: "vec_at sig start = Inr (R ! 0)" if "R \<noteq> []"
    using that by (simp add: vec_at_def nth_append sig start)
  have second: "vec_at sig (start + 1) = Inr (R ! 1)" if "1 < length R"
    using that by (cases R) (simp_all add: vec_at_def nth_append sig start)
  show ?thesis
  proof (cases "R = []")
    case True
    then show ?thesis by (simp add: valid_der_integer_def tag der_integer_def len)
  next
    case False
    then show ?thesis
      using first second
      by (cases "1 < length R")
        (auto simp: valid_der_integer_def and_not_negative_def tag der_integer_def len)
  qed
qed

lemma der_split:
  assumes "length (sig :: valtype) = r + s + 7"
  shows "\<exists>a b c d R e f S h. sig = [a, b, c, d] @ R @ [e, f] @ S @ [h] \<and> length R = r \<and> length S = s"
proof -
  have "length sig = 4 + (r + (2 + (s + 1)))" using assms by simp
  then obtain p R q S t where "sig = p @ R @ q @ S @ t"
    and "length p = 4" "length R = r" "length q = 2" "length S = s" "length t = 1"
    by (metis length_add_split)
  moreover from this obtain a b c d e f h where "p = [a, b, c, d]" "q = [e, f]" "t = [h]"
    by (auto simp: numeral_eq_Suc length_Suc_conv)
  ultimately show ?thesis by blast
qed

lemma IsValidSignatureEncoding_split:
  assumes sig: "sig = [a, b, c, d] @ R @ [e, f] @ S @ [h]"
    and len: "length R = unat d" "length S = unat f" "9 \<le> length sig" "length sig \<le> 73"
  shows "IsValidSignatureEncoding sig =
    Inr (a = 0x30 \<and> unat b = length sig - 3 \<and> c = 0x02 \<and> e = 0x02 \<and> der_integer R \<and> der_integer S)"
proof -
  have at: "vec_at sig 0 = Inr a" "vec_at sig 1 = Inr b" "vec_at sig 3 = Inr d"
    "vec_at sig (5 + unat d) = Inr f"
    using len(1) by (simp_all add: sig vec_at_def nth_append)
  have R: "valid_der_integer sig 4 (unat d) = Inr (c = 0x02 \<and> der_integer R)"
    using len(1) by (intro valid_der_integer_append [of _ "[a, b]" _ d _ e "f # S @ [h]"]) (simp_all add: sig)
  have S: "valid_der_integer sig (unat d + 6) (unat f) = Inr (e = 0x02 \<and> der_integer S)"
    using len(1,2) by (intro valid_der_integer_append [of _ "[a, b, c, d] @ R" _ f _ h "[]"]) (simp_all add: sig)
  have l: "length sig = unat d + unat f + 7" using len by (simp add: sig)
  show ?thesis
    using len(3,4) l by (auto simp: IsValidSignatureEncoding_def at [unfolded One_nat_def] R S Let_def)
qed

text \<open>The two length bytes and the total length fit together.\<close>

definition der_lengths :: "valtype \<Rightarrow> bool" where
  "der_lengths sig \<longleftrightarrow> 5 + unat (sig ! 3) < length sig \<and>
     unat (sig ! 3) + unat (sig ! (5 + unat (sig ! 3))) + 7 = length sig"

lemma der_lengths_split:
  assumes "der_lengths sig"
  shows "\<exists>a b c d R e f S h. sig = [a, b, c, d] @ R @ [e, f] @ S @ [h] \<and>
    length R = unat d \<and> length S = unat f"
proof -
  from assms obtain a b c d R e f S h where sig: "sig = [a, b, c, d] @ R @ [e, f] @ S @ [h]"
    and "length R = unat (sig ! 3)" "length S = unat (sig ! (5 + unat (sig ! 3)))"
    using der_split [of sig "unat (sig ! 3)" "unat (sig ! (5 + unat (sig ! 3)))"]
    by (auto simp: der_lengths_def)
  then have "length R = unat d \<and> length S = unat f" by (simp add: nth_append)
  with sig show ?thesis by blast
qed

lemma der_format_lengths:
  assumes "length (der_format R S h) \<le> 73" and "der_integer R" and "der_integer S"
  shows "9 \<le> length (der_format R S h) \<and> der_lengths (der_format R S h)"
proof -
  have "2 \<le> length R + length S" using assms by (cases R; cases S) (auto simp: der_integer_def)
  with assms(1) show ?thesis by (simp add: der_lengths_def der_format_def nth_append)
qed

lemma der_format_inject:
  assumes "[a, b, c, d] @ R @ [e, f] @ S @ [h] = der_format R' S' h'"
    and "length R = unat d" "length S = unat f" "length R' + length S' < 256"
  shows "R' = R \<and> S' = S \<and> a = 0x30 \<and> b = byte_of (length R + length S + 4) \<and> c = 0x02 \<and> e = 0x02"
proof -
  from assms have "d = byte_of (length R')" by (simp add: der_format_def)
  with assms have l: "length R' = length R" by simp
  with assms(1) have "R' = R" by (simp add: der_format_def)
  with assms(1) show ?thesis by (auto simp: der_format_def)
qed

lemma der_signature_split:
  assumes sig: "sig = [a, b, c, d] @ R @ [e, f] @ S @ [h]"
    and len: "length R = unat d" "length S = unat f"
    and size: "length sig \<le> 73"
  shows "der_signature sig \<longleftrightarrow> a = 0x30 \<and> b = byte_of (length R + length S + 4) \<and> c = 0x02 \<and>
    e = 0x02 \<and> der_integer R \<and> der_integer S"
proof
  assume "der_signature sig"
  then obtain R' S' h' where f: "sig = der_format R' S' h'" "der_integer R'" "der_integer S'"
    by (auto simp: der_signature_def)
  moreover from this size have "length R' + length S' < 256" by (simp add: der_format_def)
  ultimately show "a = 0x30 \<and> b = byte_of (length R + length S + 4) \<and> c = 0x02 \<and>
    e = 0x02 \<and> der_integer R \<and> der_integer S"
    using der_format_inject [of a b c d R e f S h R' S' h'] len sig by auto
next
  assume "a = 0x30 \<and> b = byte_of (length R + length S + 4) \<and> c = 0x02 \<and>
    e = 0x02 \<and> der_integer R \<and> der_integer S"
  then show "der_signature sig"
    using len size unfolding der_signature_def
    by (intro conjI exI [of _ R] exI [of _ S] exI [of _ h]) (simp_all add: der_format_def sig)
qed

lemma IsValidSignatureEncoding_der [simp]:
  "IsValidSignatureEncoding sig = Inr (der_signature sig)"
proof (cases "9 \<le> length sig \<and> length sig \<le> 73 \<and> der_lengths sig")
  case True
  then obtain a b c d R e f S h where sig: "sig = [a, b, c, d] @ R @ [e, f] @ S @ [h]"
    and len: "length R = unat d" "length S = unat f"
    using der_lengths_split by blast
  have b: "unat b = length sig - 3 \<longleftrightarrow> b = byte_of (length R + length S + 4)"
  proof -
    have "length R + length S + 4 < 256" using True by (simp add: sig)
    then have "unat (byte_of (length R + length S + 4)) = length sig - 3"
      by (subst unat_byte_of_nat) (simp add: sig)
    then show ?thesis by (metis word_unat_eq_iff)
  qed
  show ?thesis
    using True IsValidSignatureEncoding_split [OF sig len] der_signature_split [OF sig len] b by auto
next
  case False
  then have "IsValidSignatureEncoding sig = Inr False"
    by (auto simp: IsValidSignatureEncoding_def der_lengths_def Let_def vec_at_def)
  moreover from False have "\<not> der_signature sig"
    using der_format_lengths by (auto simp: der_signature_def)
  ultimately show ?thesis by simp
qed

text \<open>
  C28. \<^verbatim>\<open>IsValidSignatureEncoding\<close> never reads outside the signature, and it accepts
  exactly the byte strings of the format described in its comment: a header, two shortest-form
  positive integers with matching length bytes, and one hash type byte, 73 bytes at most.
\<close>

theorem IsValidSignatureEncoding_iff_der:
  "IsValidSignatureEncoding sig = Inr (der_signature sig)"
  by (rule IsValidSignatureEncoding_der)

end
