(* ===== verification/Hash_Functions.thy ===== *)
theory Hash_Functions
  imports Munt_Prelude
begin

text \<open>
  The hash classes of \<^verbatim>\<open>src/src/crypto\<close> that scripts and block data use:
  \<^verbatim>\<open>CSHA256\<close>, \<^verbatim>\<open>CSHA1\<close>, \<^verbatim>\<open>CRIPEMD160\<close> and the
  two compositions \<^verbatim>\<open>CHash256\<close> and \<^verbatim>\<open>CHash160\<close> of
  \<^verbatim>\<open>src/src/hash.h\<close>. A hasher is its chaining state, its 64-byte buffer and its
  64-bit byte counter. The compression functions are unrolled in the source, with the registers
  renamed from call to call and a ring of sixteen message words; here the unrolled calls are a
  fold over the round number in which the registers rotate, with the same ring and the same
  tables. The three classes share the text of \<^verbatim>\<open>Write\<close> and the shape of
  \<^verbatim>\<open>Finalize\<close>, which are written once over the compression function. The portable
  \<^verbatim>\<open>sha256::Transform\<close> is the one modelled; the processor-specific replacements
  compute the same function and are selected at start-up.
\<close>

section \<open>Big-endian words\<close>

definition ReadBE32 :: "byte list \<Rightarrow> u32" where
  "ReadBE32 p = word_of_nat (le_nat (rev (take 4 p)))"

definition WriteBE32 :: "u32 \<Rightarrow> byte list" where
  "WriteBE32 x = rev (le_bytes 4 (unat x))"

definition WriteBE64 :: "u64 \<Rightarrow> byte list" where
  "WriteBE64 x = rev (le_bytes 8 (unat x))"

lemma length_WriteBE [simp]: "length (WriteBE32 x) = 4" "length (WriteBE64 y) = 8"
  by (simp_all add: WriteBE32_def WriteBE64_def)

lemma ReadBE32_WriteBE32 [simp]: "ReadBE32 (WriteBE32 x @ rest) = x"
  using unat_less_2p [of x] by (simp add: ReadBE32_def WriteBE32_def)

section \<open>SHA-256\<close>

definition shr :: "u32 \<Rightarrow> nat \<Rightarrow> u32" where
  "shr x n = drop_bit n x"

definition shl :: "u32 \<Rightarrow> nat \<Rightarrow> u32" where
  "shl x n = push_bit n x"

definition sha256_Ch :: "u32 \<Rightarrow> u32 \<Rightarrow> u32 \<Rightarrow> u32" where
  "sha256_Ch x y z = z XOR (x AND (y XOR z))"

definition sha256_Maj :: "u32 \<Rightarrow> u32 \<Rightarrow> u32 \<Rightarrow> u32" where
  "sha256_Maj x y z = (x AND y) OR (z AND (x OR y))"

definition sha256_Sigma0 :: "u32 \<Rightarrow> u32" where
  "sha256_Sigma0 x = (shr x 2 OR shl x 30) XOR (shr x 13 OR shl x 19) XOR (shr x 22 OR shl x 10)"

definition sha256_Sigma1 :: "u32 \<Rightarrow> u32" where
  "sha256_Sigma1 x = (shr x 6 OR shl x 26) XOR (shr x 11 OR shl x 21) XOR (shr x 25 OR shl x 7)"

definition sha256_sigma0 :: "u32 \<Rightarrow> u32" where
  "sha256_sigma0 x = (shr x 7 OR shl x 25) XOR (shr x 18 OR shl x 14) XOR shr x 3"

definition sha256_sigma1 :: "u32 \<Rightarrow> u32" where
  "sha256_sigma1 x = (shr x 17 OR shl x 15) XOR (shr x 19 OR shl x 13) XOR shr x 10"

type_synonym regs8 = "u32 \<times> u32 \<times> u32 \<times> u32 \<times> u32 \<times> u32 \<times> u32 \<times> u32"

text \<open>
  One round writes \<open>d\<close> and \<open>h\<close>; the next call names the registers
  \<open>h a b c d e f g\<close>, so the result is returned in that order.
\<close>

definition sha256_Round :: "u32 \<Rightarrow> regs8 \<Rightarrow> regs8" where
  "sha256_Round k r =
     (case r of (a, b, c, d, e, f, g, h) \<Rightarrow>
        let t1 = h + sha256_Sigma1 e + sha256_Ch e f g + k;
            t2 = sha256_Sigma0 a + sha256_Maj a b c
        in (t1 + t2, a, b, c, d + t1, e, f, g))"

definition sha256_Initialize :: "u32 list" where
  "sha256_Initialize =
     [0x6a09e667, 0xbb67ae85, 0x3c6ef372, 0xa54ff53a, 0x510e527f, 0x9b05688c, 0x1f83d9ab, 0x5be0cd19]"

definition sha256_K :: "u32 list" where
  "sha256_K = concat
     [[0x428a2f98, 0x71374491, 0xb5c0fbcf, 0xe9b5dba5, 0x3956c25b, 0x59f111f1, 0x923f82a4, 0xab1c5ed5],
      [0xd807aa98, 0x12835b01, 0x243185be, 0x550c7dc3, 0x72be5d74, 0x80deb1fe, 0x9bdc06a7, 0xc19bf174],
      [0xe49b69c1, 0xefbe4786, 0x0fc19dc6, 0x240ca1cc, 0x2de92c6f, 0x4a7484aa, 0x5cb0a9dc, 0x76f988da],
      [0x983e5152, 0xa831c66d, 0xb00327c8, 0xbf597fc7, 0xc6e00bf3, 0xd5a79147, 0x06ca6351, 0x14292967],
      [0x27b70a85, 0x2e1b2138, 0x4d2c6dfc, 0x53380d13, 0x650a7354, 0x766a0abb, 0x81c2c92e, 0x92722c85],
      [0xa2bfe8a1, 0xa81a664b, 0xc24b8b70, 0xc76c51a3, 0xd192e819, 0xd6990624, 0xf40e3585, 0x106aa070],
      [0x19a4c116, 0x1e376c08, 0x2748774c, 0x34b0bcb5, 0x391c0cb3, 0x4ed8aa4a, 0x5b9cca4f, 0x682e6ff3],
      [0x748f82ee, 0x78a5636f, 0x84c87814, 0x8cc70208, 0x90befffa, 0xa4506ceb, 0xbef9a3f7, 0xc67178f2]]"

text \<open>The message word of round \<open>i\<close>, kept in slot \<open>i mod 16\<close> of the ring.\<close>

definition sha256_word :: "byte list \<Rightarrow> nat \<Rightarrow> u32 list \<Rightarrow> u32 list" where
  "sha256_word chunk i w =
     (if i < 16 then w[i := ReadBE32 (drop (4 * i) chunk)]
      else w[i mod 16 := w ! (i mod 16) +
               (sha256_sigma1 (w ! ((i + 14) mod 16)) + w ! ((i + 9) mod 16) +
                sha256_sigma0 (w ! ((i + 1) mod 16)))])"

definition sha256_step :: "byte list \<Rightarrow> nat \<Rightarrow> regs8 \<times> u32 list \<Rightarrow> regs8 \<times> u32 list" where
  "sha256_step chunk i st =
     (let w = sha256_word chunk i (snd st)
      in (sha256_Round (sha256_K ! i + w ! (i mod 16)) (fst st), w))"

definition sha256_Transform :: "u32 list \<Rightarrow> byte list \<Rightarrow> u32 list" where
  "sha256_Transform s chunk =
     (case fst (fold (sha256_step chunk) [0..<64]
             ((s ! 0, s ! 1, s ! 2, s ! 3, s ! 4, s ! 5, s ! 6, s ! 7), replicate 16 0)) of
        (a, b, c, d, e, f, g, h) \<Rightarrow>
          [s ! 0 + a, s ! 1 + b, s ! 2 + c, s ! 3 + d, s ! 4 + e, s ! 5 + f, s ! 6 + g, s ! 7 + h])"

section \<open>SHA-1\<close>

type_synonym regs5 = "u32 \<times> u32 \<times> u32 \<times> u32 \<times> u32"

definition sha1_f1 :: "u32 \<Rightarrow> u32 \<Rightarrow> u32 \<Rightarrow> u32" where
  "sha1_f1 b c d = d XOR (b AND (c XOR d))"

definition sha1_f2 :: "u32 \<Rightarrow> u32 \<Rightarrow> u32 \<Rightarrow> u32" where
  "sha1_f2 b c d = b XOR c XOR d"

definition sha1_f3 :: "u32 \<Rightarrow> u32 \<Rightarrow> u32 \<Rightarrow> u32" where
  "sha1_f3 b c d = (b AND c) OR (d AND (b OR c))"

definition sha1_left :: "u32 \<Rightarrow> u32" where
  "sha1_left x = shl x 1 OR shr x 31"

definition sha1_Round :: "(u32 \<Rightarrow> u32 \<Rightarrow> u32 \<Rightarrow> u32) \<Rightarrow> u32 \<Rightarrow> u32 \<Rightarrow> regs5 \<Rightarrow> regs5" where
  "sha1_Round f k w r =
     (case r of (a, b, c, d, e) \<Rightarrow>
        (e + ((shl a 5 OR shr a 27) + f b c d + k + w), a, shl b 30 OR shr b 2, c, d))"

definition sha1_Initialize :: "u32 list" where
  "sha1_Initialize = [0x67452301, 0xEFCDAB89, 0x98BADCFE, 0x10325476, 0xC3D2E1F0]"

definition sha1_k :: "u32 list" where
  "sha1_k = [0x5A827999, 0x6ED9EBA1, 0x8F1BBCDC, 0xCA62C1D6]"

definition sha1_word :: "byte list \<Rightarrow> nat \<Rightarrow> u32 list \<Rightarrow> u32 list" where
  "sha1_word chunk i w =
     (if i < 16 then w[i := ReadBE32 (drop (4 * i) chunk)]
      else w[i mod 16 := sha1_left (w ! (i mod 16) XOR w ! ((i + 13) mod 16) XOR
               w ! ((i + 8) mod 16) XOR w ! ((i + 2) mod 16))])"

definition sha1_step :: "byte list \<Rightarrow> nat \<Rightarrow> regs5 \<times> u32 list \<Rightarrow> regs5 \<times> u32 list" where
  "sha1_step chunk i st =
     (let w = sha1_word chunk i (snd st)
      in (sha1_Round ([sha1_f1, sha1_f2, sha1_f3, sha1_f2] ! (i div 20)) (sha1_k ! (i div 20))
            (w ! (i mod 16)) (fst st), w))"

definition sha1_Transform :: "u32 list \<Rightarrow> byte list \<Rightarrow> u32 list" where
  "sha1_Transform s chunk =
     (case fst (fold (sha1_step chunk) [0..<80]
             ((s ! 0, s ! 1, s ! 2, s ! 3, s ! 4), replicate 16 0)) of
        (a, b, c, d, e) \<Rightarrow> [s ! 0 + a, s ! 1 + b, s ! 2 + c, s ! 3 + d, s ! 4 + e])"

section \<open>RIPEMD-160\<close>

definition rmd_f1 :: "u32 \<Rightarrow> u32 \<Rightarrow> u32 \<Rightarrow> u32" where
  "rmd_f1 x y z = x XOR y XOR z"

definition rmd_f2 :: "u32 \<Rightarrow> u32 \<Rightarrow> u32 \<Rightarrow> u32" where
  "rmd_f2 x y z = (x AND y) OR (NOT x AND z)"

definition rmd_f3 :: "u32 \<Rightarrow> u32 \<Rightarrow> u32 \<Rightarrow> u32" where
  "rmd_f3 x y z = (x OR NOT y) XOR z"

definition rmd_f4 :: "u32 \<Rightarrow> u32 \<Rightarrow> u32 \<Rightarrow> u32" where
  "rmd_f4 x y z = (x AND z) OR (y AND NOT z)"

definition rmd_f5 :: "u32 \<Rightarrow> u32 \<Rightarrow> u32 \<Rightarrow> u32" where
  "rmd_f5 x y z = x XOR (y OR NOT z)"

definition rmd_rol :: "u32 \<Rightarrow> nat \<Rightarrow> u32" where
  "rmd_rol x i = shl x i OR shr x (32 - i)"

text \<open>A round writes \<open>a\<close> and \<open>c\<close>; the next call names the registers \<open>e a b c d\<close>.\<close>

definition rmd_Round ::
  "(u32 \<Rightarrow> u32 \<Rightarrow> u32 \<Rightarrow> u32) \<Rightarrow> u32 \<Rightarrow> u32 \<Rightarrow> nat \<Rightarrow> regs5 \<Rightarrow> regs5" where
  "rmd_Round f k x r regs =
     (case regs of (a, b, c, d, e) \<Rightarrow>
        (e, rmd_rol (a + f b c d + x + k) r + e, b, rmd_rol c 10, d))"

definition rmd_words :: "nat list" where
  "rmd_words =
     [0, 1, 2, 3, 4, 5, 6, 7, 8, 9, 10, 11, 12, 13, 14, 15,
      7, 4, 13, 1, 10, 6, 15, 3, 12, 0, 9, 5, 2, 14, 11, 8,
      3, 10, 14, 4, 9, 15, 8, 1, 2, 7, 0, 6, 13, 11, 5, 12,
      1, 9, 11, 10, 0, 8, 12, 4, 13, 3, 7, 15, 14, 5, 6, 2,
      4, 0, 5, 9, 7, 12, 2, 10, 14, 1, 3, 8, 11, 6, 15, 13]"

definition rmd_rotations :: "nat list" where
  "rmd_rotations =
     [11, 14, 15, 12, 5, 8, 7, 9, 11, 13, 14, 15, 6, 7, 9, 8,
      7, 6, 8, 13, 11, 9, 7, 15, 7, 12, 15, 9, 11, 7, 13, 12,
      11, 13, 6, 7, 14, 9, 13, 15, 14, 8, 13, 6, 5, 12, 7, 5,
      11, 12, 14, 15, 14, 15, 9, 8, 9, 14, 5, 6, 8, 6, 5, 12,
      9, 15, 5, 11, 6, 8, 13, 12, 5, 12, 13, 14, 11, 8, 5, 6]"

definition rmd_words' :: "nat list" where
  "rmd_words' =
     [5, 14, 7, 0, 9, 2, 11, 4, 13, 6, 15, 8, 1, 10, 3, 12,
      6, 11, 3, 7, 0, 13, 5, 10, 14, 15, 8, 12, 4, 9, 1, 2,
      15, 5, 1, 3, 7, 14, 6, 9, 11, 8, 12, 2, 10, 0, 4, 13,
      8, 6, 4, 1, 3, 11, 15, 0, 5, 12, 2, 13, 9, 7, 10, 14,
      12, 15, 10, 4, 1, 5, 8, 7, 6, 2, 13, 14, 0, 3, 9, 11]"

definition rmd_rotations' :: "nat list" where
  "rmd_rotations' =
     [8, 9, 9, 11, 13, 15, 15, 5, 7, 7, 8, 11, 14, 14, 12, 6,
      9, 13, 15, 7, 12, 8, 9, 11, 7, 7, 12, 7, 6, 15, 13, 11,
      9, 7, 15, 11, 8, 6, 6, 14, 12, 13, 5, 14, 13, 13, 7, 5,
      15, 5, 8, 11, 14, 14, 6, 14, 6, 9, 12, 9, 12, 5, 15, 8,
      8, 5, 12, 9, 12, 5, 14, 6, 8, 13, 6, 5, 15, 13, 11, 11]"

definition rmd_line :: "byte list \<Rightarrow> nat \<Rightarrow> regs5 \<Rightarrow> regs5" where
  "rmd_line chunk i =
     rmd_Round ([rmd_f1, rmd_f2, rmd_f3, rmd_f4, rmd_f5] ! (i div 16))
       ([0, 0x5A827999, 0x6ED9EBA1, 0x8F1BBCDC, 0xA953FD4E] ! (i div 16))
       (ReadLE32 (drop (4 * rmd_words ! i) chunk)) (rmd_rotations ! i)"

definition rmd_line' :: "byte list \<Rightarrow> nat \<Rightarrow> regs5 \<Rightarrow> regs5" where
  "rmd_line' chunk i =
     rmd_Round ([rmd_f5, rmd_f4, rmd_f3, rmd_f2, rmd_f1] ! (i div 16))
       ([0x50A28BE6, 0x5C4DD124, 0x6D703EF3, 0x7A6D76E9, 0] ! (i div 16))
       (ReadLE32 (drop (4 * rmd_words' ! i) chunk)) (rmd_rotations' ! i)"

definition rmd_Initialize :: "u32 list" where
  "rmd_Initialize = [0x67452301, 0xEFCDAB89, 0x98BADCFE, 0x10325476, 0xC3D2E1F0]"

definition rmd_Transform :: "u32 list \<Rightarrow> byte list \<Rightarrow> u32 list" where
  "rmd_Transform s chunk =
     (let r = (s ! 0, s ! 1, s ! 2, s ! 3, s ! 4) in
      case fold (rmd_line chunk) [0..<80] r of (a1, b1, c1, d1, e1) \<Rightarrow>
      case fold (rmd_line' chunk) [0..<80] r of (a2, b2, c2, d2, e2) \<Rightarrow>
        [s ! 1 + c1 + d2, s ! 2 + d1 + e2, s ! 3 + e1 + a2, s ! 4 + a1 + b2, s ! 0 + b1 + c2])"

section \<open>The hasher classes\<close>

record hasher =
  h_s :: "u32 list"
  h_buf :: "byte list"
  h_bytes :: u64

definition memcpy_at :: "byte list \<Rightarrow> nat \<Rightarrow> byte list \<Rightarrow> byte list" where
  "memcpy_at buf off data = take off buf @ data @ drop (off + length data) buf"

text \<open>Full chunks straight from the source; what is left when fewer than 64 bytes remain.\<close>

fun transform_chunks ::
  "(u32 list \<Rightarrow> byte list \<Rightarrow> u32 list) \<Rightarrow> u32 list \<Rightarrow> byte list \<Rightarrow> u32 list \<times> byte list" where
  "transform_chunks transform s data =
     (if length data \<ge> 64 then transform_chunks transform (transform s (take 64 data)) (drop 64 data)
      else (s, data))"

declare transform_chunks.simps [simp del]

definition hash_Write ::
  "(u32 list \<Rightarrow> byte list \<Rightarrow> u32 list) \<Rightarrow> hasher \<Rightarrow> byte list \<Rightarrow> hasher" where
  "hash_Write transform st data =
     (let bufsize = unat (h_bytes st) mod 64;
          fill = bufsize \<noteq> 0 \<and> bufsize + length data \<ge> 64;
          buf' = (if fill then memcpy_at (h_buf st) bufsize (take (64 - bufsize) data) else h_buf st);
          s' = (if fill then transform (h_s st) buf' else h_s st);
          data' = (if fill then drop (64 - bufsize) data else data);
          bufsize' = (if fill then 0 else bufsize);
          r = transform_chunks transform s' data';
          rest = snd r
      in st\<lparr>h_s := fst r,
            h_buf := (if rest \<noteq> [] then memcpy_at buf' bufsize' rest else buf'),
            h_bytes := h_bytes st + word_of_nat (length data)\<rparr>)"

definition hash_pad :: "nat \<Rightarrow> byte list" where
  "hash_pad n = take n (0x80 # replicate 63 0)"

text \<open>
  \<^verbatim>\<open>Finalize\<close>: the padding, the bit length taken before it, and the chaining state as
  bytes. The classes differ in the byte order of the two.
\<close>

definition hash_Finalize ::
  "(u32 list \<Rightarrow> byte list \<Rightarrow> u32 list) \<Rightarrow> (u64 \<Rightarrow> byte list) \<Rightarrow> (u32 \<Rightarrow> byte list) \<Rightarrow>
   hasher \<Rightarrow> byte list" where
  "hash_Finalize transform write64 write32 st =
     (let sizedesc = write64 (push_bit 3 (h_bytes st));
          st1 = hash_Write transform st (hash_pad (1 + (119 - unat (h_bytes st) mod 64) mod 64));
          st2 = hash_Write transform st1 sizedesc
      in concat (map write32 (h_s st2)))"

definition new_hasher :: "u32 list \<Rightarrow> hasher" where
  "new_hasher s = \<lparr>h_s = s, h_buf = replicate 64 0, h_bytes = 0\<rparr>"

definition CSHA256 :: hasher where
  "CSHA256 = new_hasher sha256_Initialize"

definition CSHA256_Write :: "hasher \<Rightarrow> byte list \<Rightarrow> hasher" where
  "CSHA256_Write = hash_Write sha256_Transform"

definition CSHA256_Finalize :: "hasher \<Rightarrow> byte list" where
  "CSHA256_Finalize = hash_Finalize sha256_Transform WriteBE64 WriteBE32"

definition CSHA1 :: hasher where
  "CSHA1 = new_hasher sha1_Initialize"

definition CSHA1_Write :: "hasher \<Rightarrow> byte list \<Rightarrow> hasher" where
  "CSHA1_Write = hash_Write sha1_Transform"

definition CSHA1_Finalize :: "hasher \<Rightarrow> byte list" where
  "CSHA1_Finalize = hash_Finalize sha1_Transform WriteBE64 WriteBE32"

definition CRIPEMD160 :: hasher where
  "CRIPEMD160 = new_hasher rmd_Initialize"

definition CRIPEMD160_Write :: "hasher \<Rightarrow> byte list \<Rightarrow> hasher" where
  "CRIPEMD160_Write = hash_Write rmd_Transform"

definition CRIPEMD160_Finalize :: "hasher \<Rightarrow> byte list" where
  "CRIPEMD160_Finalize = hash_Finalize rmd_Transform WriteLE64 WriteLE32"

definition CHash256_Finalize :: "hasher \<Rightarrow> byte list" where
  "CHash256_Finalize sha = CSHA256_Finalize (CSHA256_Write CSHA256 (CSHA256_Finalize sha))"

definition CHash160_Finalize :: "hasher \<Rightarrow> byte list" where
  "CHash160_Finalize sha = CRIPEMD160_Finalize (CRIPEMD160_Write CRIPEMD160 (CSHA256_Finalize sha))"

text \<open>The one-shot uses.\<close>

definition sha256 :: "byte list \<Rightarrow> byte list" where
  "sha256 data = CSHA256_Finalize (CSHA256_Write CSHA256 data)"

definition sha1 :: "byte list \<Rightarrow> byte list" where
  "sha1 data = CSHA1_Finalize (CSHA1_Write CSHA1 data)"

definition ripemd160 :: "byte list \<Rightarrow> byte list" where
  "ripemd160 data = CRIPEMD160_Finalize (CRIPEMD160_Write CRIPEMD160 data)"

definition hash256 :: "byte list \<Rightarrow> byte list" where
  "hash256 data = CHash256_Finalize (CSHA256_Write CSHA256 data)"

definition hash160 :: "byte list \<Rightarrow> byte list" where
  "hash160 data = CHash160_Finalize (CSHA256_Write CSHA256 data)"

section \<open>Streaming\<close>

text \<open>
  A hasher that has absorbed the message \<open>m\<close>: its chaining state has processed the full
  chunks of \<open>m\<close>, and the front of its buffer holds the remaining bytes. What stands behind
  them in the buffer does not matter.
\<close>

definition absorbed ::
  "(u32 list \<Rightarrow> byte list \<Rightarrow> u32 list) \<Rightarrow> u32 list \<Rightarrow> hasher \<Rightarrow> byte list \<Rightarrow> bool" where
  "absorbed transform init st m \<longleftrightarrow>
     length (h_buf st) = 64 \<and> h_bytes st = word_of_nat (length m) \<and>
     transform_chunks transform init m = (h_s st, take (length m mod 64) (h_buf st))"

lemma transform_chunks_short: "length d < 64 \<Longrightarrow> transform_chunks T s d = (s, d)"
  by (simp add: transform_chunks.simps [of T s d])

lemma transform_chunks_block:
  "length c = 64 \<Longrightarrow> transform_chunks T s (c @ d) = transform_chunks T (T s c) d"
  by (simp add: transform_chunks.simps [of T s "c @ d"])

lemma transform_chunks_append:
  "transform_chunks T s m = (s', r) \<Longrightarrow> transform_chunks T s (m @ d) = transform_chunks T s' (r @ d)"
proof (induction T s m arbitrary: s' r rule: transform_chunks.induct)
  case (1 T s m)
  show ?case
  proof (cases "length m \<ge> 64")
    case True
    from 1(2) True have *: "transform_chunks T (T s (take 64 m)) (drop 64 m) = (s', r)"
      by (simp add: transform_chunks.simps [of T s m])
    have "transform_chunks T s (m @ d) = transform_chunks T (T s (take 64 m)) (drop 64 m @ d)"
      using True by (simp add: transform_chunks.simps [of T s "m @ d"])
    with 1(1) [OF True *] show ?thesis by simp
  next
    case False
    with 1(2) show ?thesis by (simp add: transform_chunks_short)
  qed
qed

lemma transform_chunks_rest_length:
  "transform_chunks T s m = (s', r) \<Longrightarrow> length r = length m mod 64"
proof (induction T s m arbitrary: s' r rule: transform_chunks.induct)
  case (1 T s m)
  show ?case
  proof (cases "length m \<ge> 64")
    case True
    with 1(2) have "transform_chunks T (T s (take 64 m)) (drop 64 m) = (s', r)"
      by (simp add: transform_chunks.simps [of T s m])
    from 1(1) [OF True this] True show ?thesis by (simp add: le_mod_geq)
  next
    case False
    with 1(2) show ?thesis by (auto simp: transform_chunks_short)
  qed
qed

lemma unat_word_mod_64: "unat (word_of_nat n :: u64) mod 64 = n mod 64"
  by (simp add: unat_of_nat mod_mod_cancel)

lemma length_memcpy_at [simp]:
  "off + length d \<le> length b \<Longrightarrow> length (memcpy_at b off d) = length b"
  by (simp add: memcpy_at_def)

lemma take_memcpy_at:
  "off + length d \<le> length b \<Longrightarrow> take (off + length d) (memcpy_at b off d) = take off b @ d"
  by (simp add: memcpy_at_def)

lemma hash_Write_fill:
  assumes "n = unat (h_bytes st) mod 64" and "n \<noteq> 0" and "64 \<le> n + length d"
    and "b = memcpy_at (h_buf st) n (take (64 - n) d)"
    and "transform_chunks T (T (h_s st) b) (drop (64 - n) d) = (s', rest)"
  shows "hash_Write T st d = st\<lparr>h_s := s', h_buf := memcpy_at b 0 rest,
    h_bytes := h_bytes st + word_of_nat (length d)\<rparr>"
proof -
  have nil: "memcpy_at b 0 [] = b" by (simp add: memcpy_at_def)
  show ?thesis
    using assms(2,3,5) unfolding hash_Write_def Let_def assms(1) [symmetric] assms(4) [symmetric]
    by (cases "rest = []") (simp_all add: nil)
qed

lemma hash_Write_no_fill:
  assumes "n = unat (h_bytes st) mod 64" and "\<not> (n \<noteq> 0 \<and> 64 \<le> n + length d)"
    and "transform_chunks T (h_s st) d = (s', rest)"
    and "length (h_buf st) = 64"
  shows "hash_Write T st d = st\<lparr>h_s := s', h_buf := memcpy_at (h_buf st) n rest,
    h_bytes := h_bytes st + word_of_nat (length d)\<rparr>"
proof -
  have nil: "memcpy_at (h_buf st) n [] = h_buf st" by (simp add: memcpy_at_def)
  have fill: "(n \<noteq> 0 \<and> 64 \<le> n + length d) = False" using assms(2) by simp
  show ?thesis
    unfolding hash_Write_def Let_def assms(1) [symmetric] fill if_False assms(3)
    by (simp add: nil)
qed

lemma absorbed_update:
  assumes "transform_chunks T init (m @ d) = (s', take n b @ rest)"
    and "length b = 64" and "n \<le> 64" and "h_bytes st = word_of_nat (length m)"
  shows "absorbed T init (st\<lparr>h_s := s', h_buf := memcpy_at b n rest,
    h_bytes := h_bytes st + word_of_nat (length d)\<rparr>) (m @ d)"
proof -
  have l: "n + length rest = length (m @ d) mod 64"
    using transform_chunks_rest_length [OF assms(1)] assms(2,3) by simp
  then have "n + length rest \<le> 64" by (metis less_imp_le mod_less_divisor zero_less_numeral)
  then have "length (memcpy_at b n rest) = 64"
    and "take (length (m @ d) mod 64) (memcpy_at b n rest) = take n b @ rest"
    using assms(2) take_memcpy_at [of n rest b] l by simp_all
  with assms show ?thesis by (simp add: absorbed_def)
qed

lemma hash_Write_absorbed:
  assumes "absorbed T init st m"
  shows "absorbed T init (hash_Write T st d) (m @ d)"
proof -
  define n where "n = length m mod 64"
  define r where "r = take n (h_buf st)"
  from assms have buf: "length (h_buf st) = 64" and bytes: "h_bytes st = word_of_nat (length m)"
    and tm: "transform_chunks T init m = (h_s st, r)"
    by (simp_all add: absorbed_def r_def n_def)
  have n: "n < 64" "length r = n" by (simp_all add: n_def r_def buf)
  have bs: "n = unat (h_bytes st) mod 64" by (simp add: bytes unat_word_mod_64 n_def)
  note md = transform_chunks_append [OF tm, of d]
  show ?thesis
  proof (cases "n \<noteq> 0 \<and> 64 \<le> n + length d")
    case True
    define b where "b = memcpy_at (h_buf st) n (take (64 - n) d)"
    have d: "length (take (64 - n) d) = 64 - n" using conjunct2 [OF True] by simp
    have b: "b = r @ take (64 - n) d"
      unfolding b_def memcpy_at_def d using n buf by (simp add: r_def)
    then have b64: "length b = 64" using n by (simp only: length_append d)
    obtain s' rest where c: "transform_chunks T (T (h_s st) b) (drop (64 - n) d) = (s', rest)" by fastforce
    have "transform_chunks T init (m @ d) = (s', take 0 b @ rest)"
      using transform_chunks_block [OF b64, of T "h_s st" "drop (64 - n) d"] c by (simp add: md b)
    then show ?thesis
      unfolding hash_Write_fill [OF bs conjunct1 [OF True] conjunct2 [OF True] b_def c]
      by (rule absorbed_update) (simp_all add: b64 bytes)
  next
    case False
    obtain s' rest where c: "transform_chunks T (h_s st) d = (s', rest)" by fastforce
    have "transform_chunks T (h_s st) (r @ d) = (s', r @ rest)"
    proof (cases "n = 0")
      case True
      with n c show ?thesis by simp
    next
      case n0: False
      with False have "n + length d < 64" by simp
      with n c show ?thesis by (simp add: transform_chunks_short)
    qed
    with md have "transform_chunks T init (m @ d) = (s', take n (h_buf st) @ rest)" by (simp add: r_def)
    then show ?thesis
      unfolding hash_Write_no_fill [OF bs False c buf]
      by (rule absorbed_update) (use n in \<open>simp_all add: buf bytes\<close>)
  qed
qed

lemma absorbed_new_hasher: "absorbed T init (new_hasher init) []"
  by (simp add: absorbed_def new_hasher_def transform_chunks_short)

lemma absorbed_writes:
  "absorbed T init st m \<Longrightarrow> absorbed T init (foldl (hash_Write T) st ds) (m @ concat ds)"
proof (induction ds arbitrary: st m)
  case (Cons d ds)
  from Cons.IH [OF hash_Write_absorbed [OF Cons.prems, of d]] show ?case by simp
qed simp

text \<open>The padded message, and the digest of a message with no buffering.\<close>

definition md_padded :: "(u64 \<Rightarrow> byte list) \<Rightarrow> byte list \<Rightarrow> byte list" where
  "md_padded write64 m =
     m @ hash_pad (1 + (119 - length m mod 64) mod 64) @ write64 (push_bit 3 (word_of_nat (length m)))"

definition md_digest ::
  "(u32 list \<Rightarrow> byte list \<Rightarrow> u32 list) \<Rightarrow> (u64 \<Rightarrow> byte list) \<Rightarrow> (u32 \<Rightarrow> byte list) \<Rightarrow>
   u32 list \<Rightarrow> byte list \<Rightarrow> byte list" where
  "md_digest transform write64 write32 init m =
     concat (map write32 (fst (transform_chunks transform init (md_padded write64 m))))"

lemma length_hash_pad [simp]: "n \<le> 64 \<Longrightarrow> length (hash_pad n) = n"
  by (simp add: hash_pad_def)

lemma md_padded_length:
  assumes "\<And>x. length (write64 x) = 8"
  shows "64 dvd length (md_padded write64 m)"
proof -
  define k where "k = (119 - length m mod 64) mod 64"
  have "k < 64" by (simp add: k_def)
  then have l: "length (md_padded write64 m) = length m + (1 + k) + 8"
    by (simp add: md_padded_def assms k_def [symmetric])
  have "(length m mod 64 + (9 + (119 - length m mod 64) mod 64)) mod 64 = 0"
  proof -
    have "(length m mod 64 + (9 + (119 - length m mod 64) mod 64)) mod 64 =
        (length m mod 64 + 9 + (119 - length m mod 64)) mod 64"
      by (simp add: mod_add_right_eq add.assoc [symmetric])
    also have "length m mod 64 + 9 + (119 - length m mod 64) = 128"
      using mod_less_divisor [of 64 "length m"] by linarith
    finally show ?thesis by simp
  qed
  then have "(length m + (9 + k)) mod 64 = 0" by (simp add: k_def mod_add_left_eq)
  then show ?thesis by (simp add: l dvd_eq_mod_eq_0 ac_simps)
qed

lemma hash_Finalize_absorbed:
  assumes "absorbed T init st m"
  shows "hash_Finalize T write64 write32 st = md_digest T write64 write32 init m"
proof -
  define p where "p = hash_pad (1 + (119 - length m mod 64) mod 64)"
  from assms have bytes: "h_bytes st = word_of_nat (length m)" by (simp add: absorbed_def)
  then have mod: "unat (h_bytes st) mod 64 = length m mod 64" by (simp add: unat_word_mod_64)
  define z where "z = write64 (push_bit 3 (h_bytes st))"
  have "absorbed T init (hash_Write T (hash_Write T st p) z) ((m @ p) @ z)"
    by (intro hash_Write_absorbed assms)
  then have "h_s (hash_Write T (hash_Write T st p) z) = fst (transform_chunks T init (md_padded write64 m))"
    by (simp add: absorbed_def md_padded_def p_def z_def bytes)
  then show ?thesis
    unfolding hash_Finalize_def md_digest_def Let_def mod p_def [symmetric] z_def [symmetric] by simp
qed

lemma streaming:
  "hash_Finalize T write64 write32 (foldl (hash_Write T) (new_hasher init) ds) =
     md_digest T write64 write32 init (concat ds)"
  using hash_Finalize_absorbed [OF absorbed_writes [OF absorbed_new_hasher, of T init ds]] by simp

lemma one_shot:
  "hash_Finalize T write64 write32 (hash_Write T (new_hasher init) d) =
     md_digest T write64 write32 init d"
  using streaming [of T write64 write32 init "[d]"] by simp

section \<open>The interface of a hash class\<close>

text \<open>
  What the callers of a hash class rely on: only the concatenation of the written pieces matters,
  and the digest has a fixed size.
\<close>

locale hash_class =
  fixes fresh :: hasher and absorb :: "hasher \<Rightarrow> byte list \<Rightarrow> hasher"
    and final :: "hasher \<Rightarrow> byte list" and output_size :: nat
  assumes writes: "final (foldl absorb fresh ds) = final (absorb fresh (concat ds))"
    and size: "length (final (absorb fresh d)) = output_size"
begin

lemma write_write: "final (absorb (absorb fresh a) b) = final (absorb fresh (a @ b))"
  using writes [of "[a, b]"] by simp

lemma final_size: "length (final (foldl absorb fresh ds)) = output_size"
  by (simp add: writes size)

end

lemma transform_chunks_state_length:
  "(\<And>s c. length (T s c) = n) \<Longrightarrow> length s = n \<Longrightarrow> length (fst (transform_chunks T s d)) = n"
proof (induction T s d rule: transform_chunks.induct)
  case (1 T s d)
  then show ?case
    by (cases "64 \<le> length d") (simp_all add: transform_chunks.simps [of T s d])
qed

lemma md_digest_length:
  assumes "\<And>s c. length (T s c) = n" and "length init = n" and "\<And>x. length (write32 x) = 4"
  shows "length (md_digest T write64 write32 init d) = 4 * n"
proof -
  have "length (concat (map write32 ws)) = 4 * length ws" for ws
    by (induction ws) (simp_all add: assms(3))
  then show ?thesis
    using transform_chunks_state_length [OF assms(1,2)] by (simp add: md_digest_def)
qed

lemma Transform_length:
  "length (sha256_Transform s c) = 8" "length (sha1_Transform s c) = 5" "length (rmd_Transform s c) = 5"
  by (simp_all add: sha256_Transform_def sha1_Transform_def rmd_Transform_def Let_def split: prod.splits)

lemmas hasher_defs =
  CSHA256_Finalize_def CSHA256_Write_def CSHA256_def CSHA1_Finalize_def CSHA1_Write_def CSHA1_def
  CRIPEMD160_Finalize_def CRIPEMD160_Write_def CRIPEMD160_def

interpretation sha256_class: hash_class CSHA256 CSHA256_Write CSHA256_Finalize 32
  using md_digest_length [of sha256_Transform 8 sha256_Initialize WriteBE32 WriteBE64]
  by unfold_locales (simp_all add: hasher_defs streaming one_shot Transform_length sha256_Initialize_def)

interpretation sha1_class: hash_class CSHA1 CSHA1_Write CSHA1_Finalize 20
  using md_digest_length [of sha1_Transform 5 sha1_Initialize WriteBE32 WriteBE64]
  by unfold_locales (simp_all add: hasher_defs streaming one_shot Transform_length sha1_Initialize_def)

interpretation ripemd160_class: hash_class CRIPEMD160 CRIPEMD160_Write CRIPEMD160_Finalize 20
  using md_digest_length [of rmd_Transform 5 rmd_Initialize WriteLE32 WriteLE64]
  by unfold_locales (simp_all add: hasher_defs streaming one_shot Transform_length rmd_Initialize_def)

interpretation hash256_class: hash_class CSHA256 CSHA256_Write CHash256_Finalize 32
  by unfold_locales (simp_all add: CHash256_Finalize_def sha256_class.writes sha256_class.size)

interpretation hash160_class: hash_class CSHA256 CSHA256_Write CHash160_Finalize 20
  by unfold_locales (simp_all add: CHash160_Finalize_def sha256_class.writes ripemd160_class.size)

lemma digest_sizes [simp]:
  "length (sha256 d) = 32" "length (sha1 d) = 20" "length (ripemd160 d) = 20"
  "length (hash256 d) = 32" "length (hash160 d) = 20"
  by (simp_all add: sha256_def sha1_def ripemd160_def hash256_def hash160_def sha256_class.size
      sha1_class.size ripemd160_class.size hash256_class.size hash160_class.size)

section \<open>SHA-256 against its standard\<close>

text \<open>
  FIPS 180-4: the logical functions with rotations, the message schedule as a recurrence over all
  64 words, and the compression of one block.
\<close>

definition fips_Ch :: "u32 \<Rightarrow> u32 \<Rightarrow> u32 \<Rightarrow> u32" where
  "fips_Ch x y z = (x AND y) XOR (NOT x AND z)"

definition fips_Maj :: "u32 \<Rightarrow> u32 \<Rightarrow> u32 \<Rightarrow> u32" where
  "fips_Maj x y z = (x AND y) XOR (x AND z) XOR (y AND z)"

definition fips_rot3 :: "nat \<Rightarrow> nat \<Rightarrow> nat \<Rightarrow> u32 \<Rightarrow> u32" where
  "fips_rot3 i j k x = word_rotr i x XOR word_rotr j x XOR word_rotr k x"

definition fips_rot2 :: "nat \<Rightarrow> nat \<Rightarrow> nat \<Rightarrow> u32 \<Rightarrow> u32" where
  "fips_rot2 i j k x = word_rotr i x XOR word_rotr j x XOR drop_bit k x"

fun fips_W :: "byte list \<Rightarrow> nat \<Rightarrow> u32" where
  "fips_W block t =
     (if t < 16 then ReadBE32 (drop (4 * t) block)
      else fips_rot2 17 19 10 (fips_W block (t - 2)) + fips_W block (t - 7) +
           fips_rot2 7 18 3 (fips_W block (t - 15)) + fips_W block (t - 16))"

declare fips_W.simps [simp del]

definition fips_round :: "byte list \<Rightarrow> nat \<Rightarrow> regs8 \<Rightarrow> regs8" where
  "fips_round block t r =
     (case r of (a, b, c, d, e, f, g, h) \<Rightarrow>
        let T1 = h + fips_rot3 6 11 25 e + fips_Ch e f g + sha256_K ! t + fips_W block t;
            T2 = fips_rot3 2 13 22 a + fips_Maj a b c
        in (T1 + T2, a, b, c, d + T1, e, f, g))"

definition fips_compress :: "u32 list \<Rightarrow> byte list \<Rightarrow> u32 list" where
  "fips_compress H block =
     (case fold (fips_round block) [0..<64] (H ! 0, H ! 1, H ! 2, H ! 3, H ! 4, H ! 5, H ! 6, H ! 7) of
        (a, b, c, d, e, f, g, h) \<Rightarrow>
          [H ! 0 + a, H ! 1 + b, H ! 2 + c, H ! 3 + d, H ! 4 + e, H ! 5 + f, H ! 6 + g, H ! 7 + h])"

definition fips_sha256 :: "byte list \<Rightarrow> byte list" where
  "fips_sha256 = md_digest fips_compress WriteBE64 WriteBE32 sha256_Initialize"

lemma shift_or_rotr:
  assumes "n < 32" "k = 32 - n"
  shows "shr x n OR shl x k = word_rotr n x"
proof (rule bit_word_eqI)
  fix i assume i: "i < LENGTH(32)"
  show "bit (shr x n OR shl x k) i = bit (word_rotr n x) i"
  proof (cases "n + i < 32")
    case True
    then have "\<not> k \<le> i" using assms by simp
    with True i show ?thesis
      by (simp add: shr_def shl_def bit_simps add.commute [of i n])
  next
    case False
    then have "(n + i) mod 32 = i - k" using assms i by (simp add: le_mod_geq)
    moreover have "\<not> bit x (n + i)" using False bit_imp_le_length [of x "n + i"] by auto
    ultimately show ?thesis
      using False assms i by (auto simp: shr_def shl_def bit_simps add.commute [of i n])
  qed
qed

lemma sha256_functions:
  "sha256_Ch x y z = fips_Ch x y z" "sha256_Maj x y z = fips_Maj x y z"
  "sha256_Sigma0 = fips_rot3 2 13 22" "sha256_Sigma1 = fips_rot3 6 11 25"
  "sha256_sigma0 = fips_rot2 7 18 3" "sha256_sigma1 = fips_rot2 17 19 10"
proof -
  show "sha256_Ch x y z = fips_Ch x y z"
    by (rule bit_word_eqI) (auto simp: sha256_Ch_def fips_Ch_def bit_simps)
  show "sha256_Maj x y z = fips_Maj x y z"
    by (rule bit_word_eqI) (auto simp: sha256_Maj_def fips_Maj_def bit_simps)
qed (simp_all add: fun_eq_iff sha256_Sigma0_def sha256_Sigma1_def sha256_sigma0_def sha256_sigma1_def
    fips_rot3_def fips_rot2_def shift_or_rotr, simp_all add: shr_def)

text \<open>After \<open>i\<close> rounds the ring holds the last sixteen words of the schedule.\<close>

definition ring_holds :: "byte list \<Rightarrow> nat \<Rightarrow> u32 list \<Rightarrow> bool" where
  "ring_holds block i w \<longleftrightarrow> length w = 16 \<and> (\<forall>t. t < i \<and> i \<le> t + 16 \<longrightarrow> w ! (t mod 16) = fips_W block t)"

lemma mod_16_distinct:
  assumes "t < i" and "i < t + 16"
  shows "t mod 16 \<noteq> i mod (16 :: nat)"
proof
  assume "t mod 16 = i mod 16"
  then have "16 dvd i - t" using assms(1) mod_eq_dvd_iff_nat [of t i 16] by simp
  then have "16 \<le> i - t" using assms(1) by (intro dvd_imp_le) simp_all
  with assms(2) show False by linarith
qed

lemma mod_16_back: "16 \<le> i \<Longrightarrow> j + k = 16 \<Longrightarrow> (i + j) mod 16 = (i - k) mod (16 :: nat)"
  using mod_add_self2 [of "i - k" 16] by (metis Nat.add_diff_assoc2 add.commute add_diff_cancel_right' le_add2 le_trans)

lemma ring_step:
  assumes "ring_holds block i w"
  shows "ring_holds block (Suc i) (sha256_word block i w)"
    and "sha256_word block i w ! (i mod 16) = fips_W block i"
proof -
  have l: "length w = 16" and at: "\<And>t. t < i \<Longrightarrow> i \<le> t + 16 \<Longrightarrow> w ! (t mod 16) = fips_W block t"
    using assms by (auto simp: ring_holds_def)
  have word: "sha256_word block i w = w[i mod 16 := fips_W block i]"
  proof (cases "i < 16")
    case True
    then show ?thesis by (simp add: sha256_word_def fips_W.simps [of block i])
  next
    case False
    then have eqs: "(i + 14) mod 16 = (i - 2) mod 16" "(i + 9) mod 16 = (i - 7) mod 16"
      "(i + 1) mod 16 = (i - 15) mod 16" "i mod 16 = (i - 16) mod 16"
      using mod_16_back [of i] by (simp_all add: le_mod_geq)
    have "w ! ((i + 14) mod 16) = fips_W block (i - 2)" "w ! ((i + 9) mod 16) = fips_W block (i - 7)"
      "w ! ((i + 1) mod 16) = fips_W block (i - 15)" "w ! (i mod 16) = fips_W block (i - 16)"
      unfolding eqs using False by (auto intro: at)
    with False show ?thesis
      by (simp add: sha256_word_def sha256_functions fips_W.simps [of block i] ac_simps)
  qed
  then show "sha256_word block i w ! (i mod 16) = fips_W block i" by (simp add: l)
  show "ring_holds block (Suc i) (sha256_word block i w)"
    unfolding ring_holds_def word
  proof (intro conjI allI impI)
    fix t assume t: "t < Suc i \<and> Suc i \<le> t + 16"
    show "w[i mod 16 := fips_W block i] ! (t mod 16) = fips_W block t"
    proof (cases "t = i")
      case False
      with t have "t mod 16 \<noteq> i mod 16" by (intro mod_16_distinct) simp_all
      with False t show ?thesis by (simp add: at)
    qed (simp add: l)
  qed (simp add: l)
qed

lemma sha256_rounds:
  "\<exists>w. fold (sha256_step block) [0..<i] (r, replicate 16 0) = (fold (fips_round block) [0..<i] r, w) \<and>
     ring_holds block i w"
proof (induction i)
  case 0
  show ?case by (simp add: ring_holds_def)
next
  case (Suc i)
  then obtain w where w: "fold (sha256_step block) [0..<i] (r, replicate 16 0) =
      (fold (fips_round block) [0..<i] r, w)" "ring_holds block i w" by blast
  have "sha256_Round (sha256_K ! i + fips_W block i) q = fips_round block i q" for q
    by (cases q) (simp add: sha256_Round_def fips_round_def sha256_functions Let_def ac_simps)
  then have "sha256_step block i (q, w) = (fips_round block i q, sha256_word block i w)" for q
    by (simp add: sha256_step_def Let_def ring_step(2) [OF w(2)])
  with ring_step(1) [OF w(2)] w(1) show ?case by simp
qed

lemma sha256_Transform_fips: "sha256_Transform = fips_compress"
proof (intro ext)
  fix s block
  obtain w where "fold (sha256_step block) [0..<64]
      ((s ! 0, s ! 1, s ! 2, s ! 3, s ! 4, s ! 5, s ! 6, s ! 7), replicate 16 0) =
    (fold (fips_round block) [0..<64] (s ! 0, s ! 1, s ! 2, s ! 3, s ! 4, s ! 5, s ! 6, s ! 7), w)"
    using sha256_rounds by blast
  then show "sha256_Transform s block = fips_compress s block"
    unfolding sha256_Transform_def fips_compress_def by simp
qed

text \<open>
  The constants and the padding of the standard: the initial state holds the first 32 bits of the fractional
  parts of the square roots of the first eight primes, the round constants those of the cube roots of the
  first 64, with the integer parts of the roots given here; and the padding is one bit, zeros up to eight
  bytes before the end of a block, and the length in bits.
\<close>

definition prime_square_roots :: "(nat \<times> nat) list" where
  "prime_square_roots = [(2, 1), (3, 1), (5, 2), (7, 2), (11, 3), (13, 3), (17, 4), (19, 4)]"

definition prime_cube_roots :: "(nat \<times> nat) list" where
  "prime_cube_roots =
     [(2, 1), (3, 1), (5, 1), (7, 1), (11, 2), (13, 2), (17, 2), (19, 2), (23, 2), (29, 3), (31, 3), (37, 3),
      (41, 3), (43, 3), (47, 3), (53, 3), (59, 3), (61, 3), (67, 4), (71, 4), (73, 4), (79, 4), (83, 4), (89,
      4), (97, 4), (101, 4), (103, 4), (107, 4), (109, 4), (113, 4), (127, 5), (131, 5), (137, 5), (139, 5),
      (149, 5), (151, 5), (157, 5), (163, 5), (167, 5), (173, 5), (179, 5), (181, 5), (191, 5), (193, 5), (197,
      5), (199, 5), (211, 5), (223, 6), (227, 6), (229, 6), (233, 6), (239, 6), (241, 6), (251, 6), (257, 6),
      (263, 6), (269, 6), (271, 6), (277, 6), (281, 6), (283, 6), (293, 6), (307, 6), (311, 6)]"

definition root_fraction :: "nat \<Rightarrow> nat \<times> nat \<Rightarrow> u32 \<Rightarrow> bool" where
  "root_fraction n p k \<longleftrightarrow>
     (snd p * 2 ^ 32 + unat k) ^ n \<le> fst p * 2 ^ (32 * n) \<and> fst p * 2 ^ (32 * n) < (snd p * 2 ^ 32 + unat k + 1) ^ n"

lemma sha256_initial_state: "list_all2 (root_fraction 2) prime_square_roots sha256_Initialize"
  by (simp add: prime_square_roots_def sha256_Initialize_def root_fraction_def)

lemma sha256_round_constants: "list_all2 (root_fraction 3) prime_cube_roots sha256_K"
  by (simp add: prime_cube_roots_def sha256_K_def root_fraction_def)

lemma fips_padding:
  "\<exists>k < 64. md_padded write64 m = m @ 0x80 # replicate k 0 @ write64 (push_bit 3 (word_of_nat (length m))) \<and>
     (length m + 1 + k) mod 64 = 56"
proof (intro exI conjI)
  let ?k = "(119 - length m mod 64) mod 64"
  show "?k < 64" by simp
  show "md_padded write64 m = m @ 0x80 # replicate ?k 0 @ write64 (push_bit 3 (word_of_nat (length m)))"
    by (simp add: md_padded_def hash_pad_def)
  define q r where "q = length m div 64" and "r = length m mod 64"
  have l: "length m = 64 * q + r" "r < 64" by (simp_all add: q_def r_def)
  have "?k = (if r \<le> 55 then 55 - r else 119 - r)" using l(2) unfolding r_def [symmetric] by (simp add: le_mod_geq)
  then have "length m + 1 + ?k = 64 * (if r \<le> 55 then q else q + 1) + 56" using l by (simp split: if_splits)
  then show "(length m + 1 + ?k) mod 64 = 56" by simp
qed

text \<open>
  C4. However the data is cut into pieces, \<^verbatim>\<open>CSHA256\<close> with its buffer, its unrolled
  rounds and its ring of sixteen message words computes the SHA-256 digest of the standard: the
  padded message compressed block by block with the 64-word schedule. The constants, the initial state and the
  padding, which both sides share, are those of the standard by the lemmas above.
\<close>

theorem CSHA256_streaming:
  "CSHA256_Finalize (foldl CSHA256_Write CSHA256 pieces) = fips_sha256 (concat pieces)"
  by (simp add: CSHA256_Finalize_def CSHA256_Write_def CSHA256_def fips_sha256_def streaming
      sha256_Transform_fips)

end
