(* ===== verification/Script_Interp.thy ===== *)
theory Script_Interp
  imports Sig_Encoding Hash_Functions
begin

text \<open>
  \<^verbatim>\<open>EvalScript\<close> of \<^verbatim>\<open>src/src/script/interpreter.cpp\<close>. The main stack and
  the alternative stack are vectors with the top at the end. Every opcode is a function of its
  own; those that only touch the main stack take and return it, the others the whole interpreter
  state. A function returns \<open>Inl (Err e)\<close> where the source returns with
  \<^verbatim>\<open>set_error(serror, e)\<close>, and \<open>Inl (Exn e)\<close> where it throws: an
  out-of-range \<^verbatim>\<open>stacktop\<close>, a \<^verbatim>\<open>popstack\<close> of an empty stack, a
  malformed number, a failed assertion. The signature, lock time and sequence checks are the
  virtual methods of \<^verbatim>\<open>BaseSignatureChecker\<close> and come with the record
  \<open>checker\<close>.
\<close>

section \<open>State and helpers\<close>

record checker =
  CheckSig :: "valtype \<Rightarrow> valtype \<Rightarrow> cscript \<Rightarrow> SigVersion \<Rightarrow> bool"
  CheckLockTime :: "int \<Rightarrow> bool"
  CheckSequence :: "int \<Rightarrow> bool"
  CheckLowS :: "valtype \<Rightarrow> bool"

text \<open>
  The methods of the base class reject everything. The low-S test is a static method of
  \<^verbatim>\<open>CPubKey\<close>, passed along with the checker.
\<close>

definition BaseSignatureChecker :: "(valtype \<Rightarrow> bool) \<Rightarrow> checker" where
  "BaseSignatureChecker lowS =
     \<lparr>CheckSig = (\<lambda>_ _ _ _. False), CheckLockTime = (\<lambda>_. False), CheckSequence = (\<lambda>_. False),
      CheckLowS = lowS\<rparr>"

record interp =
  stack :: "valtype list"
  altstack :: "valtype list"
  vfExec :: "bool list"
  pc :: nat
  pbegincodehash :: nat
  nOpCount :: int

type_synonym stack_op = "valtype list \<Rightarrow> failure + valtype list"

definition stacktop :: "valtype list \<Rightarrow> nat \<Rightarrow> failure + valtype" where
  "stacktop s k = throws (from_back s k)"

definition popstack :: stack_op where
  "popstack s = throws (pop_back s)"

definition size_at_least :: "valtype list \<Rightarrow> nat \<Rightarrow> failure + unit" where
  "size_at_least s n = require (\<not> length s < n) SCRIPT_ERR_INVALID_STACK_OPERATION"

definition vchFalse :: valtype where
  "vchFalse = []"

definition vchTrue :: valtype where
  "vchTrue = [1]"

definition vch_bool :: "bool \<Rightarrow> valtype" where
  "vch_bool b = (if b then vchTrue else vchFalse)"

text \<open>\<^verbatim>\<open>swap(stacktop(-j), stacktop(-k))\<close>.\<close>

definition swap_top :: "nat \<Rightarrow> nat \<Rightarrow> stack_op" where
  "swap_top j k s =
     bind_e (stacktop s j) (\<lambda>x. bind_e (stacktop s k) (\<lambda>y.
       Inr (s[length s - j := y, length s - k := x])))"

text \<open>\<^verbatim>\<open>stack.erase(stack.end()-j, stack.end()-k)\<close> and \<^verbatim>\<open>stack.insert(stack.end()-j, x)\<close>.\<close>

definition erase_top :: "nat \<Rightarrow> nat \<Rightarrow> stack_op" where
  "erase_top j k s =
     (if k \<le> j \<and> j \<le> length s then Inr (take (length s - j) s @ drop (length s - k) s)
      else Inl (Exn OutOfRange))"

definition insert_top :: "nat \<Rightarrow> valtype \<Rightarrow> stack_op" where
  "insert_top j x s =
     (if j \<le> length s then Inr (take (length s - j) s @ [x] @ drop (length s - j) s)
      else Inl (Exn OutOfRange))"

definition script_num :: "bool \<Rightarrow> valtype \<Rightarrow> failure + int" where
  "script_num fRequireMinimal vch = throws (CScriptNum vch fRequireMinimal nDefaultMaxNumSize)"

section \<open>Stack operations\<close>

definition op_push_small :: "nat \<Rightarrow> stack_op" where
  "op_push_small opcode s = Inr (s @ [getvch (int opcode - (int OP_1 - 1))])"

definition op_VERIFY :: stack_op where
  "op_VERIFY s =
     bind_e (size_at_least s 1) (\<lambda>_. bind_e (stacktop s 1) (\<lambda>vch.
       if CastToBool vch then popstack s else Inl (Err SCRIPT_ERR_VERIFY)))"

definition op_2DROP :: stack_op where
  "op_2DROP s = bind_e (size_at_least s 2) (\<lambda>_. bind_e (popstack s) popstack)"

definition op_2DUP :: stack_op where
  "op_2DUP s =
     bind_e (size_at_least s 2) (\<lambda>_. bind_e (stacktop s 2) (\<lambda>vch1. bind_e (stacktop s 1) (\<lambda>vch2.
       Inr (s @ [vch1] @ [vch2]))))"

definition op_3DUP :: stack_op where
  "op_3DUP s =
     bind_e (size_at_least s 3) (\<lambda>_. bind_e (stacktop s 3) (\<lambda>vch1. bind_e (stacktop s 2) (\<lambda>vch2.
       bind_e (stacktop s 1) (\<lambda>vch3. Inr (s @ [vch1] @ [vch2] @ [vch3])))))"

definition op_2OVER :: stack_op where
  "op_2OVER s =
     bind_e (size_at_least s 4) (\<lambda>_. bind_e (stacktop s 4) (\<lambda>vch1. bind_e (stacktop s 3) (\<lambda>vch2.
       Inr (s @ [vch1] @ [vch2]))))"

definition op_2ROT :: stack_op where
  "op_2ROT s =
     bind_e (size_at_least s 6) (\<lambda>_. bind_e (stacktop s 6) (\<lambda>vch1. bind_e (stacktop s 5) (\<lambda>vch2.
       bind_e (erase_top 6 4 s) (\<lambda>s'. Inr (s' @ [vch1] @ [vch2])))))"

definition op_2SWAP :: stack_op where
  "op_2SWAP s = bind_e (size_at_least s 4) (\<lambda>_. bind_e (swap_top 4 2 s) (swap_top 3 1))"

definition op_IFDUP :: stack_op where
  "op_IFDUP s =
     bind_e (size_at_least s 1) (\<lambda>_. bind_e (stacktop s 1) (\<lambda>vch.
       Inr (if CastToBool vch then s @ [vch] else s)))"

definition op_DEPTH :: stack_op where
  "op_DEPTH s = Inr (s @ [getvch (int (length s))])"

definition op_DROP :: stack_op where
  "op_DROP s = bind_e (size_at_least s 1) (\<lambda>_. popstack s)"

definition op_DUP :: stack_op where
  "op_DUP s = bind_e (size_at_least s 1) (\<lambda>_. bind_e (stacktop s 1) (\<lambda>vch. Inr (s @ [vch])))"

definition op_NIP :: stack_op where
  "op_NIP s = bind_e (size_at_least s 2) (\<lambda>_. erase_top 2 1 s)"

definition op_OVER :: stack_op where
  "op_OVER s = bind_e (size_at_least s 2) (\<lambda>_. bind_e (stacktop s 2) (\<lambda>vch. Inr (s @ [vch])))"

text \<open>The access to the element \<open>n\<close> places below the top, once the number is popped.\<close>

definition pick_roll_at :: "nat \<Rightarrow> int \<Rightarrow> stack_op" where
  "pick_roll_at opcode n s =
     (if n < 0 \<or> n \<ge> int (length s) then Inl (Err SCRIPT_ERR_INVALID_STACK_OPERATION)
      else bind_e (stacktop s (nat n + 1)) (\<lambda>vch.
        bind_e (if opcode = OP_ROLL then erase_top (nat n + 1) (nat n) s else Inr s) (\<lambda>s.
          Inr (s @ [vch]))))"

definition op_PICK_ROLL :: "nat \<Rightarrow> bool \<Rightarrow> stack_op" where
  "op_PICK_ROLL opcode fRequireMinimal s =
     bind_e (size_at_least s 2) (\<lambda>_. bind_e (stacktop s 1) (\<lambda>top.
     bind_e (script_num fRequireMinimal top) (\<lambda>bn.
     bind_e (popstack s) (pick_roll_at opcode (getint bn)))))"

definition op_ROT :: stack_op where
  "op_ROT s = bind_e (size_at_least s 3) (\<lambda>_. bind_e (swap_top 3 2 s) (swap_top 2 1))"

definition op_SWAP :: stack_op where
  "op_SWAP s = bind_e (size_at_least s 2) (\<lambda>_. swap_top 2 1 s)"

definition op_TUCK :: stack_op where
  "op_TUCK s =
     bind_e (size_at_least s 2) (\<lambda>_. bind_e (stacktop s 1) (\<lambda>vch. insert_top 2 vch s))"

definition op_SIZE :: stack_op where
  "op_SIZE s =
     bind_e (size_at_least s 1) (\<lambda>_. bind_e (stacktop s 1) (\<lambda>vch.
       Inr (s @ [getvch (int (length vch))])))"

section \<open>Comparison, arithmetic, hashing\<close>

definition op_EQUAL :: "nat \<Rightarrow> stack_op" where
  "op_EQUAL opcode s =
     bind_e (size_at_least s 2) (\<lambda>_. bind_e (stacktop s 2) (\<lambda>vch1. bind_e (stacktop s 1) (\<lambda>vch2.
       let fEqual = (vch1 = vch2) in
       bind_e (popstack s) (\<lambda>s. bind_e (popstack s) (\<lambda>s.
       let s = s @ [vch_bool fEqual] in
       if opcode = OP_EQUALVERIFY then
         (if fEqual then popstack s else Inl (Err SCRIPT_ERR_EQUALVERIFY))
       else Inr s)))))"

definition unary_num :: "nat \<Rightarrow> int \<Rightarrow> failure + int" where
  "unary_num opcode bn =
     (if opcode = OP_1ADD then throws (num_plus_assign bn 1)
      else if opcode = OP_1SUB then throws (num_minus_assign bn 1)
      else if opcode = OP_NEGATE then throws (num_neg bn)
      else if opcode = OP_ABS then (if bn < 0 then throws (num_neg bn) else Inr bn)
      else if opcode = OP_NOT then Inr (of_bool (bn = 0))
      else if opcode = OP_0NOTEQUAL then Inr (of_bool (bn \<noteq> 0))
      else Inl (Exn AssertFail))"

definition op_unary :: "nat \<Rightarrow> bool \<Rightarrow> stack_op" where
  "op_unary opcode fRequireMinimal s =
     bind_e (size_at_least s 1) (\<lambda>_. bind_e (stacktop s 1) (\<lambda>top.
     bind_e (script_num fRequireMinimal top) (\<lambda>bn. bind_e (unary_num opcode bn) (\<lambda>bn.
     bind_e (popstack s) (\<lambda>s. Inr (s @ [getvch bn]))))))"

definition binary_num :: "nat \<Rightarrow> int \<Rightarrow> int \<Rightarrow> failure + int" where
  "binary_num opcode bn1 bn2 =
     (if opcode = OP_ADD then Inr (num_plus bn1 bn2)
      else if opcode = OP_SUB then Inr (num_minus bn1 bn2)
      else if opcode = OP_BOOLAND then Inr (of_bool (bn1 \<noteq> 0 \<and> bn2 \<noteq> 0))
      else if opcode = OP_BOOLOR then Inr (of_bool (bn1 \<noteq> 0 \<or> bn2 \<noteq> 0))
      else if opcode = OP_NUMEQUAL then Inr (of_bool (bn1 = bn2))
      else if opcode = OP_NUMEQUALVERIFY then Inr (of_bool (bn1 = bn2))
      else if opcode = OP_NUMNOTEQUAL then Inr (of_bool (bn1 \<noteq> bn2))
      else if opcode = OP_LESSTHAN then Inr (of_bool (bn1 < bn2))
      else if opcode = OP_GREATERTHAN then Inr (of_bool (bn1 > bn2))
      else if opcode = OP_LESSTHANOREQUAL then Inr (of_bool (bn1 \<le> bn2))
      else if opcode = OP_GREATERTHANOREQUAL then Inr (of_bool (bn1 \<ge> bn2))
      else if opcode = OP_MIN then Inr (if bn1 < bn2 then bn1 else bn2)
      else if opcode = OP_MAX then Inr (if bn1 > bn2 then bn1 else bn2)
      else Inl (Exn AssertFail))"

definition op_binary :: "nat \<Rightarrow> bool \<Rightarrow> stack_op" where
  "op_binary opcode fRequireMinimal s =
     bind_e (size_at_least s 2) (\<lambda>_. bind_e (stacktop s 2) (\<lambda>x1.
     bind_e (script_num fRequireMinimal x1) (\<lambda>bn1. bind_e (stacktop s 1) (\<lambda>x2.
     bind_e (script_num fRequireMinimal x2) (\<lambda>bn2. bind_e (binary_num opcode bn1 bn2) (\<lambda>bn.
     bind_e (popstack s) (\<lambda>s. bind_e (popstack s) (\<lambda>s.
     let s = s @ [getvch bn] in
     if opcode = OP_NUMEQUALVERIFY then
       bind_e (stacktop s 1) (\<lambda>top.
         if CastToBool top then popstack s else Inl (Err SCRIPT_ERR_NUMEQUALVERIFY))
     else Inr s))))))))"

definition op_WITHIN :: "bool \<Rightarrow> stack_op" where
  "op_WITHIN fRequireMinimal s =
     bind_e (size_at_least s 3) (\<lambda>_. bind_e (stacktop s 3) (\<lambda>x1.
     bind_e (script_num fRequireMinimal x1) (\<lambda>bn1. bind_e (stacktop s 2) (\<lambda>x2.
     bind_e (script_num fRequireMinimal x2) (\<lambda>bn2. bind_e (stacktop s 1) (\<lambda>x3.
     bind_e (script_num fRequireMinimal x3) (\<lambda>bn3.
     let fValue = (bn2 \<le> bn1 \<and> bn1 < bn3) in
     bind_e (popstack s) (\<lambda>s. bind_e (popstack s) (\<lambda>s. bind_e (popstack s) (\<lambda>s.
       Inr (s @ [vch_bool fValue])))))))))))"

definition op_HASH :: "nat \<Rightarrow> stack_op" where
  "op_HASH opcode s =
     bind_e (size_at_least s 1) (\<lambda>_. bind_e (stacktop s 1) (\<lambda>vch.
     let vchHash =
       (if opcode = OP_RIPEMD160 then ripemd160 vch
        else if opcode = OP_SHA1 then sha1 vch
        else if opcode = OP_SHA256 then sha256 vch
        else if opcode = OP_HASH160 then hash160 vch
        else if opcode = OP_HASH256 then hash256 vch
        else replicate 32 0) in
     bind_e (popstack s) (\<lambda>s. Inr (s @ [vchHash]))))"

section \<open>Signature checks\<close>

text \<open>What \<^verbatim>\<open>EvalScript\<close> is called with, besides the stack and the script.\<close>

record script_env =
  e_flags :: script_flags
  e_checker :: checker
  e_scriptversion :: ScriptVersion

definition sigversion :: "script_env \<Rightarrow> SigVersion" where
  "sigversion env = (if e_scriptversion env = SCRIPT_V1 then SIGVERSION_BASE else SIGVERSION_SEGSIG)"

definition fRequireMinimal :: "script_env \<Rightarrow> bool" where
  "fRequireMinimal env = has_flag (e_flags env) SCRIPT_VERIFY_MINIMALDATA"

text \<open>The encoding checks and the signature check of one signature and public key pair.\<close>

definition check_encodings :: "script_env \<Rightarrow> valtype \<Rightarrow> valtype \<Rightarrow> failure + unit" where
  "check_encodings env vchSig vchPubKey =
     bind_e (if sigversion env = SIGVERSION_BASE
             then CheckSignatureEncoding (CheckLowS (e_checker env)) vchSig (e_flags env) else Inr ())
       (\<lambda>_. CheckPubKeyEncoding vchPubKey (e_flags env) (sigversion env))"

definition op_CHECKSIG :: "script_env \<Rightarrow> cscript \<Rightarrow> nat \<Rightarrow> nat \<Rightarrow> stack_op" where
  "op_CHECKSIG env script codehash opcode s =
     bind_e (size_at_least s 2) (\<lambda>_. bind_e (stacktop s 2) (\<lambda>vchSig. bind_e (stacktop s 1) (\<lambda>vchPubKey.
     let scriptCode = drop codehash script;
         scriptCode = (if sigversion env = SIGVERSION_BASE
                       then snd (FindAndDelete scriptCode (push_data [] vchSig)) else scriptCode) in
     bind_e (check_encodings env vchSig vchPubKey) (\<lambda>_.
     let fSuccess = CheckSig (e_checker env) vchSig vchPubKey scriptCode (sigversion env) in
     if \<not> fSuccess \<and> has_flag (e_flags env) SCRIPT_VERIFY_NULLFAIL \<and> length vchSig \<noteq> 0
     then Inl (Err SCRIPT_ERR_SIG_NULLFAIL)
     else bind_e (popstack s) (\<lambda>s. bind_e (popstack s) (\<lambda>s.
       let s = s @ [vch_bool fSuccess] in
       if opcode = OP_CHECKSIGVERIFY then
         (if fSuccess then popstack s else Inl (Err SCRIPT_ERR_CHECKSIGVERIFY))
       else Inr s))))))"

text \<open>Dropping the signatures from the code, \<open>pos\<close> being the position of the next one.\<close>

fun delete_signatures :: "valtype list \<Rightarrow> nat \<Rightarrow> nat \<Rightarrow> cscript \<Rightarrow> failure + cscript" where
  "delete_signatures s pos 0 scriptCode = Inr scriptCode"
| "delete_signatures s pos (Suc n) scriptCode =
     bind_e (stacktop s pos) (\<lambda>vchSig.
       delete_signatures s (pos + 1) n (snd (FindAndDelete scriptCode (push_data [] vchSig))))"

text \<open>The matching loop; it is entered with \<open>fSuccess\<close> true and returns its final value.\<close>

function multisig_loop ::
  "script_env \<Rightarrow> cscript \<Rightarrow> valtype list \<Rightarrow> nat \<Rightarrow> nat \<Rightarrow> int \<Rightarrow> int \<Rightarrow> failure + bool" where
  "multisig_loop env scriptCode s isig ikey nSigsCount nKeysCount =
     (if nSigsCount > 0 then
        bind_e (stacktop s isig) (\<lambda>vchSig. bind_e (stacktop s ikey) (\<lambda>vchPubKey.
        bind_e (check_encodings env vchSig vchPubKey) (\<lambda>_.
        let fOk = CheckSig (e_checker env) vchSig vchPubKey scriptCode (sigversion env);
            isig' = (if fOk then isig + 1 else isig);
            nSigsCount' = (if fOk then nSigsCount - 1 else nSigsCount);
            nKeysCount' = nKeysCount - 1 in
        if nSigsCount' > nKeysCount' then Inr False
        else multisig_loop env scriptCode s isig' (ikey + 1) nSigsCount' nKeysCount')))
      else Inr True)"
  by pat_completeness auto
termination
  by (relation "measure (\<lambda>(env, code, s, isig, ikey, nSigs, nKeys). nat nSigs + nat nKeys)")
    (auto split: if_splits)

text \<open>Removing the \<open>n\<close> arguments.\<close>

fun multisig_cleanup :: "script_env \<Rightarrow> bool \<Rightarrow> nat \<Rightarrow> nat \<Rightarrow> stack_op" where
  "multisig_cleanup env fSuccess ikey2 0 s = Inr s"
| "multisig_cleanup env fSuccess ikey2 (Suc n) s =
     bind_e (if \<not> fSuccess \<and> has_flag (e_flags env) SCRIPT_VERIFY_NULLFAIL \<and> ikey2 = 0
             then bind_e (stacktop s 1) (\<lambda>top. require (length top = 0) SCRIPT_ERR_SIG_NULLFAIL)
             else Inr ())
       (\<lambda>_. bind_e (popstack s) (multisig_cleanup env fSuccess (ikey2 - 1) n))"

definition multisig_counts ::
  "script_env \<Rightarrow> valtype list \<Rightarrow> int \<Rightarrow> failure + (int \<times> int \<times> int)" where
  "multisig_counts env s opcount =
     bind_e (size_at_least s 1) (\<lambda>_. bind_e (stacktop s 1) (\<lambda>top.
     bind_e (script_num (fRequireMinimal env) top) (\<lambda>bn. let nKeysCount = getint bn in
     if nKeysCount < 0 \<or> nKeysCount > MAX_PUBKEYS_PER_MULTISIG then Inl (Err SCRIPT_ERR_PUBKEY_COUNT)
     else let opcount = opcount + nKeysCount in
     if opcount > MAX_OPS_PER_SCRIPT then Inl (Err SCRIPT_ERR_OP_COUNT)
     else let i = 2 + nat nKeysCount in
     bind_e (size_at_least s i) (\<lambda>_. bind_e (stacktop s i) (\<lambda>x.
     bind_e (script_num (fRequireMinimal env) x) (\<lambda>bn. let nSigsCount = getint bn in
     if nSigsCount < 0 \<or> nSigsCount > nKeysCount then Inl (Err SCRIPT_ERR_SIG_COUNT)
     else let i = i + 1 + nat nSigsCount in
     bind_e (size_at_least s (if sigversion env = SIGVERSION_SEGSIG then i - 1 else i)) (\<lambda>_.
       Inr (nKeysCount, nSigsCount, opcount))))))))"

definition op_CHECKMULTISIG ::
  "script_env \<Rightarrow> cscript \<Rightarrow> nat \<Rightarrow> nat \<Rightarrow> int \<Rightarrow> valtype list \<Rightarrow> failure + (valtype list \<times> int)" where
  "op_CHECKMULTISIG env script codehash opcode opcount s =
     bind_e (multisig_counts env s opcount) (\<lambda>(nKeysCount, nSigsCount, opcount).
     let ikey = 2; ikey2 = nat nKeysCount + 2; isig = nat nKeysCount + 3;
         i = nat nKeysCount + 3 + nat nSigsCount;
         scriptCode = drop codehash script in
     bind_e (if sigversion env = SIGVERSION_BASE
             then delete_signatures s isig (nat nSigsCount) scriptCode else Inr scriptCode) (\<lambda>scriptCode.
     bind_e (multisig_loop env scriptCode s isig ikey nSigsCount nKeysCount) (\<lambda>fSuccess.
     bind_e (multisig_cleanup env fSuccess ikey2 (i - 1) s) (\<lambda>s.
     bind_e (if sigversion env = SIGVERSION_BASE
             then bind_e (size_at_least s 1) (\<lambda>_. popstack s) else Inr s) (\<lambda>s.
     let s = s @ [vch_bool fSuccess] in
     if opcode = OP_CHECKMULTISIGVERIFY then
       (if fSuccess then bind_e (popstack s) (\<lambda>s. Inr (s, opcount))
        else Inl (Err SCRIPT_ERR_CHECKMULTISIGVERIFY))
     else Inr (s, opcount))))))"

section \<open>Control and locks\<close>

definition upgradable_nop :: "script_env \<Rightarrow> failure + unit" where
  "upgradable_nop env =
     require (\<not> has_flag (e_flags env) SCRIPT_VERIFY_DISCOURAGE_UPGRADABLE_NOPS)
       SCRIPT_ERR_DISCOURAGE_UPGRADABLE_NOPS"

definition op_CHECKLOCKTIMEVERIFY :: "script_env \<Rightarrow> valtype list \<Rightarrow> failure + unit" where
  "op_CHECKLOCKTIMEVERIFY env s =
     (if \<not> has_flag (e_flags env) SCRIPT_VERIFY_CHECKLOCKTIMEVERIFY then upgradable_nop env
      else bind_e (size_at_least s 1) (\<lambda>_. bind_e (stacktop s 1) (\<lambda>top.
        bind_e (throws (CScriptNum top (fRequireMinimal env) 5)) (\<lambda>nLockTime.
        if nLockTime < 0 then Inl (Err SCRIPT_ERR_NEGATIVE_LOCKTIME)
        else require (CheckLockTime (e_checker env) nLockTime) SCRIPT_ERR_UNSATISFIED_LOCKTIME))))"

definition op_CHECKSEQUENCEVERIFY :: "script_env \<Rightarrow> valtype list \<Rightarrow> failure + unit" where
  "op_CHECKSEQUENCEVERIFY env s =
     (if \<not> has_flag (e_flags env) SCRIPT_VERIFY_CHECKSEQUENCEVERIFY then upgradable_nop env
      else bind_e (size_at_least s 1) (\<lambda>_. bind_e (stacktop s 1) (\<lambda>top.
        bind_e (throws (CScriptNum top (fRequireMinimal env) 5)) (\<lambda>nSequence.
        if nSequence < 0 then Inl (Err SCRIPT_ERR_NEGATIVE_LOCKTIME)
        else if e_scriptversion env = SCRIPT_V1 \<and> nSequence AND 2 ^ 31 \<noteq> 0 then Inr ()
        else require (CheckSequence (e_checker env) nSequence) SCRIPT_ERR_UNSATISFIED_LOCKTIME))))"

definition op_IF :: "script_env \<Rightarrow> bool \<Rightarrow> nat \<Rightarrow> interp \<Rightarrow> failure + interp" where
  "op_IF env fExec opcode st =
     bind_e
       (if fExec then
          bind_e (require (\<not> length (stack st) < 1) SCRIPT_ERR_UNBALANCED_CONDITIONAL) (\<lambda>_.
          bind_e (stacktop (stack st) 1) (\<lambda>vch.
          bind_e (if sigversion env = SIGVERSION_SEGSIG \<and> has_flag (e_flags env) SCRIPT_VERIFY_MINIMALIF
                  then require (\<not> (length vch > 1 \<or> (length vch = 1 \<and> vch ! 0 \<noteq> 1))) SCRIPT_ERR_MINIMALIF
                  else Inr ()) (\<lambda>_.
          let fValue = (if opcode = OP_NOTIF then \<not> CastToBool vch else CastToBool vch) in
          bind_e (popstack (stack st)) (\<lambda>s. Inr (fValue, s)))))
        else Inr (False, stack st))
       (\<lambda>(fValue, s). Inr (st\<lparr>stack := s, vfExec := vfExec st @ [fValue]\<rparr>))"

definition op_ELSE :: "interp \<Rightarrow> failure + interp" where
  "op_ELSE st =
     (if vfExec st = [] then Inl (Err SCRIPT_ERR_UNBALANCED_CONDITIONAL)
      else Inr (st\<lparr>vfExec := butlast (vfExec st) @ [\<not> last (vfExec st)]\<rparr>))"

definition op_ENDIF :: "interp \<Rightarrow> failure + interp" where
  "op_ENDIF st =
     (if vfExec st = [] then Inl (Err SCRIPT_ERR_UNBALANCED_CONDITIONAL)
      else Inr (st\<lparr>vfExec := butlast (vfExec st)\<rparr>))"

definition op_TOALTSTACK :: "interp \<Rightarrow> failure + interp" where
  "op_TOALTSTACK st =
     bind_e (size_at_least (stack st) 1) (\<lambda>_. bind_e (stacktop (stack st) 1) (\<lambda>vch.
     bind_e (popstack (stack st)) (\<lambda>s. Inr (st\<lparr>stack := s, altstack := altstack st @ [vch]\<rparr>))))"

definition op_FROMALTSTACK :: "interp \<Rightarrow> failure + interp" where
  "op_FROMALTSTACK st =
     bind_e (require (\<not> length (altstack st) < 1) SCRIPT_ERR_INVALID_ALTSTACK_OPERATION) (\<lambda>_.
     bind_e (stacktop (altstack st) 1) (\<lambda>vch.
     bind_e (popstack (altstack st)) (\<lambda>a. Inr (st\<lparr>stack := stack st @ [vch], altstack := a\<rparr>))))"

section \<open>The interpreter\<close>

definition on_stack :: "interp \<Rightarrow> failure + valtype list \<Rightarrow> failure + interp" where
  "on_stack st m = bind_e m (\<lambda>s. Inr (st\<lparr>stack := s\<rparr>))"

text \<open>The opcodes that act on the main stack only; \<open>None\<close> where the switch has none of these cases.\<close>

definition stack_opcode :: "bool \<Rightarrow> nat \<Rightarrow> stack_op option" where
  "stack_opcode minimal opcode =
     (if opcode = OP_1NEGATE \<or> (OP_1 \<le> opcode \<and> opcode \<le> OP_16) then Some (op_push_small opcode)
      else if opcode = OP_VERIFY then Some op_VERIFY
      else if opcode = OP_2DROP then Some op_2DROP
      else if opcode = OP_2DUP then Some op_2DUP
      else if opcode = OP_3DUP then Some op_3DUP
      else if opcode = OP_2OVER then Some op_2OVER
      else if opcode = OP_2ROT then Some op_2ROT
      else if opcode = OP_2SWAP then Some op_2SWAP
      else if opcode = OP_IFDUP then Some op_IFDUP
      else if opcode = OP_DEPTH then Some op_DEPTH
      else if opcode = OP_DROP then Some op_DROP
      else if opcode = OP_DUP then Some op_DUP
      else if opcode = OP_NIP then Some op_NIP
      else if opcode = OP_OVER then Some op_OVER
      else if opcode = OP_PICK \<or> opcode = OP_ROLL then Some (op_PICK_ROLL opcode minimal)
      else if opcode = OP_ROT then Some op_ROT
      else if opcode = OP_SWAP then Some op_SWAP
      else if opcode = OP_TUCK then Some op_TUCK
      else if opcode = OP_SIZE then Some op_SIZE
      else if opcode = OP_EQUAL \<or> opcode = OP_EQUALVERIFY then Some (op_EQUAL opcode)
      else if opcode \<in> {OP_1ADD, OP_1SUB, OP_NEGATE, OP_ABS, OP_NOT, OP_0NOTEQUAL}
      then Some (op_unary opcode minimal)
      else if opcode \<in> {OP_ADD, OP_SUB, OP_BOOLAND, OP_BOOLOR, OP_NUMEQUAL, OP_NUMEQUALVERIFY,
          OP_NUMNOTEQUAL, OP_LESSTHAN, OP_GREATERTHAN, OP_LESSTHANOREQUAL, OP_GREATERTHANOREQUAL,
          OP_MIN, OP_MAX}
      then Some (op_binary opcode minimal)
      else if opcode = OP_WITHIN then Some (op_WITHIN minimal)
      else if opcode \<in> {OP_RIPEMD160, OP_SHA1, OP_SHA256, OP_HASH160, OP_HASH256}
      then Some (op_HASH opcode)
      else None)"

definition exec_opcode ::
  "script_env \<Rightarrow> cscript \<Rightarrow> bool \<Rightarrow> nat \<Rightarrow> interp \<Rightarrow> failure + interp" where
  "exec_opcode env script fExec opcode st =
     (case stack_opcode (fRequireMinimal env) opcode of
        Some f \<Rightarrow> on_stack st (f (stack st))
      | None \<Rightarrow>
          if opcode = OP_NOP then Inr st
          else if opcode = OP_CHECKLOCKTIMEVERIFY
          then bind_e (op_CHECKLOCKTIMEVERIFY env (stack st)) (\<lambda>_. Inr st)
          else if opcode = OP_CHECKSEQUENCEVERIFY
          then bind_e (op_CHECKSEQUENCEVERIFY env (stack st)) (\<lambda>_. Inr st)
          else if opcode = OP_NOP1 \<or> (OP_NOP4 \<le> opcode \<and> opcode \<le> OP_NOP10)
          then bind_e (upgradable_nop env) (\<lambda>_. Inr st)
          else if opcode = OP_IF \<or> opcode = OP_NOTIF then op_IF env fExec opcode st
          else if opcode = OP_ELSE then op_ELSE st
          else if opcode = OP_ENDIF then op_ENDIF st
          else if opcode = OP_RETURN then Inl (Err SCRIPT_ERR_OP_RETURN)
          else if opcode = OP_TOALTSTACK then op_TOALTSTACK st
          else if opcode = OP_FROMALTSTACK then op_FROMALTSTACK st
          else if opcode = OP_CODESEPARATOR then Inr (st\<lparr>pbegincodehash := pc st\<rparr>)
          else if opcode = OP_CHECKSIG \<or> opcode = OP_CHECKSIGVERIFY
          then on_stack st (op_CHECKSIG env script (pbegincodehash st) opcode (stack st))
          else if opcode = OP_CHECKMULTISIG \<or> opcode = OP_CHECKMULTISIGVERIFY
          then bind_e (op_CHECKMULTISIG env script (pbegincodehash st) opcode (nOpCount st) (stack st))
            (\<lambda>(s, n). Inr (st\<lparr>stack := s, nOpCount := n\<rparr>))
          else Inl (Err SCRIPT_ERR_BAD_OPCODE))"

definition disabled_opcodes :: "nat list" where
  "disabled_opcodes =
     [OP_CAT, OP_SUBSTR, OP_LEFT, OP_RIGHT, OP_INVERT, OP_AND, OP_OR, OP_XOR, OP_2MUL, OP_2DIV,
      OP_MUL, OP_DIV, OP_MOD, OP_LSHIFT, OP_RSHIFT]"

text \<open>A push, the switch, or nothing inside a branch that is not taken.\<close>

definition exec_instruction ::
  "script_env \<Rightarrow> cscript \<Rightarrow> bool \<Rightarrow> nat \<Rightarrow> valtype \<Rightarrow> interp \<Rightarrow> failure + interp" where
  "exec_instruction env script fExec opcode vchPushValue st =
     (if fExec \<and> opcode \<le> OP_PUSHDATA4 then
        (if fRequireMinimal env \<and> \<not> CheckMinimalPush vchPushValue opcode
         then Inl (Err SCRIPT_ERR_MINIMALDATA)
         else Inr (st\<lparr>stack := stack st @ [vchPushValue]\<rparr>))
      else if fExec \<or> (OP_IF \<le> opcode \<and> opcode \<le> OP_ENDIF)
      then exec_opcode env script fExec opcode st
      else Inr st)"

text \<open>One iteration of the main loop.\<close>

definition eval_step :: "script_env \<Rightarrow> cscript \<Rightarrow> interp \<Rightarrow> failure + interp" where
  "eval_step env script st =
     (let fExec = \<not> (False \<in> set (vfExec st)) in
      case GetOp2 script (pc st) of
        (pc', None) \<Rightarrow> Inl (Err SCRIPT_ERR_BAD_OPCODE)
      | (pc', Some (opcode, vchPushValue)) \<Rightarrow>
          if length vchPushValue > MAX_SCRIPT_ELEMENT_SIZE then Inl (Err SCRIPT_ERR_PUSH_SIZE)
          else let n = (if opcode > OP_16 then nOpCount st + 1 else nOpCount st) in
          if opcode > OP_16 \<and> n > MAX_OPS_PER_SCRIPT then Inl (Err SCRIPT_ERR_OP_COUNT)
          else if opcode \<in> set disabled_opcodes then Inl (Err SCRIPT_ERR_DISABLED_OPCODE)
          else bind_e (exec_instruction env script fExec opcode vchPushValue (st\<lparr>pc := pc', nOpCount := n\<rparr>))
            (\<lambda>st'. if length (stack st') + length (altstack st') > MAX_STACK_SIZE
                   then Inl (Err SCRIPT_ERR_STACK_SIZE) else Inr st'))"

lemma exec_opcode_pc: "exec_opcode env script fExec opcode st = Inr st' \<Longrightarrow> pc st' = pc st"
  by (auto simp: exec_opcode_def on_stack_def op_IF_def op_ELSE_def op_ENDIF_def op_TOALTSTACK_def
      op_FROMALTSTACK_def exn_simps Let_def split: option.splits if_splits prod.splits)

lemma eval_step_pc:
  "eval_step env script st = Inr st' \<Longrightarrow> pc st < pc st' \<and> pc st' \<le> length script"
  by (auto simp: eval_step_def exec_instruction_def exn_simps Let_def
      dest!: exec_opcode_pc GetOp2_advances split: prod.splits option.splits if_splits)

text \<open>The loop over the script ends because every iteration moves the iterator forward.\<close>

function eval_loop :: "script_env \<Rightarrow> cscript \<Rightarrow> interp \<Rightarrow> failure + interp" where
  "eval_loop env script st =
     (if pc st < length script then bind_e (eval_step env script st) (eval_loop env script)
      else Inr st)"
  by pat_completeness auto
termination
  by (relation "measure (\<lambda>(env, script, st). length script - pc st)") (auto dest: eval_step_pc)

declare eval_loop.simps [simp del] multisig_loop.simps [simp del]

definition initial_interp :: "valtype list \<Rightarrow> interp" where
  "initial_interp s =
     \<lparr>stack = s, altstack = [], vfExec = [], pc = 0, pbegincodehash = 0, nOpCount = 0\<rparr>"

text \<open>
  The \<^verbatim>\<open>catch (...)\<close> of the source turns every exception into the unknown error; a
  failed assertion is not an exception and stays visible.
\<close>

definition catch_all :: "failure + 'a \<Rightarrow> failure + 'a" where
  "catch_all m =
     (case m of Inl (Exn AssertFail) \<Rightarrow> Inl (Exn AssertFail)
              | Inl (Exn e) \<Rightarrow> Inl (Err SCRIPT_ERR_UNKNOWN_ERROR)
              | Inl (Err e) \<Rightarrow> Inl (Err e) | Inr x \<Rightarrow> Inr x)"

definition EvalScript ::
  "valtype list \<Rightarrow> cscript \<Rightarrow> script_flags \<Rightarrow> checker \<Rightarrow> ScriptVersion \<Rightarrow> failure + valtype list" where
  "EvalScript s script flags chk scriptversion =
     (if length script > MAX_SCRIPT_SIZE then Inl (Err SCRIPT_ERR_SCRIPT_SIZE)
      else bind_e
        (catch_all (eval_loop \<lparr>e_flags = flags, e_checker = chk, e_scriptversion = scriptversion\<rparr> script
           (initial_interp s)))
        (\<lambda>st. if vfExec st \<noteq> [] then Inl (Err SCRIPT_ERR_UNBALANCED_CONDITIONAL)
              else Inr (stack st)))"

section \<open>The stack effect of the opcodes\<close>

lemmas op_helpers = stacktop_def popstack_def size_at_least_def swap_top_def erase_top_def
  insert_top_def script_num_def Let_def

end
