(* ===== verification/Script_Effects.thy ===== *)
theory Script_Effects
  imports Script_Interp "HOL-Library.Sublist"
begin

text \<open>
  What the opcodes do to the stack, in the notation of the comments of
  \<^verbatim>\<open>interpreter.cpp\<close>: the arguments are the last elements of the vector.
\<close>

section \<open>Stack effects\<close>

lemmas stack_op_defs = op_2DROP_def op_2DUP_def op_3DUP_def op_2OVER_def op_2ROT_def op_2SWAP_def
  op_IFDUP_def op_DROP_def op_DUP_def op_NIP_def op_OVER_def op_ROT_def op_SWAP_def op_TUCK_def
  op_DEPTH_def op_SIZE_def op_VERIFY_def

text \<open>
  The stack manipulation opcodes rearrange the elements at the top exactly as their comments
  say, whatever lies below: for instance \<^verbatim>\<open>OP_2ROT\<close> is
  \<^verbatim>\<open>(x1 x2 x3 x4 x5 x6 -- x3 x4 x5 x6 x1 x2)\<close>.
\<close>

theorem stack_effects:
  "op_2DROP (s @ [x1, x2]) = Inr s \<and>
   op_2DUP (s @ [x1, x2]) = Inr (s @ [x1, x2, x1, x2]) \<and>
   op_3DUP (s @ [x1, x2, x3]) = Inr (s @ [x1, x2, x3, x1, x2, x3]) \<and>
   op_2OVER (s @ [x1, x2, x3, x4]) = Inr (s @ [x1, x2, x3, x4, x1, x2]) \<and>
   op_2ROT (s @ [x1, x2, x3, x4, x5, x6]) = Inr (s @ [x3, x4, x5, x6, x1, x2]) \<and>
   op_2SWAP (s @ [x1, x2, x3, x4]) = Inr (s @ [x3, x4, x1, x2]) \<and>
   op_IFDUP (s @ [x1]) = Inr (if CastToBool x1 then s @ [x1, x1] else s @ [x1]) \<and>
   op_DROP (s @ [x1]) = Inr s \<and>
   op_DUP (s @ [x1]) = Inr (s @ [x1, x1]) \<and>
   op_NIP (s @ [x1, x2]) = Inr (s @ [x2]) \<and>
   op_OVER (s @ [x1, x2]) = Inr (s @ [x1, x2, x1]) \<and>
   op_ROT (s @ [x1, x2, x3]) = Inr (s @ [x2, x3, x1]) \<and>
   op_SWAP (s @ [x1, x2]) = Inr (s @ [x2, x1]) \<and>
   op_TUCK (s @ [x1, x2]) = Inr (s @ [x2, x1, x2])"
  by (intro conjI)
    (simp_all add: stack_op_defs op_helpers pop_back_def butlast_append list_update_append)

lemma serialize_small:
  assumes "\<bar>n\<bar> < 2 ^ 31"
  shows "script_num m (serialize n) = Inr n" and "getint n = n"
proof -
  have "length (serialize n) \<le> Suc 3" using assms by (subst length_serialize_iff) simp
  then show "script_num m (serialize n) = Inr n"
    by (simp add: script_num_def nDefaultMaxNumSize_def CScriptNum_serialize)
  show "getint n = n" using assms by (auto simp: getint_def)
qed

lemma PICK_ROLL_effect:
  assumes "length ys < 2 ^ 31"
  shows "op_PICK_ROLL opcode m (s @ [x] @ ys @ [getvch (int (length ys))]) =
    Inr (if opcode = OP_ROLL then s @ ys @ [x] else s @ [x] @ ys @ [x])"
proof -
  have n: "script_num m (serialize (int (length ys))) = Inr (int (length ys))"
    "getint (int (length ys)) = int (length ys)"
    using assms by (intro serialize_small; simp)+
  have top: "stacktop (s @ [x] @ ys @ [v]) 1 = Inr v" "popstack (s @ [x] @ ys @ [v]) = Inr (s @ [x] @ ys)"
    "stacktop (s @ [x] @ ys) (length ys + 1) = Inr x" for v
    using pop_back_snoc [of "s @ [x] @ ys" v] by (simp_all add: stacktop_def popstack_def del: pop_back_snoc)
  have erase: "erase_top (length ys + 1) (length ys) (s @ [x] @ ys) = Inr (s @ ys)"
    by (simp add: erase_top_def)
  show ?thesis
    using n top erase by (simp add: op_PICK_ROLL_def pick_roll_at_def getvch_def size_at_least_def)
qed

section \<open>Multisignatures\<close>

text \<open>The elements of a block at the top of a stack, counted from the back.\<close>

lemma from_back_block:
  assumes "i < length xs" and "pos = length ys + 1 + i"
  shows "from_back (base @ xs @ ys) pos = Inr (rev xs ! i)"
proof -
  have "from_back (base @ xs @ ys) pos = from_back (base @ xs) (1 + i)"
    using assms(2) from_back_append [of "base @ xs" ys pos] by (simp split: if_splits)
  also have "\<dots> = Inr (xs ! (length xs - (1 + i)))" using assms(1) by simp
  finally show ?thesis using assms(1) by (simp add: rev_nth)
qed

lemma multisig_loop_correct:
  assumes "\<And>i. i < length sigs \<Longrightarrow> from_back s (isig + i) = Inr (sigs ! i)"
    and "\<And>i. i < length keys \<Longrightarrow> from_back s (ikey + i) = Inr (keys ! i)"
    and "\<And>x y. x \<in> set sigs \<Longrightarrow> y \<in> set keys \<Longrightarrow> check_encodings env x y = Inr ()"
    and "length sigs \<le> length keys"
  shows "multisig_loop env code s isig ikey (int (length sigs)) (int (length keys)) =
    Inr (list_emb (\<lambda>x y. CheckSig (e_checker env) x y code (sigversion env)) sigs keys)"
  using assms
proof (induction keys arbitrary: sigs isig ikey)
  case Nil
  then show ?case by (simp add: multisig_loop.simps)
next
  case (Cons k keys)
  show ?case
  proof (cases sigs)
    case Nil
    then show ?thesis by (simp add: multisig_loop.simps)
  next
    case sigs: (Cons x xs)
    have top: "stacktop s isig = Inr x" "stacktop s ikey = Inr k"
      using Cons.prems(1) [of 0] Cons.prems(2) [of 0] by (simp_all add: sigs stacktop_def)
    have enc: "check_encodings env x k = Inr ()" by (rule Cons.prems(3)) (simp_all add: sigs)
    have keys: "from_back s (ikey + 1 + i) = Inr (keys ! i)" if "i < length keys" for i
      using Cons.prems(2) [of "Suc i"] that by simp
    have sigs_tl: "from_back s (isig + 1 + i) = Inr (xs ! i)" if "i < length xs" for i
      using Cons.prems(1) [of "Suc i"] that by (simp add: sigs)
    show ?thesis
    proof (cases "CheckSig (e_checker env) x k code (sigversion env)")
      case True
      have "multisig_loop env code s (isig + 1) (ikey + 1) (int (length xs)) (int (length keys)) =
          Inr (list_emb (\<lambda>x y. CheckSig (e_checker env) x y code (sigversion env)) xs keys)"
        by (rule Cons.IH) (use keys sigs_tl Cons.prems in \<open>auto simp: sigs\<close>)
      with True top enc Cons.prems(4) show ?thesis
        by (simp add: multisig_loop.simps [of env code s isig] sigs)
    next
      case False
      show ?thesis
      proof (cases "length sigs \<le> length keys")
        case True
        have "multisig_loop env code s isig (ikey + 1) (int (length sigs)) (int (length keys)) =
            Inr (list_emb (\<lambda>x y. CheckSig (e_checker env) x y code (sigversion env)) sigs keys)"
          by (rule Cons.IH) (use keys Cons.prems True in auto)
        with False True top enc show ?thesis
          by (simp add: multisig_loop.simps [of env code s isig] sigs)
      next
        case short: False
        then have "\<not> list_emb (\<lambda>x y. CheckSig (e_checker env) x y code (sigversion env)) sigs keys"
          using list_emb_length by blast
        with False short top enc show ?thesis
          by (simp add: multisig_loop.simps [of env code s isig] sigs)
      qed
    qed
  qed
qed

lemma multisig_cleanup_correct:
  assumes "ok \<or> \<not> has_flag (e_flags env) SCRIPT_VERIFY_NULLFAIL"
  shows "length args = n \<Longrightarrow> multisig_cleanup env ok ikey2 n (base @ args) = Inr base"
proof (induction n arbitrary: args ikey2)
  case (Suc n)
  then obtain xs x where "args = xs @ [x]" by (metis length_Suc_conv_rev)
  with Suc assms show ?case
    using pop_back_snoc [of "base @ xs" x] by (auto simp: popstack_def simp del: pop_back_snoc)
qed simp

lemma delete_signatures_correct:
  assumes "\<And>i. i < n \<Longrightarrow> from_back s (pos + i) = Inr (sigs ! i)" and "length sigs = n"
  shows "delete_signatures s pos n code =
    Inr (foldl (\<lambda>c sig. snd (FindAndDelete c (push_data [] sig))) code sigs)"
  using assms
proof (induction n arbitrary: pos code sigs)
  case (Suc n)
  then obtain x xs where sigs: "sigs = x # xs" by (metis length_Suc_conv)
  have "stacktop s pos = Inr x" using Suc.prems(1) [of 0] by (simp add: sigs stacktop_def)
  moreover have "delete_signatures s (pos + 1) n c =
      Inr (foldl (\<lambda>c sig. snd (FindAndDelete c (push_data [] sig))) c xs)" for c
    using Suc.prems(1) [of "Suc _"] Suc.prems(2) by (intro Suc.IH) (auto simp: sigs)
  ultimately show ?case by (simp add: sigs)
qed simp

lemma list_emb_rev: "list_emb P xs ys \<Longrightarrow> list_emb P (rev xs) (rev ys)"
proof (induction rule: list_emb.induct)
  case (list_emb_Cons xs ys y)
  then show ?case using list_emb_append_mono [of P "rev xs" "rev ys" "[]" "[y]"] by simp
next
  case (list_emb_Cons2 x y xs ys)
  then show ?case using list_emb_append_mono [of P "rev xs" "rev ys" "[x]" "[y]"] by simp
qed simp

lemma list_emb_rev_iff: "list_emb P (rev xs) (rev ys) \<longleftrightarrow> list_emb P xs ys"
  using list_emb_rev [of P xs ys] list_emb_rev [of P "rev xs" "rev ys"] by auto

text \<open>The code that is signed: before segregated signatures, every signature is deleted from it.\<close>

definition multisig_code :: "script_env \<Rightarrow> cscript \<Rightarrow> valtype list \<Rightarrow> cscript" where
  "multisig_code env code sigs =
     (if sigversion env = SIGVERSION_BASE
      then foldl (\<lambda>c sig. snd (FindAndDelete c (push_data [] sig))) code (rev sigs) else code)"

lemma multisig_counts_correct:
  assumes "length sigs \<le> length keys" and "length keys \<le> 20"
    and "n + int (length keys) \<le> 201"
    and s: "s = base @ dummy @ sigs @ [getvch (int (length sigs))] @ keys @ [getvch (int (length keys))]"
    and dummy: "length dummy = (if sigversion env = SIGVERSION_SEGSIG then 0 else 1)"
  shows "multisig_counts env s n = Inr (int (length keys), int (length sigs), n + int (length keys))"
proof -
  have num: "script_num m (getvch (int k)) = Inr (int k)" "getint (int k) = int k" if "k \<le> 20" for m k
    using that serialize_small [of "int k"] by (simp_all add: getvch_def)
  have top: "stacktop s 1 = Inr (getvch (int (length keys)))"
    using from_back_block [of 0 "[getvch (int (length keys))]" 1 "[]"
        "base @ dummy @ sigs @ [getvch (int (length sigs))] @ keys"]
    by (simp add: s stacktop_def)
  have i: "stacktop s (2 + nat (int (length keys))) = Inr (getvch (int (length sigs)))"
    using from_back_block [of 0 "[getvch (int (length sigs))]" "2 + length keys"
        "keys @ [getvch (int (length keys))]" "base @ dummy @ sigs"]
    by (simp add: s stacktop_def)
  have "length s \<ge> 2 + length keys + length sigs + (if sigversion env = SIGVERSION_SEGSIG then 0 else 1)"
    using dummy by (simp add: s)
  moreover have "s \<noteq> []" by (simp add: s)
  ultimately show ?thesis using assms(1-3) num top i
    by (cases "sigversion env") (simp_all add: multisig_counts_def size_at_least_def Let_def)
qed

text \<open>
  C2. \<^verbatim>\<open>OP_CHECKMULTISIG\<close> on well-encoded arguments: it removes the counts, the keys,
  the signatures and, before segregated signatures, the one extra element, and pushes true exactly
  when the signatures can be assigned to keys in order, each to a key it is valid for. The greedy
  loop of the source with its early exit decides that matching.
\<close>

theorem CHECKMULTISIG_matching:
  assumes "length sigs \<le> length keys" and "length keys \<le> 20" and "n + int (length keys) \<le> 201"
    and "length dummy = (if sigversion env = SIGVERSION_SEGSIG then 0 else 1)"
    and "\<And>x y. x \<in> set sigs \<Longrightarrow> y \<in> set keys \<Longrightarrow> check_encodings env x y = Inr ()"
    and "\<not> has_flag (e_flags env) SCRIPT_VERIFY_NULLFAIL"
  shows "op_CHECKMULTISIG env script codehash OP_CHECKMULTISIG n
      (base @ dummy @ sigs @ [getvch (int (length sigs))] @ keys @ [getvch (int (length keys))]) =
    Inr (base @ [vch_bool (list_emb
        (\<lambda>x y. CheckSig (e_checker env) x y (multisig_code env (drop codehash script) sigs) (sigversion env))
        sigs keys)], n + int (length keys))"
proof -
  define s where
    "s = base @ dummy @ sigs @ [getvch (int (length sigs))] @ keys @ [getvch (int (length keys))]"
  define code where "code = multisig_code env (drop codehash script) sigs"
  define ok where "ok = list_emb (\<lambda>x y. CheckSig (e_checker env) x y code (sigversion env)) sigs keys"
  have counts: "multisig_counts env s n = Inr (int (length keys), int (length sigs), n + int (length keys))"
    by (rule multisig_counts_correct [OF assms(1-3) s_def assms(4)])
  have keys: "from_back s (2 + i) = Inr (rev keys ! i)" if "i < length keys" for i
    using from_back_block [OF that, of "2 + i" "[getvch (int (length keys))]"
        "base @ dummy @ sigs @ [getvch (int (length sigs))]"] by (simp add: s_def)
  have sigs: "from_back s (length keys + 3 + i) = Inr (rev sigs ! i)" if "i < length sigs" for i
    using from_back_block [OF that, of "length keys + 3 + i"
        "[getvch (int (length sigs))] @ keys @ [getvch (int (length keys))]" "base @ dummy"]
    by (simp add: s_def)
  have code: "(if sigversion env = SIGVERSION_BASE
      then delete_signatures s (length keys + 3) (length sigs) (drop codehash script)
      else Inr (drop codehash script)) = Inr code"
    using delete_signatures_correct [of "length sigs" s "length keys + 3" "rev sigs"] sigs
    by (simp add: code_def multisig_code_def)
  have loop: "multisig_loop env code s (length keys + 3) 2 (int (length sigs)) (int (length keys)) = Inr ok"
    using multisig_loop_correct [of "rev sigs" s "length keys + 3" "rev keys" 2 env code] sigs keys assms(1,5)
    by (simp add: ok_def list_emb_rev_iff)
  have cleanup: "multisig_cleanup env ok (length keys + 2) (length keys + 2 + length sigs) s = Inr (base @ dummy)"
    using multisig_cleanup_correct [of ok env
        "sigs @ [getvch (int (length sigs))] @ keys @ [getvch (int (length keys))]"
        "length keys + 2 + length sigs" "length keys + 2" "base @ dummy"] assms(6)
    by (simp add: s_def del: multisig_cleanup.simps)
  have pops: "length keys + 3 + length sigs - 1 = length keys + 2 + length sigs" by simp
  have pop: "(if sigversion env = SIGVERSION_BASE then bind_e (size_at_least (base @ dummy) 1) (\<lambda>_. popstack (base @ dummy))
      else Inr (base @ dummy)) = Inr base"
    using assms(4) by (cases "sigversion env")
      (auto simp: size_at_least_def popstack_def length_Suc_conv)
  show ?thesis
    unfolding s_def [symmetric] code_def [symmetric] ok_def [symmetric]
    by (simp only: op_CHECKMULTISIG_def Let_def counts bind_e_Inr prod.case nat_int code loop pops cleanup pop) simp
qed

theorem CHECKMULTISIG_matching_witness:
  "let env = \<lparr>e_flags = 0,
       e_checker = \<lparr>CheckSig = (\<lambda>x y c v. x = y), CheckLockTime = (\<lambda>_. False),
         CheckSequence = (\<lambda>_. False), CheckLowS = (\<lambda>_. True)\<rparr>,
       e_scriptversion = SCRIPT_V2\<rparr>
   in op_CHECKMULTISIG env [] 0 OP_CHECKMULTISIG 0 [[7], [9], [2], [7], [8], [9], [3]] = Inr ([vchTrue], 3)"
proof -
  define env where "env = \<lparr>e_flags = 0,
       e_checker = \<lparr>CheckSig = (\<lambda>x y c v. x = y), CheckLockTime = (\<lambda>_. False),
         CheckSequence = (\<lambda>_. False), CheckLowS = (\<lambda>_. True)\<rparr>,
       e_scriptversion = SCRIPT_V2\<rparr>"
  have num: "getvch 2 = [2]" "getvch 3 = [3]"
    by (simp_all add: getvch_def serialize_def abs_bytes.simps byte_and_128)
  have flag: "has_flag 0 f = False" for f by (simp add: has_flag_def)
  have "op_CHECKMULTISIG env [] 0 OP_CHECKMULTISIG 0
      ([] @ [] @ [[7], [9]] @ [getvch (int (length [[7 :: byte], [9]]))] @ [[7], [8], [9]] @
        [getvch (int (length [[7 :: byte], [8], [9]]))]) =
    Inr ([] @ [vch_bool (list_emb (\<lambda>x y. CheckSig (e_checker env) x y
        (multisig_code env (drop 0 []) [[7], [9]]) (sigversion env)) [[7], [9]] [[7], [8], [9]])],
      0 + int (length [[7 :: byte], [8], [9]]))"
    by (rule CHECKMULTISIG_matching)
      (simp_all add: env_def sigversion_def check_encodings_def CheckPubKeyEncoding_def flag)
  then show ?thesis by (simp add: env_def [symmetric]) (simp add: env_def num vch_bool_def)
qed

text \<open>
  \<^verbatim>\<open>OP_PICK\<close> copies and \<^verbatim>\<open>OP_ROLL\<close> moves the element that lies
  as many places below the top as the popped number says.
\<close>

theorem PICK_ROLL_index:
  assumes "length ys < 2 ^ 31"
  shows "op_PICK_ROLL OP_PICK m (s @ [x] @ ys @ [getvch (int (length ys))]) = Inr (s @ [x] @ ys @ [x]) \<and>
    op_PICK_ROLL OP_ROLL m (s @ [x] @ ys @ [getvch (int (length ys))]) = Inr (s @ ys @ [x])"
  using PICK_ROLL_effect [OF assms] by simp

theorem PICK_ROLL_index_witness:
  "op_PICK_ROLL OP_ROLL True [[7], [8], [9], [2]] = Inr [[8], [9], [7]]"
proof -
  have "getvch 2 = [2]" by (simp add: getvch_def serialize_def abs_bytes.simps byte_and_128)
  then show ?thesis using PICK_ROLL_index [of "[[8], [9]]" True "[]" "[7]"] by simp
qed

end
