(* ===== verification/Script_Safety.thy ===== *)
theory Script_Safety
  imports Script_Interp
begin

text \<open>
  The safety of the interpreter: the exceptions that its operations can throw, the limits on the
  stack, its elements and the operation count, and the balance of conditionals. The contract that
  all opcodes of the main stack share is the locale \<open>stack_operation\<close>.
\<close>

section \<open>The contract of a stack operation\<close>

definition small :: "valtype list \<Rightarrow> bool" where
  "small s \<longleftrightarrow> (\<forall>v\<in>set s. length v \<le> MAX_SCRIPT_ELEMENT_SIZE)"

text \<open>Only a malformed number can throw: no access outside the stack, no failed assertion.\<close>

definition only_number_errors :: "failure + 'a \<Rightarrow> bool" where
  "only_number_errors m \<longleftrightarrow> (\<forall>e. m = Inl (Exn e) \<longrightarrow> e = ScriptNumError)"

locale stack_operation =
  fixes f :: stack_op
  assumes throws_only: "only_number_errors (f s)"
    and keeps_small: "f s = Inr s' \<Longrightarrow> length s \<le> MAX_STACK_SIZE \<Longrightarrow> small s \<Longrightarrow> small s'"
begin

lemma on_stack_throws: "only_number_errors (on_stack st (f (stack st)))"
  using throws_only [of "stack st"] by (auto simp: only_number_errors_def on_stack_def exn_simps)

lemma on_stack_small:
  "on_stack st (f (stack st)) = Inr st' \<Longrightarrow> length (stack st) \<le> MAX_STACK_SIZE \<Longrightarrow>
   small (stack st) \<Longrightarrow> small (stack st') \<and> altstack st' = altstack st \<and> nOpCount st' = nOpCount st"
  using keeps_small by (auto simp: on_stack_def exn_simps)

end

lemma small_append [simp]: "small (a @ b) \<longleftrightarrow> small a \<and> small b"
  by (auto simp: small_def)

lemma small_Cons [simp]: "small (v # s) \<longleftrightarrow> length v \<le> 520 \<and> small s" "small []"
  by (auto simp: small_def)

lemma small_butlast: "small s \<Longrightarrow> small (butlast s)"
  by (auto simp: small_def dest: in_set_butlastD)

lemma small_from_back: "from_back s k = Inr v \<Longrightarrow> small s \<Longrightarrow> length v \<le> 520"
  by (auto simp: small_def dest: from_back_in_set)

lemma small_take_drop: "small s \<Longrightarrow> small (take n s)" "small s \<Longrightarrow> small (drop n s)"
  by (auto simp: small_def dest: in_set_takeD in_set_dropD)

lemma small_update: "small s \<Longrightarrow> length v \<le> 520 \<Longrightarrow> small (s[i := v])"
  unfolding small_def using set_update_subset_insert [of s i v] by blast

lemmas small_intros = small_butlast small_from_back small_take_drop small_update

lemma butlast_Nil_iff: "butlast s = [] \<longleftrightarrow> length s \<le> 1" "[] = butlast s \<longleftrightarrow> length s \<le> 1"
  by (cases s rule: rev_cases; auto)+

lemma pop_back_eq_Inl: "pop_back s = Inl e \<longleftrightarrow> s = [] \<and> e = StackEmpty"
  by (auto simp: pop_back_def)

lemma CScriptNum_throws: "CScriptNum v m k = Inl e \<Longrightarrow> e = ScriptNumError"
  by (auto simp: CScriptNum_def split: if_splits)

lemma script_num_range: "script_num m v = Inr n \<Longrightarrow> \<bar>n\<bar> < 2 ^ 31"
  using CScriptNum_bound [of v m 3 n] by (auto simp: script_num_def nDefaultMaxNumSize_def exn_simps)

lemma serialize_short: "\<bar>n\<bar> < 2 ^ 63 \<Longrightarrow> length (getvch n) \<le> 520"
  using length_serialize [of n 7] by (simp add: getvch_def nat_less_iff)

lemma size_short: "from_back s k = Inr v \<Longrightarrow> small s \<Longrightarrow> length (getvch (int (length v))) \<le> 520"
  using small_from_back [of s k v] by (intro serialize_short) simp

lemmas stack_safety = only_number_errors_def op_helpers exn_simps from_back_Inl pop_back_eq_Inl
  butlast_Nil_iff not_less Suc_le_eq vch_bool_def vchTrue_def vchFalse_def

interpretation op_VERIFY: stack_operation op_VERIFY
  by unfold_locales (auto simp: op_VERIFY_def stack_safety intro!: small_intros split: if_splits)

interpretation op_2DROP: stack_operation op_2DROP
  by unfold_locales (auto simp: op_2DROP_def stack_safety intro!: small_intros split: if_splits)

interpretation op_2DUP: stack_operation op_2DUP
  by unfold_locales (auto simp: op_2DUP_def stack_safety intro!: small_intros split: if_splits)

interpretation op_3DUP: stack_operation op_3DUP
  by unfold_locales (auto simp: op_3DUP_def stack_safety intro!: small_intros split: if_splits)

interpretation op_2OVER: stack_operation op_2OVER
  by unfold_locales (auto simp: op_2OVER_def stack_safety intro!: small_intros split: if_splits)

interpretation op_2ROT: stack_operation op_2ROT
  by unfold_locales (auto simp: op_2ROT_def stack_safety intro!: small_intros split: if_splits)

interpretation op_2SWAP: stack_operation op_2SWAP
  by unfold_locales (auto simp: op_2SWAP_def stack_safety intro!: small_intros split: if_splits)

interpretation op_IFDUP: stack_operation op_IFDUP
  by unfold_locales (auto simp: op_IFDUP_def stack_safety intro!: small_intros split: if_splits)

interpretation op_DROP: stack_operation op_DROP
  by unfold_locales (auto simp: op_DROP_def stack_safety intro!: small_intros split: if_splits)

interpretation op_DUP: stack_operation op_DUP
  by unfold_locales (auto simp: op_DUP_def stack_safety intro!: small_intros split: if_splits)

interpretation op_NIP: stack_operation op_NIP
  by unfold_locales (auto simp: op_NIP_def stack_safety intro!: small_intros split: if_splits)

interpretation op_OVER: stack_operation op_OVER
  by unfold_locales (auto simp: op_OVER_def stack_safety intro!: small_intros split: if_splits)

interpretation op_ROT: stack_operation op_ROT
  by unfold_locales (auto simp: op_ROT_def stack_safety intro!: small_intros split: if_splits)

interpretation op_SWAP: stack_operation op_SWAP
  by unfold_locales (auto simp: op_SWAP_def stack_safety intro!: small_intros split: if_splits)

interpretation op_TUCK: stack_operation op_TUCK
  by unfold_locales (auto simp: op_TUCK_def stack_safety intro!: small_intros split: if_splits)

lemma op_push_small_operation: "opcode < 256 \<Longrightarrow> stack_operation (op_push_small opcode)"
  by unfold_locales (auto simp: op_push_small_def stack_safety intro!: serialize_short)

interpretation op_DEPTH: stack_operation op_DEPTH
  by unfold_locales
    (auto simp: op_DEPTH_def stack_safety intro!: small_intros serialize_short split: if_splits)

interpretation op_SIZE: stack_operation op_SIZE
  by unfold_locales
    (auto simp: op_SIZE_def stack_safety intro: size_short)

interpretation op_EQUAL: stack_operation "op_EQUAL opcode"
  by unfold_locales
    (auto simp: op_EQUAL_def stack_safety intro!: small_intros serialize_short split: if_splits)

interpretation op_HASH: stack_operation "op_HASH opcode"
  by unfold_locales
    (auto simp: op_HASH_def stack_safety intro!: small_intros serialize_short split: if_splits)

lemma pick_roll_at_ok:
  assumes "0 \<le> n" and "n < int (length s)"
  shows "\<exists>x s'. pick_roll_at opcode n s = Inr (s' @ [x]) \<and> x \<in> set s \<and> set s' \<subseteq> set s"
proof -
  have n: "nat n + 1 \<le> length s" using assms by linarith
  then have "from_back s (nat n + 1) = Inr (s ! (length s - (nat n + 1)))" by (simp add: from_back_def)
  then have top: "stacktop s (nat n + 1) = Inr (s ! (length s - (nat n + 1)))" by (simp add: stacktop_def)
  have el: "s ! (length s - (nat n + 1)) \<in> set s" using n by (intro nth_mem) linarith
  have erase: "erase_top (nat n + 1) (nat n) s =
      Inr (take (length s - (nat n + 1)) s @ drop (length s - nat n) s)"
    using n by (simp add: erase_top_def)
  have "set (take (length s - (nat n + 1)) s @ drop (length s - nat n) s) \<subseteq> set s"
    by (auto dest: in_set_takeD in_set_dropD)
  with assms top el erase show ?thesis by (auto simp: pick_roll_at_def)
qed

lemma pick_roll_at_operation: "stack_operation (pick_roll_at opcode n)"
proof unfold_locales
  fix s
  show "only_number_errors (pick_roll_at opcode n s)"
    using pick_roll_at_ok [of n s opcode]
    by (cases "0 \<le> n \<and> n < int (length s)") (auto simp: only_number_errors_def pick_roll_at_def)
next
  fix s s'
  assume r: "pick_roll_at opcode n s = Inr s'" and sm: "small s"
  then have "0 \<le> n \<and> n < int (length s)" by (auto simp: pick_roll_at_def split: if_splits)
  then obtain x t where "s' = t @ [x]" "x \<in> set s" "set t \<subseteq> set s"
    using pick_roll_at_ok [of n s opcode] r by auto
  with sm show "small s'" by (auto simp: small_def)
qed

text \<open>Composition: a guarded read of the arguments followed by an operation.\<close>

lemma only_number_errors_bind:
  "only_number_errors m \<Longrightarrow> (\<And>x. m = Inr x \<Longrightarrow> only_number_errors (f x)) \<Longrightarrow>
   only_number_errors (bind_e m f)"
  by (cases m) (auto simp: only_number_errors_def)

lemma only_number_errors_simps [simp]:
  "only_number_errors (Inr x)" "only_number_errors (Inl (Err e))" "only_number_errors (require c e)"
  "only_number_errors (size_at_least s n)" "only_number_errors (script_num m v)"
  "only_number_errors (throws (CScriptNum v m k))"
  by (auto simp: only_number_errors_def require_def size_at_least_def script_num_def exn_simps
      dest: CScriptNum_throws)

lemma only_number_errors_access:
  "1 \<le> k \<Longrightarrow> k \<le> length s \<Longrightarrow> only_number_errors (stacktop s k)"
  "s \<noteq> [] \<Longrightarrow> only_number_errors (popstack s)"
  by (auto simp: only_number_errors_def stacktop_def popstack_def exn_simps from_back_Inl pop_back_eq_Inl)

lemma size_at_least_Inr: "size_at_least s n = Inr u \<longleftrightarrow> n \<le> length s"
  by (auto simp: size_at_least_def exn_simps)

lemma popstack_Inr: "popstack s = Inr s' \<longleftrightarrow> s \<noteq> [] \<and> s' = butlast s"
  by (simp add: popstack_def exn_simps)

lemmas bind_rules = only_number_errors_bind only_number_errors_access
lemmas access_simps = size_at_least_Inr popstack_Inr butlast_Nil_iff

interpretation op_PICK_ROLL: stack_operation "op_PICK_ROLL opcode m"
proof unfold_locales
  fix s
  show "only_number_errors (op_PICK_ROLL opcode m s)"
    unfolding op_PICK_ROLL_def
    by (intro bind_rules stack_operation.throws_only [OF pick_roll_at_operation])
      (auto simp: access_simps)
next
  fix s s' assume r: "op_PICK_ROLL opcode m s = Inr s'" and s: "length s \<le> MAX_STACK_SIZE" "small s"
  then obtain n where "pick_roll_at opcode n (butlast s) = Inr s'"
    by (auto simp: op_PICK_ROLL_def exn_simps access_simps)
  then show "small s'"
    by (rule stack_operation.keeps_small [OF pick_roll_at_operation]) (use s in \<open>simp_all add: small_butlast\<close>)
qed

lemma unary_num_bounds:
  assumes "\<bar>n\<bar> < 2 ^ 31" and "opcode \<in> {OP_1ADD, OP_1SUB, OP_NEGATE, OP_ABS, OP_NOT, OP_0NOTEQUAL}"
  shows "\<exists>r. unary_num opcode n = Inr r \<and> \<bar>r\<bar> \<le> 2 ^ 31"
proof -
  have "in_i64 (n + 1)" "in_i64 (n - 1)" "in_i64 (- n)" using assms(1) by (auto simp: in_i64_def)
  with assms show ?thesis
    by (elim insertE emptyE;
        auto simp: unary_num_def num_plus_assign_def num_minus_assign_def num_neg_def)
qed

lemma binary_num_bounds:
  assumes "\<bar>a\<bar> < 2 ^ 31" and "\<bar>b\<bar> < 2 ^ 31"
    and "opcode \<in> {OP_ADD, OP_SUB, OP_BOOLAND, OP_BOOLOR, OP_NUMEQUAL, OP_NUMEQUALVERIFY,
      OP_NUMNOTEQUAL, OP_LESSTHAN, OP_GREATERTHAN, OP_LESSTHANOREQUAL, OP_GREATERTHANOREQUAL,
      OP_MIN, OP_MAX}"
  shows "\<exists>r. binary_num opcode a b = Inr r \<and> \<bar>r\<bar> \<le> 2 ^ 32"
proof -
  have "in_i64 (a + b)" "in_i64 (a - b)" using assms(1,2) by (auto simp: in_i64_def)
  with assms show ?thesis
    by (elim insertE emptyE; auto simp: binary_num_def num_plus_def num_minus_def)
qed

lemma op_unary_operation:
  assumes "opcode \<in> {OP_1ADD, OP_1SUB, OP_NEGATE, OP_ABS, OP_NOT, OP_0NOTEQUAL}"
  shows "stack_operation (op_unary opcode m)"
proof unfold_locales
  fix s
  have "only_number_errors (unary_num opcode n)" if "script_num m v = Inr n" for n v
    using unary_num_bounds [OF script_num_range [OF that] assms] by auto
  then show "only_number_errors (op_unary opcode m s)"
    unfolding op_unary_def by (intro bind_rules) (auto simp: access_simps)
next
  fix s s' assume r: "op_unary opcode m s = Inr s'" and s: "small s"
  then obtain v bn n where "script_num m v = Inr bn" "unary_num opcode bn = Inr n"
    "s' = butlast s @ [getvch n]"
    by (auto simp: op_unary_def exn_simps access_simps)
  moreover from this have "\<bar>n\<bar> \<le> 2 ^ 31" using unary_num_bounds [OF script_num_range assms, of m v bn] by auto
  ultimately show "small s'" using s by (simp add: small_butlast serialize_short)
qed

lemma op_binary_operation:
  assumes "opcode \<in> {OP_ADD, OP_SUB, OP_BOOLAND, OP_BOOLOR, OP_NUMEQUAL, OP_NUMEQUALVERIFY,
      OP_NUMNOTEQUAL, OP_LESSTHAN, OP_GREATERTHAN, OP_LESSTHANOREQUAL, OP_GREATERTHANOREQUAL,
      OP_MIN, OP_MAX}"
  shows "stack_operation (op_binary opcode m)"
proof unfold_locales
  fix s
  have "only_number_errors (binary_num opcode a b)" if "script_num m v = Inr a" "script_num m w = Inr b" for a b v w
    using binary_num_bounds [OF that [THEN script_num_range] assms] by auto
  then show "only_number_errors (op_binary opcode m s)"
    unfolding op_binary_def Let_def
    by (intro bind_rules) (auto simp: access_simps intro!: bind_rules)
next
  fix s s' assume r: "op_binary opcode m s = Inr s'" and s: "small s"
  then obtain v1 b1 v2 b2 n where n: "script_num m v1 = Inr b1" "script_num m v2 = Inr b2"
    "binary_num opcode b1 b2 = Inr n"
    and s': "s' = butlast (butlast s) @ [getvch n] \<or> s' = butlast (butlast s)"
    by (auto simp: op_binary_def Let_def exn_simps access_simps split: if_splits)
  from n have "\<bar>n\<bar> \<le> 2 ^ 32"
    using binary_num_bounds [OF script_num_range script_num_range assms, of m v1 b1 m v2 b2] by auto
  then have "length (getvch n) \<le> 520" by (intro serialize_short) simp
  with s s' show "small s'" by (auto simp: small_butlast)
qed

interpretation op_WITHIN: stack_operation "op_WITHIN m"
proof unfold_locales
  fix s
  show "only_number_errors (op_WITHIN m s)"
    unfolding op_WITHIN_def Let_def by (intro bind_rules) (auto simp: access_simps)
next
  fix s s' assume r: "op_WITHIN m s = Inr s'" and s: "small s"
  then obtain b where "s' = butlast (butlast (butlast s)) @ [vch_bool b]"
    by (auto simp: op_WITHIN_def Let_def exn_simps access_simps)
  with s show "small s'" by (simp add: small_butlast vch_bool_def vchTrue_def vchFalse_def)
qed

lemma stack_opcode_operation:
  assumes "stack_opcode m opcode = Some f"
  shows "stack_operation f"
proof -
  note ops = op_VERIFY.stack_operation_axioms op_2DROP.stack_operation_axioms op_2DUP.stack_operation_axioms
    op_3DUP.stack_operation_axioms op_2OVER.stack_operation_axioms op_2ROT.stack_operation_axioms
    op_2SWAP.stack_operation_axioms op_IFDUP.stack_operation_axioms op_DEPTH.stack_operation_axioms
    op_DROP.stack_operation_axioms op_DUP.stack_operation_axioms op_NIP.stack_operation_axioms
    op_OVER.stack_operation_axioms op_PICK_ROLL.stack_operation_axioms op_ROT.stack_operation_axioms
    op_SWAP.stack_operation_axioms op_TUCK.stack_operation_axioms op_SIZE.stack_operation_axioms
    op_EQUAL.stack_operation_axioms op_WITHIN.stack_operation_axioms op_HASH.stack_operation_axioms
  show ?thesis
    using assms unfolding stack_opcode_def
    by (simp split: if_splits)
      (auto intro: ops op_push_small_operation op_unary_operation op_binary_operation)
qed

section \<open>Signature opcodes\<close>

lemma check_encodings_safe [simp]: "only_number_errors (check_encodings env x y)"
  by (auto simp: check_encodings_def CheckSignatureEncoding_def CheckPubKeyEncoding_def
      IsLowDERSignature_def intro!: bind_rules)

lemma op_CHECKSIG_operation: "stack_operation (op_CHECKSIG env script codehash opcode)"
proof unfold_locales
  fix s
  show "only_number_errors (op_CHECKSIG env script codehash opcode s)"
    unfolding op_CHECKSIG_def Let_def
    by (intro bind_rules) (auto simp: access_simps intro!: bind_rules)
next
  fix s s' assume r: "op_CHECKSIG env script codehash opcode s = Inr s'" and s: "small s"
  then obtain b where "s' = butlast (butlast s) @ [vch_bool b] \<or> s' = butlast (butlast s)"
    by (auto simp: op_CHECKSIG_def Let_def exn_simps access_simps split: if_splits)
  with s show "small s'" by (auto simp: small_butlast vch_bool_def vchTrue_def vchFalse_def)
qed

lemma multisig_counts_safe [simp]: "only_number_errors (multisig_counts env s n)"
  unfolding multisig_counts_def Let_def
  by (intro bind_rules) (auto simp: access_simps intro!: bind_rules)

lemma multisig_counts_Inr:
  assumes "multisig_counts env s n = Inr (k, g, n')"
  shows "0 \<le> g" and "g \<le> k" and "k \<le> 20" and "n' = n + k" and "n' \<le> 201"
    and "2 + nat k + nat g \<le> length s"
  using assms unfolding multisig_counts_def Let_def
  by (auto simp: exn_simps size_at_least_Inr split: if_splits)

lemma delete_signatures_safe:
  "1 \<le> pos \<Longrightarrow> pos + n \<le> length s + 1 \<Longrightarrow> only_number_errors (delete_signatures s pos n code)"
proof (induction n arbitrary: pos code)
  case (Suc n)
  then show ?case by (auto intro!: bind_rules)
qed simp

lemma multisig_loop_safe:
  "1 \<le> isig \<Longrightarrow> 1 \<le> ikey \<Longrightarrow> isig + nat g \<le> length s + 1 \<Longrightarrow> ikey + nat k \<le> length s + 1 \<Longrightarrow>
   g \<le> k \<Longrightarrow> only_number_errors (multisig_loop env code s isig ikey g k)"
proof (induction "nat k" arbitrary: isig ikey g k)
  case 0
  then have "g \<le> 0" by linarith
  then show ?case by (simp add: multisig_loop.simps [of env code s isig ikey g k])
next
  case (Suc m)
  show ?case
  proof (cases "g > 0")
    case True
    have m: "m = nat (k - 1)" and sig: "isig \<le> length s" and key: "ikey \<le> length s"
      using Suc.hyps(2) Suc.prems True by linarith+
    have hit: "only_number_errors (multisig_loop env code s (isig + 1) (ikey + 1) (g - 1) (k - 1))"
      by (rule Suc.hyps(1) [OF m]) (use Suc.prems True in linarith)+
    have miss: "only_number_errors (multisig_loop env code s isig (ikey + 1) g (k - 1))" if "g \<le> k - 1"
      by (rule Suc.hyps(1) [OF m]) (use Suc.prems True that in linarith)+
    show ?thesis
      unfolding multisig_loop.simps [of env code s isig ikey g k]
      using True sig key Suc.prems(1,2) hit miss
      by (auto simp: Let_def not_less intro!: bind_rules)
  qed (simp add: multisig_loop.simps [of env code s isig ikey g k])
qed

lemma multisig_cleanup_safe:
  "n \<le> length s \<Longrightarrow> only_number_errors (multisig_cleanup env ok k n s)"
proof (induction n arbitrary: s k)
  case (Suc n)
  then have "s \<noteq> []" "1 \<le> length s" by auto
  with Suc show ?case by (auto simp: popstack_Inr intro!: bind_rules)
qed simp

lemma multisig_cleanup_Inr:
  "multisig_cleanup env ok k n s = Inr s' \<Longrightarrow> s' = take (length s - n) s"
proof (induction n arbitrary: s k)
  case (Suc n)
  then have "s \<noteq> []" and "multisig_cleanup env ok (k - 1) n (butlast s) = Inr s'"
    by (auto simp: exn_simps popstack_Inr)
  with Suc.IH have "s' = take (length (butlast s) - n) (butlast s)" by blast
  then show ?case by (simp add: butlast_conv_take take_take min_def)
qed simp

declare multisig_cleanup.simps [simp del]

lemma op_CHECKMULTISIG_safe:
  "only_number_errors (op_CHECKMULTISIG env script codehash opcode n s)"
proof -
  have body: "only_number_errors
      (bind_e (if sigversion env = SIGVERSION_BASE
             then delete_signatures s (nat k + 3) (nat g) code else Inr code) (\<lambda>code.
       bind_e (multisig_loop env code s (nat k + 3) 2 g k) (\<lambda>ok.
       bind_e (multisig_cleanup env ok (nat k + 2) (nat k + 3 + nat g - 1) s) (\<lambda>s.
       bind_e (if sigversion env = SIGVERSION_BASE
             then bind_e (size_at_least s 1) (\<lambda>_. popstack s) else Inr s) (\<lambda>s.
         if opcode = OP_CHECKMULTISIGVERIFY then
           (if ok then bind_e (popstack (s @ [vch_bool ok])) (\<lambda>s. Inr (s, n'))
            else Inl (Err SCRIPT_ERR_CHECKMULTISIGVERIFY))
         else Inr (s @ [vch_bool ok], n'))))))"
    if "multisig_counts env s n = Inr (k, g, n')" for k g n' code
  proof -
    note b = multisig_counts_Inr [OF that]
    have "only_number_errors (delete_signatures s (nat k + 3) (nat g) code)"
      by (rule delete_signatures_safe) (use b in linarith)+
    moreover have "only_number_errors (multisig_loop env c s (nat k + 3) 2 g k)" for c
      by (rule multisig_loop_safe) (use b in linarith)+
    moreover have "only_number_errors (multisig_cleanup env ok i (nat k + 3 + nat g - 1) s)" for ok i
      by (rule multisig_cleanup_safe) (use b in linarith)
    ultimately show ?thesis
      by (auto simp: access_simps intro!: bind_rules)
  qed
  show ?thesis
  proof (cases "multisig_counts env s n")
    case (Inl e)
    with multisig_counts_safe [of env s n] show ?thesis
      by (simp add: op_CHECKMULTISIG_def only_number_errors_def)
  next
    case (Inr r)
    obtain k g n' where "r = (k, g, n')" by (metis prod_cases3)
    with Inr show ?thesis
      unfolding op_CHECKMULTISIG_def Let_def by (simp only: bind_e_Inr prod.case body)
  qed
qed

lemma op_CHECKMULTISIG_Inr:
  assumes "op_CHECKMULTISIG env script codehash opcode n s = Inr (s', n')" and "small s"
  shows "small s' \<and> n \<le> n' \<and> n' \<le> 201"
proof -
  obtain k g m where c: "multisig_counts env s n = Inr (k, g, m)"
    using assms(1) by (cases "multisig_counts env s n") (auto simp: op_CHECKMULTISIG_def)
  from assms(1) obtain ok t where t: "multisig_cleanup env ok (nat k + 2) (nat k + 3 + nat g - 1) s = Inr t"
    and u: "s' \<in> {t, butlast t, t @ [vch_bool ok], butlast t @ [vch_bool ok]}" and n': "n' = m"
    unfolding op_CHECKMULTISIG_def Let_def c bind_e_Inr prod.case bind_e_eq_Inr
    by (auto simp: exn_simps access_simps split: if_splits)
  have "small t" using multisig_cleanup_Inr [OF t] assms(2) by (simp add: small_take_drop)
  with u have "small s'" by (auto simp: small_butlast vch_bool_def vchTrue_def vchFalse_def)
  with multisig_counts_Inr [OF c] n' show ?thesis by auto
qed

section \<open>The step invariant\<close>

text \<open>The limits that hold before every instruction.\<close>

definition interp_ok :: "interp \<Rightarrow> bool" where
  "interp_ok st \<longleftrightarrow>
     length (stack st) + length (altstack st) \<le> MAX_STACK_SIZE \<and>
     small (stack st) \<and> small (altstack st) \<and> 0 \<le> nOpCount st \<and> nOpCount st \<le> MAX_OPS_PER_SCRIPT"

lemma lock_ops_safe [simp]:
  "only_number_errors (upgradable_nop env)"
  "only_number_errors (op_CHECKLOCKTIMEVERIFY env s)" "only_number_errors (op_CHECKSEQUENCEVERIFY env s)"
  unfolding upgradable_nop_def op_CHECKLOCKTIMEVERIFY_def op_CHECKSEQUENCEVERIFY_def
  by (auto simp: access_simps intro!: bind_rules)

lemma control_ops_safe [simp]:
  "only_number_errors (op_IF env fExec opcode st)" "only_number_errors (op_ELSE st)"
  "only_number_errors (op_ENDIF st)" "only_number_errors (op_TOALTSTACK st)"
  "only_number_errors (op_FROMALTSTACK st)"
  unfolding op_IF_def op_ELSE_def op_ENDIF_def op_TOALTSTACK_def op_FROMALTSTACK_def Let_def
  by (auto simp: access_simps exn_simps Suc_le_eq intro!: bind_rules)

lemma exec_opcode_safe: "only_number_errors (exec_opcode env script fExec opcode st)"
proof (cases "stack_opcode (fRequireMinimal env) opcode")
  case (Some f)
  with stack_operation.on_stack_throws [OF stack_opcode_operation [OF Some]] show ?thesis
    by (simp add: exec_opcode_def)
next
  case None
  have "only_number_errors (on_stack st (op_CHECKSIG env script c opcode (stack st)))" for c
    by (rule stack_operation.on_stack_throws [OF op_CHECKSIG_operation])
  with None show ?thesis
    by (auto simp: exec_opcode_def intro!: bind_rules op_CHECKMULTISIG_safe)
qed

lemma eval_step_safe: "only_number_errors (eval_step env script st)"
  unfolding eval_step_def exec_instruction_def Let_def
  by (auto split: prod.splits option.splits intro!: bind_rules exec_opcode_safe)

lemma eval_loop_safe: "only_number_errors (eval_loop env script st)"
proof (induction env script st rule: eval_loop.induct)
  case (1 env script st)
  then show ?case
    unfolding eval_loop.simps [of env script st] by (auto intro!: bind_rules eval_step_safe)
qed

text \<open>The limits an opcode keeps; the bound on the number of elements is checked after it.\<close>

definition limits_ok :: "interp \<Rightarrow> bool" where
  "limits_ok st \<longleftrightarrow> small (stack st) \<and> small (altstack st) \<and>
     0 \<le> nOpCount st \<and> nOpCount st \<le> MAX_OPS_PER_SCRIPT"

lemma control_ops_ok:
  assumes "limits_ok st"
  shows "op_IF env fExec opcode st = Inr st' \<Longrightarrow> limits_ok st'"
    and "op_ELSE st = Inr st' \<Longrightarrow> limits_ok st'"
    and "op_ENDIF st = Inr st' \<Longrightarrow> limits_ok st'"
    and "op_TOALTSTACK st = Inr st' \<Longrightarrow> limits_ok st'"
    and "op_FROMALTSTACK st = Inr st' \<Longrightarrow> limits_ok st'"
  using assms unfolding limits_ok_def
  by (auto simp: exn_simps op_IF_def op_ELSE_def op_ENDIF_def op_TOALTSTACK_def op_FROMALTSTACK_def
      Let_def popstack_Inr stacktop_def small_butlast dest: small_from_back split: if_splits)

lemma exec_opcode_ok:
  assumes r: "exec_opcode env script fExec opcode st = Inr st'"
    and len: "length (stack st) \<le> MAX_STACK_SIZE" and ok: "limits_ok st"
  shows "limits_ok st'"
proof (cases "stack_opcode (fRequireMinimal env) opcode")
  case (Some f)
  with assms stack_operation.on_stack_small [OF stack_opcode_operation [OF Some], of st st'] show ?thesis
    by (simp add: exec_opcode_def limits_ok_def)
next
  case None
  have sig: "limits_ok st'" if "on_stack st (op_CHECKSIG env script c opcode (stack st)) = Inr st'" for c
    using stack_operation.on_stack_small [OF op_CHECKSIG_operation that len] ok by (simp add: limits_ok_def)
  have multi: "limits_ok (st\<lparr>stack := s, nOpCount := n\<rparr>)"
    if "op_CHECKMULTISIG env script c opcode (nOpCount st) (stack st) = Inr (s, n)" for c s n
    using op_CHECKMULTISIG_Inr [OF that] ok by (auto simp: limits_ok_def)
  have code: "limits_ok (st\<lparr>pbegincodehash := c\<rparr>)" for c using ok by (simp add: limits_ok_def)
  from r None ok show ?thesis
    unfolding exec_opcode_def
    by (auto simp: exn_simps split: if_splits intro: sig multi code dest: control_ops_ok [OF ok])
qed

lemma eval_step_cases:
  assumes "eval_step env script st = Inr st'"
  obtains pc' opcode v n where "GetOp2 script (pc st) = (pc', Some (opcode, v))"
    and "length v \<le> MAX_SCRIPT_ELEMENT_SIZE" and "opcode \<notin> set disabled_opcodes"
    and "n = (if opcode > OP_16 then nOpCount st + 1 else nOpCount st)"
    and "opcode > OP_16 \<longrightarrow> n \<le> MAX_OPS_PER_SCRIPT"
    and "exec_instruction env script (\<not> (False \<in> set (vfExec st))) opcode v (st\<lparr>pc := pc', nOpCount := n\<rparr>) = Inr st'"
    and "length (stack st') + length (altstack st') \<le> MAX_STACK_SIZE"
  using assms unfolding eval_step_def Let_def
  by (cases "GetOp2 script (pc st)"; cases "snd (GetOp2 script (pc st))")
    (auto simp: exn_simps split: if_splits)

lemma eval_step_ok:
  assumes "interp_ok st" and "eval_step env script st = Inr st'"
  shows "interp_ok st'"
  using assms(2)
proof (cases rule: eval_step_cases)
  case (1 pc' opcode v n)
  define st1 where "st1 = st\<lparr>pc := pc', nOpCount := n\<rparr>"
  have st1: "length (stack st1) \<le> MAX_STACK_SIZE" "limits_ok st1"
    using assms(1) 1(4,5) by (auto simp: st1_def interp_ok_def limits_ok_def split: if_splits)
  have push: "limits_ok (st1\<lparr>stack := stack st1 @ [v]\<rparr>)" using st1(2) 1(2) by (simp add: limits_ok_def)
  have "limits_ok st'"
    using 1(6) [folded st1_def] st1 push exec_opcode_ok [OF _ st1, of env script _ opcode st']
    by (auto simp: exec_instruction_def split: if_splits)
  with 1(7) show ?thesis by (simp add: interp_ok_def limits_ok_def)
qed

lemma eval_loop_ok:
  "interp_ok st \<Longrightarrow> eval_loop env script st = Inr st' \<Longrightarrow> interp_ok st' \<and> pc st' \<ge> length script"
proof (induction env script st rule: eval_loop.induct)
  case (1 env script st)
  then show ?case
    by (cases "pc st < length script")
      (auto simp: eval_loop.simps [of env script st] exn_simps dest: eval_step_ok)
qed

lemma EvalScript_no_exn: "EvalScript s script flags chk ver \<noteq> Inl (Exn e)"
proof -
  let ?env = "\<lparr>e_flags = flags, e_checker = chk, e_scriptversion = ver\<rparr>"
  have "catch_all (eval_loop ?env script (initial_interp s)) \<noteq> Inl (Exn e)"
    using eval_loop_safe [of ?env script "initial_interp s"]
    by (auto simp: catch_all_def only_number_errors_def split: sum.splits failure.splits cpp_exn.splits)
  then show ?thesis by (auto simp: EvalScript_def exn_simps split: if_splits)
qed

text \<open>
  C1. The interpreter is memory-safe and cannot be crashed by a script: whatever the script, the
  stack and the checker, no instruction reads or pops beyond the stacks and no assertion fails.
  The only exception an instruction can throw is the one of a malformed number, and it is caught,
  so \<^verbatim>\<open>EvalScript\<close> always ends with success or a script error.
\<close>

theorem EvalScript_no_exception:
  "only_number_errors (eval_loop env script st) \<and> EvalScript s script flags chk scriptversion \<noteq> Inl (Exn e)"
  using eval_loop_safe EvalScript_no_exn by blast

lemma catch_all_Inr [exn_simps]: "catch_all m = Inr x \<longleftrightarrow> m = Inr x"
  by (auto simp: catch_all_def split: sum.splits failure.splits cpp_exn.splits)

lemma EvalScript_Inr:
  assumes "EvalScript s script flags chk scriptversion = Inr s'"
  obtains st where
    "eval_loop \<lparr>e_flags = flags, e_checker = chk, e_scriptversion = scriptversion\<rparr> script (initial_interp s) = Inr st"
    "vfExec st = []" "s' = stack st" "length script \<le> MAX_SCRIPT_SIZE"
  using assms by (auto simp: EvalScript_def exn_simps split: if_splits)

lemma initial_interp_ok: "length s \<le> MAX_STACK_SIZE \<Longrightarrow> small s \<Longrightarrow> interp_ok (initial_interp s)"
  by (simp add: interp_ok_def initial_interp_def)

text \<open>
  The resource limits are an invariant of the whole run: started within the limits, a
  successful evaluation leaves at most \<^verbatim>\<open>MAX_STACK_SIZE\<close> elements on the stack, none
  longer than \<^verbatim>\<open>MAX_SCRIPT_ELEMENT_SIZE\<close>.
\<close>

theorem EvalScript_limits:
  assumes "length s \<le> MAX_STACK_SIZE" and "small s"
    and "EvalScript s script flags chk scriptversion = Inr s'"
  shows "length s' \<le> MAX_STACK_SIZE \<and> small s'"
  using assms(3)
proof (rule EvalScript_Inr)
  fix st
  assume run: "eval_loop \<lparr>e_flags = flags, e_checker = chk, e_scriptversion = scriptversion\<rparr> script
      (initial_interp s) = Inr st" and "s' = stack st"
  moreover have "interp_ok st" using eval_loop_ok [OF initial_interp_ok [OF assms(1,2)] run] by simp
  ultimately show ?thesis by (simp add: interp_ok_def)
qed

lemma eval_loop_step:
  "pc st < length script \<Longrightarrow> eval_step env script st = Inr st' \<Longrightarrow>
   eval_loop env script st = eval_loop env script st'"
  by (simp add: eval_loop.simps [of env script st])

lemma eval_loop_done: "length script \<le> pc st \<Longrightarrow> eval_loop env script st = Inr st"
  by (simp add: eval_loop.simps [of env script st])

lemmas eval_simps = eval_loop_step eval_loop_done eval_step_def exec_instruction_def exec_opcode_def
  stack_opcode_def on_stack_def initial_interp_def GetOp2_def push_size_def fRequireMinimal_def has_flag_def
  disabled_opcodes_def

lemma EvalScript_example: "EvalScript [[7]] [0x51, 0x76, 0x6b] 0 chk SCRIPT_V1 = Inr [[7], [1]]"
proof -
  have one: "getvch 1 = [1]" by (simp add: getvch_def serialize_def abs_bytes.simps byte_and_128)
  show ?thesis
    by (simp add: EvalScript_def eval_simps op_push_small_def op_DUP_def op_TOALTSTACK_def op_helpers
        catch_all_def one pop_back_def from_back_def)
qed

theorem EvalScript_limits_witness:
  "let chk = BaseSignatureChecker (\<lambda>_. True) in
   small [[7]] \<and> EvalScript [[7]] [0x51, 0x76, 0x6b] 0 chk SCRIPT_V1 = Inr [[7], [1]] \<and> small [[7], [1]]"
  using EvalScript_limits [OF _ _ EvalScript_example [of "BaseSignatureChecker (\<lambda>_. True)"]]
    EvalScript_example
  by (simp add: Let_def)

end
