(* ===== verification/Script_Shape.thy ===== *)
theory Script_Shape
  imports Script_Safety
begin

text \<open>
  What a successful evaluation says about the script itself: it parses to its end, it has no
  disabled opcode, its pushes and its operation count are within the limits, and its conditionals
  are balanced, in branches that are taken and in branches that are not.
\<close>

section \<open>The shape of a script that evaluates\<close>

text \<open>The instructions of a script, or nothing if it cannot be parsed to its end.\<close>

function parse_ops :: "cscript \<Rightarrow> nat \<Rightarrow> (nat \<times> valtype) list option" where
  "parse_ops s i =
     (if i < length s then
        (case GetOp2 s i of
           (j, None) \<Rightarrow> None
         | (j, Some r) \<Rightarrow> map_option (Cons r) (parse_ops s j))
      else Some [])"
  by pat_completeness auto
termination
  by (relation "measure (\<lambda>(s, i). length s - i)") (auto dest: GetOp2_decreases)

declare parse_ops.simps [simp del]

text \<open>The nesting depth of conditionals after a list of opcodes, when they are balanced.\<close>

fun cond_depth :: "nat \<Rightarrow> nat list \<Rightarrow> nat option" where
  "cond_depth d [] = Some d"
| "cond_depth d (opcode # ops) =
     (if opcode = OP_IF \<or> opcode = OP_NOTIF then cond_depth (Suc d) ops
      else if opcode = OP_ELSE then (if d = 0 then None else cond_depth d ops)
      else if opcode = OP_ENDIF then (if d = 0 then None else cond_depth (d - 1) ops)
      else cond_depth d ops)"

lemma stack_opcode_not_conditional:
  assumes "stack_opcode m opcode = Some f"
  shows "opcode \<notin> {OP_IF, OP_NOTIF, OP_ELSE, OP_ENDIF}"
proof
  assume "opcode \<in> {OP_IF, OP_NOTIF, OP_ELSE, OP_ENDIF}"
  then have "stack_opcode m opcode = None" by (elim insertE emptyE) (simp_all add: stack_opcode_def)
  with assms show False by simp
qed

lemma op_CHECKMULTISIG_count:
  assumes "op_CHECKMULTISIG env script c opcode n s = Inr (s', n')"
  shows "n \<le> n'"
proof -
  obtain k g m where c: "multisig_counts env s n = Inr (k, g, m)"
    using assms by (cases "multisig_counts env s n") (auto simp: op_CHECKMULTISIG_def)
  from assms have "n' = m"
    unfolding op_CHECKMULTISIG_def Let_def c bind_e_Inr prod.case bind_e_eq_Inr
    by (auto simp: exn_simps split: if_splits)
  with multisig_counts_Inr [OF c] show ?thesis by simp
qed

lemma control_ops_depth:
  "op_IF env fExec opcode st = Inr st' \<Longrightarrow> length (vfExec st') = Suc (length (vfExec st)) \<and> nOpCount st' = nOpCount st"
  "op_ELSE st = Inr st' \<Longrightarrow> vfExec st \<noteq> [] \<and> length (vfExec st') = length (vfExec st) \<and> nOpCount st' = nOpCount st"
  "op_ENDIF st = Inr st' \<Longrightarrow> vfExec st \<noteq> [] \<and> length (vfExec st') = length (vfExec st) - 1 \<and> nOpCount st' = nOpCount st"
  "op_TOALTSTACK st = Inr st' \<Longrightarrow> vfExec st' = vfExec st \<and> nOpCount st' = nOpCount st"
  "op_FROMALTSTACK st = Inr st' \<Longrightarrow> vfExec st' = vfExec st \<and> nOpCount st' = nOpCount st"
  "on_stack st m = Inr st' \<Longrightarrow> vfExec st' = vfExec st \<and> nOpCount st' = nOpCount st"
  by (auto simp: op_IF_def op_ELSE_def op_ENDIF_def op_TOALTSTACK_def op_FROMALTSTACK_def on_stack_def
      exn_simps Let_def split: if_splits)

lemma exec_opcode_depth:
  assumes "exec_opcode env script fExec opcode st = Inr st'"
  shows "cond_depth (length (vfExec st)) (opcode # ops) = cond_depth (length (vfExec st')) ops \<and>
    nOpCount st \<le> nOpCount st'"
proof (cases "stack_opcode (fRequireMinimal env) opcode")
  case (Some f)
  with assms stack_opcode_not_conditional [OF Some] show ?thesis
    by (auto simp: exec_opcode_def dest!: control_ops_depth(6))
next
  case None
  with assms show ?thesis
    unfolding exec_opcode_def
    by (auto simp: exn_simps split: if_splits dest!: control_ops_depth op_CHECKMULTISIG_count)
qed

lemma exec_instruction_depth:
  assumes "exec_instruction env script fExec opcode v st = Inr st'"
  shows "cond_depth (length (vfExec st)) (opcode # ops) = cond_depth (length (vfExec st')) ops \<and>
    nOpCount st \<le> nOpCount st'"
  using assms exec_opcode_depth [of env script fExec opcode st st' ops]
  by (auto simp: exec_instruction_def split: if_splits)

text \<open>What the limits of the script say of its list of instructions.\<close>

definition well_formed_ops :: "(nat \<times> valtype) list \<Rightarrow> bool" where
  "well_formed_ops ops \<longleftrightarrow>
     (\<forall>(opcode, v)\<in>set ops. opcode \<notin> set disabled_opcodes \<and> length v \<le> MAX_SCRIPT_ELEMENT_SIZE)"

definition counted_ops :: "(nat \<times> valtype) list \<Rightarrow> nat" where
  "counted_ops ops = length (filter (\<lambda>(opcode, v). opcode > OP_16) ops)"

lemma eval_loop_shape:
  "eval_loop env script st = Inr st' \<Longrightarrow>
   \<exists>ops. parse_ops script (pc st) = Some ops \<and> well_formed_ops ops \<and>
     cond_depth (length (vfExec st)) (map fst ops) = Some (length (vfExec st')) \<and>
     nOpCount st + int (counted_ops ops) \<le> nOpCount st'"
proof (induction env script st rule: eval_loop.induct)
  case (1 env script st)
  show ?case
  proof (cases "pc st < length script")
    case False
    then have "parse_ops script (pc st) = Some []" by (simp add: parse_ops.simps [of script "pc st"])
    moreover from False 1(2) have "st' = st" by (simp add: eval_loop_done)
    ultimately show ?thesis by (simp add: well_formed_ops_def counted_ops_def)
  next
    case True
    with 1(2) obtain st1 where st1: "eval_step env script st = Inr st1" "eval_loop env script st1 = Inr st'"
      by (auto simp: eval_loop.simps [of env script st] exn_simps)
    from 1(1) [OF True st1] obtain ops where ops: "parse_ops script (pc st1) = Some ops"
      "well_formed_ops ops" "cond_depth (length (vfExec st1)) (map fst ops) = Some (length (vfExec st'))"
      "nOpCount st1 + int (counted_ops ops) \<le> nOpCount st'" by blast
    from st1(1) show ?thesis
    proof (cases rule: eval_step_cases)
      case (1 pc' opcode v n)
      note d = exec_instruction_depth [OF 1(6), of "map fst ops"]
      have "pc st1 = pc'"
        using 1(6) by (auto simp: exec_instruction_def split: if_splits dest: exec_opcode_pc)
      with True 1(1) ops(1) have "parse_ops script (pc st) = Some ((opcode, v) # ops)"
        by (simp add: parse_ops.simps [of script "pc st"])
      moreover have "well_formed_ops ((opcode, v) # ops)" using ops(2) 1(2,3) by (simp add: well_formed_ops_def)
      moreover have "nOpCount st + int (counted_ops ((opcode, v) # ops)) \<le> nOpCount st'"
        using ops(4) d 1(4) by (auto simp: counted_ops_def split: if_splits)
      ultimately show ?thesis using ops(3) d by auto
    qed
  qed
qed

text \<open>
  C26. A script that evaluates successfully parses completely; none of its instructions, executed
  or not, is disabled or pushes more than \<^verbatim>\<open>MAX_SCRIPT_ELEMENT_SIZE\<close> bytes; at most
  \<^verbatim>\<open>MAX_OPS_PER_SCRIPT\<close> of them are counted operations; and its conditionals are
  balanced.
\<close>

theorem EvalScript_shape:
  assumes "EvalScript s script flags chk scriptversion = Inr s'"
    and "length s \<le> MAX_STACK_SIZE" and "small s"
  shows "\<exists>ops. parse_ops script 0 = Some ops \<and> well_formed_ops ops \<and>
    int (counted_ops ops) \<le> MAX_OPS_PER_SCRIPT \<and> cond_depth 0 (map fst ops) = Some 0 \<and>
    length script \<le> MAX_SCRIPT_SIZE"
  using assms(1)
proof (rule EvalScript_Inr)
  fix st
  assume run: "eval_loop \<lparr>e_flags = flags, e_checker = chk, e_scriptversion = scriptversion\<rparr> script
      (initial_interp s) = Inr st" and "vfExec st = []" "length script \<le> MAX_SCRIPT_SIZE"
  moreover have "nOpCount st \<le> MAX_OPS_PER_SCRIPT"
    using eval_loop_ok [OF initial_interp_ok [OF assms(2,3)] run] by (simp add: interp_ok_def)
  ultimately show ?thesis using eval_loop_shape [OF run] by (force simp: initial_interp_def)
qed

theorem EvalScript_shape_witness:
  "EvalScript [[7]] [0x51, 0x76, 0x6b] 0 (BaseSignatureChecker (\<lambda>_. True)) SCRIPT_V1 = Inr [[7], [1]] \<and>
   (\<exists>ops. parse_ops [0x51, 0x76, 0x6b] 0 = Some ops \<and> well_formed_ops ops \<and> cond_depth 0 (map fst ops) = Some 0)"
  using EvalScript_shape [OF EvalScript_example [of "BaseSignatureChecker (\<lambda>_. True)"]]
    EvalScript_example
  by auto

end
