(* ===== verification/Transaction.thy ===== *)
theory Transaction
  imports Script_Base "HOL-Library.Product_Lexorder"
begin

text \<open>
  The transaction data of \<^verbatim>\<open>src/src/primitives/transaction.h\<close> and
  \<^verbatim>\<open>transaction.cpp\<close>, the money range of \<^verbatim>\<open>src/src/amount.h\<close>, and
  the witness script template of \<^verbatim>\<open>script.cpp\<close> and
  \<^verbatim>\<open>standard.cpp\<close>. A \<^verbatim>\<open>CKeyID\<close> and a \<^verbatim>\<open>uint256\<close> are
  byte arrays and are modelled by the word their bytes spell in little-endian order. The union in
  \<^verbatim>\<open>COutPoint\<close> is kept as its storage: the block number is its low 64 bits and the
  transaction index the next 64. The union in \<^verbatim>\<open>CTxOut\<close> is a sum type with the type
  tag; \<^verbatim>\<open>nValueBase\<close>, a cache that every write recomputes, is left to the
  serialization.
\<close>

section \<open>Amounts\<close>

type_synonym CAmount = int

definition COIN :: CAmount where
  "COIN = 100000000"

definition MAX_MONEY :: CAmount where
  "MAX_MONEY = 1680000000 * COIN"

definition MoneyRange :: "CAmount \<Rightarrow> bool" where
  "MoneyRange v \<longleftrightarrow> v \<ge> 0 \<and> v \<le> MAX_MONEY"

section \<open>Outpoints\<close>

definition IsOldTransactionVersion :: "u32 \<Rightarrow> bool" where
  "IsOldTransactionVersion v \<longleftrightarrow> v < 5 \<or> v = 536870912"

record COutPoint =
  o_hash :: uint256
  isHash :: bool
  o_n :: "31 word"

definition UINT31_MAX :: "31 word" where
  "UINT31_MAX = 2147483647"

definition prevBlock_blockNumber :: "COutPoint \<Rightarrow> u64" where
  "prevBlock_blockNumber out = ucast (o_hash out)"

definition prevBlock_transactionIndex :: "COutPoint \<Rightarrow> u64" where
  "prevBlock_transactionIndex out = ucast (drop_bit 64 (o_hash out))"

text \<open>The three constructors; the last leaves the upper half of the storage as it was.\<close>

definition COutPoint_null :: COutPoint where
  "COutPoint_null = \<lparr>o_hash = 0, isHash = True, o_n = UINT31_MAX\<rparr>"

definition COutPoint_hash :: "uint256 \<Rightarrow> u32 \<Rightarrow> COutPoint" where
  "COutPoint_hash hashIn nIn = \<lparr>o_hash = hashIn, isHash = True, o_n = ucast nIn\<rparr>"

definition COutPoint_index :: "128 word \<Rightarrow> u64 \<Rightarrow> u64 \<Rightarrow> u32 \<Rightarrow> COutPoint" where
  "COutPoint_index upper blockNumber transactionIndex nIn =
     \<lparr>o_hash = push_bit 128 (ucast upper) OR push_bit 64 (ucast transactionIndex) OR ucast blockNumber,
      isHash = False, o_n = ucast nIn\<rparr>"

definition getTransactionBlockNumber :: "COutPoint \<Rightarrow> cpp_exn + u64" where
  "getTransactionBlockNumber out = (if isHash out then Inl AssertFail else Inr (prevBlock_blockNumber out))"

definition getTransactionIndex :: "COutPoint \<Rightarrow> cpp_exn + u64" where
  "getTransactionIndex out = (if isHash out then Inl AssertFail else Inr (prevBlock_transactionIndex out))"

definition getTransactionHash :: "COutPoint \<Rightarrow> cpp_exn + uint256" where
  "getTransactionHash out = (if isHash out then Inr (o_hash out) else Inl AssertFail)"

definition setHash :: "COutPoint \<Rightarrow> uint256 \<Rightarrow> COutPoint" where
  "setHash out h = out\<lparr>o_hash := h, isHash := True\<rparr>"

definition outpoint_SetNull :: "COutPoint \<Rightarrow> COutPoint" where
  "outpoint_SetNull out = out\<lparr>o_hash := 0, o_n := UINT31_MAX\<rparr>"

definition outpoint_IsNull :: "COutPoint \<Rightarrow> bool" where
  "outpoint_IsNull out \<longleftrightarrow> o_hash out = 0 \<and> o_n out = UINT31_MAX"

definition outpoint_eq :: "COutPoint \<Rightarrow> COutPoint \<Rightarrow> bool" where
  "outpoint_eq a b \<longleftrightarrow>
     isHash a = isHash b \<and>
     ((isHash a \<and> o_hash a = o_hash b) \<or>
      (\<not> isHash a \<and> prevBlock_blockNumber a = prevBlock_blockNumber b \<and>
       prevBlock_transactionIndex a = prevBlock_transactionIndex b)) \<and>
     o_n a = o_n b"

text \<open>
  \<^verbatim>\<open>base_blob\<close> compares with \<^verbatim>\<open>memcmp\<close>: the bytes from the first on.
\<close>

definition blob_bytes :: "uint256 \<Rightarrow> byte list" where
  "blob_bytes h = le_bytes 32 (unat h)"

fun memcmp_less :: "byte list \<Rightarrow> byte list \<Rightarrow> bool" where
  "memcmp_less (x # xs) (y # ys) \<longleftrightarrow> x < y \<or> (x = y \<and> memcmp_less xs ys)"
| "memcmp_less _ _ \<longleftrightarrow> False"

definition blob_less :: "uint256 \<Rightarrow> uint256 \<Rightarrow> bool" where
  "blob_less a b = memcmp_less (blob_bytes a) (blob_bytes b)"

definition outpoint_less :: "COutPoint \<Rightarrow> COutPoint \<Rightarrow> bool" where
  "outpoint_less a b \<longleftrightarrow>
     (if isHash a = isHash b then
        (if isHash a then
           (if o_hash a = o_hash b then o_n a < o_n b else blob_less (o_hash a) (o_hash b))
         else if prevBlock_blockNumber a = prevBlock_blockNumber b \<and>
                 prevBlock_transactionIndex a = prevBlock_transactionIndex b
              then o_n a < o_n b
              else if prevBlock_blockNumber a \<noteq> prevBlock_blockNumber b
              then prevBlock_blockNumber a < prevBlock_blockNumber b
              else prevBlock_transactionIndex a < prevBlock_transactionIndex b)
      else \<not> isHash a \<and> isHash b)"

text \<open>The bytes of a \<^verbatim>\<open>uint160\<close>, and the constructor from a byte vector.\<close>

definition uint160_bytes :: "uint160 \<Rightarrow> valtype" where
  "uint160_bytes h = le_bytes 20 (unat h)"

definition uint160_of :: "valtype \<Rightarrow> uint160" where
  "uint160_of vch = word_of_nat (le_nat vch)"

lemma length_uint160_bytes [simp]: "length (uint160_bytes h) = 20"
  by (simp add: uint160_bytes_def)

lemma uint160_of_bytes [simp]: "uint160_of (uint160_bytes h) = h"
  using unat_less_2p [of h] by (simp add: uint160_of_def uint160_bytes_def)

lemma uint160_bytes_of: "length v = 20 \<Longrightarrow> uint160_bytes (uint160_of v) = v"
  using le_nat_less [of v]
  by (simp add: uint160_of_def uint160_bytes_def unat_of_nat)

section \<open>Inputs\<close>

abbreviation (input) IndexBasedOutpoint :: u8 where "IndexBasedOutpoint \<equiv> 1"
abbreviation (input) OptInRBF :: u8 where "OptInRBF \<equiv> 2"
abbreviation (input) HasAbsoluteLock :: u8 where "HasAbsoluteLock \<equiv> 4"
abbreviation (input) HasTimeBasedRelativeLock :: u8 where "HasTimeBasedRelativeLock \<equiv> 8"
abbreviation (input) HasBlockBasedRelativeLock :: u8 where "HasBlockBasedRelativeLock \<equiv> 16"
abbreviation (input) HasRelativeLock :: u8 where "HasRelativeLock \<equiv> 24"
abbreviation (input) HasLock :: u8 where "HasLock \<equiv> 28"

record CTxIn =
  nTypeAndFlags :: u8
  scriptSig :: cscript
  prevout :: COutPoint
  nSequence :: u32
  segregatedSignatureData :: "valtype list"

definition SEQUENCE_FINAL :: u32 where
  "SEQUENCE_FINAL = 0xffffffff"
definition SEQUENCE_LOCKTIME_DISABLE_FLAG :: u32 where
  "SEQUENCE_LOCKTIME_DISABLE_FLAG = push_bit 31 1"
definition SEQUENCE_LOCKTIME_TYPE_FLAG :: u32 where
  "SEQUENCE_LOCKTIME_TYPE_FLAG = push_bit 22 1"
definition SEQUENCE_LOCKTIME_MASK :: u32 where
  "SEQUENCE_LOCKTIME_MASK = 0x0000ffff"
definition SEQUENCE_LOCKTIME_GRANULARITY :: nat where
  "SEQUENCE_LOCKTIME_GRANULARITY = 7"

definition txin_GetType :: "CTxIn \<Rightarrow> u8" where
  "txin_GetType i = drop_bit 5 (nTypeAndFlags i AND 0b11100000)"

definition txin_GetFlags :: "CTxIn \<Rightarrow> u8" where
  "txin_GetFlags i = nTypeAndFlags i AND 0b00011111"

definition FlagIsSet :: "CTxIn \<Rightarrow> u8 \<Rightarrow> bool" where
  "FlagIsSet i flag \<longleftrightarrow> txin_GetFlags i AND flag \<noteq> 0"

definition SetFlag :: "CTxIn \<Rightarrow> u8 \<Rightarrow> CTxIn" where
  "SetFlag i flag =
     (let i' = i\<lparr>nTypeAndFlags := nTypeAndFlags i OR flag\<rparr>
      in if \<not> FlagIsSet i' HasRelativeLock then i'\<lparr>nSequence := 0\<rparr> else i')"

definition UnsetFlag :: "CTxIn \<Rightarrow> u8 \<Rightarrow> CTxIn" where
  "UnsetFlag i flag =
     (let i' = i\<lparr>nTypeAndFlags := nTypeAndFlags i AND NOT flag\<rparr>
      in if \<not> FlagIsSet i' HasRelativeLock then i'\<lparr>nSequence := 0\<rparr> else i')"

definition GetSequence :: "CTxIn \<Rightarrow> u32 \<Rightarrow> u32" where
  "GetSequence i nTransactionVersion =
     (if IsOldTransactionVersion nTransactionVersion \<or> FlagIsSet i HasRelativeLock
      then nSequence i else 0)"

definition SetSequence :: "CTxIn \<Rightarrow> u32 \<Rightarrow> u32 \<Rightarrow> u8 \<Rightarrow> CTxIn" where
  "SetSequence i sq nTransactionVersion sequenceType =
     (if IsOldTransactionVersion nTransactionVersion then i\<lparr>nSequence := sq\<rparr>
      else let i' = SetFlag i sequenceType
           in if FlagIsSet i' HasRelativeLock then i'\<lparr>nSequence := sq\<rparr> else i')"

definition SetPrevOut :: "CTxIn \<Rightarrow> COutPoint \<Rightarrow> CTxIn" where
  "SetPrevOut i out =
     (let i' = i\<lparr>prevout := out\<rparr> in if \<not> isHash out then SetFlag i' IndexBasedOutpoint else i')"

definition SetPrevOutNull :: "CTxIn \<Rightarrow> CTxIn" where
  "SetPrevOutNull i = i\<lparr>prevout := outpoint_SetNull (prevout i)\<rparr>"

definition txin_eq :: "CTxIn \<Rightarrow> CTxIn \<Rightarrow> bool" where
  "txin_eq a b \<longleftrightarrow>
     outpoint_eq (prevout a) (prevout b) \<and> scriptSig a = scriptSig b \<and> nSequence a = nSequence b"

definition CTxIn_default :: CTxIn where
  "CTxIn_default =
     \<lparr>nTypeAndFlags = 0, scriptSig = [], prevout = COutPoint_null, nSequence = SEQUENCE_FINAL,
      segregatedSignatureData = []\<rparr>"

definition CTxIn_new :: "COutPoint \<Rightarrow> cscript \<Rightarrow> u32 \<Rightarrow> u8 \<Rightarrow> CTxIn" where
  "CTxIn_new out sig sq flags =
     (let i = \<lparr>nTypeAndFlags = 0 OR flags, scriptSig = sig, prevout = out, nSequence = sq,
               segregatedSignatureData = []\<rparr>
      in if \<not> isHash out then SetFlag i IndexBasedOutpoint else i)"

section \<open>Outputs\<close>

record CTxOutPoW2Witness =
  spendingKeyID :: uint160
  witnessKeyID :: uint160
  lockFromBlock :: u64
  lockUntilBlock :: u64
  failCount :: u64
  actionNonce :: u64

datatype txout_data =
    ScriptLegacyOutput cscript
  | PoW2WitnessOutput CTxOutPoW2Witness
  | StandardKeyHashOutput uint160
  | UnknownOutput "5 word"

record CTxOut =
  nValue :: CAmount
  txout :: txout_data

definition CTxOutPoW2Witness_clear :: CTxOutPoW2Witness where
  "CTxOutPoW2Witness_clear =
     \<lparr>spendingKeyID = 0, witnessKeyID = 0, lockFromBlock = 0, lockUntilBlock = 0, failCount = 0,
      actionNonce = 0\<rparr>"

text \<open>
  \<^verbatim>\<open>SetType\<close> deletes the old contents of the union and constructs empty ones. A type
  other than the three known ones has no contents.
\<close>

definition AllocOutput :: "5 word \<Rightarrow> txout_data" where
  "AllocOutput t =
     (if t = 0 then ScriptLegacyOutput []
      else if t = 31 then PoW2WitnessOutput CTxOutPoW2Witness_clear
      else if t = 30 then StandardKeyHashOutput 0
      else UnknownOutput t)"

definition SetType :: "CTxOut \<Rightarrow> 5 word \<Rightarrow> CTxOut" where
  "SetType out t = out\<lparr>txout := AllocOutput t\<rparr>"

fun output_eq :: "txout_data \<Rightarrow> txout_data \<Rightarrow> bool" where
  "output_eq (ScriptLegacyOutput a) (ScriptLegacyOutput b) \<longleftrightarrow> a = b"
| "output_eq (PoW2WitnessOutput a) (PoW2WitnessOutput b) \<longleftrightarrow> a = b"
| "output_eq (StandardKeyHashOutput a) (StandardKeyHashOutput b) \<longleftrightarrow> a = b"
| "output_eq _ _ \<longleftrightarrow> False"

definition txout_eq :: "CTxOut \<Rightarrow> CTxOut \<Rightarrow> bool" where
  "txout_eq a b \<longleftrightarrow> nValue a = nValue b \<and> output_eq (txout a) (txout b)"

definition txout_GetType :: "CTxOut \<Rightarrow> nat" where
  "txout_GetType out =
     (case txout out of
        ScriptLegacyOutput _ \<Rightarrow> 0 | PoW2WitnessOutput _ \<Rightarrow> 31 | StandardKeyHashOutput _ \<Rightarrow> 30
      | UnknownOutput t \<Rightarrow> unat t)"

definition txout_SetNull :: "CTxOut \<Rightarrow> CTxOut" where
  "txout_SetNull out = out\<lparr>nValue := - 1, txout := ScriptLegacyOutput []\<rparr>"

definition txout_IsNull :: "CTxOut \<Rightarrow> bool" where
  "txout_IsNull out \<longleftrightarrow> nValue out = - 1"

definition txout_IsUnspendable :: "CTxOut \<Rightarrow> bool" where
  "txout_IsUnspendable out =
     (case txout out of ScriptLegacyOutput s \<Rightarrow> IsUnspendable s | _ \<Rightarrow> False)"

section \<open>Transactions\<close>

record CTransaction =
  nVersion :: u32
  vin :: "CTxIn list"
  vout :: "CTxOut list"
  nLockTime :: u32
  tx_flags :: u8
  extraFlags :: u8

definition CTransaction_new :: "u32 \<Rightarrow> CTransaction" where
  "CTransaction_new v =
     \<lparr>nVersion = v, vin = [], vout = [], nLockTime = 0, tx_flags = 0, extraFlags = 0\<rparr>"

definition tx_IsNull :: "CTransaction \<Rightarrow> bool" where
  "tx_IsNull tx \<longleftrightarrow> vin tx = [] \<and> vout tx = []"

definition IsPoW2WitnessCoinBase :: "CTransaction \<Rightarrow> bool" where
  "IsPoW2WitnessCoinBase tx \<longleftrightarrow> length (vin tx) = 2 \<and> outpoint_IsNull (prevout (vin tx ! 0))"

definition IsCoinBase :: "CTransaction \<Rightarrow> bool" where
  "IsCoinBase tx \<longleftrightarrow>
     (length (vin tx) = 1 \<and> outpoint_IsNull (prevout (vin tx ! 0))) \<or> IsPoW2WitnessCoinBase tx"

definition HasSegregatedSignatures :: "CTransaction \<Rightarrow> bool" where
  "HasSegregatedSignatures tx \<longleftrightarrow> (\<exists>i \<in> set (vin tx). segregatedSignatureData i \<noteq> [])"

text \<open>\<^verbatim>\<open>GetValueOut\<close> throws when a value or the running sum leaves the money range.\<close>

fun value_out :: "CAmount \<Rightarrow> CTxOut list \<Rightarrow> cpp_exn + CAmount" where
  "value_out nValueOut [] = Inr nValueOut"
| "value_out nValueOut (out # outs) =
     (if nValue out > 0 then
        let nValueOut = i64 (nValueOut + nValue out) in
        if \<not> MoneyRange (nValue out) \<or> \<not> MoneyRange nValueOut then Inl RuntimeError
        else value_out nValueOut outs
      else value_out nValueOut outs)"

definition GetValueOut :: "CTransaction \<Rightarrow> cpp_exn + CAmount" where
  "GetValueOut tx = value_out 0 (vout tx)"

section \<open>The value of the outputs\<close>

definition positive_value :: "CTxOut list \<Rightarrow> int" where
  "positive_value outs = (\<Sum>out \<leftarrow> outs. max 0 (nValue out))"

lemma positive_value_nonneg: "0 \<le> positive_value outs"
  by (induction outs) (simp_all add: positive_value_def)

lemma positive_value_Cons [simp]:
  "positive_value (out # outs) = max 0 (nValue out) + positive_value outs"
  by (simp add: positive_value_def)

lemma MoneyRange_in_i64: "MoneyRange a \<Longrightarrow> MoneyRange b \<Longrightarrow> in_i64 (a + b)"
  by (simp add: MoneyRange_def in_i64_def MAX_MONEY_def COIN_def)

lemma value_out_sum:
  assumes "MoneyRange acc"
  shows "value_out acc outs =
    (if MoneyRange (acc + positive_value outs) then Inr (acc + positive_value outs)
     else Inl RuntimeError)"
  using assms
proof (induction outs arbitrary: acc)
  case Nil
  then show ?case by (simp add: positive_value_def)
next
  case (Cons out outs)
  note pos = positive_value_nonneg [of outs]
  show ?case
  proof (cases "MoneyRange (nValue out) \<and> 0 < nValue out")
    case True
    then have "i64 (acc + nValue out) = acc + nValue out"
      using Cons.prems by (simp add: MoneyRange_in_i64)
    with True Cons pos show ?thesis
      by (auto simp: Let_def MoneyRange_def max_def algebra_simps)
  next
    case False
    with Cons pos show ?thesis by (auto simp: Let_def MoneyRange_def max_def)
  qed
qed

text \<open>
  C29. \<^verbatim>\<open>CTransaction::GetValueOut\<close> returns the exact sum of the positive output
  values when that sum is in the money range and throws otherwise: the 64-bit accumulation never
  wraps into an accepted value, and no other outcome is possible.
\<close>

theorem GetValueOut_exact:
  "GetValueOut tx =
     (if MoneyRange (positive_value (vout tx)) then Inr (positive_value (vout tx))
      else Inl RuntimeError)"
  by (simp add: GetValueOut_def value_out_sum MoneyRange_def MAX_MONEY_def COIN_def)

section \<open>The order on outpoints\<close>

text \<open>The value a byte string has when its first byte is the most significant.\<close>

definition be_nat :: "byte list \<Rightarrow> nat" where
  "be_nat bs = le_nat (rev bs)"

lemma be_nat_Cons: "be_nat (b # bs) = unat b * 256 ^ length bs + be_nat bs"
  by (simp add: be_nat_def le_nat_append)

lemma be_nat_less: "be_nat bs < 256 ^ length bs"
  using le_nat_less [of "rev bs"] by (simp add: be_nat_def)

lemma digit_less:
  assumes "(a :: nat) < m" "b < m"
  shows "x * m + a < y * m + b \<longleftrightarrow> x < y \<or> (x = y \<and> a < b)"
proof -
  have "x * m + a < y * m + b" if "x < y"
  proof -
    have "x * m + a < (x + 1) * m" using assms by simp
    also have "\<dots> \<le> y * m" using that by (intro mult_le_mono1) simp
    finally show ?thesis by simp
  qed
  moreover have "y * m + b < x * m + a" if "y < x"
  proof -
    have "y * m + b < (y + 1) * m" using assms by simp
    also have "\<dots> \<le> x * m" using that by (intro mult_le_mono1) simp
    finally show ?thesis by simp
  qed
  ultimately show ?thesis by (cases x y rule: linorder_cases) auto
qed

lemma memcmp_less_be_nat:
  "length xs = length ys \<Longrightarrow> memcmp_less xs ys \<longleftrightarrow> be_nat xs < be_nat ys"
proof (induction xs ys rule: list_induct2)
  case (Cons x xs y ys)
  have "be_nat (x # xs) < be_nat (y # ys) \<longleftrightarrow>
      unat x < unat y \<or> (unat x = unat y \<and> be_nat xs < be_nat ys)"
    using be_nat_less [of xs] be_nat_less [of ys] Cons(1)
    by (simp add: be_nat_Cons digit_less)
  with Cons show ?case by (simp add: word_less_nat_alt word_unat_eq_iff)
qed (simp add: be_nat_def)

lemma blob_bytes_inj: "blob_bytes a = blob_bytes b \<longleftrightarrow> a = b"
proof
  assume "blob_bytes a = blob_bytes b"
  then have "le_nat (blob_bytes a) = le_nat (blob_bytes b)" by simp
  then show "a = b"
    using unat_less_2p [of a] unat_less_2p [of b] by (simp add: blob_bytes_def word_unat_eq_iff)
qed simp

lemma be_nat_inj: "length xs = length ys \<Longrightarrow> be_nat xs = be_nat ys \<longleftrightarrow> xs = ys"
  unfolding be_nat_def by (metis le_bytes_le_nat length_rev rev_rev_ident)

text \<open>
  The key an outpoint is ordered by: index-based outpoints come first and are ordered by block,
  transaction and output; hash-based ones by the hash read as a big-endian number, then output.
\<close>

definition outpoint_key :: "COutPoint \<Rightarrow> nat \<times> nat \<times> nat \<times> nat" where
  "outpoint_key out =
     (if isHash out then (1, be_nat (blob_bytes (o_hash out)), 0, unat (o_n out))
      else (0, unat (prevBlock_blockNumber out), unat (prevBlock_transactionIndex out),
            unat (o_n out)))"

lemma be_blob_eq [simp]: "be_nat (blob_bytes a) = be_nat (blob_bytes b) \<longleftrightarrow> a = b"
  by (simp add: be_nat_inj blob_bytes_def) (simp add: blob_bytes_inj flip: blob_bytes_def)

lemma blob_less_key [simp]: "blob_less a b \<longleftrightarrow> be_nat (blob_bytes a) < be_nat (blob_bytes b)"
  by (simp add: blob_less_def memcmp_less_be_nat blob_bytes_def)

text \<open>
  The comparison operators of \<^verbatim>\<open>COutPoint\<close> are the order of its key: \<open><\<close> is
  a strict linear order whose equality is \<open>==\<close>, as the ordered containers keyed by outpoints
  require. In particular the storage an index-based outpoint does not use never matters.
\<close>

theorem outpoint_order:
  "(outpoint_less a b \<longleftrightarrow> outpoint_key a < outpoint_key b) \<and>
   (outpoint_eq a b \<longleftrightarrow> outpoint_key a = outpoint_key b)"
  by (auto simp: outpoint_less_def outpoint_eq_def outpoint_key_def word_less_nat_alt
      less_prod_def' simp flip: word_unat_eq_iff)

end
