(* ===== verification/Script_Standard.thy ===== *)
theory Script_Standard
  imports Transaction Hash_Functions
begin

text \<open>
  Standard scripts: the destinations and the script builders of
  \<^verbatim>\<open>src/src/script/standard.cpp\<close>, the template matcher
  \<^verbatim>\<open>Solver\<close>, \<^verbatim>\<open>ExtractDestination\<close> and
  \<^verbatim>\<open>ExtractDestinations\<close>, the witness script of \<^verbatim>\<open>script.cpp\<close>, and
  the byte-level part of \<^verbatim>\<open>CPubKey\<close> (\<^verbatim>\<open>pubkey.h\<close>) they use. A
  \<^verbatim>\<open>CPubKey\<close> is modelled by its valid bytes, an invalid one by the empty list.
\<close>

section \<open>Public keys as bytes\<close>

definition GetLen :: "byte \<Rightarrow> nat" where
  "GetLen chHeader =
     (if chHeader = 2 \<or> chHeader = 3 then 33
      else if chHeader = 4 \<or> chHeader = 6 \<or> chHeader = 7 then 65
      else 0)"

definition CPubKey :: "valtype \<Rightarrow> valtype" where
  "CPubKey b =
     (let len = (if b = [] then 0 else GetLen (b ! 0))
      in if len \<noteq> 0 \<and> len = length b then b else [])"

definition pubkey_IsValid :: "valtype \<Rightarrow> bool" where
  "pubkey_IsValid pubKey \<longleftrightarrow> length pubKey > 0"

definition GetID :: "valtype \<Rightarrow> uint160" where
  "GetID pubKey = uint160_of (hash160 pubKey)"

section \<open>Destinations\<close>

text \<open>
  \<^verbatim>\<open>CPoW2WitnessDestination\<close> has the six fields of
  \<^verbatim>\<open>CTxOutPoW2Witness\<close>. Its two-argument constructor does not initialise the action
  nonce, which is therefore an argument here.
\<close>

datatype CTxDestination =
    CNoDestination
  | KeyDestination uint160
  | ScriptDestination uint160
  | WitnessDestination CTxOutPoW2Witness

definition CPoW2WitnessDestination :: "u64 \<Rightarrow> uint160 \<Rightarrow> uint160 \<Rightarrow> CTxDestination" where
  "CPoW2WitnessDestination stale spendingKeyIn witnessKeyIn =
     WitnessDestination \<lparr>spendingKeyID = spendingKeyIn, witnessKeyID = witnessKeyIn,
       lockFromBlock = 0, lockUntilBlock = 0, failCount = 0, actionNonce = stale\<rparr>"

definition witness_script :: "CTxOutPoW2Witness \<Rightarrow> cpp_exn + cscript" where
  "witness_script w =
     bind_e (push_opcode [] OP_0) (\<lambda>s.
     Inr (s @ [72] @ uint160_bytes (spendingKeyID w) @ uint160_bytes (witnessKeyID w) @
          uint64_bytes (lockFromBlock w) @ uint64_bytes (lockUntilBlock w) @
          uint64_bytes (failCount w) @ uint64_bytes (actionNonce w)))"

fun GetScriptForDestination :: "CTxDestination \<Rightarrow> cpp_exn + cscript" where
  "GetScriptForDestination CNoDestination = Inr []"
| "GetScriptForDestination (KeyDestination keyID) =
     bind_e (push_opcode [] OP_DUP) (\<lambda>s.
     bind_e (push_opcode s OP_HASH160) (\<lambda>s.
     bind_e (push_opcode (push_data s (uint160_bytes keyID)) OP_EQUALVERIFY) (\<lambda>s.
     push_opcode s OP_CHECKSIG)))"
| "GetScriptForDestination (ScriptDestination scriptID) =
     bind_e (push_opcode [] OP_HASH160) (\<lambda>s.
     push_opcode (push_data s (uint160_bytes scriptID)) OP_EQUAL)"
| "GetScriptForDestination (WitnessDestination w) = witness_script w"

definition GetScriptForRawPubKey :: "valtype \<Rightarrow> cpp_exn + cscript" where
  "GetScriptForRawPubKey pubKey = push_opcode (push_data [] pubKey) OP_CHECKSIG"

definition GetScriptForMultisig :: "int \<Rightarrow> valtype list \<Rightarrow> cpp_exn + cscript" where
  "GetScriptForMultisig nRequired keys =
     bind_e (EncodeOP_N nRequired) (\<lambda>opM.
     bind_e (push_opcode [] opM) (\<lambda>s.
     bind_e (EncodeOP_N (int (length keys))) (\<lambda>opN.
     bind_e (push_opcode (foldl push_data s keys) opN) (\<lambda>s.
     push_opcode s OP_CHECKMULTISIG))))"

text \<open>
  The witness template: \<^verbatim>\<open>OP_0\<close>, a push of 72 bytes, two key identifiers and four
  64-bit numbers.
\<close>

definition ExtractPoW2WitnessFromScript :: "cscript \<Rightarrow> cpp_exn + CTxOutPoW2Witness option" where
  "ExtractPoW2WitnessFromScript s =
     (if length s \<noteq> 74 then Inr None
      else case GetOp2 s 0 of
        (_, None) \<Rightarrow> Inr None
      | (it, Some (opcode, _)) \<Rightarrow>
          if opcode \<noteq> OP_0 then Inr None
          else case GetOp2 s it of
            (_, None) \<Rightarrow> Inr None
          | (_, Some (opcode, _)) \<Rightarrow>
              if opcode \<noteq> 72 then Inr None
              else
                bind_e (uint64_number (vec_range 42 50 s)) (\<lambda>from.
                bind_e (uint64_number (vec_range 50 58 s)) (\<lambda>until.
                bind_e (uint64_number (vec_range 58 66 s)) (\<lambda>fails.
                bind_e (uint64_number (vec_range 66 74 s)) (\<lambda>nonce.
                Inr (Some \<lparr>spendingKeyID = uint160_of (vec_range 2 22 s),
                           witnessKeyID = uint160_of (vec_range 22 42 s),
                           lockFromBlock = from, lockUntilBlock = until, failCount = fails,
                           actionNonce = nonce\<rparr>))))))"

section \<open>The template matcher\<close>

datatype txnouttype =
    TX_NONSTANDARD | TX_PUBKEY | TX_PUBKEYHASH | TX_SCRIPTHASH | TX_MULTISIG | TX_NULL_DATA
  | TX_STANDARD_PUBKEY_HASH | TX_STANDARD_WITNESS

text \<open>\<^verbatim>\<open>GetOp\<close> with the values its output arguments have after a failed read.\<close>

definition GetOp :: "cscript \<Rightarrow> nat \<Rightarrow> bool \<times> nat \<times> nat \<times> valtype" where
  "GetOp s i =
     (case GetOp2 s i of
        (i', None) \<Rightarrow> (False, i', OP_INVALIDOPCODE, [])
      | (i', Some (opcode, vch)) \<Rightarrow> (True, i', opcode, vch))"

lemma GetOp_True: "GetOp s i = (True, j, opcode, vch) \<longleftrightarrow> GetOp2 s i = (j, Some (opcode, vch))"
  by (auto simp: GetOp_def split: prod.splits option.splits)

lemma GetOp_advances: "GetOp s i = (True, j, r) \<Longrightarrow> i < j \<and> j \<le> length s"
  by (cases r) (auto simp: GetOp_True dest: GetOp2_advances)

lemma GetOp_mono: "GetOp s i = (ok, j, r) \<Longrightarrow> i \<le> j"
  by (auto simp: GetOp_def GetOp2_def push_size_def Let_def split: if_splits option.splits prod.splits)

text \<open>The \<^verbatim>\<open>OP_PUBKEYS\<close> loop: the keys from \<open>vch1\<close> on go to the solutions.\<close>

function take_pubkeys ::
  "cscript \<Rightarrow> nat \<Rightarrow> nat \<Rightarrow> valtype \<Rightarrow> valtype list \<Rightarrow> nat \<times> nat \<times> valtype \<times> valtype list"
where
  "take_pubkeys script1 pc1 opcode1 vch1 sols =
     (if length vch1 \<ge> 33 \<and> length vch1 \<le> 65 then
        (case GetOp script1 pc1 of
           (False, pc1, opcode1, vch1') \<Rightarrow> (pc1, opcode1, vch1', sols @ [vch1])
         | (True, pc1, opcode1, vch1') \<Rightarrow> take_pubkeys script1 pc1 opcode1 vch1' (sols @ [vch1]))
      else (pc1, opcode1, vch1, sols))"
  by pat_completeness auto
termination
  by (relation "measure (\<lambda>(s, i, _). length s - i)") (auto dest!: sym [of "(True, _)"] GetOp_advances)

declare take_pubkeys.simps [simp del]

text \<open>One comparison after the reads; \<open>None\<close> breaks the loop.\<close>

definition match_op :: "nat \<Rightarrow> valtype \<Rightarrow> nat \<Rightarrow> valtype \<Rightarrow> valtype list \<Rightarrow> cpp_exn + valtype list option"
where
  "match_op opcode1 vch1 opcode2 vch2 sols =
     (if opcode2 = OP_PUBKEY then
        Inr (if length vch1 < 33 \<or> length vch1 > 65 then None else Some (sols @ [vch1]))
      else if opcode2 = OP_PUBKEYHASH then
        Inr (if length vch1 \<noteq> 20 then None else Some (sols @ [vch1]))
      else if opcode2 = OP_SMALLINTEGER then
        (if opcode1 = OP_0 \<or> (opcode1 \<ge> OP_1 \<and> opcode1 \<le> OP_16)
         then bind_e (DecodeOP_N opcode1) (\<lambda>n. Inr (Some (sols @ [[word_of_int n]])))
         else Inr None)
      else Inr (if opcode1 \<noteq> opcode2 \<or> vch1 \<noteq> vch2 then None else Some sols))"

definition match_step ::
  "cscript \<Rightarrow> cscript \<Rightarrow> nat \<Rightarrow> nat \<Rightarrow> valtype list \<Rightarrow> cpp_exn + (nat \<times> nat \<times> valtype list) option"
where
  "match_step script1 script2 pc1 pc2 sols =
     (case GetOp script1 pc1 of
        (False, _) \<Rightarrow> Inr None
      | (True, pc1, opcode1, vch1) \<Rightarrow>
      (case GetOp script2 pc2 of
        (False, _) \<Rightarrow> Inr None
      | (True, pc2, opcode2, vch2) \<Rightarrow>
          if opcode2 = OP_PUBKEYS then
            (case take_pubkeys script1 pc1 opcode1 vch1 sols of (pc1, opcode1, vch1, sols) \<Rightarrow>
             case GetOp script2 pc2 of
               (False, _) \<Rightarrow> Inr None
             | (True, pc2, opcode2, vch2) \<Rightarrow>
                 bind_e (match_op opcode1 vch1 opcode2 vch2 sols)
                   (\<lambda>r. Inr (map_option (\<lambda>sols. (pc1, pc2, sols)) r)))
          else
            bind_e (match_op opcode1 vch1 opcode2 vch2 sols)
              (\<lambda>r. Inr (map_option (\<lambda>sols. (pc1, pc2, sols)) r))))"

lemma take_pubkeys_mono: "take_pubkeys s i opcode vch sols = (j, r) \<Longrightarrow> i \<le> j"
proof (induction s i opcode vch sols rule: take_pubkeys.induct)
  case (1 s i opcode vch sols)
  obtain ok i' op' v' where g: "GetOp s i = (ok, i', op', v')" by (cases "GetOp s i") auto
  have "i \<le> i'" using g by (rule GetOp_mono)
  with 1 g show ?case
    by (subst (asm) (2) take_pubkeys.simps) (cases ok; force split: if_splits)
qed

lemma match_step_advances:
  assumes "match_step s t i k sols = Inr (Some (i', k', sols'))"
  shows "i < i'"
proof -
  obtain i1 op1 v1 where g: "GetOp s i = (True, i1, op1, v1)"
    using assms by (auto simp: match_step_def split: prod.splits bool.splits)
  then have "i < i1" using GetOp_advances by blast
  moreover have "i1 \<le> i'"
    using assms g take_pubkeys_mono [of s i1 op1 v1 sols]
    by (auto simp: match_step_def exn_simps split: prod.splits bool.splits if_splits)
  ultimately show ?thesis by simp
qed

lemma match_step_in_range:
  "match_step s t i k sols = Inr (Some r) \<Longrightarrow> i < length s"
  by (auto simp: match_step_def split: prod.splits bool.splits dest: GetOp_advances)

text \<open>The \<^verbatim>\<open>while (true)\<close> loop for one template.\<close>

function match_template :: "cscript \<Rightarrow> cscript \<Rightarrow> nat \<Rightarrow> nat \<Rightarrow> valtype list \<Rightarrow> cpp_exn + valtype list option"
where
  "match_template script1 script2 pc1 pc2 sols =
     (if pc1 = length script1 \<and> pc2 = length script2 then Inr (Some sols)
      else bind_e (match_step script1 script2 pc1 pc2 sols) (\<lambda>r.
        case r of None \<Rightarrow> Inr None
        | Some (pc1, pc2, sols) \<Rightarrow> match_template script1 script2 pc1 pc2 sols))"
  by pat_completeness auto
termination
  by (relation "measure (\<lambda>(s, t, i, _). length s - i)")
    (auto dest: match_step_advances match_step_in_range intro!: diff_less_mono2)

declare match_template.simps [simp del]

definition PUBKEY_template :: cscript where
  "PUBKEY_template = map byte_of [OP_PUBKEY, OP_CHECKSIG]"
definition PUBKEYHASH_template :: cscript where
  "PUBKEYHASH_template = map byte_of [OP_DUP, OP_HASH160, OP_PUBKEYHASH, OP_EQUALVERIFY, OP_CHECKSIG]"
definition MULTISIG_template :: cscript where
  "MULTISIG_template = map byte_of [OP_SMALLINTEGER, OP_PUBKEYS, OP_SMALLINTEGER, OP_CHECKMULTISIG]"

text \<open>The templates in the order of the \<^verbatim>\<open>multimap\<close>'s keys.\<close>

definition mTemplates :: "(txnouttype \<times> cscript) list" where
  "mTemplates = [(TX_PUBKEY, PUBKEY_template), (TX_PUBKEYHASH, PUBKEYHASH_template),
                 (TX_MULTISIG, MULTISIG_template)]"

definition multisig_checks :: "valtype list \<Rightarrow> cpp_exn + bool" where
  "multisig_checks sols =
     bind_e (vec_index sols 0) (\<lambda>front. bind_e (vec_index front 0) (\<lambda>m.
     bind_e (vec_index sols (length sols - 1)) (\<lambda>back. bind_e (vec_index back 0) (\<lambda>n.
     Inr (\<not> (m < 1 \<or> n < 1 \<or> m > n \<or> int (length sols) - 2 \<noteq> int (unat n)))))))"

fun scan_templates ::
  "cscript \<Rightarrow> (txnouttype \<times> cscript) list \<Rightarrow> cpp_exn + bool \<times> txnouttype \<times> valtype list" where
  "scan_templates s [] = Inr (False, TX_NONSTANDARD, [])"
| "scan_templates s ((typ, tmpl) # rest) =
     bind_e (match_template s tmpl 0 0 []) (\<lambda>r.
       case r of
         None \<Rightarrow> scan_templates s rest
       | Some sols \<Rightarrow>
           if typ = TX_MULTISIG
           then bind_e (multisig_checks sols) (\<lambda>ok. Inr (ok, typ, sols))
           else Inr (True, typ, sols))"

text \<open>
  \<^verbatim>\<open>Solver\<close>: its result with the type and the solutions its output arguments hold.
\<close>

definition Solver :: "cscript \<Rightarrow> cpp_exn + bool \<times> txnouttype \<times> valtype list" where
  "Solver s =
     (if IsPayToScriptHash s then Inr (True, TX_SCRIPTHASH, [vec_range 2 22 s])
      else if length s \<ge> 1 \<and> s ! 0 = byte_of OP_RETURN \<and> IsPushOnly_from s 1
      then Inr (True, TX_NULL_DATA, [])
      else scan_templates s mTemplates)"

definition ExtractDestination :: "cscript \<Rightarrow> cpp_exn + CTxDestination option" where
  "ExtractDestination s =
     bind_e (Solver s) (\<lambda>(ok, whichType, vSolutions).
       if \<not> ok then Inr None
       else if whichType = TX_PUBKEY then
         bind_e (vec_index vSolutions 0) (\<lambda>v.
           let pubKey = CPubKey v in
           Inr (if \<not> pubkey_IsValid pubKey then None else Some (KeyDestination (GetID pubKey))))
       else if whichType = TX_PUBKEYHASH then
         bind_e (vec_index vSolutions 0) (\<lambda>v. Inr (Some (KeyDestination (uint160_of v))))
       else if whichType = TX_SCRIPTHASH then
         bind_e (vec_index vSolutions 0) (\<lambda>v. Inr (Some (ScriptDestination (uint160_of v))))
       else Inr None)"

definition ExtractDestination_out :: "u64 \<Rightarrow> CTxOut \<Rightarrow> cpp_exn + CTxDestination option" where
  "ExtractDestination_out stale out =
     (case txout out of
        PoW2WitnessOutput w \<Rightarrow>
          Inr (Some (CPoW2WitnessDestination stale (spendingKeyID w) (witnessKeyID w)))
      | StandardKeyHashOutput keyID \<Rightarrow> Inr (Some (KeyDestination keyID))
      | ScriptLegacyOutput s \<Rightarrow> ExtractDestination s
      | UnknownOutput _ \<Rightarrow> Inl UndefinedBehaviour)"

definition multisig_addresses :: "valtype list \<Rightarrow> CTxDestination list" where
  "multisig_addresses keys =
     map (\<lambda>k. KeyDestination (GetID (CPubKey k))) (filter (\<lambda>k. pubkey_IsValid (CPubKey k)) keys)"

text \<open>The address list and the number of signatures, when the call succeeds.\<close>

definition ExtractDestinations :: "cscript \<Rightarrow> cpp_exn + (txnouttype \<times> CTxDestination list \<times> nat) option"
where
  "ExtractDestinations s =
     bind_e (Solver s) (\<lambda>(ok, typ, vSolutions).
       if \<not> ok \<or> typ = TX_NULL_DATA then Inr None
       else if typ = TX_MULTISIG then
         bind_e (vec_index vSolutions 0) (\<lambda>front. bind_e (vec_index front 0) (\<lambda>m.
           let addressRet = multisig_addresses (butlast (tl vSolutions)) in
           Inr (if addressRet = [] then None else Some (typ, addressRet, unat m))))
       else
         bind_e (ExtractDestination s) (\<lambda>r.
           Inr (map_option (\<lambda>address. (typ, [address], 1)) r)))"

definition GetScriptForWitness :: "cscript \<Rightarrow> cpp_exn + cscript" where
  "GetScriptForWitness redeemscript =
     bind_e (Solver redeemscript) (\<lambda>(ok, typ, vSolutions).
       bind_e (push_opcode [] OP_0) (\<lambda>ret.
       if ok \<and> typ = TX_PUBKEY then
         bind_e (vec_index vSolutions 0) (\<lambda>v. Inr (push_data ret (hash160 v)))
       else if ok \<and> typ = TX_PUBKEYHASH then
         bind_e (vec_index vSolutions 0) (\<lambda>v. Inr (push_data ret v))
       else Inr (push_data ret (sha256 redeemscript))))"

section \<open>The matcher's behaviour\<close>

lemma GetOp_plain: "i < length s \<Longrightarrow> OP_PUSHDATA4 < unat (s ! i) \<Longrightarrow> GetOp s i = (True, Suc i, unat (s ! i), [])"
  by (simp add: GetOp_def GetOp2_def Let_def)

lemma GetOp_end [simp]: "length s \<le> i \<Longrightarrow> GetOp s i = (False, i, OP_INVALIDOPCODE, [])"
  by (simp add: GetOp_def)

lemma template_lengths [simp]:
  "length PUBKEY_template = 2" "length PUBKEYHASH_template = 5" "length MULTISIG_template = 4"
  by (simp_all add: PUBKEY_template_def PUBKEYHASH_template_def MULTISIG_template_def)

lemma template_ops [simp]:
  "GetOp PUBKEY_template 0 = (True, 1, OP_PUBKEY, [])"
  "GetOp PUBKEY_template (Suc 0) = (True, 2, OP_CHECKSIG, [])"
  "GetOp PUBKEYHASH_template 0 = (True, 1, OP_DUP, [])"
  "GetOp PUBKEYHASH_template (Suc 0) = (True, 2, OP_HASH160, [])"
  "GetOp PUBKEYHASH_template 2 = (True, 3, OP_PUBKEYHASH, [])"
  "GetOp PUBKEYHASH_template 3 = (True, 4, OP_EQUALVERIFY, [])"
  "GetOp PUBKEYHASH_template 4 = (True, 5, OP_CHECKSIG, [])"
  "GetOp MULTISIG_template 0 = (True, 1, OP_SMALLINTEGER, [])"
  "GetOp MULTISIG_template (Suc 0) = (True, 2, OP_PUBKEYS, [])"
  "GetOp MULTISIG_template 2 = (True, 3, OP_SMALLINTEGER, [])"
  "GetOp MULTISIG_template 3 = (True, 4, OP_CHECKMULTISIG, [])"
  by (simp_all add: GetOp_plain PUBKEY_template_def PUBKEYHASH_template_def MULTISIG_template_def)

lemma match_op_total: "\<exists>r. match_op opcode1 vch1 opcode2 vch2 sols = Inr r"
  by (auto simp: match_op_def DecodeOP_N_def)

lemma match_step_total: "\<exists>r. match_step s t i k sols = Inr r"
proof -
  obtain ok i1 op1 v1 where g: "GetOp s i = (ok, i1, op1, v1)" by (cases "GetOp s i") auto
  obtain ok' k1 op2 v2 where h: "GetOp t k = (ok', k1, op2, v2)" by (cases "GetOp t k") auto
  obtain i2 op1' v1' sols' where t: "take_pubkeys s i1 op1 v1 sols = (i2, op1', v1', sols')"
    by (cases "take_pubkeys s i1 op1 v1 sols") auto
  obtain ok'' k2 op2' v2' where h': "GetOp t k1 = (ok'', k2, op2', v2')" by (cases "GetOp t k1") auto
  obtain r where r: "match_op op1 v1 op2 v2 sols = Inr r" using match_op_total by blast
  obtain r' where r': "match_op op1' v1' op2' v2' sols' = Inr r'" using match_op_total by blast
  show ?thesis
    by (cases ok; cases ok'; cases ok'') (simp_all add: match_step_def g h t h' r r')
qed

lemma match_template_total: "\<exists>r. match_template s t i k sols = Inr r"
proof (induction s t i k sols rule: match_template.induct)
  case (1 s t i k sols)
  obtain r where r: "match_step s t i k sols = Inr r" using match_step_total by blast
  show ?case
  proof (cases "i = length s \<and> k = length t")
    case True
    then show ?thesis by (simp add: match_template.simps)
  next
    case False
    with 1 r show ?thesis
      by (subst match_template.simps) (auto split: option.splits)
  qed
qed

lemma match_template_step:
  "match_step s t i k sols = Inr (Some (i', k', sols')) \<Longrightarrow>
   match_template s t i k sols = match_template s t i' k' sols'"
  using match_step_in_range [of s t i k sols "(i', k', sols')"]
  by (subst match_template.simps) auto

lemma match_template_break:
  "match_step s t i k sols = Inr None \<Longrightarrow> k < length t \<Longrightarrow>
   match_template s t i k sols = Inr None"
  by (subst match_template.simps) auto

lemma match_template_done: "match_template s t (length s) (length t) sols = Inr (Some sols)"
  by (subst match_template.simps) auto

lemma match_template_SomeD:
  assumes "match_template s t i k sols = Inr (Some r)" "k < length t"
  obtains i' k' sols' where "match_step s t i k sols = Inr (Some (i', k', sols'))"
    "match_template s t i' k' sols' = Inr (Some r)"
  using assms by (subst (asm) match_template.simps) (auto simp: exn_simps split: option.splits)

lemma match_template_end: "match_template s t i (length t) sols = Inr (Some r) \<Longrightarrow> r = sols"
  by (subst (asm) match_template.simps)
    (auto simp: exn_simps match_step_def split: if_splits prod.splits bool.splits)

lemma take_pubkeys_keys:
  "take_pubkeys s i opcode vch sols = (j, opcode', vch', sols') \<Longrightarrow>
   \<exists>keys. sols' = sols @ keys \<and> (\<forall>k \<in> set keys. 33 \<le> length k \<and> length k \<le> 65)"
proof (induction s i opcode vch sols arbitrary: j opcode' vch' sols' rule: take_pubkeys.induct)
  case (1 s i opcode vch sols)
  obtain ok i1 op1 v1 where g: "GetOp s i = (ok, i1, op1, v1)" by (cases "GetOp s i") auto
  show ?case
  proof (cases "33 \<le> length vch \<and> length vch \<le> 65 \<and> ok")
    case True
    then have "take_pubkeys s i1 op1 v1 (sols @ [vch]) = (j, opcode', vch', sols')"
      using 1(2) g by (subst (asm) take_pubkeys.simps) simp
    then obtain keys where "sols' = (sols @ [vch]) @ keys"
      "\<forall>k \<in> set keys. 33 \<le> length k \<and> length k \<le> 65"
      using 1(1) [OF _ g [symmetric] _ refl refl] True by auto
    with True show ?thesis by (intro exI [of _ "vch # keys"]) simp
  next
    case False
    with 1(2) g show ?thesis
      by (subst (asm) take_pubkeys.simps) (auto split: if_splits bool.splits)
  qed
qed

lemma match_op_small:
  assumes "match_op opcode1 vch1 OP_SMALLINTEGER vch2 sols = Inr (Some sols')"
  shows "\<exists>n. sols' = sols @ [[n]] \<and> unat n \<le> 16"
proof -
  obtain n where n: "DecodeOP_N opcode1 = Inr n" "sols' = sols @ [[word_of_int n]]"
    using assms by (auto simp: match_op_def exn_simps split: if_splits)
  have "0 \<le> n \<and> n \<le> 16" using n(1) by (auto simp: DecodeOP_N_def split: if_splits)
  then have "unat (word_of_int n :: byte) \<le> 16"
    by (simp add: unat_eq_nat_uint uint_word_of_int nat_le_iff)
  with n show ?thesis by blast
qed

lemma match_MULTISIG:
  assumes "match_template s MULTISIG_template 0 0 [] = Inr (Some sols)"
  shows "\<exists>m keys n. sols = [m] # keys @ [[n]] \<and> unat m \<le> 16 \<and> unat n \<le> 16 \<and>
    (\<forall>k \<in> set keys. 33 \<le> length k \<and> length k \<le> 65)"
proof -
  obtain i1 k1 sols1 where s1: "match_step s MULTISIG_template 0 0 [] = Inr (Some (i1, k1, sols1))"
    and m1: "match_template s MULTISIG_template i1 k1 sols1 = Inr (Some sols)"
    using match_template_SomeD [OF assms] by auto
  obtain m where k1: "k1 = Suc 0" and sols1: "sols1 = [[m]]" "unat m \<le> 16"
    using s1 by (auto simp: match_step_def exn_simps split: prod.splits bool.splits dest!: match_op_small)
  obtain i2 k2 sols2 where s2: "match_step s MULTISIG_template i1 (Suc 0) [[m]] = Inr (Some (i2, k2, sols2))"
    and m2: "match_template s MULTISIG_template i2 k2 sols2 = Inr (Some sols)"
    using match_template_SomeD [OF m1] by (auto simp: k1 sols1)
  obtain keys n where k2: "k2 = 3" and sols2: "sols2 = [m] # keys @ [[n]]" "unat n \<le> 16"
    "\<forall>k \<in> set keys. 33 \<le> length k \<and> length k \<le> 65"
    using s2
    by (auto simp: match_step_def exn_simps split: prod.splits bool.splits
        dest!: match_op_small take_pubkeys_keys)
  obtain i3 k3 sols3 where s3: "match_step s MULTISIG_template i2 3 sols2 = Inr (Some (i3, k3, sols3))"
    and m3: "match_template s MULTISIG_template i3 k3 sols3 = Inr (Some sols)"
    using match_template_SomeD [OF m2] by (auto simp: k2)
  have "k3 = 4" "sols3 = sols2"
    using s3 by (auto simp: match_step_def match_op_def exn_simps split: prod.splits bool.splits if_splits)
  then have "sols = sols2" using m3 match_template_end [of s MULTISIG_template i3 sols3 sols] by simp
  with sols1 sols2 show ?thesis by blast
qed

text \<open>What a solution list looks like for each type.\<close>

fun solved_shape :: "txnouttype \<Rightarrow> valtype list \<Rightarrow> bool" where
  "solved_shape TX_PUBKEY sols \<longleftrightarrow> (\<exists>k. sols = [k] \<and> 33 \<le> length k \<and> length k \<le> 65)"
| "solved_shape TX_PUBKEYHASH sols \<longleftrightarrow> (\<exists>h. sols = [h] \<and> length h = 20)"
| "solved_shape TX_SCRIPTHASH sols \<longleftrightarrow> (\<exists>h. sols = [h] \<and> length h = 20)"
| "solved_shape TX_MULTISIG sols \<longleftrightarrow>
     (\<exists>m keys n. sols = [m] # keys @ [[n]] \<and> 1 \<le> unat m \<and> unat m \<le> length keys \<and>
        length keys \<le> 16 \<and> unat n = length keys \<and>
        list_all (\<lambda>k. 33 \<le> length k \<and> length k \<le> 65) keys)"
| "solved_shape TX_NULL_DATA sols \<longleftrightarrow> sols = []"
| "solved_shape _ sols \<longleftrightarrow> False"

lemma match_PUBKEY:
  assumes "match_template s PUBKEY_template 0 0 [] = Inr (Some sols)"
  shows "solved_shape TX_PUBKEY sols"
proof -
  obtain i1 k1 sols1 where s1: "match_step s PUBKEY_template 0 0 [] = Inr (Some (i1, k1, sols1))"
    and m1: "match_template s PUBKEY_template i1 k1 sols1 = Inr (Some sols)"
    using match_template_SomeD [OF assms] by auto
  have k1: "k1 = Suc 0" and sols1: "solved_shape TX_PUBKEY sols1"
    using s1 by (auto simp: match_step_def match_op_def split: prod.splits bool.splits if_splits)
  obtain i2 k2 sols2 where s2: "match_step s PUBKEY_template i1 (Suc 0) sols1 = Inr (Some (i2, k2, sols2))"
    and m2: "match_template s PUBKEY_template i2 k2 sols2 = Inr (Some sols)"
    using match_template_SomeD [OF m1] by (auto simp: k1)
  have "k2 = 2" "sols2 = sols1"
    using s2 by (auto simp: match_step_def match_op_def split: prod.splits bool.splits if_splits)
  with m2 sols1 show ?thesis using match_template_end [of s PUBKEY_template i2 sols2 sols] by simp
qed

text \<open>A step against a template opcode that must match exactly leaves the solutions alone.\<close>

lemma match_step_exact:
  assumes "match_step s t i k sols = Inr (Some (i', k', sols'))" "GetOp t k = (True, k1, opcode, [])"
    "opcode \<notin> {OP_PUBKEYS, OP_PUBKEY, OP_PUBKEYHASH, OP_SMALLINTEGER}"
  shows "k' = k1 \<and> sols' = sols"
  using assms by (auto simp: match_step_def match_op_def split: prod.splits bool.splits if_splits)

lemma match_PUBKEYHASH:
  assumes "match_template s PUBKEYHASH_template 0 0 [] = Inr (Some sols)"
  shows "solved_shape TX_PUBKEYHASH sols"
proof -
  let ?t = PUBKEYHASH_template
  obtain i1 k1 sols1 where "match_step s ?t 0 0 [] = Inr (Some (i1, k1, sols1))"
    and m1: "match_template s ?t i1 k1 sols1 = Inr (Some sols)"
    using match_template_SomeD [OF assms] by auto
  then have m1: "match_template s ?t i1 (Suc 0) [] = Inr (Some sols)"
    using match_step_exact [of s ?t 0 0 "[]" i1 k1 sols1] by simp
  obtain i2 k2 sols2 where "match_step s ?t i1 (Suc 0) [] = Inr (Some (i2, k2, sols2))"
    and m2: "match_template s ?t i2 k2 sols2 = Inr (Some sols)"
    using match_template_SomeD [OF m1] by auto
  then have m2: "match_template s ?t i2 2 [] = Inr (Some sols)"
    using match_step_exact [of s ?t i1 "Suc 0" "[]" i2 k2 sols2] by simp
  obtain i3 k3 sols3 where s3: "match_step s ?t i2 2 [] = Inr (Some (i3, k3, sols3))"
    and m3: "match_template s ?t i3 k3 sols3 = Inr (Some sols)"
    using match_template_SomeD [OF m2] by auto
  have k3: "k3 = 3" and sols3: "solved_shape TX_PUBKEYHASH sols3"
    using s3 by (auto simp: match_step_def match_op_def split: prod.splits bool.splits if_splits)
  obtain i4 k4 sols4 where "match_step s ?t i3 3 sols3 = Inr (Some (i4, k4, sols4))"
    and m4: "match_template s ?t i4 k4 sols4 = Inr (Some sols)"
    using match_template_SomeD [OF m3] k3 by auto
  then have m4: "match_template s ?t i4 4 sols3 = Inr (Some sols)"
    using match_step_exact [of s ?t i3 3 sols3 i4 k4 sols4] by simp
  obtain i5 k5 sols5 where "match_step s ?t i4 4 sols3 = Inr (Some (i5, k5, sols5))"
    and m5: "match_template s ?t i5 k5 sols5 = Inr (Some sols)"
    using match_template_SomeD [OF m4] by auto
  then have "match_template s ?t i5 5 sols3 = Inr (Some sols)"
    using match_step_exact [of s ?t i4 4 sols3 i5 k5 sols5] by simp
  with sols3 show ?thesis using match_template_end [of s ?t i5 sols3 sols] by simp
qed

lemma multisig_checks_shape:
  assumes sols: "sols = [m] # keys @ [[n]]" "unat m \<le> 16" "unat n \<le> 16"
    "\<forall>k \<in> set keys. 33 \<le> length k \<and> length k \<le> 65"
  shows "\<exists>ok. multisig_checks sols = Inr ok \<and> (ok \<longrightarrow> solved_shape TX_MULTISIG sols)"
proof (intro exI conjI impI)
  show "multisig_checks sols =
      Inr (\<not> (m < 1 \<or> n < 1 \<or> m > n \<or> int (length sols) - 2 \<noteq> int (unat n)))"
    using sols by (simp add: multisig_checks_def vec_index_def)
  assume ok: "\<not> (m < 1 \<or> n < 1 \<or> m > n \<or> int (length sols) - 2 \<noteq> int (unat n))"
  then have "int (length keys) = int (unat n)" using sols(1) by simp
  then have "length keys = unat n" by (simp only: of_nat_eq_iff)
  with ok sols show "solved_shape TX_MULTISIG sols"
    by (auto simp: word_less_nat_alt list_all_iff)
qed

text \<open>
  \<^verbatim>\<open>Solver\<close> always returns: it reads no solution outside its list and trips no
  assertion. When it answers yes, the solutions have the form the callers rely on when they index
  them: one public key of 33 to 65 bytes, one 20-byte hash, or for a multisignature script the
  required number, between 1 and 16 keys of those lengths and their number, the required number
  being between one and the number of keys.
\<close>

theorem Solver_shape:
  "case Solver s of Inl e \<Rightarrow> False | Inr (ok, typ, sols) \<Rightarrow> (if ok then solved_shape typ sols else True)"
proof -
  obtain r1 where r1: "match_template s PUBKEY_template 0 0 [] = Inr r1" using match_template_total by blast
  obtain r2 where r2: "match_template s PUBKEYHASH_template 0 0 [] = Inr r2" using match_template_total by blast
  obtain r3 where r3: "match_template s MULTISIG_template 0 0 [] = Inr r3" using match_template_total by blast
  have "case scan_templates s mTemplates of Inl e \<Rightarrow> False
    | Inr (ok, typ, sols) \<Rightarrow> (if ok then solved_shape typ sols else True)"
  proof (cases r3)
    case None
    with r1 r2 r3 show ?thesis
      by (auto simp: mTemplates_def simp del: solved_shape.simps split: option.splits
          dest: match_PUBKEY match_PUBKEYHASH)
  next
    case (Some sols)
    then obtain m keys n where "sols = [m] # keys @ [[n]]" "unat m \<le> 16" "unat n \<le> 16"
      "\<forall>k \<in> set keys. 33 \<le> length k \<and> length k \<le> 65"
      using r3 match_MULTISIG by blast
    then obtain ok where "multisig_checks sols = Inr ok" "ok \<longrightarrow> solved_shape TX_MULTISIG sols"
      using multisig_checks_shape by blast
    with r1 r2 r3 Some show ?thesis
      by (auto simp: mTemplates_def simp del: solved_shape.simps split: option.splits
          dest: match_PUBKEY match_PUBKEYHASH)
  qed
  then show ?thesis by (simp add: Solver_def IsPayToScriptHash_def)
qed

section \<open>The builders and the extractors\<close>

lemma length_uint64_bytes [simp]: "length (uint64_bytes x) = 8"
  by (simp add: uint64_bytes_def)

lemma uint64_number_bytes [simp]: "uint64_number (uint64_bytes x) = Inr x"
  using unat_less_2p [of x]
  by (simp add: uint64_number_def uint64_bytes_def WriteLE64_def or_bytes_value)

lemma uint64_bytes_number: "uint64_number v = Inr x \<Longrightarrow> uint64_bytes x = v"
  using le_nat_less [of v]
  by (auto simp: uint64_number_def uint64_bytes_def WriteLE64_def or_bytes_value unat_of_nat
      split: if_splits)

lemma uint64_number_total: "length v = 8 \<Longrightarrow> \<exists>x. uint64_number v = Inr x"
  by (simp add: uint64_number_def)

lemma vec_range_skip: "length u \<le> i \<Longrightarrow> vec_range i j (u @ v) = vec_range (i - length u) (j - length u) v"
  by (simp add: vec_range_def)

lemma vec_range_take: "j \<le> length u \<Longrightarrow> vec_range i j (u @ v) = vec_range i j u"
  by (simp add: vec_range_def)

lemma vec_range_all: "length u = j \<Longrightarrow> vec_range 0 j u = u"
  by (simp add: vec_range_def)

lemma vec_range_split:
  "i \<le> j \<Longrightarrow> j \<le> k \<Longrightarrow> k \<le> length s \<Longrightarrow> vec_range i j s @ vec_range j k s = vec_range i k s"
  using take_add [of "j - i" "k - j" "drop i s"] by (simp add: vec_range_def)

text \<open>The witness template is recognised by its length and its first two bytes.\<close>

lemma GetOp2_opcode_eq: "GetOp2 s i = (j, Some (opcode, v)) \<Longrightarrow> opcode = unat (s ! i)"
  by (auto simp: GetOp2_def Let_def split: if_splits option.splits)

lemma GetOp2_opcode_0: "GetOp2 s 0 = (i, Some (0, v)) \<Longrightarrow> i = 1"
  by (auto simp: GetOp2_def push_size_def Let_def split: if_splits)

lemma witness_template:
  assumes "ExtractPoW2WitnessFromScript s = Inr (Some w)"
  shows "s ! 0 = 0 \<and> s ! 1 = 72"
proof -
  obtain i j u v where ops: "GetOp2 s 0 = (i, Some (0, u))" "GetOp2 s i = (j, Some (72, v))"
    using assms
    by (auto simp: ExtractPoW2WitnessFromScript_def split: if_splits prod.splits option.splits)
  then have "i = 1" using GetOp2_opcode_0 by blast
  with ops have "unat (s ! 0) = 0" "unat (s ! 1) = 72"
    by (auto dest!: GetOp2_opcode_eq)
  then show ?thesis by (auto simp: word_unat_eq_iff)
qed

lemma Extract_template:
  assumes "length s = 74" "s ! 0 = 0" "s ! 1 = 72"
  shows "ExtractPoW2WitnessFromScript s =
    bind_e (uint64_number (vec_range 42 50 s)) (\<lambda>from.
    bind_e (uint64_number (vec_range 50 58 s)) (\<lambda>until.
    bind_e (uint64_number (vec_range 58 66 s)) (\<lambda>fails.
    bind_e (uint64_number (vec_range 66 74 s)) (\<lambda>nonce.
    Inr (Some \<lparr>spendingKeyID = uint160_of (vec_range 2 22 s),
               witnessKeyID = uint160_of (vec_range 22 42 s),
               lockFromBlock = from, lockUntilBlock = until, failCount = fails,
               actionNonce = nonce\<rparr>)))))"
  using assms by (simp add: ExtractPoW2WitnessFromScript_def GetOp2_def push_size_def Let_def)

lemma witness_script_eq:
  "witness_script w = Inr ([0, 72] @ uint160_bytes (spendingKeyID w) @ uint160_bytes (witnessKeyID w) @
     uint64_bytes (lockFromBlock w) @ uint64_bytes (lockUntilBlock w) @
     uint64_bytes (failCount w) @ uint64_bytes (actionNonce w))"
  by (simp add: witness_script_def push_opcode_def)

lemma Extract_witness_script:
  assumes "witness_script w = Inr s"
  shows "ExtractPoW2WitnessFromScript s = Inr (Some w)"
proof -
  have s: "s = [0, 72] @ uint160_bytes (spendingKeyID w) @ uint160_bytes (witnessKeyID w) @
     uint64_bytes (lockFromBlock w) @ uint64_bytes (lockUntilBlock w) @
     uint64_bytes (failCount w) @ uint64_bytes (actionNonce w)"
    using assms by (simp add: witness_script_eq)
  have "length s = 74" "s ! 0 = 0" "s ! 1 = 72" by (simp_all add: s)
  then show ?thesis
    by (simp add: Extract_template)
      (simp add: s vec_range_skip vec_range_take vec_range_all del: append_Cons)
qed

lemma witness_script_Extract:
  assumes "ExtractPoW2WitnessFromScript s = Inr (Some w)"
  shows "witness_script w = Inr s"
proof -
  have len: "length s = 74" using assms by (auto simp: ExtractPoW2WitnessFromScript_def split: if_splits)
  note tmpl = witness_template [OF assms]
  then have fields: "uint64_number (vec_range 42 50 s) = Inr (lockFromBlock w)"
    "uint64_number (vec_range 50 58 s) = Inr (lockUntilBlock w)"
    "uint64_number (vec_range 58 66 s) = Inr (failCount w)"
    "uint64_number (vec_range 66 74 s) = Inr (actionNonce w)"
    "spendingKeyID w = uint160_of (vec_range 2 22 s)" "witnessKeyID w = uint160_of (vec_range 22 42 s)"
    using assms len by (auto simp: Extract_template exn_simps)
  have "vec_range 0 2 s = [0, 72]"
    using tmpl len by (auto simp: vec_range_def list_eq_iff_nth_eq less_Suc_eq numeral_2_eq_2)
  then have "Inr s = (Inr ([0, 72] @ vec_range 2 22 s @ vec_range 22 42 s @ vec_range 42 50 s @
      vec_range 50 58 s @ vec_range 58 66 s @ vec_range 66 74 s) :: cpp_exn + cscript)"
    using len by (simp add: vec_range_split flip: \<open>vec_range 0 2 s = [0, 72]\<close>) (simp add: vec_range_all)
  then show ?thesis
    using len fields(1-4) [THEN uint64_bytes_number] fields(5,6)
    by (simp add: witness_script_eq uint160_bytes_of)
qed

lemma Extract_total: "\<exists>r. ExtractPoW2WitnessFromScript s = Inr r"
proof (cases "length s = 74")
  case True
  then obtain a b c d where "uint64_number (vec_range 42 50 s) = Inr a"
    "uint64_number (vec_range 50 58 s) = Inr b" "uint64_number (vec_range 58 66 s) = Inr c"
    "uint64_number (vec_range 66 74 s) = Inr d"
    by (simp add: uint64_number_def)
  then show ?thesis
    by (simp add: ExtractPoW2WitnessFromScript_def split: prod.split option.split)
qed (simp add: ExtractPoW2WitnessFromScript_def)

lemma P2PKH_script:
  "GetScriptForDestination (KeyDestination h) =
     Inr ([byte_of OP_DUP, byte_of OP_HASH160, 20] @ uint160_bytes h @ [byte_of OP_EQUALVERIFY, byte_of OP_CHECKSIG])"
  by (simp add: push_opcode_def push_data_def)

lemma P2SH_script:
  "GetScriptForDestination (ScriptDestination h) =
     Inr ([byte_of OP_HASH160, 20] @ uint160_bytes h @ [byte_of OP_EQUAL])"
  by (simp add: push_opcode_def push_data_def)

lemma Solver_P2PKH:
  assumes h: "length h = 20"
  shows "Solver ([byte_of OP_DUP, byte_of OP_HASH160, 20] @ h @ [byte_of OP_EQUALVERIFY, byte_of OP_CHECKSIG]) =
    Inr (True, TX_PUBKEYHASH, [h])" (is "Solver ?s = _")
proof -
  have len: "length ?s = 25" using h by simp
  have ops: "GetOp ?s 0 = (True, Suc 0, OP_DUP, [])" "GetOp ?s (Suc 0) = (True, 2, OP_HASH160, [])"
    "GetOp ?s 2 = (True, 23, 20, h)" "GetOp ?s 23 = (True, 24, OP_EQUALVERIFY, [])"
    "GetOp ?s 24 = (True, 25, OP_CHECKSIG, [])"
    using h by (simp_all add: GetOp_def GetOp2_def push_size_def nth_append Let_def)
  have "match_template ?s PUBKEY_template 0 0 [] = Inr None"
    using ops by (intro match_template_break) (simp_all add: match_step_def match_op_def)
  moreover have "match_template ?s PUBKEYHASH_template 0 0 [] = Inr (Some [h])"
  proof -
    let ?t = PUBKEYHASH_template
    have "match_template ?s ?t 0 0 [] = match_template ?s ?t (Suc 0) (Suc 0) []"
      by (rule match_template_step) (simp only: match_step_def ops template_ops, simp add: match_op_def)
    also have "\<dots> = match_template ?s ?t 2 2 []"
      by (rule match_template_step) (simp only: match_step_def ops template_ops, simp add: match_op_def)
    also have "\<dots> = match_template ?s ?t 23 3 [h]"
      by (rule match_template_step) (simp only: match_step_def ops template_ops, simp add: match_op_def h)
    also have "\<dots> = match_template ?s ?t 24 4 [h]"
      by (rule match_template_step) (simp only: match_step_def ops template_ops, simp add: match_op_def)
    also have "\<dots> = match_template ?s ?t 25 5 [h]"
      by (rule match_template_step) (simp only: match_step_def ops template_ops, simp add: match_op_def)
    also have "\<dots> = Inr (Some [h])"
      using match_template_done [of ?s ?t "[h]"] len by simp
    finally show ?thesis .
  qed
  ultimately show ?thesis
    using len by (simp add: Solver_def IsPayToScriptHash_def mTemplates_def)
qed

lemma Solver_P2SH:
  assumes h: "length h = 20"
  shows "Solver ([byte_of OP_HASH160, 20] @ h @ [byte_of OP_EQUAL]) = Inr (True, TX_SCRIPTHASH, [h])"
proof -
  have "vec_range 2 22 ([byte_of OP_HASH160, 20] @ h @ [byte_of OP_EQUAL]) = h"
    using h by (simp only: vec_range_skip vec_range_take vec_range_all length_Cons list.size)
      (simp add: vec_range_take vec_range_all)
  with h show ?thesis by (simp add: Solver_def IsPayToScriptHash_def nth_append)
qed

text \<open>
  C30. Building the script of a destination and extracting the destination again is the identity for
  key hashes and script hashes; for witness destinations the extractor accepts exactly the scripts
  the builder makes and returns the six fields they were built from. None of the calls throws.
\<close>

theorem destination_scripts:
  "bind_e (GetScriptForDestination (KeyDestination k)) ExtractDestination = Inr (Some (KeyDestination k)) \<and>
   bind_e (GetScriptForDestination (ScriptDestination h)) ExtractDestination = Inr (Some (ScriptDestination h)) \<and>
   (ExtractPoW2WitnessFromScript s = Inr (Some w) \<longleftrightarrow>
      GetScriptForDestination (WitnessDestination w) = Inr s) \<and>
   (\<exists>r. ExtractPoW2WitnessFromScript s = Inr r)"
proof (intro conjI)
  show "bind_e (GetScriptForDestination (KeyDestination k)) ExtractDestination =
      Inr (Some (KeyDestination k))"
    unfolding P2PKH_script bind_e_Inr ExtractDestination_def Solver_P2PKH [OF length_uint160_bytes]
    by (simp add: vec_index_def)
  show "bind_e (GetScriptForDestination (ScriptDestination h)) ExtractDestination =
      Inr (Some (ScriptDestination h))"
    unfolding P2SH_script bind_e_Inr ExtractDestination_def Solver_P2SH [OF length_uint160_bytes]
    by (simp add: vec_index_def)
  show "ExtractPoW2WitnessFromScript s = Inr (Some w) \<longleftrightarrow>
      GetScriptForDestination (WitnessDestination w) = Inr s"
    unfolding GetScriptForDestination.simps
    using Extract_witness_script witness_script_Extract by blast
  show "\<exists>r. ExtractPoW2WitnessFromScript s = Inr r" by (rule Extract_total)
qed

section \<open>Multisignature scripts\<close>

lemma foldl_push_data: "foldl push_data s keys = s @ concat (map (push_data []) keys)"
proof (induction keys arbitrary: s)
  case (Cons k keys)
  then show ?case by (simp add: push_data_append [of s k])
qed simp

lemma GetOp_push_data:
  assumes "length k < 2 ^ 32"
  shows "\<exists>opcode. GetOp (pre @ push_data [] k @ rest) (length pre) =
    (True, length pre + length (push_data [] k), opcode, k)"
  using GetOp2_push_data [OF assms, of pre rest]
  by (auto simp: GetOp_True push_data_append [of pre k])

abbreviation (input) key_length :: "valtype \<Rightarrow> bool" where
  "key_length k \<equiv> 33 \<le> length k \<and> length k \<le> 65"

lemma take_pubkeys_stop: "take_pubkeys s i opcode [] sols = (i, opcode, [], sols)"
  by (subst take_pubkeys.simps) simp

lemma take_pubkeys_run:
  assumes "key_length k" "list_all key_length ks" "OP_PUSHDATA4 < unat op_n"
  shows "take_pubkeys (pre @ concat (map (push_data []) ks) @ op_n # rest) (length pre) opcode k sols =
    (length pre + length (concat (map (push_data []) ks)) + 1, unat op_n, [], sols @ k # ks)"
  using assms(1,2)
proof (induction ks arbitrary: pre opcode k sols)
  case Nil
  have "GetOp (pre @ op_n # rest) (length pre) = (True, Suc (length pre), unat op_n, [])"
    using assms(3) GetOp_plain [of "length pre" "pre @ op_n # rest"] by simp
  with Nil show ?case by (subst take_pubkeys.simps) (simp add: take_pubkeys_stop)
next
  case (Cons k' ks)
  let ?rest = "concat (map (push_data []) ks) @ op_n # rest"
  obtain opcode' where g: "GetOp (pre @ push_data [] k' @ ?rest) (length pre) =
      (True, length pre + length (push_data [] k'), opcode', k')"
    using GetOp_push_data [of k' pre ?rest] Cons.prems(2) by auto
  have "take_pubkeys ((pre @ push_data [] k') @ ?rest) (length (pre @ push_data [] k')) opcode' k'
      (sols @ [k]) = (length (pre @ push_data [] k') + length (concat (map (push_data []) ks)) + 1,
      unat op_n, [], (sols @ [k]) @ k' # ks)"
    using Cons.prems by (intro Cons.IH) simp_all
  with g Cons.prems(1) show ?case by (subst take_pubkeys.simps) (simp add: add.assoc)
qed

lemma match_multisig_script:
  fixes opM opN :: byte
  assumes "DecodeOP_N (unat opM) = Inr m" "OP_1 \<le> unat opM" "unat opM \<le> OP_16"
    "DecodeOP_N (unat opN) = Inr n" "OP_1 \<le> unat opN" "unat opN \<le> OP_16"
    "list_all key_length (k # ks)"
  shows "match_template (opM # concat (map (push_data []) (k # ks)) @ [opN, byte_of OP_CHECKMULTISIG])
    MULTISIG_template 0 0 [] = Inr (Some ([word_of_int m] # (k # ks) @ [[word_of_int n]]))"
proof -
  let ?t = MULTISIG_template
  define s where "s = opM # concat (map (push_data []) (k # ks)) @ [opN, byte_of OP_CHECKMULTISIG]"
  define j where "j = Suc (length (concat (map (push_data []) (k # ks))))"
  have len: "length s = j + 2" by (simp add: s_def j_def)
  have op0: "GetOp s 0 = (True, Suc 0, unat opM, [])"
    using assms(2) GetOp_plain [of 0 s] by (simp add: s_def)
  obtain opk where op1: "GetOp s (Suc 0) = (True, Suc (length (push_data [] k)), opk, k)"
    using GetOp_push_data [of k "[opM]" "concat (map (push_data []) ks) @ [opN, byte_of OP_CHECKMULTISIG]"]
      assms(7) by (auto simp: s_def)
  have run: "take_pubkeys s (Suc (length (push_data [] k))) opk k sols =
      (Suc j, unat opN, [], sols @ k # ks)" for sols
    using take_pubkeys_run [of k ks opN "opM # push_data [] k" "[byte_of OP_CHECKMULTISIG]" opk sols] assms(5,7)
    by (simp add: s_def j_def)
  have op3: "GetOp s (Suc j) = (True, Suc (Suc j), OP_CHECKMULTISIG, [])"
    using GetOp_plain [of "Suc j" s] by (simp add: s_def j_def nth_append)
  have "match_template s ?t 0 0 [] = match_template s ?t (Suc 0) (Suc 0) [[word_of_int m]]"
    by (rule match_template_step) (use assms(1-3) in \<open>simp add: match_step_def op0 match_op_def\<close>)
  also have "\<dots> = match_template s ?t (Suc j) 3 ([word_of_int m] # (k # ks) @ [[word_of_int n]])"
    by (rule match_template_step) (use assms(4-6) in \<open>simp add: match_step_def op1 run match_op_def\<close>)
  also have "\<dots> = match_template s ?t (Suc (Suc j)) 4 ([word_of_int m] # (k # ks) @ [[word_of_int n]])"
    by (rule match_template_step) (simp add: match_step_def op3 match_op_def)
  also have "\<dots> = Inr (Some ([word_of_int m] # (k # ks) @ [[word_of_int n]]))"
    using match_template_done [of s ?t] len by simp
  finally show ?thesis by (simp add: s_def)
qed

text \<open>
  C31. The multisignature script built for \<open>m\<close> of the given keys is recognised by
  \<^verbatim>\<open>Solver\<close> as a multisignature script with exactly that number, those keys in that
  order and their count, for every number of keys the builder accepts.
\<close>

theorem Solver_multisig:
  assumes "1 \<le> m" "m \<le> int (length keys)" "length keys \<le> 16" "list_all key_length keys"
  shows "bind_e (GetScriptForMultisig m keys) Solver =
    Inr (True, TX_MULTISIG, [word_of_int m] # keys @ [[word_of_nat (length keys)]])"
proof -
  obtain k ks where keys: "keys = k # ks" using assms(1,2) by (cases keys) auto
  define opM opN :: byte where "opM = byte_of (OP_1 + nat m - 1)" and "opN = byte_of (OP_1 + length keys - 1)"
  define s where "s = opM # concat (map (push_data []) keys) @ [opN, byte_of OP_CHECKMULTISIG]"
  have u: "unat opM = 80 + nat m" "unat opN = 80 + length keys"
    using assms by (simp_all only: opM_def opN_def unat_of_nat) simp_all
  have build: "GetScriptForMultisig m keys = Inr s"
    using assms by (auto simp: GetScriptForMultisig_def EncodeOP_N_def push_opcode_def foldl_push_data
        s_def opM_def opN_def)
  have op0: "GetOp s 0 = (True, Suc 0, unat opM, [])"
    using u(1) GetOp_plain [of 0 s] by (simp add: s_def)
  have multi: "match_template s MULTISIG_template 0 0 [] =
      Inr (Some ([word_of_int m] # keys @ [[word_of_nat (length keys)]]))"
    using match_multisig_script [of opM m opN "int (length keys)" k ks] u assms
    by (simp add: s_def keys DecodeOP_N_def)
  have "match_template s PUBKEY_template 0 0 [] = Inr None"
    by (intro match_template_break) (simp_all add: match_step_def match_op_def op0)
  moreover have "match_template s PUBKEYHASH_template 0 0 [] = Inr None"
    using u(1) assms(1-3) by (intro match_template_break) (simp_all add: match_step_def match_op_def op0)
  moreover have "s ! 0 \<noteq> byte_of OP_HASH160" "s ! 0 \<noteq> byte_of OP_RETURN"
    using u(1) assms(1-3) by (auto simp: s_def word_unat_eq_iff)
  moreover have "multisig_checks ([word_of_int m] # keys @ [[word_of_nat (length keys)]]) = Inr True"
  proof -
    have "unat (word_of_int m :: byte) = nat m"
      using assms by (simp add: unat_eq_nat_uint uint_word_of_int)
    moreover have "uint (byte_of (length keys)) = int (length keys)"
      using assms by (simp add: uint_nat unat_of_nat)
    ultimately show ?thesis
      using assms by (auto simp: multisig_checks_def vec_index_def word_less_nat_alt unat_of_nat)
  qed
  ultimately show ?thesis
    by (simp add: build Solver_def IsPayToScriptHash_def mTemplates_def multi)
qed

theorem Solver_multisig_witness:
  "bind_e (GetScriptForMultisig 1 [replicate 33 2, replicate 65 4]) Solver =
     Inr (True, TX_MULTISIG, [[1], replicate 33 2, replicate 65 4, [2]])"
  using Solver_multisig [of 1 "[replicate 33 2, replicate 65 4]"] by simp

end
