(* ===== verification/Serialize.thy ===== *)
theory Serialize
  imports Munt_Prelude
begin

text \<open>
  The serialization primitives of \<^verbatim>\<open>src/src/serialize.h\<close>: fixed-width integers,
  \<^verbatim>\<open>CompactSize\<close>, \<^verbatim>\<open>VarInt\<close>, byte vectors and vectors of
  elements. Writing appends to a byte list; a reader takes the unread bytes of the stream and
  returns its value with the bytes that are left, or the exception it throws. The locale
  \<open>codec\<close> states what a writer and a reader promise each other.
\<close>

section \<open>Readers\<close>

type_synonym 'a reader = "byte list \<Rightarrow> cpp_exn + ('a \<times> byte list)"

definition return_r :: "'a \<Rightarrow> 'a reader" where
  "return_r x bs = Inr (x, bs)"

definition bind_r :: "'a reader \<Rightarrow> ('a \<Rightarrow> 'b reader) \<Rightarrow> 'b reader" where
  "bind_r m f bs = bind_e (m bs) (\<lambda>(x, rest). f x rest)"

definition throw_r :: "cpp_exn \<Rightarrow> 'a reader" where
  "throw_r e bs = Inl e"

text \<open>\<^verbatim>\<open>Stream::read\<close>: as many bytes as the span holds, or the end-of-data failure.\<close>

definition read_bytes :: "nat \<Rightarrow> byte list reader" where
  "read_bytes n bs = (if n > length bs then Inl IosFailure else Inr (take n bs, drop n bs))"

definition peek_bytes :: "nat \<Rightarrow> byte list reader" where
  "peek_bytes n bs = (if n > length bs then Inl IosFailure else Inr (take n bs, bs))"

fun read_many :: "nat \<Rightarrow> 'a reader \<Rightarrow> 'a list reader" where
  "read_many 0 m = return_r []"
| "read_many (Suc n) m = bind_r m (\<lambda>x. bind_r (read_many n m) (\<lambda>xs. return_r (x # xs)))"

lemma return_r_simp [simp]: "return_r x bs = Inr (x, bs)"
  by (simp add: return_r_def)

lemma throw_r_simp [simp]: "throw_r e bs = Inl e"
  by (simp add: throw_r_def)

lemma bind_r_Inr [simp]: "m bs = Inr (x, rest) \<Longrightarrow> bind_r m f bs = f x rest"
  by (simp add: bind_r_def)

lemma bind_r_eq_Inr [exn_simps]:
  "bind_r m f bs = Inr r \<longleftrightarrow> (\<exists>x rest. m bs = Inr (x, rest) \<and> f x rest = Inr r)"
  by (auto simp: bind_r_def exn_simps)

lemma read_bytes_append [simp]: "length b = n \<Longrightarrow> read_bytes n (b @ rest) = Inr (b, rest)"
  by (simp add: read_bytes_def)

lemma read_bytes_eq_Inr [exn_simps]:
  "read_bytes n bs = Inr (b, rest) \<longleftrightarrow> bs = b @ rest \<and> length b = n"
  by (auto simp: read_bytes_def)

section \<open>The contract of a writer and a reader\<close>

text \<open>
  Reading what was written gives the value back and leaves the rest of the stream; \<open>ok\<close> names
  the values the format can carry.
\<close>

locale codec =
  fixes ok :: "'a \<Rightarrow> bool" and enc :: "'a \<Rightarrow> byte list" and dec :: "'a reader"
  assumes dec_enc: "ok x \<Longrightarrow> dec (enc x @ rest) = Inr (x, rest)"
begin

text \<open>The encodings are uniquely decodable: none is a proper prefix of another.\<close>

lemma enc_prefix_free:
  assumes "ok x" "ok y" "enc x @ r = enc y @ s"
  shows "x = y \<and> r = s"
  using dec_enc [OF assms(1), of r] dec_enc [OF assms(2), of s]
  unfolding assms(3) by simp

lemma read_many_enc:
  "list_all ok xs \<Longrightarrow> read_many (length xs) dec (concat (map enc xs) @ rest) = Inr (xs, rest)"
  by (induction xs) (simp_all add: dec_enc)

lemma enc_many_inj:
  assumes "list_all ok xs" "list_all ok ys" "length xs = length ys"
    "concat (map enc xs) = concat (map enc ys)"
  shows "xs = ys"
  using read_many_enc [OF assms(1), of "[]"] read_many_enc [OF assms(2), of "[]"]
  unfolding assms(3,4) by simp

end

text \<open>
  A canonical codec also accepts nothing but its own encodings, so a byte string has one reading
  and a value one encoding.
\<close>

locale canonical_codec = codec +
  assumes enc_dec: "dec bs = Inr (x, rest) \<Longrightarrow> ok x \<and> bs = enc x @ rest"
begin

lemma dec_iff: "dec bs = Inr (x, rest) \<longleftrightarrow> ok x \<and> bs = enc x @ rest"
  using enc_dec dec_enc by auto

lemma read_many_dec:
  "read_many n dec bs = Inr (xs, rest) \<Longrightarrow>
   length xs = n \<and> list_all ok xs \<and> bs = concat (map enc xs) @ rest"
  by (induction n arbitrary: bs xs) (auto simp: exn_simps dec_iff)

end

section \<open>Fixed-width integers\<close>

abbreviation (input) ser_writedata8 :: "u8 \<Rightarrow> byte list" where
  "ser_writedata8 x \<equiv> [x]"

definition ser_writedata16 :: "u16 \<Rightarrow> byte list" where
  "ser_writedata16 x = WriteLE16 x"

definition ser_writedata32 :: "u32 \<Rightarrow> byte list" where
  "ser_writedata32 x = WriteLE32 x"

definition ser_writedata64 :: "u64 \<Rightarrow> byte list" where
  "ser_writedata64 x = WriteLE64 x"

fun ser_readdata8 :: "u8 reader" where
  "ser_readdata8 [] = Inl IosFailure"
| "ser_readdata8 (b # rest) = Inr (b, rest)"

definition ser_readdata16 :: "u16 reader" where
  "ser_readdata16 = bind_r (read_bytes 2) (\<lambda>b. return_r (ReadLE16 b))"

definition ser_readdata32 :: "u32 reader" where
  "ser_readdata32 = bind_r (read_bytes 4) (\<lambda>b. return_r (ReadLE32 b))"

definition ser_readdata64 :: "u64 reader" where
  "ser_readdata64 = bind_r (read_bytes 8) (\<lambda>b. return_r (ReadLE64 b))"

lemma WriteLE_ReadLE:
  "length b = 2 \<Longrightarrow> WriteLE16 (ReadLE16 b) = b"
  "length b = 4 \<Longrightarrow> WriteLE32 (ReadLE32 b) = b"
  "length b = 8 \<Longrightarrow> WriteLE64 (ReadLE64 b) = b"
  using le_nat_less [of b]
  by (simp_all add: WriteLE16_def WriteLE32_def WriteLE64_def unat_ReadLE16 unat_ReadLE32 unat_ReadLE64)

lemma ReadLE_WriteLE [simp]:
  "ReadLE16 (WriteLE16 x) = x" "ReadLE32 (WriteLE32 y) = y" "ReadLE64 (WriteLE64 z) = z"
  using ReadLE16_WriteLE16 [of x "[]"] ReadLE32_WriteLE32 [of y "[]"] ReadLE64_WriteLE64 [of z "[]"]
  by simp_all

interpretation u8_codec: canonical_codec "\<lambda>_. True" "\<lambda>x. [x]" ser_readdata8
  by unfold_locales (auto elim: ser_readdata8.elims)

interpretation u16_codec: canonical_codec "\<lambda>_. True" ser_writedata16 ser_readdata16
  by unfold_locales (auto simp: ser_writedata16_def ser_readdata16_def exn_simps WriteLE_ReadLE)

interpretation u32_codec: canonical_codec "\<lambda>_. True" ser_writedata32 ser_readdata32
  by unfold_locales (auto simp: ser_writedata32_def ser_readdata32_def exn_simps WriteLE_ReadLE)

interpretation u64_codec: canonical_codec "\<lambda>_. True" ser_writedata64 ser_readdata64
  by unfold_locales (auto simp: ser_writedata64_def ser_readdata64_def exn_simps WriteLE_ReadLE)

section \<open>CompactSize\<close>

definition MAX_SIZE :: nat where
  "MAX_SIZE = 0x02000000"

definition GetSizeOfCompactSize :: "nat \<Rightarrow> nat" where
  "GetSizeOfCompactSize nSize =
     (if nSize < 253 then 1
      else if nSize \<le> 0xffff then 1 + 2
      else if nSize \<le> 0xffffffff then 1 + 4
      else 1 + 8)"

definition WriteCompactSize :: "nat \<Rightarrow> byte list" where
  "WriteCompactSize nSize =
     (if nSize < 253 then ser_writedata8 (word_of_nat nSize)
      else if nSize \<le> 0xffff then ser_writedata8 253 @ ser_writedata16 (word_of_nat nSize)
      else if nSize \<le> 0xffffffff then ser_writedata8 254 @ ser_writedata32 (word_of_nat nSize)
      else ser_writedata8 255 @ ser_writedata64 (word_of_nat nSize))"

definition ReadCompactSize :: "bool \<Rightarrow> nat reader" where
  "ReadCompactSize range_check =
     bind_r ser_readdata8 (\<lambda>chSize.
     bind_r
       (if chSize < 253 then return_r (unat chSize)
        else if chSize = 253 then
          bind_r ser_readdata16 (\<lambda>n. if unat n < 253 then throw_r IosFailure else return_r (unat n))
        else if chSize = 254 then
          bind_r ser_readdata32 (\<lambda>n. if unat n < 0x10000 then throw_r IosFailure else return_r (unat n))
        else
          bind_r ser_readdata64 (\<lambda>n. if unat n < 0x100000000 then throw_r IosFailure else return_r (unat n)))
       (\<lambda>nSizeRet. if range_check \<and> nSizeRet > MAX_SIZE then throw_r IosFailure else return_r nSizeRet))"

definition compact_ok :: "bool \<Rightarrow> nat \<Rightarrow> bool" where
  "compact_ok range_check n \<longleftrightarrow> n < 2 ^ 64 \<and> (range_check \<longrightarrow> n \<le> MAX_SIZE)"

lemma ReadCompactSize_Write:
  assumes "compact_ok rc n"
  shows "ReadCompactSize rc (WriteCompactSize n @ rest) = Inr (n, rest)"
proof -
  consider "n < 253" | "253 \<le> n" "n \<le> 0xffff" | "0xffff < n" "n \<le> 0xffffffff" | "0xffffffff < n"
    by linarith
  then show ?thesis
    using assms
    by cases (simp_all add: compact_ok_def WriteCompactSize_def ReadCompactSize_def unat_of_nat
        word_less_nat_alt not_less u16_codec.dec_enc u32_codec.dec_enc u64_codec.dec_enc)
qed

lemma WriteCompactSize_Read:
  assumes "ReadCompactSize rc bs = Inr (n, rest)"
  shows "compact_ok rc n \<and> bs = WriteCompactSize n @ rest"
proof -
  obtain ch bs' where bs: "bs = ch # bs'"
    using assms by (auto simp: ReadCompactSize_def exn_simps u8_codec.dec_iff)
  have range: "rc \<longrightarrow> n \<le> MAX_SIZE"
    using assms by (auto simp: ReadCompactSize_def exn_simps split: if_splits)
  have "unat ch < 253 \<or> unat ch = 253 \<or> unat ch = 254 \<or> unat ch = 255"
    using unat_byte_less [of ch] by linarith
  then consider "ch < 253" | "ch = 253" | "ch = 254" | "ch = 255"
    by (auto simp: word_less_nat_alt word_unat_eq_iff)
  then show ?thesis
  proof cases
    case 1
    then have "n = unat ch" "unat ch < 253" "bs' = rest"
      using assms bs by (auto simp: ReadCompactSize_def word_less_nat_alt split: if_splits)
    with bs range show ?thesis by (simp add: compact_ok_def WriteCompactSize_def)
  next
    case 2
    then obtain w :: u16 where "n = unat w" "253 \<le> unat w" "bs' = ser_writedata16 w @ rest"
      using assms bs by (auto simp: ReadCompactSize_def exn_simps u16_codec.dec_iff split: if_splits)
    with 2 bs range unat_less_2p [of w] show ?thesis
      by (auto simp: compact_ok_def WriteCompactSize_def)
  next
    case 3
    then obtain w :: u32 where "n = unat w" "0x10000 \<le> unat w" "bs' = ser_writedata32 w @ rest"
      using assms bs by (auto simp: ReadCompactSize_def exn_simps u32_codec.dec_iff split: if_splits)
    with 3 bs range unat_less_2p [of w] show ?thesis
      by (auto simp: compact_ok_def WriteCompactSize_def)
  next
    case 4
    then obtain w :: u64 where "n = unat w" "0x100000000 \<le> unat w" "bs' = ser_writedata64 w @ rest"
      using assms bs by (auto simp: ReadCompactSize_def exn_simps u64_codec.dec_iff split: if_splits)
    with 4 bs range unat_less_2p [of w] show ?thesis
      by (auto simp: compact_ok_def WriteCompactSize_def)
  qed
qed

interpretation compact_size: canonical_codec "compact_ok rc" WriteCompactSize "ReadCompactSize rc" for rc
  by unfold_locales (use ReadCompactSize_Write WriteCompactSize_Read in blast)+

lemma length_WriteCompactSize: "length (WriteCompactSize n) = GetSizeOfCompactSize n"
  by (simp add: WriteCompactSize_def GetSizeOfCompactSize_def ser_writedata16_def ser_writedata32_def
      ser_writedata64_def)

text \<open>
  \<^verbatim>\<open>CompactSize\<close> is canonical: a read succeeds exactly on the encoding of a
  64-bit number (within the size limit, when it is checked), returns that number and consumes
  exactly its encoding, whose length is what \<^verbatim>\<open>GetSizeOfCompactSize\<close> computes.
\<close>

theorem CompactSize_canonical:
  "(ReadCompactSize rc bs = Inr (n, rest) \<longleftrightarrow> compact_ok rc n \<and> bs = WriteCompactSize n @ rest) \<and>
   length (WriteCompactSize n) = GetSizeOfCompactSize n"
  using compact_size.dec_iff length_WriteCompactSize by blast

section \<open>VarInt\<close>

text \<open>
  The template parameter \<^verbatim>\<open>I\<close> is an integer type; the value is its mathematical
  value and the type enters through its maximum (reading) and its size (the writer's buffer). The
  digits are produced from the last byte to the first, so the writer reverses its buffer.
\<close>

function varint_digits :: "bool \<Rightarrow> int \<Rightarrow> byte list" where
  "varint_digits more n =
     (word_of_int (n AND 0x7F) OR (if more then 0x80 else 0)) #
     (if n \<le> 0x7F then [] else varint_digits True (drop_bit 7 n - 1))"
  by pat_completeness auto
termination
  by (relation "measure (\<lambda>(more, n). nat n)") (auto simp: drop_bit_eq_div)

declare varint_digits.simps [simp del]

definition WriteVarInt :: "int \<Rightarrow> byte list" where
  "WriteVarInt n = rev (varint_digits False n)"

function GetSizeOfVarInt :: "int \<Rightarrow> nat" where
  "GetSizeOfVarInt n = (if n \<le> 0x7F then 1 else 1 + GetSizeOfVarInt (drop_bit 7 n - 1))"
  by pat_completeness auto
termination
  by (relation "measure nat") (auto simp: drop_bit_eq_div)

declare GetSizeOfVarInt.simps [simp del]

fun ReadVarInt_loop :: "int \<Rightarrow> int \<Rightarrow> int reader" where
  "ReadVarInt_loop maxI n [] = Inl IosFailure"
| "ReadVarInt_loop maxI n (chData # rest) =
     (if n > drop_bit 7 maxI then Inl IosFailure
      else let n = push_bit 7 n OR uint (chData AND 0x7F) in
        if chData AND 0x80 \<noteq> 0 then
          (if n = maxI then Inl IosFailure else ReadVarInt_loop maxI (n + 1) rest)
        else Inr (n, rest))"

definition ReadVarInt :: "int \<Rightarrow> int reader" where
  "ReadVarInt maxI = ReadVarInt_loop maxI 0"

text \<open>Arithmetic readings of the bit operations.\<close>

lemma and_127_int: "(n :: int) AND 127 = n mod 128"
  using take_bit_eq_mask [of 7 n] by (simp add: take_bit_eq_mod mask_eq_exp_minus_1)

lemma uint_byte_and_127: "uint ((b :: byte) AND 127) = uint b mod 128"
  unfolding uint_nat unat_byte_and_127 by (simp only: zmod_int of_nat_numeral)

lemma push_bit_7_or:
  assumes "0 \<le> x" "x < 128"
  shows "push_bit 7 n OR x = n * 128 + (x :: int)"
proof -
  have "push_bit 7 n OR x = push_bit 7 n + x"
  proof (rule disjunctive_add [symmetric])
    fix i
    have "take_bit 7 x = x" using assms by (simp add: take_bit_int_eq_self)
    then have "\<not> bit x i" if "7 \<le> i" using that by (metis bit_take_bit_iff not_less)
    then show "\<not> bit (push_bit 7 n) i \<or> \<not> bit x i" by (auto simp: bit_push_bit_iff)
  qed
  then show ?thesis by (simp add: push_bit_eq_mult)
qed

lemma ReadVarInt_loop_Cons:
  "ReadVarInt_loop maxI n (ch # rest) =
     (if n > maxI div 128 then Inl IosFailure
      else let n = n * 128 + uint ch mod 128 in
        if 128 \<le> unat ch then
          (if n = maxI then Inl IosFailure else ReadVarInt_loop maxI (n + 1) rest)
        else Inr (n, rest))"
  by (simp add: uint_byte_and_127 push_bit_7_or drop_bit_eq_div byte_and_128 not_less)

declare ReadVarInt_loop.simps(2) [simp del]

text \<open>
  The digits of a number written with one more byte: what the reader has accumulated before that
  byte is one more than the number the earlier bytes spell.
\<close>

lemma varint_digits_step:
  assumes "0 \<le> n" "more \<longleftrightarrow> 128 \<le> unat ch"
  shows "rev (varint_digits more (n * 128 + uint ch mod 128)) =
    (if n = 0 then [] else rev (varint_digits True (n - 1))) @ [ch]"
proof -
  let ?m = "n * 128 + uint ch mod 128"
  have m: "?m mod 128 = uint ch mod 128" "?m div 128 = n" "?m \<le> 127 \<longleftrightarrow> n = 0"
    using assms(1) by (auto simp: div_add1_eq)
  have "word_of_int (uint ch mod 128) = ch AND 127"
    by (metis uint_byte_and_127 word_of_int_uint)
  then have "(word_of_int (?m AND 127) OR (if more then 128 else 0)) = ch"
    using assms(2) byte_and_127_low [of ch] byte_and_127_high [of ch]
    by (simp add: and_127_int m(1) not_less)
  then show ?thesis
    by (subst varint_digits.simps) (simp add: m(2,3) drop_bit_eq_div)
qed

lemma ReadVarInt_prefix:
  assumes "0 \<le> m" "m < maxI"
  shows "ReadVarInt_loop maxI 0 (rev (varint_digits True m) @ rest) = ReadVarInt_loop maxI (m + 1) rest"
  using assms
proof (induction "nat m" arbitrary: m rest rule: less_induct)
  case less
  define ch :: byte where "ch = word_of_int (m mod 128) OR 128"
  have "unat (word_of_int (m mod 128) :: byte) = nat (m mod 128)"
    by (simp add: unat_eq_nat_uint uint_word_of_int)
  then have "unat ch = nat (m mod 128) + 128"
    unfolding ch_def by (subst unat_byte_or_128) (simp_all add: nat_less_iff)
  then have ch: "128 \<le> unat ch" "uint ch mod 128 = m mod 128"
    by (simp_all add: uint_nat)
  have step: "rev (varint_digits True m) =
      (if m div 128 = 0 then [] else rev (varint_digits True (m div 128 - 1))) @ [ch]"
    using varint_digits_step [of "m div 128" True ch] ch less.prems(1) by simp
  have le: "m div 128 \<le> maxI div 128" using less.prems(2) by (intro zdiv_mono1) auto
  have last: "ReadVarInt_loop maxI (m div 128) (ch # rest) = ReadVarInt_loop maxI (m + 1) rest"
    using le ch less.prems(2) by (simp add: ReadVarInt_loop_Cons)
  show ?case
  proof (cases "m div 128 = 0")
    case True
    with step last show ?thesis by simp
  next
    case False
    then have m': "0 \<le> m div 128 - 1" "m div 128 - 1 < maxI" "nat (m div 128 - 1) < nat m"
      using less.prems by (auto simp: pos_imp_zdiv_nonneg_iff)
    then show ?thesis using less.hyps [OF m'(3,1,2)] step last False by simp
  qed
qed

lemma ReadVarInt_Write:
  assumes "0 \<le> n" "n \<le> maxI"
  shows "ReadVarInt maxI (WriteVarInt n @ rest) = Inr (n, rest)"
proof -
  define ch :: byte where "ch = word_of_int (n mod 128)"
  have ch: "unat ch < 128" "uint ch mod 128 = n mod 128"
    by (simp_all add: ch_def unat_eq_nat_uint uint_word_of_int nat_less_iff)
  have step: "WriteVarInt n = (if n div 128 = 0 then [] else rev (varint_digits True (n div 128 - 1))) @ [ch]"
    using varint_digits_step [of "n div 128" False ch] ch assms(1) by (simp add: WriteVarInt_def)
  have "n div 128 \<le> maxI div 128" using assms(2) by (intro zdiv_mono1) auto
  then have last: "ReadVarInt_loop maxI (n div 128) (ch # rest) = Inr (n, rest)"
    using ch by (simp add: ReadVarInt_loop_Cons)
  show ?thesis
  proof (cases "n div 128 = 0")
    case False
    then have "0 \<le> n div 128 - 1" "n div 128 - 1 < maxI"
      using assms by (auto simp: pos_imp_zdiv_nonneg_iff)
    with ReadVarInt_prefix last False show ?thesis by (simp add: ReadVarInt_def step)
  qed (use last in \<open>simp add: ReadVarInt_def step\<close>)
qed

lemma WriteVarInt_Read:
  assumes "maxI mod 128 = 127" "0 \<le> m" "ReadVarInt_loop maxI m bs = Inr (n, rest)"
  shows "0 \<le> n \<and> n \<le> maxI \<and>
    (if m = 0 then [] else rev (varint_digits True (m - 1))) @ bs = WriteVarInt n @ rest"
  using assms(2,3)
proof (induction bs arbitrary: m)
  case (Cons ch bs)
  let ?n = "m * 128 + uint ch mod 128"
  have le: "m \<le> maxI div 128" using Cons.prems(2) by (simp add: ReadVarInt_loop_Cons split: if_splits)
  have "uint ch mod 128 < 128" by simp
  then have n: "0 \<le> ?n" "?n \<le> maxI"
    using Cons.prems(1) le assms(1) mult_div_mod_eq [of 128 maxI] by (simp, linarith)
  show ?case
  proof (cases "128 \<le> unat ch")
    case True
    then have "ReadVarInt_loop maxI (?n + 1) bs = Inr (n, rest)"
      using Cons.prems(2) le by (simp add: ReadVarInt_loop_Cons Let_def split: if_splits)
    with Cons.IH [of "?n + 1"] n True varint_digits_step [of m True ch] Cons.prems(1)
    show ?thesis by simp
  next
    case False
    then have "n = ?n" "rest = bs"
      using Cons.prems(2) le by (simp_all add: ReadVarInt_loop_Cons)
    with n False varint_digits_step [of m False ch] Cons.prems(1)
    show ?thesis by (simp add: WriteVarInt_def)
  qed
qed simp

definition varint_ok :: "int \<Rightarrow> int \<Rightarrow> bool" where
  "varint_ok maxI n \<longleftrightarrow> 0 \<le> n \<and> n \<le> maxI"

lemma varint_codec:
  assumes "maxI mod 128 = 127"
  shows "canonical_codec (varint_ok maxI) WriteVarInt (ReadVarInt maxI)"
proof
  show "ReadVarInt maxI (WriteVarInt n @ rest) = Inr (n, rest)" if "varint_ok maxI n" for n rest
    using that by (simp add: varint_ok_def ReadVarInt_Write)
  show "varint_ok maxI n \<and> bs = WriteVarInt n @ rest" if "ReadVarInt maxI bs = Inr (n, rest)" for bs n rest
    using WriteVarInt_Read [OF assms, of 0 bs n rest] that by (simp add: varint_ok_def ReadVarInt_def)
qed

text \<open>The maxima of the integer types the sources instantiate the templates with.\<close>

abbreviation (input) max_i32 :: int where "max_i32 \<equiv> 0x7fffffff"
abbreviation (input) max_u32 :: int where "max_u32 \<equiv> 0xffffffff"
abbreviation (input) max_i64 :: int where "max_i64 \<equiv> 0x7fffffffffffffff"
abbreviation (input) max_u64 :: int where "max_u64 \<equiv> 0xffffffffffffffff"

interpretation varint_i32: canonical_codec "varint_ok max_i32" WriteVarInt "ReadVarInt max_i32"
  by (rule varint_codec) simp

interpretation varint_u32: canonical_codec "varint_ok max_u32" WriteVarInt "ReadVarInt max_u32"
  by (rule varint_codec) simp

interpretation varint_i64: canonical_codec "varint_ok max_i64" WriteVarInt "ReadVarInt max_i64"
  by (rule varint_codec) simp

interpretation varint_u64: canonical_codec "varint_ok max_u64" WriteVarInt "ReadVarInt max_u64"
  by (rule varint_codec) simp

lemma length_varint_digits: "length (varint_digits more n) = GetSizeOfVarInt n"
proof (induction more n rule: varint_digits.induct)
  case (1 more n)
  then show ?case
    by (subst varint_digits.simps, subst GetSizeOfVarInt.simps) simp
qed

lemma GetSizeOfVarInt_le: "n < 128 ^ Suc k \<Longrightarrow> GetSizeOfVarInt n \<le> Suc k"
proof (induction k arbitrary: n)
  case 0
  then show ?case by (simp add: GetSizeOfVarInt.simps [of n])
next
  case (Suc k)
  have "n div 128 < 128 ^ Suc k" using Suc.prems by (simp add: div_less_iff_less_mult mult.commute)
  then have "n div 128 - 1 < 128 ^ Suc k" by linarith
  then show ?case using Suc.IH [of "drop_bit 7 n - 1"]
    by (subst GetSizeOfVarInt.simps) (simp add: drop_bit_eq_div)
qed

text \<open>
  C32. \<^verbatim>\<open>VarInt\<close> is canonical for every integer type of seven value bits or more: a
  read succeeds exactly on the encoding of a number the type can hold, so every number has one
  encoding and no read overflows; the size function is exact; and the encoding fits the
  \<^verbatim>\<open>(sizeof(n)*8+6)/7\<close> bytes of the writer's buffer.
\<close>

theorem VarInt_canonical:
  assumes "7 \<le> k"
  shows "(ReadVarInt (2 ^ k - 1) bs = Inr (n, rest) \<longleftrightarrow>
      0 \<le> n \<and> n < 2 ^ k \<and> bs = WriteVarInt n @ rest) \<and>
    length (WriteVarInt n) = GetSizeOfVarInt n \<and>
    (n < 2 ^ k \<longrightarrow> length (WriteVarInt n) \<le> (k + 6) div 7)"
proof (intro conjI impI)
  obtain j where k: "k = 7 + j" using assms le_Suc_ex by blast
  have "((2 :: int) ^ k - 1) mod 128 = 127" by (simp add: k power_add mod_diff_left_eq [symmetric])
  then show "ReadVarInt (2 ^ k - 1) bs = Inr (n, rest) \<longleftrightarrow>
      0 \<le> n \<and> n < 2 ^ k \<and> bs = WriteVarInt n @ rest"
    using canonical_codec.dec_iff [OF varint_codec] by (auto simp: varint_ok_def)
  show size: "length (WriteVarInt n) = GetSizeOfVarInt n"
    by (simp add: WriteVarInt_def length_varint_digits)
  assume "n < 2 ^ k"
  also have "(2 :: int) ^ k \<le> 2 ^ (7 * Suc ((j + 6) div 7))" by (rule power_increasing) (auto simp: k)
  also have "\<dots> = 128 ^ Suc ((j + 6) div 7)" by (simp only: power_mult) simp
  finally show "length (WriteVarInt n) \<le> (k + 6) div 7"
    using GetSizeOfVarInt_le [of n "(j + 6) div 7"] size by (simp add: k)
qed

theorem VarInt_canonical_witness:
  "ReadVarInt (2 ^ 32 - 1) (WriteVarInt 128 @ [9]) = Inr (128, [9]) \<and>
   length (WriteVarInt 128) \<le> 5"
  using VarInt_canonical [of 32 "WriteVarInt 128 @ [9]" 128 "[9]"] by simp

section \<open>Vectors\<close>

text \<open>
  A byte \<^verbatim>\<open>prevector\<close> is read in blocks of at most 5,000,000 bytes, so that a bogus
  size cannot make the node allocate more than it is sent.
\<close>

function read_blocks :: "nat \<Rightarrow> nat \<Rightarrow> byte list \<Rightarrow> byte list reader" where
  "read_blocks nSize i v bs =
     (if i < nSize then
        let blk = min (nSize - i) 5000000 in
        bind_e (read_bytes blk bs) (\<lambda>r. read_blocks nSize (i + blk) (v @ fst r) (snd r))
      else Inr (v, bs))"
  by pat_completeness auto
termination
  by (relation "measure (\<lambda>(nSize, i, v, bs). nSize - i)") auto

declare read_blocks.simps [simp del]

lemma read_blocks_whole:
  "read_blocks nSize i v bs =
     (if i < nSize \<and> length bs < nSize - i then Inl IosFailure
      else Inr (v @ take (nSize - i) bs, drop (nSize - i) bs))"
proof (induction nSize i v bs rule: read_blocks.induct)
  case (1 nSize i v bs)
  let ?blk = "min (nSize - i) 5000000"
  show ?case
  proof (cases "i < nSize \<and> ?blk \<le> length bs")
    case True
    then have rb: "read_bytes ?blk bs = Inr (take ?blk bs, drop ?blk bs)" by (auto simp: read_bytes_def)
    have split: "nSize - i = ?blk + (nSize - (i + ?blk))" by simp
    have "read_blocks nSize i v bs =
        read_blocks nSize (i + ?blk) (v @ take ?blk bs) (drop ?blk bs)"
      using True rb by (subst read_blocks.simps) (simp add: Let_def)
    also have "\<dots> = (if i + ?blk < nSize \<and> length (drop ?blk bs) < nSize - (i + ?blk) then Inl IosFailure
        else Inr ((v @ take ?blk bs) @ take (nSize - (i + ?blk)) (drop ?blk bs),
          drop (nSize - (i + ?blk)) (drop ?blk bs)))"
      using 1 [OF conjunct1 [OF True] refl rb] by (simp only: fst_conv snd_conv)
    also have "\<dots> = (if i < nSize \<and> length bs < nSize - i then Inl IosFailure
        else Inr (v @ take (nSize - i) bs, drop (nSize - i) bs))"
      using True take_add [of ?blk "nSize - (i + ?blk)" bs] split
      by (cases "nSize - i \<le> 5000000") auto
    finally show ?thesis .
  next
    case False
    then show ?thesis by (subst read_blocks.simps) (auto simp: read_bytes_def Let_def)
  qed
qed

definition Serialize_prevector :: "byte list \<Rightarrow> byte list" where
  "Serialize_prevector v = WriteCompactSize (length v) @ v"

definition Unserialize_prevector :: "byte list reader" where
  "Unserialize_prevector = bind_r (ReadCompactSize True) (\<lambda>nSize. read_blocks nSize 0 [])"

definition Serialize_varint_bytes :: "byte list \<Rightarrow> byte list" where
  "Serialize_varint_bytes v = WriteVarInt (int (length v)) @ v"

definition Unserialize_varint_bytes :: "byte list reader" where
  "Unserialize_varint_bytes =
     bind_r (ReadVarInt max_u32) (\<lambda>nSize. read_many (nat nSize) ser_readdata8)"

definition Serialize_varint_vectors :: "byte list list \<Rightarrow> byte list" where
  "Serialize_varint_vectors v =
     WriteVarInt (int (length v)) @ concat (map Serialize_varint_bytes v)"

definition Unserialize_varint_vectors :: "byte list list reader" where
  "Unserialize_varint_vectors =
     bind_r (ReadVarInt max_u32) (\<lambda>nSize. read_many (nat nSize) Unserialize_varint_bytes)"

interpretation prevector: canonical_codec
  "\<lambda>v. length v \<le> MAX_SIZE" Serialize_prevector Unserialize_prevector
proof
  fix v rest :: "byte list"
  assume "length v \<le> MAX_SIZE"
  then have "compact_ok True (length v)" by (simp add: compact_ok_def MAX_SIZE_def)
  then show "Unserialize_prevector (Serialize_prevector v @ rest) = Inr (v, rest)"
    by (simp add: Unserialize_prevector_def Serialize_prevector_def compact_size.dec_enc read_blocks_whole)
next
  fix bs v rest
  assume "Unserialize_prevector bs = Inr (v, rest)"
  then obtain n bs' where n: "ReadCompactSize True bs = Inr (n, bs')" "read_blocks n 0 [] bs' = Inr (v, rest)"
    by (auto simp: Unserialize_prevector_def exn_simps)
  then show "length v \<le> MAX_SIZE \<and> bs = Serialize_prevector v @ rest"
    by (auto simp: compact_size.dec_iff compact_ok_def read_blocks_whole Serialize_prevector_def
        split: if_splits)
qed

lemma concat_singletons: "concat (map (\<lambda>x. [x]) v) = v"
  by (induction v) auto

interpretation varint_bytes: canonical_codec
  "\<lambda>v. int (length v) \<le> max_u32" Serialize_varint_bytes Unserialize_varint_bytes
proof
  fix v rest :: "byte list"
  assume "int (length v) \<le> max_u32"
  then show "Unserialize_varint_bytes (Serialize_varint_bytes v @ rest) = Inr (v, rest)"
    using u8_codec.read_many_enc [of v rest]
    by (simp add: Unserialize_varint_bytes_def Serialize_varint_bytes_def varint_u32.dec_enc
        varint_ok_def list_all_iff concat_singletons)
next
  fix bs v rest
  assume "Unserialize_varint_bytes bs = Inr (v, rest)"
  then obtain n bs' where n: "ReadVarInt max_u32 bs = Inr (n, bs')"
    "read_many (nat n) ser_readdata8 bs' = Inr (v, rest)"
    by (auto simp: Unserialize_varint_bytes_def exn_simps)
  with u8_codec.read_many_dec [OF n(2)] show "int (length v) \<le> max_u32 \<and> bs = Serialize_varint_bytes v @ rest"
    by (auto simp: varint_u32.dec_iff varint_ok_def Serialize_varint_bytes_def concat_singletons)
qed

interpretation varint_vectors: canonical_codec
  "\<lambda>v. int (length v) \<le> max_u32 \<and> list_all (\<lambda>x. int (length x) \<le> max_u32) v"
  Serialize_varint_vectors Unserialize_varint_vectors
proof
  fix v :: "byte list list" and rest
  assume "int (length v) \<le> max_u32 \<and> list_all (\<lambda>x. int (length x) \<le> max_u32) v"
  then show "Unserialize_varint_vectors (Serialize_varint_vectors v @ rest) = Inr (v, rest)"
    using varint_bytes.read_many_enc [of v rest]
    by (simp add: Unserialize_varint_vectors_def Serialize_varint_vectors_def varint_u32.dec_enc varint_ok_def)
next
  fix bs v rest
  assume "Unserialize_varint_vectors bs = Inr (v, rest)"
  then obtain n bs' where n: "ReadVarInt max_u32 bs = Inr (n, bs')"
    "read_many (nat n) Unserialize_varint_bytes bs' = Inr (v, rest)"
    by (auto simp: Unserialize_varint_vectors_def exn_simps)
  with varint_bytes.read_many_dec [OF n(2)]
  show "(int (length v) \<le> max_u32 \<and> list_all (\<lambda>x. int (length x) \<le> max_u32) v) \<and>
      bs = Serialize_varint_vectors v @ rest"
    by (auto simp: varint_u32.dec_iff varint_ok_def Serialize_varint_vectors_def)
qed

end
