(* ===== verification/Tx_Serialize.thy ===== *)
theory Tx_Serialize
  imports Serialize Transaction Hash_Functions
begin

text \<open>
  The two transaction formats of \<^verbatim>\<open>src/src/primitives/transaction.h\<close>: the old one
  inherited from Bitcoin and the compact one of versions from 5 on, with flag-encoded counts,
  variable-length integers, values reduced by a power of ten and the segregated signatures at the
  end. Every \<^verbatim>\<open>WriteToStream\<close>, \<^verbatim>\<open>ReadFromStream\<close> and the functions
  \<^verbatim>\<open>SerializeTransaction\<close> and \<^verbatim>\<open>UnserializeTransaction\<close> over them.
\<close>

section \<open>Outpoints\<close>

definition read_uint256 :: "uint256 reader" where
  "read_uint256 = bind_r (read_bytes 32) (\<lambda>b. return_r (word_of_nat (le_nat b)))"

definition read_uint160 :: "uint160 reader" where
  "read_uint160 = bind_r (read_bytes 20) (\<lambda>b. return_r (uint160_of b))"

interpretation uint256_codec: canonical_codec "\<lambda>_. True" blob_bytes read_uint256
proof
  show "read_uint256 (blob_bytes h @ rest) = Inr (h, rest)" for h rest
    using unat_less_2p [of h] by (simp add: read_uint256_def blob_bytes_def)
  show "True \<and> bs = blob_bytes h @ rest" if "read_uint256 bs = Inr (h, rest)" for bs h rest
  proof -
    from that obtain b where "bs = b @ rest" "length b = 32" "h = word_of_nat (le_nat b)"
      by (auto simp: read_uint256_def exn_simps)
    then show ?thesis using le_nat_less [of b] by (simp add: blob_bytes_def unat_of_nat)
  qed
qed

interpretation uint160_codec: canonical_codec "\<lambda>_. True" uint160_bytes read_uint160
  by unfold_locales (auto simp: read_uint160_def exn_simps uint160_bytes_of)

definition outpoint_Write :: "u8 \<Rightarrow> u32 \<Rightarrow> COutPoint \<Rightarrow> byte list" where
  "outpoint_Write nFlags nTransactionVersion out =
     (if IsOldTransactionVersion nTransactionVersion then
        blob_bytes (o_hash out) @
        ser_writedata32 (if o_n out = UINT31_MAX then 0xffffffff else ucast (o_n out))
      else
        (if nFlags AND IndexBasedOutpoint = 0 then blob_bytes (o_hash out)
         else WriteVarInt (uint (prevBlock_blockNumber out)) @
              WriteVarInt (uint (prevBlock_transactionIndex out))) @
        WriteVarInt (uint (o_n out)))"

text \<open>Assigning the two members of the block position in the union.\<close>

definition set_prevBlock :: "COutPoint \<Rightarrow> u64 \<Rightarrow> u64 \<Rightarrow> COutPoint" where
  "set_prevBlock out blockNumber transactionIndex =
     out\<lparr>o_hash := push_bit 128 (drop_bit 128 (o_hash out)) OR
                   push_bit 64 (ucast transactionIndex) OR ucast blockNumber\<rparr>"

definition outpoint_Read :: "u8 \<Rightarrow> u32 \<Rightarrow> COutPoint \<Rightarrow> COutPoint reader" where
  "outpoint_Read nFlags nTransactionVersion out =
     (if IsOldTransactionVersion nTransactionVersion then
        bind_r read_uint256 (\<lambda>h. bind_r ser_readdata32 (\<lambda>n'.
        return_r (out\<lparr>isHash := True, o_hash := h, o_n := ucast n'\<rparr>)))
      else
        bind_r
          (if nFlags AND IndexBasedOutpoint = 0 then
             bind_r read_uint256 (\<lambda>h. return_r (out\<lparr>isHash := True, o_hash := h\<rparr>))
           else
             bind_r (ReadVarInt max_u64) (\<lambda>b. bind_r (ReadVarInt max_u64) (\<lambda>i.
             return_r ((set_prevBlock out (word_of_int b) (word_of_int i))\<lparr>isHash := False\<rparr>))))
          (\<lambda>out. bind_r (ReadVarInt max_u32) (\<lambda>n'. return_r (out\<lparr>o_n := word_of_int n'\<rparr>))))"

section \<open>Inputs\<close>

definition txin_Write :: "u32 \<Rightarrow> CTxIn \<Rightarrow> byte list" where
  "txin_Write v i =
     (if \<not> IsOldTransactionVersion v then
        [nTypeAndFlags i] @ outpoint_Write (txin_GetFlags i) v (prevout i) @
        (if FlagIsSet i HasRelativeLock then WriteVarInt (uint (nSequence i)) else [])
      else
        outpoint_Write (txin_GetFlags i) v (prevout i) @ Serialize_prevector (scriptSig i) @
        ser_writedata32 (nSequence i))"

text \<open>The inputs a vector is resized to are default-constructed before they are read.\<close>

definition txin_Read :: "u32 \<Rightarrow> CTxIn reader" where
  "txin_Read v =
     (let i = CTxIn_default in
      if \<not> IsOldTransactionVersion v then
        bind_r ser_readdata8 (\<lambda>t. let i = i\<lparr>nTypeAndFlags := t\<rparr> in
        bind_r (outpoint_Read (txin_GetFlags i) v (prevout i)) (\<lambda>out. let i = i\<lparr>prevout := out\<rparr> in
        if FlagIsSet i HasRelativeLock
        then bind_r (ReadVarInt max_u32) (\<lambda>sq. return_r (i\<lparr>nSequence := word_of_int sq\<rparr>))
        else return_r i))
      else
        bind_r (outpoint_Read (txin_GetFlags i) v (prevout i)) (\<lambda>out.
        bind_r Unserialize_prevector (\<lambda>sig.
        bind_r ser_readdata32 (\<lambda>sq.
        return_r (i\<lparr>prevout := out, scriptSig := sig, nSequence := sq\<rparr>)))))"

section \<open>Outputs\<close>

definition witness_Write :: "CTxOutPoW2Witness \<Rightarrow> byte list" where
  "witness_Write w =
     uint160_bytes (spendingKeyID w) @ uint160_bytes (witnessKeyID w) @
     ser_writedata64 (lockFromBlock w) @ ser_writedata64 (lockUntilBlock w) @
     WriteVarInt (uint (failCount w)) @ WriteVarInt (uint (actionNonce w))"

definition witness_Read :: "CTxOutPoW2Witness reader" where
  "witness_Read =
     bind_r read_uint160 (\<lambda>sk. bind_r read_uint160 (\<lambda>wk.
     bind_r ser_readdata64 (\<lambda>from. bind_r ser_readdata64 (\<lambda>until.
     bind_r (ReadVarInt max_u64) (\<lambda>fails. bind_r (ReadVarInt max_u64) (\<lambda>nonce.
     return_r \<lparr>spendingKeyID = sk, witnessKeyID = wk, lockFromBlock = from, lockUntilBlock = until,
               failCount = word_of_int fails, actionNonce = word_of_int nonce\<rparr>))))))"

fun output_Write :: "txout_data \<Rightarrow> byte list" where
  "output_Write (ScriptLegacyOutput s) = Serialize_prevector s"
| "output_Write (PoW2WitnessOutput w) = witness_Write w"
| "output_Write (StandardKeyHashOutput k) = uint160_bytes k"
| "output_Write (UnknownOutput t) = []"

fun output_Read :: "txout_data \<Rightarrow> txout_data reader" where
  "output_Read (ScriptLegacyOutput s) = bind_r Unserialize_prevector (\<lambda>s. return_r (ScriptLegacyOutput s))"
| "output_Read (PoW2WitnessOutput w) = bind_r witness_Read (\<lambda>w. return_r (PoW2WitnessOutput w))"
| "output_Read (StandardKeyHashOutput k) = bind_r read_uint160 (\<lambda>k. return_r (StandardKeyHashOutput k))"
| "output_Read (UnknownOutput t) = return_r (UnknownOutput t)"

text \<open>The power of ten a value is divided by, as a code of three bits.\<close>

definition value_base :: "CAmount \<Rightarrow> nat" where
  "value_base val =
     (if c_mod val 1000000000000 = 0 then 7
      else if c_mod val 10000000000 = 0 then 6
      else if c_mod val 100000000 = 0 then 5
      else if c_mod val 10000000 = 0 then 4
      else if c_mod val 1000000 = 0 then 3
      else if c_mod val 10000 = 0 then 2
      else if c_mod val 100 = 0 then 1
      else 0)"

definition value_scale :: "nat \<Rightarrow> int" where
  "value_scale nValueBase =
     (if nValueBase = 7 then 1000000000000
      else if nValueBase = 6 then 10000000000
      else if nValueBase = 5 then 100000000
      else if nValueBase = 4 then 10000000
      else if nValueBase = 3 then 1000000
      else if nValueBase = 2 then 10000
      else if nValueBase = 1 then 100
      else 1)"

definition txout_Write :: "u32 \<Rightarrow> CTxOut \<Rightarrow> cpp_exn + byte list" where
  "txout_Write v out =
     (if IsOldTransactionVersion v then
        (if txout_GetType out \<noteq> 0 then Inl AssertFail
         else Inr (ser_writedata64 (word_of_int (nValue out)) @ output_Write (txout out)))
      else
        let nValueBase = value_base (nValue out);
            nValueWrite = c_div (nValue out) (value_scale nValueBase);
            nTypeAndValueBase = push_bit 3 (word_of_nat (txout_GetType out)) OR word_of_nat nValueBase
        in Inr ([nTypeAndValueBase] @ WriteVarInt nValueWrite @ output_Write (txout out)))"

text \<open>Reading multiplies back; the multiplication is the wrapping 64-bit one.\<close>

definition txout_Read :: "u32 \<Rightarrow> CTxOut reader" where
  "txout_Read v =
     (if IsOldTransactionVersion v then
        bind_r ser_readdata64 (\<lambda>val.
        bind_r (output_Read (ScriptLegacyOutput [])) (\<lambda>data.
        return_r \<lparr>nValue = sint val, txout = data\<rparr>))
      else
        bind_r ser_readdata8 (\<lambda>nTypeAndValueBase.
        let nValueBase = unat (nTypeAndValueBase AND 0b00000111);
            alloc = AllocOutput (ucast (drop_bit 3 (nTypeAndValueBase AND 0b11111000))) in
        bind_r (ReadVarInt max_i64) (\<lambda>val.
        bind_r (output_Read alloc) (\<lambda>data.
        return_r \<lparr>nValue = i64 (val * value_scale nValueBase), txout = data\<rparr>))))"

section \<open>Transactions\<close>

fun write_outputs :: "u32 \<Rightarrow> CTxOut list \<Rightarrow> cpp_exn + byte list" where
  "write_outputs v [] = Inr []"
| "write_outputs v (out # outs) =
     bind_e (txout_Write v out) (\<lambda>b. bind_e (write_outputs v outs) (\<lambda>bs. Inr (b @ bs)))"

definition SerializeTransactionOld :: "CTransaction \<Rightarrow> cpp_exn + byte list" where
  "SerializeTransactionOld tx =
     bind_e (write_outputs (nVersion tx) (vout tx)) (\<lambda>outs.
     Inr (ser_writedata32 (nVersion tx) @
          WriteCompactSize (length (vin tx)) @ concat (map (txin_Write (nVersion tx)) (vin tx)) @
          WriteCompactSize (length (vout tx)) @ outs @
          ser_writedata32 (nLockTime tx)))"

abbreviation (input) HasOneInput :: nat where "HasOneInput \<equiv> 0"
abbreviation (input) HasTwoInputs :: nat where "HasTwoInputs \<equiv> 1"
abbreviation (input) HasThreeInputs :: nat where "HasThreeInputs \<equiv> 2"
abbreviation (input) HasOneOutput :: nat where "HasOneOutput \<equiv> 3"
abbreviation (input) HasTwoOutputs :: nat where "HasTwoOutputs \<equiv> 4"
abbreviation (input) HasThreeOutputs :: nat where "HasThreeOutputs \<equiv> 5"
abbreviation (input) HasLockTime :: nat where "HasLockTime \<equiv> 6"
abbreviation (input) HasExtraFlags :: nat where "HasExtraFlags \<equiv> 7"

text \<open>The flags as \<^verbatim>\<open>SerializeTransaction\<close> sets them; the last one is left alone.\<close>

definition setup_flags :: "CTransaction \<Rightarrow> u8" where
  "setup_flags tx =
     (let f = tx_flags tx;
          f = (if length (vin tx) = 1 then unset_bit HasThreeInputs (unset_bit HasTwoInputs (set_bit HasOneInput f))
               else if length (vin tx) = 2 then unset_bit HasThreeInputs (set_bit HasTwoInputs (unset_bit HasOneInput f))
               else if length (vin tx) = 3 then set_bit HasThreeInputs (unset_bit HasTwoInputs (unset_bit HasOneInput f))
               else unset_bit HasThreeInputs (unset_bit HasTwoInputs (unset_bit HasOneInput f)));
          f = (if length (vout tx) = 1 then unset_bit HasThreeOutputs (unset_bit HasTwoOutputs (set_bit HasOneOutput f))
               else if length (vout tx) = 2 then unset_bit HasThreeOutputs (set_bit HasTwoOutputs (unset_bit HasOneOutput f))
               else if length (vout tx) = 3 then set_bit HasThreeOutputs (unset_bit HasTwoOutputs (unset_bit HasOneOutput f))
               else unset_bit HasThreeOutputs (unset_bit HasTwoOutputs (unset_bit HasOneOutput f)))
      in if nLockTime tx > 0 then set_bit HasLockTime f else unset_bit HasLockTime f)"

text \<open>
  \<open>segsig\<close> is false when the stream carries the flag
  \<^verbatim>\<open>SERIALIZE_TRANSACTION_NO_SEGREGATED_SIGNATURES\<close>.
\<close>

definition SerializeTransaction :: "bool \<Rightarrow> CTransaction \<Rightarrow> cpp_exn + byte list" where
  "SerializeTransaction segsig tx =
     (if IsOldTransactionVersion (nVersion tx) then SerializeTransactionOld tx
      else let f = setup_flags tx in
        bind_e (write_outputs (nVersion tx) (vout tx)) (\<lambda>outs.
        Inr (WriteVarInt (sint (nVersion tx)) @
             [f] @ (if bit f HasExtraFlags then [extraFlags tx] else []) @
             (if \<not> (bit f HasOneInput \<or> bit f HasTwoInputs \<or> bit f HasThreeInputs)
              then WriteVarInt (int (length (vin tx))) else []) @
             concat (map (txin_Write (nVersion tx)) (vin tx)) @
             (if \<not> bit f HasOneOutput \<and> \<not> bit f HasTwoOutputs \<and> \<not> bit f HasThreeOutputs
              then WriteVarInt (int (length (vout tx))) else []) @
             outs @
             (if segsig then concat (map (\<lambda>i. Serialize_varint_vectors (segregatedSignatureData i)) (vin tx))
              else []) @
             (if bit f HasLockTime then WriteVarInt (uint (nLockTime tx)) else []))))"

definition UnserializeTransactionOld :: "CTransaction reader" where
  "UnserializeTransactionOld =
     bind_r ser_readdata32 (\<lambda>v.
     bind_r (ReadCompactSize True) (\<lambda>nIn. bind_r (read_many nIn (txin_Read v)) (\<lambda>ins.
     bind_r (ReadCompactSize True) (\<lambda>nOut. bind_r (read_many nOut (txout_Read v)) (\<lambda>outs.
     bind_r ser_readdata32 (\<lambda>lock.
     return_r ((CTransaction_new v)\<lparr>vin := ins, vout := outs, nLockTime := lock\<rparr>)))))))"

definition count_reader :: "int \<Rightarrow> bool \<Rightarrow> bool \<Rightarrow> bool \<Rightarrow> nat reader" where
  "count_reader maxI one two three =
     (if one then return_r 1 else if two then return_r 2 else if three then return_r 3
      else bind_r (ReadVarInt maxI) (\<lambda>n. return_r (nat n)))"

fun read_signatures :: "CTxIn list \<Rightarrow> CTxIn list reader" where
  "read_signatures [] = return_r []"
| "read_signatures (i # is) =
     bind_r Unserialize_varint_vectors (\<lambda>st. bind_r (read_signatures is) (\<lambda>is.
     return_r (i\<lparr>segregatedSignatureData := st\<rparr> # is)))"

definition UnserializeTransaction :: "bool \<Rightarrow> CTransaction reader" where
  "UnserializeTransaction segsig =
     bind_r (peek_bytes 4) (\<lambda>p.
     if IsOldTransactionVersion (ReadLE32 p) then UnserializeTransactionOld
     else
       bind_r (ReadVarInt max_i32) (\<lambda>ver. let v = word_of_int ver :: u32 in
       bind_r ser_readdata8 (\<lambda>f.
       bind_r (if bit f HasExtraFlags then ser_readdata8 else return_r 0) (\<lambda>ef.
       bind_r (count_reader max_i32 (bit f HasOneInput) (bit f HasTwoInputs) (bit f HasThreeInputs)) (\<lambda>nIn.
       bind_r (read_many nIn (txin_Read v)) (\<lambda>ins.
       bind_r (count_reader max_u64 (bit f HasOneOutput) (bit f HasTwoOutputs) (bit f HasThreeOutputs)) (\<lambda>nOut.
       bind_r (read_many nOut (txout_Read v)) (\<lambda>outs.
       bind_r (if segsig then read_signatures ins else return_r ins) (\<lambda>ins.
       bind_r (if bit f HasLockTime then ReadVarInt max_u32 else return_r 0) (\<lambda>lock.
       return_r \<lparr>nVersion = v, vin = ins, vout = outs, nLockTime = word_of_int lock, tx_flags = f,
                 extraFlags = ef\<rparr>))))))))))"

text \<open>The transaction hash: the double SHA-256 of the serialization, signatures included from version 5 on.\<close>

definition ComputeHash :: "CTransaction \<Rightarrow> cpp_exn + valtype" where
  "ComputeHash tx =
     bind_e (SerializeTransaction (\<not> IsOldTransactionVersion (nVersion tx)) tx) (\<lambda>b. Inr (hash256 b))"

section \<open>Reading back what was written\<close>

text \<open>
  What comes back: the format does not carry the unused storage of an index-based outpoint, the
  script of a compact input, or the sequence number of a compact input without a relative lock.
\<close>

definition canon_outpoint :: "u8 \<Rightarrow> u32 \<Rightarrow> COutPoint \<Rightarrow> COutPoint" where
  "canon_outpoint nFlags v out =
     (if IsOldTransactionVersion v \<or> nFlags AND IndexBasedOutpoint = 0 then out\<lparr>isHash := True\<rparr>
      else out\<lparr>isHash := False, o_hash := take_bit 128 (o_hash out)\<rparr>)"

definition canon_txin :: "u32 \<Rightarrow> CTxIn \<Rightarrow> CTxIn" where
  "canon_txin v i =
     (if IsOldTransactionVersion v then
        i\<lparr>nTypeAndFlags := 0, prevout := canon_outpoint 0 v (prevout i), segregatedSignatureData := []\<rparr>
      else
        i\<lparr>scriptSig := [], prevout := canon_outpoint (txin_GetFlags i) v (prevout i),
          nSequence := (if FlagIsSet i HasRelativeLock then nSequence i else SEQUENCE_FINAL),
          segregatedSignatureData := []\<rparr>)"

lemma uint_le_max [simp]:
  "uint (x :: u64) \<le> max_u64" "uint (y :: u32) \<le> max_u32" "uint (z :: 31 word) \<le> max_u32"
  using uint_bounded [of x] uint_bounded [of y] uint_bounded [of z] by simp_all

lemma varint_word [simp]:
  "ReadVarInt max_u64 (WriteVarInt (uint (x :: u64)) @ rest) = Inr (uint x, rest)"
  "ReadVarInt max_u32 (WriteVarInt (uint (y :: u32)) @ rest) = Inr (uint y, rest)"
  "ReadVarInt max_u32 (WriteVarInt (uint (z :: 31 word)) @ rest) = Inr (uint z, rest)"
  by (simp_all add: varint_u64.dec_enc varint_u32.dec_enc varint_ok_def)

lemma union_storage:
  "push_bit 64 (ucast (ucast (drop_bit 64 h) :: u64)) OR ucast (ucast h :: u64) = take_bit 128 (h :: uint256)"
  by (rule bit_word_eqI)
    (auto simp: bit_simps bit_or_iff bit_push_bit_iff bit_take_bit_iff bit_ucast_iff bit_drop_bit_eq)

lemma ucast_31 [simp]: "ucast (ucast (n :: 31 word) :: u32) = n" "(0xffffffff :: 31 word) = UINT31_MAX"
  by (simp_all add: UINT31_MAX_def ucast_down_ucast_id is_down)

lemma outpoint_round_trip:
  "outpoint_Read f v COutPoint_null (outpoint_Write f v out @ rest) = Inr (canon_outpoint f v out, rest)"
  by (cases "IsOldTransactionVersion v"; cases "f AND 1 = 0"; cases out)
    (simp_all add: outpoint_Read_def outpoint_Write_def canon_outpoint_def COutPoint_null_def
      uint256_codec.dec_enc u32_codec.dec_enc set_prevBlock_def prevBlock_blockNumber_def
      prevBlock_transactionIndex_def union_storage)

definition txin_ok :: "u32 \<Rightarrow> CTxIn \<Rightarrow> bool" where
  "txin_ok v i \<longleftrightarrow> (if IsOldTransactionVersion v then length (scriptSig i) \<le> MAX_SIZE else True)"

lemma txin_round_trip:
  assumes "txin_ok v i"
  shows "txin_Read v (txin_Write v i @ rest) = Inr (canon_txin v i, rest)"
proof (cases "IsOldTransactionVersion v")
  case True
  with assms show ?thesis
    using outpoint_round_trip [of _ v "prevout i"]
    by (simp add: txin_Read_def txin_Write_def canon_txin_def CTxIn_default_def txin_ok_def
        prevector.dec_enc u32_codec.dec_enc outpoint_Read_def canon_outpoint_def outpoint_Write_def
        txin_GetFlags_def)
next
  case False
  define j where "j = CTxIn_default\<lparr>nTypeAndFlags := nTypeAndFlags i\<rparr>"
  have flags: "txin_GetFlags j = txin_GetFlags i" "FlagIsSet j f = FlagIsSet i f"
    "FlagIsSet (j\<lparr>prevout := out\<rparr>) f = FlagIsSet i f" for f out
    by (simp_all add: j_def txin_GetFlags_def FlagIsSet_def)
  show ?thesis
    using False flags outpoint_round_trip [of "txin_GetFlags i" v "prevout i"]
    by (cases i) (simp add: txin_Read_def txin_Write_def canon_txin_def CTxIn_default_def Let_def
        j_def txin_GetFlags_def FlagIsSet_def)
qed

text \<open>The byte that carries an output's type in five bits and its value base in three.\<close>

lemma byte_and_7: "(b :: byte) AND 7 = take_bit 3 b"
  by (simp add: take_bit_eq_mask mask_eq_exp_minus_1)

lemma byte_and_248: "(ucast (drop_bit 3 ((b :: byte) AND 0xF8)) :: 5 word) = ucast (drop_bit 3 b)"
proof (rule bit_word_eqI)
  fix n assume "n < LENGTH(5)"
  then have "n = 0 \<or> n = 1 \<or> n = 2 \<or> n = 3 \<or> n = 4" by auto
  then show "bit (ucast (drop_bit 3 (b AND 0xF8)) :: 5 word) n = bit (ucast (drop_bit 3 b) :: 5 word) n"
    by (auto simp: bit_ucast_iff bit_drop_bit_eq bit_and_iff)
qed

lemma type_and_base:
  fixes t :: "5 word"
  assumes "m \<le> 7"
  defines "b \<equiv> push_bit 3 (ucast t) OR word_of_nat m :: byte"
  shows "unat (b AND 0b111) = m" and "ucast (drop_bit 3 (b AND 0b11111000)) = t"
proof -
  have m: "take_bit 3 (word_of_nat m :: byte) = word_of_nat m" "drop_bit 3 (word_of_nat m :: byte) = 0"
    using assms(1)
    by (simp_all add: word_unat_eq_iff take_bit_eq_mod drop_bit_eq_div unat_mod_distrib unat_div_distrib
        unat_of_nat)
  then show "unat (b AND 0b111) = m"
    using assms(1) by (simp add: byte_and_7 b_def take_bit_or take_bit_push_bit unat_of_nat)
  show "ucast (drop_bit 3 (b AND 0b11111000)) = t"
    unfolding byte_and_248 b_def drop_bit_or m(2)
    by (rule bit_word_eqI) (auto simp: bit_ucast_iff bit_drop_bit_eq bit_push_bit_iff)
qed

lemma value_base_le: "value_base v \<le> 7"
  by (simp add: value_base_def)

lemma value_scale_pos: "0 < value_scale b"
  by (simp add: value_scale_def)

lemma value_scales:
  "value_scale 7 = 1000000000000" "value_scale 6 = 10000000000" "value_scale 5 = 100000000"
  "value_scale 4 = 10000000" "value_scale 3 = 1000000" "value_scale 2 = 10000"
  "value_scale (Suc 0) = 100" "value_scale 0 = 1"
  by (simp_all add: value_scale_def)

lemma value_base_divides: "c_div v (value_scale (value_base v)) * value_scale (value_base v) = v"
proof -
  have "c_mod v (value_scale (value_base v)) = 0"
    unfolding value_base_def by (simp add: value_scales c_mod_def [of v 1] c_div_def [of v 1] sgn_mult_abs)
  then show ?thesis by (simp add: c_mod_def)
qed

definition output_ok :: "txout_data \<Rightarrow> bool" where
  "output_ok data =
     (case data of ScriptLegacyOutput s \<Rightarrow> length s \<le> MAX_SIZE
      | UnknownOutput t \<Rightarrow> t \<noteq> 0 \<and> t \<noteq> 30 \<and> t \<noteq> 31 | _ \<Rightarrow> True)"

definition txout_ok :: "u32 \<Rightarrow> CTxOut \<Rightarrow> bool" where
  "txout_ok v out \<longleftrightarrow>
     output_ok (txout out) \<and>
     (if IsOldTransactionVersion v then txout_GetType out = 0 \<and> in_i64 (nValue out)
      else 0 \<le> nValue out \<and> nValue out < 2 ^ 63)"

lemma length_ser_writedata [simp]: "length (ser_writedata32 x) = 4" "length (ser_writedata64 y) = 8"
  by (simp_all add: ser_writedata32_def ser_writedata64_def)

lemma WriteVarInt_length: "Suc 0 \<le> length (WriteVarInt n)"
  by (simp add: WriteVarInt_def varint_digits.simps [of False n])

lemma witness_round_trip: "witness_Read (witness_Write w @ rest) = Inr (w, rest)"
  by (simp add: witness_Read_def witness_Write_def uint160_codec.dec_enc u64_codec.dec_enc)

lemma output_round_trip:
  assumes "output_ok data"
  shows "output_Read (AllocOutput (word_of_nat (txout_GetType \<lparr>nValue = val, txout = data\<rparr>)))
    (output_Write data @ rest) = Inr (data, rest)"
  using assms
  by (cases data) (simp_all add: output_ok_def txout_GetType_def AllocOutput_def prevector.dec_enc
      witness_round_trip uint160_codec.dec_enc)

lemma txout_GetType_less: "txout_GetType out < 32"
  using unat_less_2p [where 'a = 5] by (auto simp: txout_GetType_def split: txout_data.split)

lemma txout_round_trip:
  assumes "txout_ok v out"
  shows "\<exists>b. txout_Write v out = Inr b \<and> 2 \<le> length b \<and> (\<forall>rest. txout_Read v (b @ rest) = Inr (out, rest))"
proof (cases "IsOldTransactionVersion v")
  case True
  with assms obtain s where s: "txout out = ScriptLegacyOutput s" "length s \<le> MAX_SIZE"
    by (cases "txout out") (auto simp: txout_ok_def output_ok_def txout_GetType_def unat_eq_zero)
  have "sint (word_of_int (nValue out) :: u64) = nValue out"
    using assms True by (simp add: txout_ok_def in_i64_def signed_of_int signed_take_bit_int_eq_self)
  with True s show ?thesis
    by (cases out) (simp add: txout_Write_def txout_Read_def txout_GetType_def u64_codec.dec_enc
        prevector.dec_enc)
next
  case False
  let ?base = "value_base (nValue out)" and ?t = "word_of_nat (txout_GetType out) :: 5 word"
  let ?val = "c_div (nValue out) (value_scale ?base)"
  have ok: "0 \<le> nValue out" "nValue out < 2 ^ 63" "output_ok (txout out)"
    using assms False by (auto simp: txout_ok_def)
  have t: "(word_of_nat (txout_GetType out) :: byte) = ucast ?t"
    using txout_GetType_less [of out] by (simp add: word_unat_eq_iff unat_of_nat unsigned_ucast_eq take_bit_nat_eq_self)
  have val: "?val * value_scale ?base = nValue out" by (rule value_base_divides)
  have "0 \<le> ?val" using ok(1) value_scale_pos [of ?base] by (simp add: pos_imp_zdiv_nonneg_iff)
  moreover have "?val \<le> ?val * value_scale ?base"
    using calculation value_scale_pos [of ?base] by (simp add: mult_le_cancel_left1)
  ultimately have "varint_ok max_i64 ?val" using val ok(2) by (simp add: varint_ok_def)
  moreover have "i64 (nValue out) = nValue out" using ok by (simp add: in_i64_def)
  moreover have "output_Read (AllocOutput ?t) (output_Write (txout out) @ rest) = Inr (txout out, rest)" for rest
    using output_round_trip [OF ok(3), of "nValue out"] by (cases out) simp
  ultimately show ?thesis
    using False val type_and_base [of ?base ?t] value_base_le [of "nValue out"]
    by (simp add: txout_Write_def txout_Read_def Let_def t varint_i64.dec_enc
        trans_le_add1 [OF WriteVarInt_length])
qed

section \<open>Whole transactions\<close>

lemma read_inputs:
  "list_all (txin_ok v) ins \<Longrightarrow>
   read_many (length ins) (txin_Read v) (concat (map (txin_Write v) ins) @ rest) =
     Inr (map (canon_txin v) ins, rest)"
  by (induction ins) (simp_all add: txin_round_trip)

lemma write_outputs_round_trip:
  "list_all (txout_ok v) outs \<Longrightarrow>
   \<exists>b. write_outputs v outs = Inr b \<and> 2 * length outs \<le> length b \<and>
     (\<forall>rest. read_many (length outs) (txout_Read v) (b @ rest) = Inr (outs, rest))"
proof (induction outs)
  case (Cons out outs)
  then obtain b where b: "write_outputs v outs = Inr b" "2 * length outs \<le> length b"
    "\<And>rest. read_many (length outs) (txout_Read v) (b @ rest) = Inr (outs, rest)"
    by auto
  obtain a where a: "txout_Write v out = Inr a" "2 \<le> length a"
    "\<And>rest. txout_Read v (a @ rest) = Inr (out, rest)"
    using txout_round_trip [of v out] Cons.prems by auto
  from a b show ?case by simp
qed simp

definition sigs_ok :: "CTxIn \<Rightarrow> bool" where
  "sigs_ok i \<longleftrightarrow>
     int (length (segregatedSignatureData i)) \<le> max_u32 \<and>
     list_all (\<lambda>x. int (length x) \<le> max_u32) (segregatedSignatureData i)"

lemma read_signatures_round_trip:
  "list_all sigs_ok ins \<Longrightarrow>
   read_signatures (map (canon_txin v) ins)
     (concat (map (\<lambda>i. Serialize_varint_vectors (segregatedSignatureData i)) ins) @ rest) =
   Inr (map (\<lambda>i. (canon_txin v i)\<lparr>segregatedSignatureData := segregatedSignatureData i\<rparr>) ins, rest)"
  by (induction ins) (simp_all add: sigs_ok_def varint_vectors.dec_enc)

lemma count_round_trip:
  assumes "varint_ok maxI (int n)" "maxI mod 128 = 127"
  shows "count_reader maxI (n = 1) (n = 2) (n = 3)
    ((if n \<noteq> 1 \<and> n \<noteq> 2 \<and> n \<noteq> 3 then WriteVarInt (int n) else []) @ rest) = Inr (n, rest)"
  using codec.dec_enc [OF canonical_codec.axioms(1) [OF varint_codec [OF assms(2)]] assms(1)]
  by (auto simp: count_reader_def)

lemma setup_flags_bits [simp]:
  "bit (setup_flags tx) 0 \<longleftrightarrow> length (vin tx) = 1"
  "bit (setup_flags tx) (Suc 0) \<longleftrightarrow> length (vin tx) = 2"
  "bit (setup_flags tx) 2 \<longleftrightarrow> length (vin tx) = 3"
  "bit (setup_flags tx) 3 \<longleftrightarrow> length (vout tx) = 1"
  "bit (setup_flags tx) 4 \<longleftrightarrow> length (vout tx) = 2"
  "bit (setup_flags tx) 5 \<longleftrightarrow> length (vout tx) = 3"
  "bit (setup_flags tx) 6 \<longleftrightarrow> 0 < nLockTime tx"
  "bit (setup_flags tx) 7 \<longleftrightarrow> bit (tx_flags tx) 7"
  by (simp_all add: setup_flags_def Let_def bit_set_bit_iff bit_unset_bit_iff)

text \<open>A compact transaction never looks like an old one to the peek at its first four bytes.\<close>

lemma last_varint_digits: "128 \<le> unat (last (varint_digits True n))"
proof (induction True n rule: varint_digits.induct)
  case (1 n)
  have "(word_of_int (n AND 0x7F) OR 0x80 :: byte) AND 128 = 128"
    by (rule bit_word_eqI) (auto simp: bit_and_iff bit_or_iff)
  then have "(word_of_int (n AND 0x7F) OR 0x80 :: byte) AND 128 \<noteq> 0" by simp
  then have "128 \<le> unat (word_of_int (n AND 0x7F) OR 0x80 :: byte)" by (simp only: byte_and_128 not_less)
  with 1 show ?case by (subst varint_digits.simps) (auto simp: varint_digits.simps)
qed

lemma WriteVarInt_first:
  assumes "5 \<le> n"
  shows "\<exists>b bs. WriteVarInt n = b # bs \<and> 5 \<le> unat b"
proof (cases "n \<le> 127")
  case True
  then have "n mod 128 = n" using assms by simp
  then have "n AND 127 = n" by (simp only: and_127_int)
  with True have "WriteVarInt n = [word_of_int n]"
    by (simp add: WriteVarInt_def varint_digits.simps [of False n])
  moreover have "unat (word_of_int n :: byte) = nat n"
    using True assms by (simp add: unat_eq_nat_uint uint_word_of_int)
  ultimately show ?thesis using assms by simp
next
  case False
  let ?ds = "varint_digits True (drop_bit 7 n - 1)"
  have "?ds \<noteq> []" by (subst varint_digits.simps) simp
  then have "WriteVarInt n = last ?ds # rev (butlast ?ds) @
      [word_of_int (n AND 0x7F)]"
    using False by (simp add: WriteVarInt_def varint_digits.simps [of False n])
  with last_varint_digits [of "drop_bit 7 n - 1"] show ?thesis by force
qed

lemma peek_not_old:
  assumes "5 \<le> unat b" "3 \<le> length bs"
  shows "\<exists>p. peek_bytes 4 (b # bs) = Inr (p, b # bs) \<and> \<not> IsOldTransactionVersion (ReadLE32 p)"
proof -
  let ?p = "take 4 (b # bs)"
  have p: "?p = b # take 3 bs" by (simp add: numeral_eq_Suc)
  have "unat (ReadLE32 ?p) = unat b + 256 * le_nat (take 3 bs)"
    using assms(2) by (subst unat_ReadLE32) (simp_all add: p min_def)
  moreover have "unat b < 256" by simp
  ultimately have "\<not> unat (ReadLE32 ?p) < 5" "unat (ReadLE32 ?p) \<noteq> 536870912"
    using assms(1) by presburger+
  then have "\<not> IsOldTransactionVersion (ReadLE32 ?p)"
    by (auto simp: IsOldTransactionVersion_def word_less_nat_alt word_unat_eq_iff)
  with assms(2) show ?thesis by (simp add: peek_bytes_def)
qed

definition tx_ok :: "CTransaction \<Rightarrow> bool" where
  "tx_ok tx \<longleftrightarrow>
     list_all (txin_ok (nVersion tx)) (vin tx) \<and> list_all (txout_ok (nVersion tx)) (vout tx) \<and>
     (if IsOldTransactionVersion (nVersion tx)
      then length (vin tx) \<le> MAX_SIZE \<and> length (vout tx) \<le> MAX_SIZE
      else 0 \<le> sint (nVersion tx) \<and> int (length (vin tx)) \<le> max_i32 \<and>
        int (length (vout tx)) \<le> max_u64 \<and> list_all sigs_ok (vin tx))"

definition canon_tx :: "bool \<Rightarrow> CTransaction \<Rightarrow> CTransaction" where
  "canon_tx segsig tx =
     (let v = nVersion tx in
      if IsOldTransactionVersion v
      then tx\<lparr>vin := map (canon_txin v) (vin tx), tx_flags := 0, extraFlags := 0\<rparr>
      else tx\<lparr>vin := map (\<lambda>i. (canon_txin v i)\<lparr>segregatedSignatureData :=
                 (if segsig then segregatedSignatureData i else [])\<rparr>) (vin tx),
              tx_flags := setup_flags tx,
              extraFlags := (if bit (tx_flags tx) HasExtraFlags then extraFlags tx else 0)\<rparr>)"

lemma old_round_trip:
  assumes "tx_ok tx" "IsOldTransactionVersion (nVersion tx)"
  shows "\<exists>b. SerializeTransaction segsig tx = Inr b \<and>
    UnserializeTransaction segsig (b @ rest) = Inr (canon_tx segsig tx, rest)"
proof -
  let ?v = "nVersion tx"
  obtain outs where outs: "write_outputs ?v (vout tx) = Inr outs"
    "\<And>rest. read_many (length (vout tx)) (txout_Read ?v) (outs @ rest) = Inr (vout tx, rest)"
    using write_outputs_round_trip [of ?v "vout tx"] assms(1) by (auto simp: tx_ok_def)
  have counts: "compact_ok True (length (vin tx))" "compact_ok True (length (vout tx))"
    using assms by (simp_all add: tx_ok_def compact_ok_def MAX_SIZE_def)
  define b where "b = WriteCompactSize (length (vin tx)) @ concat (map (txin_Write ?v) (vin tx)) @
    WriteCompactSize (length (vout tx)) @ outs @ ser_writedata32 (nLockTime tx)"
  have ser: "SerializeTransaction segsig tx = Inr (ser_writedata32 ?v @ b)"
    using assms(2) outs(1) by (simp add: SerializeTransaction_def SerializeTransactionOld_def b_def)
  have peek: "peek_bytes 4 (ser_writedata32 ?v @ b @ rest) = Inr (WriteLE32 ?v, ser_writedata32 ?v @ b @ rest)"
    by (simp add: peek_bytes_def ser_writedata32_def)
  have "UnserializeTransactionOld (ser_writedata32 ?v @ b @ rest) = Inr (canon_tx segsig tx, rest)"
    using assms outs(2) counts read_inputs [of ?v "vin tx"]
    by (cases tx) (simp add: UnserializeTransactionOld_def b_def u32_codec.dec_enc compact_size.dec_enc
        canon_tx_def CTransaction_new_def tx_ok_def)
  with ser peek assms(2) show ?thesis by (simp add: UnserializeTransaction_def)
qed

lemma inputs_length:
  assumes "\<not> IsOldTransactionVersion v"
  shows "length ins \<le> length (concat (map (txin_Write v) ins))"
proof (induction ins)
  case (Cons i ins)
  have "1 \<le> length (txin_Write v i)" using assms by (simp add: txin_Write_def)
  with Cons show ?case by simp
qed simp

lemma sint_nonneg_uint:
  assumes "0 \<le> sint (w :: u32)"
  shows "sint w = uint w"
proof -
  have "take_bit 32 (uint w) = uint w" using uint_bounded [of w] by (simp add: take_bit_int_eq_self_iff)
  then have "sint w = uint w - 2 ^ 32 * of_bool (bit (uint w) 31)"
    by (simp add: sint_uint signed_take_bit_eq_take_bit_minus)
  moreover have "uint w < 2 ^ 32" using uint_bounded [of w] by simp
  ultimately show ?thesis using assms by (cases "bit (uint w) 31") auto
qed

lemma new_version:
  assumes "\<not> IsOldTransactionVersion v" "0 \<le> sint v"
  shows "5 \<le> sint v \<and> varint_ok max_i32 (sint v) \<and> word_of_int (sint v) = v"
proof -
  have "sint v = uint v" using assms(2) by (rule sint_nonneg_uint)
  moreover have "5 \<le> uint v" using assms(1) by (simp add: IsOldTransactionVersion_def word_less_def)
  moreover have "sint v < 2 ^ 31" using sint_less [of v] by simp
  ultimately show ?thesis by (simp add: varint_ok_def)
qed

text \<open>The serialized transaction without its version, and that it is long enough for the peek.\<close>

definition counted :: "nat \<Rightarrow> byte list" where
  "counted n = (if n \<noteq> 1 \<and> n \<noteq> 2 \<and> n \<noteq> 3 then WriteVarInt (int n) else [])"

definition new_body :: "bool \<Rightarrow> CTransaction \<Rightarrow> byte list \<Rightarrow> byte list" where
  "new_body segsig tx outs =
     (if bit (tx_flags tx) 7 then [extraFlags tx] else []) @
     counted (length (vin tx)) @ concat (map (txin_Write (nVersion tx)) (vin tx)) @
     counted (length (vout tx)) @ outs @
     (if segsig then concat (map (\<lambda>i. Serialize_varint_vectors (segregatedSignatureData i)) (vin tx))
      else []) @
     (if 0 < nLockTime tx then WriteVarInt (uint (nLockTime tx)) else [])"

lemma SerializeTransaction_new:
  assumes "\<not> IsOldTransactionVersion (nVersion tx)" "write_outputs (nVersion tx) (vout tx) = Inr outs"
  shows "SerializeTransaction segsig tx =
    Inr (WriteVarInt (sint (nVersion tx)) @ setup_flags tx # new_body segsig tx outs)"
  using assms by (simp add: SerializeTransaction_def Let_def new_body_def counted_def)

lemma counted_length: "n = 0 \<Longrightarrow> 1 \<le> length (counted n)"
  by (simp add: counted_def WriteVarInt_length)

lemma new_body_length:
  assumes "\<not> IsOldTransactionVersion (nVersion tx)" "2 * length (vout tx) \<le> length outs"
  shows "2 \<le> length (new_body segsig tx outs)"
proof -
  have "1 \<le> length (counted (length (vin tx)) @ concat (map (txin_Write (nVersion tx)) (vin tx)))"
    using inputs_length [OF assms(1), of "vin tx"] counted_length [of "length (vin tx)"]
    unfolding length_append by linarith
  moreover have "1 \<le> length (counted (length (vout tx)) @ outs)"
    using assms(2) counted_length [of "length (vout tx)"] unfolding length_append by linarith
  ultimately show ?thesis by (simp add: new_body_def)
qed

lemma canon_txin_no_signatures: "(canon_txin v i)\<lparr>segregatedSignatureData := []\<rparr> = canon_txin v i"
  by (simp add: canon_txin_def)

lemma new_round_trip:
  assumes "tx_ok tx" "\<not> IsOldTransactionVersion (nVersion tx)"
  shows "\<exists>b. SerializeTransaction segsig tx = Inr b \<and>
    UnserializeTransaction segsig (b @ rest) = Inr (canon_tx segsig tx, rest)"
proof -
  let ?v = "nVersion tx" and ?f = "setup_flags tx"
  obtain outs where outs: "write_outputs ?v (vout tx) = Inr outs" "2 * length (vout tx) \<le> length outs"
    "\<And>rest. read_many (length (vout tx)) (txout_Read ?v) (outs @ rest) = Inr (vout tx, rest)"
    using write_outputs_round_trip [of ?v "vout tx"] assms(1) by (auto simp: tx_ok_def)
  define b where "b = WriteVarInt (sint ?v) @ ?f # new_body segsig tx outs"
  have v: "5 \<le> sint ?v" "varint_ok max_i32 (sint ?v)" "word_of_int (sint ?v) = ?v"
    using new_version [OF assms(2)] assms by (auto simp: tx_ok_def)
  obtain c cs where c: "WriteVarInt (sint ?v) = c # cs" "5 \<le> unat c" using WriteVarInt_first [OF v(1)] by blast
  have "2 \<le> length (new_body segsig tx outs)" using assms(2) outs(2) by (rule new_body_length)
  then obtain p where peek: "peek_bytes 4 (b @ rest) = Inr (p, b @ rest)" "\<not> IsOldTransactionVersion (ReadLE32 p)"
    using peek_not_old [OF c(2), of "cs @ ?f # new_body segsig tx outs @ rest"] by (auto simp: b_def c(1))
  have ins: "count_reader max_i32 (length (vin tx) = 1) (length (vin tx) = 2) (length (vin tx) = 3)
      (counted (length (vin tx)) @ r) = Inr (length (vin tx), r)" for r
    using count_round_trip [of max_i32 "length (vin tx)" r] assms
    by (simp add: counted_def varint_ok_def tx_ok_def)
  have cout: "count_reader max_u64 (length (vout tx) = 1) (length (vout tx) = 2) (length (vout tx) = 3)
      (counted (length (vout tx)) @ r) = Inr (length (vout tx), r)" for r
    using count_round_trip [of max_u64 "length (vout tx)" r] assms
    by (simp add: counted_def varint_ok_def tx_ok_def)
  have lists: "list_all (txin_ok ?v) (vin tx)" "list_all sigs_ok (vin tx)" using assms by (simp_all add: tx_ok_def)
  have "UnserializeTransaction segsig (b @ rest) = Inr (canon_tx segsig tx, rest)"
    using peek v assms(2) outs(3) ins cout read_inputs [OF lists(1)] read_signatures_round_trip [OF lists(2)]
    by (cases tx) (simp add: UnserializeTransaction_def b_def new_body_def varint_i32.dec_enc canon_tx_def
        canon_txin_no_signatures word_gt_0 unsigned_eq_0_iff)
  then show ?thesis using SerializeTransaction_new [OF assms(2) outs(1)] by (auto simp: b_def)
qed

lemma serialized_reads:
  assumes "tx_ok tx"
  shows "\<exists>b. SerializeTransaction segsig tx = Inr b \<and>
    UnserializeTransaction segsig (b @ rest) = Inr (canon_tx segsig tx, rest)"
  using old_round_trip [OF assms] new_round_trip [OF assms] by blast

lemma canon_tx_nVersion [simp]: "nVersion (canon_tx segsig tx) = nVersion tx"
  by (simp add: canon_tx_def Let_def)

lemma canon_tx_signatures:
  "\<not> IsOldTransactionVersion (nVersion tx) \<Longrightarrow>
   map segregatedSignatureData (vin (canon_tx True tx)) = map segregatedSignatureData (vin tx)"
  by (simp add: canon_tx_def Let_def comp_def)

section \<open>Properties\<close>

text \<open>
  C33. Every transaction within the limits of the formats is written, and reading what was written,
  with anything after it, gives the transaction back up to the fields its format does not carry,
  and leaves exactly what came after. The hypothesis bounds the vector sizes to what the readers
  accept, and rules out negative versions and values, which a variable-length integer cannot carry.
\<close>

theorem transaction_round_trip:
  assumes "tx_ok tx"
  shows "\<exists>b. SerializeTransaction segsig tx = Inr b \<and>
    UnserializeTransaction segsig (b @ rest) = Inr (canon_tx segsig tx, rest)"
  using assms by (rule serialized_reads)

definition example_txin :: CTxIn where
  "example_txin = CTxIn_default\<lparr>nTypeAndFlags := 1, prevout := COutPoint_null\<lparr>isHash := False, o_hash := 7, o_n := 3\<rparr>,
     segregatedSignatureData := [[1, 2], [3]]\<rparr>"

definition example_tx :: CTransaction where
  "example_tx = (CTransaction_new 5)\<lparr>vin := [example_txin],
     vout := [\<lparr>nValue = 1230000000, txout = StandardKeyHashOutput 42\<rparr>], nLockTime := 9\<rparr>"

theorem transaction_round_trip_witness:
  "\<exists>b. SerializeTransaction True example_tx = Inr b \<and>
    UnserializeTransaction True (b @ [255]) = Inr (canon_tx True example_tx, [255])"
  by (rule transaction_round_trip)
    (simp add: tx_ok_def example_tx_def example_txin_def CTransaction_new_def IsOldTransactionVersion_def txin_ok_def
      txout_ok_def output_ok_def sigs_ok_def)

text \<open>The bytes that are hashed determine what the format carries.\<close>

lemma preimage_determines:
  assumes "tx_ok tx" "tx_ok tx'"
    and "SerializeTransaction (\<not> IsOldTransactionVersion (nVersion tx)) tx = Inr b"
    and "SerializeTransaction (\<not> IsOldTransactionVersion (nVersion tx')) tx' = Inr b"
  shows "nVersion tx = nVersion tx' \<and>
    canon_tx (\<not> IsOldTransactionVersion (nVersion tx)) tx = canon_tx (\<not> IsOldTransactionVersion (nVersion tx)) tx' \<and>
    (\<not> IsOldTransactionVersion (nVersion tx) \<longrightarrow>
      map segregatedSignatureData (vin tx) = map segregatedSignatureData (vin tx'))"
proof -
  let ?old = "\<lambda>t. IsOldTransactionVersion (nVersion t)"
  have rd: "UnserializeTransaction True b = Inr (canon_tx True t, [])"
    if "tx_ok t" "SerializeTransaction (\<not> ?old t) t = Inr b" for t
    using that(2) serialized_reads [OF that(1), of True "[]"]
    by (cases "?old t") (auto simp: SerializeTransaction_def)
  have c: "canon_tx True tx = canon_tx True tx'" using rd [OF assms(1,3)] rd [OF assms(2,4)] by simp
  then have v: "nVersion tx = nVersion tx'" using canon_tx_nVersion by metis
  have "canon_tx (\<not> ?old tx) tx = canon_tx (\<not> ?old tx) tx'"
    using c v by (cases "?old tx") (simp_all add: canon_tx_def)
  moreover have "map segregatedSignatureData (vin tx) = map segregatedSignatureData (vin tx')" if "\<not> ?old tx"
    using canon_tx_signatures [of tx] canon_tx_signatures [of tx'] c that v by simp
  ultimately show ?thesis using v by blast
qed

text \<open>
  C34. The transaction hash identifies a transaction. Two transactions within the limits for which
  \<^verbatim>\<open>ComputeHash\<close> returns the same hash agree in their version and in every field their format
  carries, and from version 5 on in the segregated signatures of their inputs, unless two different byte
  strings, their serializations with signatures where the version has them, have the same double SHA-256.
  What a compact input does not carry, its script and without a relative lock its sequence number, does not
  enter the hash.
\<close>

theorem transaction_hash_binding:
  assumes "tx_ok tx" "tx_ok tx'" "ComputeHash tx = ComputeHash tx'"
  shows "(\<exists>b b'. SerializeTransaction (\<not> IsOldTransactionVersion (nVersion tx)) tx = Inr b \<and>
      SerializeTransaction (\<not> IsOldTransactionVersion (nVersion tx')) tx' = Inr b' \<and> b \<noteq> b' \<and> hash256 b = hash256 b') \<or>
    (nVersion tx = nVersion tx' \<and>
     canon_tx (\<not> IsOldTransactionVersion (nVersion tx)) tx = canon_tx (\<not> IsOldTransactionVersion (nVersion tx)) tx' \<and>
     (\<not> IsOldTransactionVersion (nVersion tx) \<longrightarrow>
       map segregatedSignatureData (vin tx) = map segregatedSignatureData (vin tx')))"
proof -
  have "\<exists>b. SerializeTransaction (\<not> IsOldTransactionVersion (nVersion t)) t = Inr b" if "tx_ok t" for t
    using serialized_reads [OF that, of "\<not> IsOldTransactionVersion (nVersion t)"] by blast
  then obtain b b' where b: "SerializeTransaction (\<not> IsOldTransactionVersion (nVersion tx)) tx = Inr b"
    "SerializeTransaction (\<not> IsOldTransactionVersion (nVersion tx')) tx' = Inr b'" using assms(1,2) by metis
  then have "hash256 b = hash256 b'" using assms(3) by (simp add: ComputeHash_def)
  then show ?thesis using preimage_determines [OF assms(1,2) b(1)] b by (cases "b = b'") blast+
qed

definition example_tx' :: CTransaction where
  "example_tx' = example_tx\<lparr>vin := [example_txin\<lparr>scriptSig := [81], nSequence := 8\<rparr>]\<rparr>"

theorem transaction_hash_binding_witness:
  "example_tx \<noteq> example_tx' \<and> ComputeHash example_tx = ComputeHash example_tx' \<and> canon_tx True example_tx = canon_tx True example_tx'"
proof -
  have ok: "tx_ok example_tx" "tx_ok example_tx'" "\<not> IsOldTransactionVersion (nVersion example_tx)"
    "nVersion example_tx' = nVersion example_tx"
    by (simp_all add: tx_ok_def example_tx_def example_tx'_def example_txin_def CTransaction_new_def
        IsOldTransactionVersion_def txin_ok_def txout_ok_def output_ok_def sigs_ok_def)
  have same: "SerializeTransaction True example_tx' = SerializeTransaction True example_tx"
    using ok(3) by (simp add: SerializeTransaction_def setup_flags_def Let_def example_tx_def example_tx'_def txin_Write_def
        txin_GetFlags_def FlagIsSet_def example_txin_def CTransaction_new_def)
  have hash: "ComputeHash example_tx = ComputeHash example_tx'" using ok(3,4) same by (simp add: ComputeHash_def)
  have "canon_tx True example_tx = canon_tx True example_tx'"
    using transaction_hash_binding [OF ok(1,2) hash] ok(3,4) same by auto
  moreover have "map scriptSig (vin example_tx) \<noteq> map scriptSig (vin example_tx')"
    by (simp add: example_tx_def example_tx'_def example_txin_def CTxIn_default_def)
  ultimately show ?thesis using hash by auto
qed

end
