(* ===== verification/Sighash.thy ===== *)
theory Sighash
  imports Tx_Serialize Script_Standard Script_Shape
begin

text \<open>
  The hash a signature signs (\<^verbatim>\<open>SignatureHash\<close> and
  \<^verbatim>\<open>CTransactionSignatureSerializer\<close> of
  \<^verbatim>\<open>src/src/script/interpreter.cpp\<close>) and the checker that interprets the signature,
  lock time and sequence opcodes for a transaction
  (\<^verbatim>\<open>TransactionSignatureChecker\<close>). What a \<^verbatim>\<open>CHashWriter\<close> is fed in
  pieces is hashed here as their concatenation, which the streaming lemmas of the hash functions
  justify. The operations of libsecp256k1 are parameters.
\<close>

section \<open>The transaction as it is signed\<close>

abbreviation (input) SIGHASH_ALL :: u32 where "SIGHASH_ALL \<equiv> 1"
abbreviation (input) SIGHASH_NONE :: u32 where "SIGHASH_NONE \<equiv> 2"
abbreviation (input) SIGHASH_SINGLE :: u32 where "SIGHASH_SINGLE \<equiv> 3"
abbreviation (input) SIGHASH_ANYONECANPAY :: u32 where "SIGHASH_ANYONECANPAY \<equiv> 0x80"

record signature_serializer =
  txTo :: CTransaction
  scriptCode :: cscript
  signedIn :: nat
  fAnyoneCanPay :: bool
  fHashSingle :: bool
  fHashNone :: bool

definition CTransactionSignatureSerializer ::
  "CTransaction \<Rightarrow> cscript \<Rightarrow> nat \<Rightarrow> u32 \<Rightarrow> signature_serializer" where
  "CTransactionSignatureSerializer tx code nIn nHashType =
     \<lparr>txTo = tx, scriptCode = code, signedIn = nIn,
      fAnyoneCanPay = (nHashType AND SIGHASH_ANYONECANPAY \<noteq> 0),
      fHashSingle = (nHashType AND 0x1f = SIGHASH_SINGLE),
      fHashNone = (nHashType AND 0x1f = SIGHASH_NONE)\<rparr>"

text \<open>The first loop counts the separators, the second one writes what stands between them.\<close>

function count_separators :: "cscript \<Rightarrow> nat \<Rightarrow> nat \<Rightarrow> nat" where
  "count_separators s it n =
     (case GetOp2 s it of
        (it', None) \<Rightarrow> n
      | (it', Some (opcode, _)) \<Rightarrow>
          count_separators s it' (if opcode = OP_CODESEPARATOR then n + 1 else n))"
  by pat_completeness auto
termination
  by (relation "measure (\<lambda>(s, it, n). length s - it)") (auto dest: GetOp2_decreases)

function write_code :: "cscript \<Rightarrow> nat \<Rightarrow> nat \<Rightarrow> byte list \<Rightarrow> nat \<times> nat \<times> byte list" where
  "write_code s it itBegin out =
     (case GetOp2 s it of
        (it', None) \<Rightarrow> (it', itBegin, out)
      | (it', Some (opcode, _)) \<Rightarrow>
          if opcode = OP_CODESEPARATOR
          then write_code s it' it' (out @ vec_range itBegin (it' - 1) s)
          else write_code s it' itBegin out)"
  by pat_completeness auto
termination
  by (relation "measure (\<lambda>(s, it, itBegin, out). length s - it)") (auto dest: GetOp2_decreases)

declare count_separators.simps [simp del] write_code.simps [simp del]

definition SerializeScriptCode :: "cscript \<Rightarrow> byte list" where
  "SerializeScriptCode code =
     (let nCodeSeparators = count_separators code 0 0;
          (it, itBegin, out) = write_code code 0 0 []
      in WriteCompactSize (length code - nCodeSeparators) @ out @
         (if itBegin \<noteq> length code then vec_range itBegin it code else []))"

definition SerializeInput :: "signature_serializer \<Rightarrow> nat \<Rightarrow> cpp_exn + byte list" where
  "SerializeInput s nInput =
     (let nInput = (if fAnyoneCanPay s then signedIn s else nInput);
          v = nVersion (txTo s);
          other = (nInput \<noteq> signedIn s) in
      bind_e (vec_index (vin (txTo s)) nInput) (\<lambda>i.
      Inr (outpoint_Write (txin_GetFlags i) v (prevout i) @
           (if other then Serialize_prevector [] else SerializeScriptCode (scriptCode s)) @
           (if \<not> IsOldTransactionVersion v then
              (if other \<and> (fHashSingle s \<or> fHashNone s) then ser_writedata32 0
               else [nTypeAndFlags i] @ ser_writedata32 (GetSequence i v))
            else
              (if other \<and> (fHashSingle s \<or> fHashNone s) then ser_writedata32 0
               else ser_writedata32 (GetSequence i v))))))"

definition CTxOut_null :: CTxOut where
  "CTxOut_null = \<lparr>nValue = - 1, txout = ScriptLegacyOutput []\<rparr>"

definition SerializeOutput :: "signature_serializer \<Rightarrow> nat \<Rightarrow> cpp_exn + byte list" where
  "SerializeOutput s nOutput =
     (if fHashSingle s \<and> nOutput \<noteq> signedIn s then txout_Write (nVersion (txTo s)) CTxOut_null
      else bind_e (vec_index (vout (txTo s)) nOutput) (txout_Write (nVersion (txTo s))))"

text \<open>The loops over the inputs and outputs.\<close>

fun for_each :: "('a \<Rightarrow> cpp_exn + byte list) \<Rightarrow> 'a list \<Rightarrow> cpp_exn + byte list" where
  "for_each f [] = Inr []"
| "for_each f (x # xs) = bind_e (f x) (\<lambda>b. bind_e (for_each f xs) (\<lambda>bs. Inr (b @ bs)))"

definition serializer_Serialize :: "signature_serializer \<Rightarrow> cpp_exn + byte list" where
  "serializer_Serialize s =
     (let tx = txTo s;
          nInputs = (if fAnyoneCanPay s then 1 else length (vin tx));
          nOutputs = (if fHashNone s then 0 else if fHashSingle s then signedIn s + 1 else length (vout tx)) in
      bind_e (for_each (SerializeInput s) [0..<nInputs]) (\<lambda>ins.
      bind_e (for_each (SerializeOutput s) [0..<nOutputs]) (\<lambda>outs.
      Inr (ser_writedata32 (nVersion tx) @ WriteCompactSize nInputs @ ins @
           WriteCompactSize nOutputs @ outs @ ser_writedata32 (nLockTime tx)))))"

section \<open>The signature hash\<close>

definition GetPrevoutHash :: "CTransaction \<Rightarrow> valtype" where
  "GetPrevoutHash tx =
     hash256 (concat (map (\<lambda>i. outpoint_Write (txin_GetFlags i) (nVersion tx) (prevout i)) (vin tx)))"

definition GetSequenceHash :: "CTransaction \<Rightarrow> valtype" where
  "GetSequenceHash tx =
     hash256 (concat (map (\<lambda>i.
       (if \<not> IsOldTransactionVersion (nVersion tx) then [nTypeAndFlags i] else []) @
       ser_writedata32 (GetSequence i (nVersion tx))) (vin tx)))"

definition GetOutputsHash :: "CTransaction \<Rightarrow> cpp_exn + valtype" where
  "GetOutputsHash tx = bind_e (for_each (txout_Write (nVersion tx)) (vout tx)) (\<lambda>b. Inr (hash256 b))"

record PrecomputedTransactionData =
  hashPrevouts :: valtype
  hashSequence :: valtype
  hashOutputs :: valtype

definition precompute :: "CTransaction \<Rightarrow> cpp_exn + PrecomputedTransactionData" where
  "precompute tx =
     bind_e (GetOutputsHash tx) (\<lambda>h.
     Inr \<lparr>hashPrevouts = GetPrevoutHash tx, hashSequence = GetSequenceHash tx, hashOutputs = h\<rparr>)"

text \<open>The value of a default-constructed \<^verbatim>\<open>uint256\<close> and the constant one, as bytes.\<close>

definition uint256_zero :: valtype where
  "uint256_zero = replicate 32 0"

definition uint256_one :: valtype where
  "uint256_one = 1 # replicate 31 0"

text \<open>The three hashes that enter the segregated signature hash, and the bytes it is taken over.\<close>

definition segsig_hashes ::
  "CTransaction \<Rightarrow> nat \<Rightarrow> u32 \<Rightarrow> PrecomputedTransactionData option \<Rightarrow>
   cpp_exn + (valtype \<times> valtype \<times> valtype)" where
  "segsig_hashes tx nIn nHashType cache =
     (let anyone = (nHashType AND SIGHASH_ANYONECANPAY \<noteq> 0);
          single = (nHashType AND 0x1f = SIGHASH_SINGLE);
          none = (nHashType AND 0x1f = SIGHASH_NONE) in
      bind_e
        (if \<not> single \<and> \<not> none then
           (case cache of Some c \<Rightarrow> Inr (hashOutputs c) | None \<Rightarrow> GetOutputsHash tx)
         else if single \<and> nIn < length (vout tx) then
           bind_e (vec_index (vout tx) nIn) (\<lambda>out.
           bind_e (txout_Write (nVersion tx) out) (\<lambda>b. Inr (hash256 b)))
         else Inr uint256_zero)
        (\<lambda>outputs.
           Inr (if \<not> anyone then (case cache of Some c \<Rightarrow> hashPrevouts c | None \<Rightarrow> GetPrevoutHash tx)
                else uint256_zero,
                if \<not> anyone \<and> \<not> single \<and> \<not> none
                then (case cache of Some c \<Rightarrow> hashSequence c | None \<Rightarrow> GetSequenceHash tx)
                else uint256_zero,
                outputs)))"

definition segsig_preimage ::
  "cscript \<Rightarrow> CTransaction \<Rightarrow> CTxIn \<Rightarrow> u32 \<Rightarrow> CAmount \<Rightarrow> valtype \<times> valtype \<times> valtype \<Rightarrow> byte list" where
  "segsig_preimage code tx i nHashType amount = (\<lambda>(prevouts, sequences, outputs).
     ser_writedata32 (nVersion tx) @ prevouts @ sequences @
     outpoint_Write (txin_GetFlags i) (nVersion tx) (prevout i) @
     Serialize_prevector code @ ser_writedata64 (word_of_int amount) @
     (if \<not> IsOldTransactionVersion (nVersion tx) then [nTypeAndFlags i] else []) @
     ser_writedata32 (GetSequence i (nVersion tx)) @
     outputs @ ser_writedata32 (nLockTime tx) @ ser_writedata32 nHashType)"

definition SignatureHash ::
  "cscript \<Rightarrow> CTransaction \<Rightarrow> nat \<Rightarrow> u32 \<Rightarrow> CAmount \<Rightarrow> SigVersion \<Rightarrow>
   PrecomputedTransactionData option \<Rightarrow> cpp_exn + valtype" where
  "SignatureHash code tx nIn nHashType amount sigver cache =
     (if sigver = SIGVERSION_SEGSIG then
        bind_e (segsig_hashes tx nIn nHashType cache) (\<lambda>hashes.
        bind_e (vec_index (vin tx) nIn) (\<lambda>i.
        Inr (hash256 (segsig_preimage code tx i nHashType amount hashes))))
      else if nIn \<ge> length (vin tx) then Inr uint256_one
      else if nHashType AND 0x1f = SIGHASH_SINGLE \<and> nIn \<ge> length (vout tx) then Inr uint256_one
      else
        bind_e (serializer_Serialize (CTransactionSignatureSerializer tx code nIn nHashType)) (\<lambda>b.
        Inr (hash256 (b @ ser_writedata32 nHashType))))"

section \<open>The signature checker of a transaction\<close>

text \<open>
  \<open>RecoverCompact\<close> returns the bytes of the public key recovered from a compact signature, if
  there is one; \<open>Verify\<close> checks a DER signature. Both are calls into libsecp256k1.
\<close>

record curve =
  RecoverCompact :: "valtype \<Rightarrow> valtype \<Rightarrow> valtype option"
  Verify :: "valtype \<Rightarrow> valtype \<Rightarrow> valtype \<Rightarrow> bool"
  IsLowS :: "valtype \<Rightarrow> bool"

record tx_checker =
  signatureKeyID :: uint160
  c_txTo :: CTransaction
  c_nIn :: nat
  c_amount :: CAmount
  c_txdata :: "PrecomputedTransactionData option"

definition tx_CheckSig ::
  "curve \<Rightarrow> tx_checker \<Rightarrow> valtype \<Rightarrow> valtype \<Rightarrow> cscript \<Rightarrow> SigVersion \<Rightarrow> cpp_exn + bool" where
  "tx_CheckSig ec c vchSigIn vchPubKey code sigver =
     (if vchSigIn = [] then Inr False
      else let nHashType = ucast (last vchSigIn); vchSig = butlast vchSigIn in
        bind_e (SignatureHash code (c_txTo c) (c_nIn c) nHashType (c_amount c) sigver (c_txdata c)) (\<lambda>sighash.
        if sigver = SIGVERSION_SEGSIG then
          (case RecoverCompact ec sighash vchSig of
             None \<Rightarrow> Inr False
           | Some pubkey \<Rightarrow>
               if \<not> pubkey_IsValid pubkey then Inr False
               else if signatureKeyID c = 0 then Inr (GetID (CPubKey vchPubKey) = GetID pubkey)
               else Inr (signatureKeyID c = GetID pubkey))
        else let pubkey = CPubKey vchPubKey in
          if \<not> pubkey_IsValid pubkey then Inr False
          else Inr (Verify ec pubkey sighash vchSig)))"

definition tx_CheckLockTime :: "tx_checker \<Rightarrow> int \<Rightarrow> cpp_exn + bool" where
  "tx_CheckLockTime c lockTime =
     (let txLockTime = uint (nLockTime (c_txTo c)) in
      if \<not> (txLockTime < LOCKTIME_THRESHOLD \<and> lockTime < LOCKTIME_THRESHOLD) then Inr False
      else if \<not> (txLockTime \<ge> LOCKTIME_THRESHOLD \<and> lockTime \<ge> LOCKTIME_THRESHOLD) then Inr False
      else if lockTime > txLockTime then Inr False
      else bind_e (vec_index (vin (c_txTo c)) (c_nIn c)) (\<lambda>i.
        if SEQUENCE_FINAL = GetSequence i (nVersion (c_txTo c)) then Inr False else Inr True))"

definition tx_CheckSequence :: "tx_checker \<Rightarrow> int \<Rightarrow> cpp_exn + bool" where
  "tx_CheckSequence c sequence =
     (let v = nVersion (c_txTo c);
          nLockTimeMask = uint (SEQUENCE_LOCKTIME_TYPE_FLAG OR SEQUENCE_LOCKTIME_MASK);
          typeFlag = uint SEQUENCE_LOCKTIME_TYPE_FLAG;
          nSequenceMasked = sequence AND nLockTimeMask in
      if v < 2 then Inr False
      else if IsOldTransactionVersion v then
        bind_e (vec_index (vin (c_txTo c)) (c_nIn c)) (\<lambda>i.
        let txToSequence = uint (GetSequence i v) in
        if txToSequence AND uint SEQUENCE_LOCKTIME_DISABLE_FLAG \<noteq> 0 then Inr False
        else let txToSequenceMasked = txToSequence AND nLockTimeMask in
          if \<not> (txToSequenceMasked < typeFlag \<and> nSequenceMasked < typeFlag) then Inr False
          else if \<not> (txToSequenceMasked \<ge> typeFlag \<and> nSequenceMasked \<ge> typeFlag) then Inr False
          else if nSequenceMasked > txToSequenceMasked then Inr False
          else Inr True)
      else
        bind_e (vec_index (vin (c_txTo c)) (c_nIn c)) (\<lambda>i.
        if \<not> FlagIsSet i HasRelativeLock then Inr False
        else if FlagIsSet i HasTimeBasedRelativeLock \<and> nSequenceMasked < typeFlag then Inr False
        else if FlagIsSet i HasBlockBasedRelativeLock \<and> nSequenceMasked \<ge> typeFlag then Inr False
        else Inr False))"

text \<open>
  The object the interpreter calls. A call of its methods that has undefined behaviour or fails an
  assertion is shown below not to happen when the signed input exists and the outputs can be
  written, so that reading it as a rejection loses nothing.
\<close>

definition TransactionSignatureChecker :: "curve \<Rightarrow> tx_checker \<Rightarrow> checker" where
  "TransactionSignatureChecker ec c =
     \<lparr>CheckSig = (\<lambda>sig key code sigver. tx_CheckSig ec c sig key code sigver = Inr True),
      CheckLockTime = (\<lambda>n. tx_CheckLockTime c n = Inr True),
      CheckSequence = (\<lambda>n. tx_CheckSequence c n = Inr True),
      CheckLowS = IsLowS ec\<rparr>"

section \<open>The script code\<close>

lemma GetOp2_separator: "it < length s \<Longrightarrow> s ! it = 171 \<Longrightarrow> GetOp2 s it = (it + 1, Some (OP_CODESEPARATOR, []))"
  by (simp add: GetOp2_def)

lemma GetOp2_first:
  "GetOp2 s it = (it', Some (opcode, v)) \<Longrightarrow> it < length s \<and> opcode = unat (s ! it)"
  by (auto simp: GetOp2_def Let_def split: if_splits option.splits)

lemma separator_at:
  assumes "GetOp2 s it = (it', Some (opcode, v))"
  shows "[171] = take (length [171 :: byte]) (drop it s) \<longleftrightarrow> opcode = OP_CODESEPARATOR"
proof -
  have "it < length s" "opcode = unat (s ! it)" using GetOp2_first [OF assms] by simp_all
  then show ?thesis by (auto simp: take_Suc_conv_app_nth hd_drop_conv_nth take_Suc word_unat_eq_iff)
qed

lemma vec_range_append:
  assumes "i \<le> j" "j \<le> k"
  shows "vec_range i j s @ vec_range j k s = vec_range i k s"
proof -
  have "k - i = (j - i) + (k - j)" "j = (j - i) + i" using assms by simp_all
  then show ?thesis by (metis drop_drop take_add vec_range_def)
qed

lemma write_code_steps:
  "GetOp2 s it = (it', None) \<Longrightarrow> write_code s it itBegin out = (it', itBegin, out)"
  "GetOp2 s it = (it', Some (OP_CODESEPARATOR, v)) \<Longrightarrow>
   write_code s it itBegin out = write_code s it' it' (out @ vec_range itBegin (it' - 1) s)"
  "GetOp2 s it = (it', Some (opcode, v)) \<Longrightarrow> opcode \<noteq> OP_CODESEPARATOR \<Longrightarrow>
   write_code s it itBegin out = write_code s it' itBegin out"
  by (simp_all add: write_code.simps [of s it])

lemma count_separators_steps:
  "GetOp2 s it = (it', None) \<Longrightarrow> count_separators s it n = n"
  "GetOp2 s it = (it', Some (opcode, v)) \<Longrightarrow>
   count_separators s it n = count_separators s it' (if opcode = OP_CODESEPARATOR then n + 1 else n)"
  by (simp_all add: count_separators.simps [of s it])

lemma parse_ops_steps:
  "parse_ops s it \<noteq> None \<Longrightarrow> GetOp2 s it = (it', None) \<Longrightarrow> it \<le> length s \<Longrightarrow> it = length s"
  "parse_ops s it \<noteq> None \<Longrightarrow> GetOp2 s it = (it', Some r) \<Longrightarrow> parse_ops s it' \<noteq> None"
  by (auto simp: parse_ops.simps [of s it] split: if_splits)

lemma separator_steps:
  "GetOp2 s it = (it', Some (OP_CODESEPARATOR, v)) \<Longrightarrow>
   it' = it + 1 \<and> delete_at_boundaries s [171] it = apfst Suc (delete_at_boundaries s [171] it')"
  "GetOp2 s it = (it', Some (opcode, v)) \<Longrightarrow> opcode \<noteq> OP_CODESEPARATOR \<Longrightarrow>
   delete_at_boundaries s [171] it = apsnd ((@) (vec_range it it' s)) (delete_at_boundaries s [171] it')"
proof -
  assume g: "GetOp2 s it = (it', Some (OP_CODESEPARATOR, v))"
  then have "it < length s" "s ! it = 171" using GetOp2_first [OF g] by (simp_all add: word_unat_eq_iff)
  then have it': "it' = it + 1" using GetOp2_separator [of it s] g by simp
  then show "it' = it + 1 \<and> delete_at_boundaries s [171] it = apfst Suc (delete_at_boundaries s [171] it')"
    using delete_at_boundaries_match [of "[171]" s it] separator_at [OF g] \<open>it < length s\<close> by simp
next
  assume g: "GetOp2 s it = (it', Some (opcode, v))" and "opcode \<noteq> OP_CODESEPARATOR"
  then show "delete_at_boundaries s [171] it = apsnd ((@) (vec_range it it' s)) (delete_at_boundaries s [171] it')"
    using delete_at_boundaries_keep [OF g] separator_at [OF g] by auto
qed

lemma write_code_parsed:
  "parse_ops s it \<noteq> None \<Longrightarrow> itBegin \<le> it \<Longrightarrow> it \<le> length s \<Longrightarrow>
   \<exists>b out'. write_code s it itBegin out = (length s, b, out') \<and> b \<le> length s \<and>
    out' @ vec_range b (length s) s = out @ vec_range itBegin it s @ snd (delete_at_boundaries s [171] it)"
proof (induction "length s - it" arbitrary: it itBegin out rule: less_induct)
  case less
  obtain it' r where g: "GetOp2 s it = (it', r)" by fastforce
  show ?case
  proof (cases r)
    case None
    then have "it = length s" using g less.prems parse_ops_steps(1) by blast
    then show ?thesis
      using less.prems(2) write_code_steps(1) [of s it it] delete_at_boundaries_stop [of s it it "[171]"] by simp
  next
    case (Some oc)
    then obtain opcode v where oc: "GetOp2 s it = (it', Some (opcode, v))" using g by (cases oc) auto
    have adv: "it < it'" "it' \<le> length s" using GetOp2_advances oc by blast+
    have ih: "\<exists>b out'. write_code s it' k out = (length s, b, out') \<and> b \<le> length s \<and>
        out' @ vec_range b (length s) s = out @ vec_range k it' s @ snd (delete_at_boundaries s [171] it')"
      if "k \<le> it'" for k out
      using less.hyps [of it' k out] less.prems(1) adv that parse_ops_steps(2) oc by auto
    show ?thesis
    proof (cases "opcode = OP_CODESEPARATOR")
      case True
      with ih [of it' "out @ vec_range itBegin (it' - 1) s"] write_code_steps(2) separator_steps(1) [of s it it' v] oc
      show ?thesis by (simp add: vec_range_def)
    next
      case False
      with ih [of itBegin out] write_code_steps(3) [OF oc] separator_steps(2) [OF oc] less.prems(2) adv
      show ?thesis by (simp add: vec_range_append [symmetric, of itBegin it it'])
    qed
  qed
qed

lemma count_separators_boundaries:
  "it \<le> length s \<Longrightarrow> parse_ops s it \<noteq> None \<Longrightarrow>
   count_separators s it n = n + fst (delete_at_boundaries s [171] it)"
proof (induction s it n rule: count_separators.induct)
  case (1 s it n)
  obtain it' r where g: "GetOp2 s it = (it', r)" by fastforce
  show ?case
  proof (cases r)
    case None
    then have "it = length s" using g 1(2,3) parse_ops_steps(1) by blast
    then show ?thesis
      using count_separators_steps(1) [of s it it n] delete_at_boundaries_stop [of s it it "[171]"] by simp
  next
    case (Some oc)
    then obtain opcode v where oc: "GetOp2 s it = (it', Some (opcode, v))" using g by (cases oc) auto
    then have "it' \<le> length s" "parse_ops s it' \<noteq> None"
      using GetOp2_advances parse_ops_steps(2) 1(3) by blast+
    then have "count_separators s it' k = k + fst (delete_at_boundaries s [171] it')"
      if "k = (if opcode = OP_CODESEPARATOR then n + 1 else n)" for k
      using 1(1) [of it' "Some (opcode, v)" "(opcode, v)" opcode v] oc that by simp
    then show ?thesis
      using separator_steps(1) [of s it it' v] separator_steps(2) [OF oc] oc
      by (cases "opcode = OP_CODESEPARATOR") (simp_all add: count_separators_steps(2) [OF oc])
  qed
qed

text \<open>
  The script code enters the legacy signature hash without its code separators: for a script
  that parses, the two loops over it write exactly the script from which
  \<^verbatim>\<open>FindAndDelete\<close> has removed the opcode, with its correct size in front.
\<close>

theorem SerializeScriptCode_deletes:
  assumes "parse_ops s 0 \<noteq> None"
  shows "SerializeScriptCode s = Serialize_prevector (snd (FindAndDelete s [171]))"
proof -
  obtain b out where w: "write_code s 0 0 [] = (length s, b, out)" "b \<le> length s"
    "out @ vec_range b (length s) s = snd (delete_at_boundaries s [171] 0)"
    using write_code_parsed [OF assms, of 0 "[]"] by (auto simp: vec_range_def)
  have n: "count_separators s 0 0 = fst (delete_at_boundaries s [171] 0)"
    using count_separators_boundaries [OF _ assms] by simp
  have "length (snd (delete_at_boundaries s [171] 0)) = length s - fst (delete_at_boundaries s [171] 0)"
    using delete_at_boundaries_length [of 0 s "[171]"] by simp
  then show ?thesis using w n by (auto simp: SerializeScriptCode_def Serialize_prevector_def FindAndDelete_boundaries vec_range_def)
qed

theorem SerializeScriptCode_deletes_witness:
  "SerializeScriptCode [0x51, 171, 0x01, 171, 171] = [3, 0x51, 0x01, 171]"
  using SerializeScriptCode_deletes [of "[0x51, 171, 0x01, 171, 171]"]
  by (simp add: FindAndDelete_boundaries delete_at_boundaries_steps parse_ops.simps GetOp2_def push_size_def
      vec_range_def Serialize_prevector_def WriteCompactSize_def)

section \<open>What a signature commits to\<close>

lemma length_hash_values [simp]:
  "length (GetPrevoutHash tx) = 32" "length (GetSequenceHash tx) = 32"
  "length uint256_zero = 32" "length uint256_one = 32"
  by (simp_all add: GetPrevoutHash_def GetSequenceHash_def uint256_zero_def uint256_one_def)

lemma outpoint_prefix:
  assumes "outpoint_Write f v out @ rest = outpoint_Write f v out' @ rest'"
  shows "canon_outpoint f v out = canon_outpoint f v out' \<and> rest = rest'"
  using outpoint_round_trip [of f v out rest] outpoint_round_trip [of f v out' rest'] assms by simp

lemma outpoint_Write_old: "IsOldTransactionVersion v \<Longrightarrow> outpoint_Write f v out = outpoint_Write f' v out"
  by (simp add: outpoint_Write_def)

lemma ser_writedata_inject [simp]:
  "ser_writedata32 x = ser_writedata32 y \<longleftrightarrow> x = y" "ser_writedata64 a = ser_writedata64 b \<longleftrightarrow> a = b"
  using u32_codec.enc_prefix_free [of x "[]" y "[]"] u64_codec.enc_prefix_free [of a "[]" b "[]"] by auto

text \<open>
  C35. A segregated signature commits to everything that is hashed for it: equal preimages have the
  same version, hashes of the inputs, sequence numbers and outputs, signed outpoint, script code,
  amount, input type and flags, sequence number, lock time and hash type. Although the outpoint is
  written in a form that depends on the input flags, which come after it, no two choices collide.
\<close>

theorem segsig_preimage_injective:
  assumes eq: "segsig_preimage code tx i ht amount (p, q, r) = segsig_preimage code' tx' i' ht' amount' (p', q', r')"
    and len: "\<forall>h \<in> {p, q, r, p', q', r'}. length h = 32"
    and size: "length code \<le> MAX_SIZE" "length code' \<le> MAX_SIZE"
  shows "nVersion tx = nVersion tx' \<and> (p, q, r) = (p', q', r') \<and>
    canon_outpoint (txin_GetFlags i) (nVersion tx) (prevout i) =
      canon_outpoint (txin_GetFlags i') (nVersion tx) (prevout i') \<and>
    code = code' \<and> (word_of_int amount :: u64) = word_of_int amount' \<and>
    (\<not> IsOldTransactionVersion (nVersion tx) \<longrightarrow> nTypeAndFlags i = nTypeAndFlags i') \<and>
    GetSequence i (nVersion tx) = GetSequence i' (nVersion tx) \<and>
    nLockTime tx = nLockTime tx' \<and> ht = ht'"
proof -
  let ?v = "nVersion tx" and ?old = "IsOldTransactionVersion (nVersion tx)"
  let ?mid = "\<lambda>i code amount. outpoint_Write (txin_GetFlags i) ?v (prevout i) @ Serialize_prevector code"
  let ?tail = "\<lambda>i amount tx ht r. ser_writedata64 (word_of_int amount) @
     (if \<not> ?old then [nTypeAndFlags i] else []) @ ser_writedata32 (GetSequence i ?v) @
     r @ ser_writedata32 (nLockTime tx) @ ser_writedata32 ht"
  have v: "nVersion tx = nVersion tx'"
    using eq by (simp add: segsig_preimage_def)
  have "p @ q @ ?mid i code amount @ ?tail i amount tx ht r = p' @ q' @ ?mid i' code' amount' @ ?tail i' amount' tx' ht' r'"
    using eq by (simp add: segsig_preimage_def v)
  then have hashes: "p = p'" "q = q'"
    and rest: "?mid i code amount @ ?tail i amount tx ht r = ?mid i' code' amount' @ ?tail i' amount' tx' ht' r'"
    using len by simp_all
  have "length (?tail i amount tx ht r) = length (?tail i' amount' tx' ht' r')" using len by simp
  then have ends: "?tail i amount tx ht r = ?tail i' amount' tx' ht' r'" and mid: "?mid i code amount = ?mid i' code' amount'"
    using rest append_eq_append_conv by blast+
  have fields: "(word_of_int amount :: u64) = word_of_int amount'"
    "\<not> ?old \<longrightarrow> nTypeAndFlags i = nTypeAndFlags i'" "GetSequence i ?v = GetSequence i' ?v"
    "r = r'" "nLockTime tx = nLockTime tx'" "ht = ht'"
    using ends len by (auto split: if_splits)
  have out: "outpoint_Write (txin_GetFlags i') ?v (prevout i') = outpoint_Write (txin_GetFlags i) ?v (prevout i')"
    using fields(2) outpoint_Write_old by (cases ?old) (auto simp: txin_GetFlags_def)
  have canon: "canon_outpoint (txin_GetFlags i') ?v (prevout i') = canon_outpoint (txin_GetFlags i) ?v (prevout i')"
    using fields(2) by (cases ?old) (auto simp: txin_GetFlags_def canon_outpoint_def)
  note outpoint_prefix [OF mid [unfolded out]]
  moreover from this have "code = code'"
    using size prevector.enc_prefix_free [where x = code and y = code' and r = "[]" and s = "[]"] by simp
  ultimately show ?thesis using v hashes fields canon by simp
qed

theorem segsig_preimage_injective_witness:
  "segsig_preimage [0x51] example_tx example_txin 1 5 (uint256_zero, uint256_zero, uint256_one) =
     segsig_preimage [0x51] example_tx' (example_txin\<lparr>nSequence := 8\<rparr>) 1 5 (uint256_zero, uint256_zero, uint256_one) \<and>
   nLockTime example_tx = nLockTime example_tx'"
proof -
  have eq: "segsig_preimage [0x51] example_tx example_txin 1 5 (uint256_zero, uint256_zero, uint256_one) =
     segsig_preimage [0x51] example_tx' (example_txin\<lparr>nSequence := 8\<rparr>) 1 5 (uint256_zero, uint256_zero, uint256_one)"
    by (simp add: segsig_preimage_def example_tx_def example_tx'_def example_txin_def txin_GetFlags_def GetSequence_def
        FlagIsSet_def CTransaction_new_def IsOldTransactionVersion_def)
  show ?thesis using eq segsig_preimage_injective [OF eq] by (simp add: MAX_SIZE_def)
qed

lemma for_each_cong: "(\<And>x. x \<in> set xs \<Longrightarrow> f x = g x) \<Longrightarrow> for_each f xs = for_each g xs"
  by (induction xs) simp_all

lemma serializer_fields [simp]:
  "txTo (CTransactionSignatureSerializer tx code nIn ht) = tx"
  "scriptCode (CTransactionSignatureSerializer tx code nIn ht) = code"
  "signedIn (CTransactionSignatureSerializer tx code nIn ht) = nIn"
  "fAnyoneCanPay (CTransactionSignatureSerializer tx code nIn ht) = (ht AND SIGHASH_ANYONECANPAY \<noteq> 0)"
  "fHashSingle (CTransactionSignatureSerializer tx code nIn ht) = (ht AND 0x1f = SIGHASH_SINGLE)"
  "fHashNone (CTransactionSignatureSerializer tx code nIn ht) = (ht AND 0x1f = SIGHASH_NONE)"
  by (simp_all add: CTransactionSignatureSerializer_def)

lemma update_fields:
  "nVersion (tx\<lparr>vout := outs\<rparr>) = nVersion tx" "vin (tx\<lparr>vout := outs\<rparr>) = vin tx"
  "nVersion (tx\<lparr>vin := ins\<rparr>) = nVersion tx" "vin (tx\<lparr>vin := ins\<rparr>) = ins"
  by simp_all

lemma serialize_other_outputs:
  "SerializeInput (CTransactionSignatureSerializer (tx\<lparr>vout := outs\<rparr>) code nIn ht) k =
   SerializeInput (CTransactionSignatureSerializer tx code nIn ht) k"
  unfolding SerializeInput_def Let_def serializer_fields update_fields by (rule refl)

lemma serialize_other_inputs:
  "SerializeOutput (CTransactionSignatureSerializer (tx\<lparr>vin := ins\<rparr>) code nIn ht) k =
   SerializeOutput (CTransactionSignatureSerializer tx code nIn ht) k"
  by (simp add: SerializeOutput_def)

lemma serialize_single:
  assumes "ht AND 0x1f = SIGHASH_SINGLE" "nIn < length (vout tx)" "nIn < length outs" "outs ! nIn = vout tx ! nIn"
  shows "SerializeOutput (CTransactionSignatureSerializer (tx\<lparr>vout := outs\<rparr>) code nIn ht) k =
    SerializeOutput (CTransactionSignatureSerializer tx code nIn ht) k"
  using assms by (simp add: SerializeOutput_def vec_index_def)

lemma serialize_anyone:
  assumes "ht AND SIGHASH_ANYONECANPAY \<noteq> 0" "nIn < length (vin tx)" "nIn < length ins" "ins ! nIn = vin tx ! nIn"
  shows "SerializeInput (CTransactionSignatureSerializer (tx\<lparr>vin := ins\<rparr>) code nIn ht) k =
    SerializeInput (CTransactionSignatureSerializer tx code nIn ht) k"
  using assms unfolding SerializeInput_def Let_def serializer_fields update_fields by (simp add: vec_index_def)

lemma hash_none:
  assumes "ht AND 0x1f = SIGHASH_NONE"
  shows "SignatureHash code (tx\<lparr>vout := outs\<rparr>) nIn ht amount sv None = SignatureHash code tx nIn ht amount sv None"
proof -
  have "serializer_Serialize (CTransactionSignatureSerializer (tx\<lparr>vout := outs\<rparr>) code nIn ht) =
      serializer_Serialize (CTransactionSignatureSerializer tx code nIn ht)"
    unfolding serializer_Serialize_def serialize_other_outputs
    using assms by (simp add: Let_def)
  then show ?thesis
    using assms
    by (simp add: SignatureHash_def segsig_hashes_def segsig_preimage_def GetPrevoutHash_def split: prod.split)
qed

lemma hash_single:
  assumes "ht AND 0x1f = SIGHASH_SINGLE" "nIn < length (vout tx)" "nIn < length outs" "outs ! nIn = vout tx ! nIn"
  shows "SignatureHash code (tx\<lparr>vout := outs\<rparr>) nIn ht amount sv None = SignatureHash code tx nIn ht amount sv None"
proof -
  have "serializer_Serialize (CTransactionSignatureSerializer (tx\<lparr>vout := outs\<rparr>) code nIn ht) =
      serializer_Serialize (CTransactionSignatureSerializer tx code nIn ht)"
    unfolding serializer_Serialize_def serialize_other_outputs serialize_single [OF assms]
    using assms by (simp add: Let_def)
  then show ?thesis
    using assms
    by (simp add: SignatureHash_def segsig_hashes_def segsig_preimage_def GetPrevoutHash_def vec_index_def split: prod.split)
qed

lemma hash_anyone:
  assumes "ht AND SIGHASH_ANYONECANPAY \<noteq> 0" "nIn < length (vin tx)" "nIn < length ins" "ins ! nIn = vin tx ! nIn"
  shows "SignatureHash code (tx\<lparr>vin := ins\<rparr>) nIn ht amount sv None = SignatureHash code tx nIn ht amount sv None"
proof -
  have "serializer_Serialize (CTransactionSignatureSerializer (tx\<lparr>vin := ins\<rparr>) code nIn ht) =
      serializer_Serialize (CTransactionSignatureSerializer tx code nIn ht)"
    unfolding serializer_Serialize_def serialize_other_inputs serialize_anyone [OF assms]
    using assms by (simp add: Let_def)
  moreover have "segsig_hashes (tx\<lparr>vin := ins\<rparr>) nIn ht None = segsig_hashes tx nIn ht None"
    using assms(1) by (simp add: segsig_hashes_def Let_def GetOutputsHash_def)
  moreover have "segsig_preimage code (tx\<lparr>vin := ins\<rparr>) i = segsig_preimage code tx i" for i
    by (simp add: segsig_preimage_def fun_eq_iff)
  ultimately show ?thesis using assms by (simp add: SignatureHash_def vec_index_def)
qed

lemma hash_cached:
  assumes "precompute tx = Inr cache"
  shows "SignatureHash code tx nIn ht amount sv (Some cache) = SignatureHash code tx nIn ht amount sv None"
proof -
  obtain h where h: "GetOutputsHash tx = Inr h"
    and c: "cache = \<lparr>hashPrevouts = GetPrevoutHash tx, hashSequence = GetSequenceHash tx, hashOutputs = h\<rparr>"
    using assms by (auto simp: precompute_def exn_simps)
  have "segsig_hashes tx nIn ht (Some cache) = segsig_hashes tx nIn ht None"
    unfolding segsig_hashes_def Let_def c h by simp
  then show ?thesis by (simp add: SignatureHash_def)
qed

text \<open>
  C36. A signature leaves open exactly what its hash type says: with \<^verbatim>\<open>SIGHASH_NONE\<close>
  the outputs can be replaced by any others, with \<^verbatim>\<open>SIGHASH_SINGLE\<close> every output but
  the one of the same index, and with \<^verbatim>\<open>SIGHASH_ANYONECANPAY\<close> every input but the
  signed one, without changing the hash, for both signature versions. And the hashes computed once
  per transaction give the same result as computing them for each signature.
\<close>

theorem SignatureHash_ignores:
  "(ht AND 0x1f = SIGHASH_NONE \<longrightarrow>
     SignatureHash code (tx\<lparr>vout := outs\<rparr>) nIn ht amount sv None = SignatureHash code tx nIn ht amount sv None) \<and>
   (ht AND 0x1f = SIGHASH_SINGLE \<and> nIn < length (vout tx) \<and> nIn < length outs \<and> outs ! nIn = vout tx ! nIn \<longrightarrow>
     SignatureHash code (tx\<lparr>vout := outs\<rparr>) nIn ht amount sv None = SignatureHash code tx nIn ht amount sv None) \<and>
   (ht AND SIGHASH_ANYONECANPAY \<noteq> 0 \<and> nIn < length (vin tx) \<and> nIn < length ins \<and> ins ! nIn = vin tx ! nIn \<longrightarrow>
     SignatureHash code (tx\<lparr>vin := ins\<rparr>) nIn ht amount sv None = SignatureHash code tx nIn ht amount sv None) \<and>
   (precompute tx = Inr cache \<longrightarrow>
     SignatureHash code tx nIn ht amount sv (Some cache) = SignatureHash code tx nIn ht amount sv None)"
proof (intro conjI impI)
  show "SignatureHash code (tx\<lparr>vout := outs\<rparr>) nIn ht amount sv None = SignatureHash code tx nIn ht amount sv None"
    if "ht AND 0x1f = SIGHASH_NONE"
    using that by (rule hash_none)
  show "SignatureHash code (tx\<lparr>vout := outs\<rparr>) nIn ht amount sv None = SignatureHash code tx nIn ht amount sv None"
    if "ht AND 0x1f = SIGHASH_SINGLE \<and> nIn < length (vout tx) \<and> nIn < length outs \<and> outs ! nIn = vout tx ! nIn"
    using that by (intro hash_single) simp_all
  show "SignatureHash code (tx\<lparr>vin := ins\<rparr>) nIn ht amount sv None = SignatureHash code tx nIn ht amount sv None"
    if "ht AND SIGHASH_ANYONECANPAY \<noteq> 0 \<and> nIn < length (vin tx) \<and> nIn < length ins \<and> ins ! nIn = vin tx ! nIn"
    using that by (intro hash_anyone) simp_all
  show "SignatureHash code tx nIn ht amount sv (Some cache) = SignatureHash code tx nIn ht amount sv None"
    if "precompute tx = Inr cache"
    using that by (rule hash_cached)
qed

theorem SignatureHash_ignores_witness:
  "let tx = example_tx\<lparr>vin := [example_txin, CTxIn_default]\<rparr> in
   SignatureHash [0x51] (tx\<lparr>vout := []\<rparr>) 0 0x82 5 SIGVERSION_SEGSIG None =
   SignatureHash [0x51] (tx\<lparr>vin := [example_txin]\<rparr>) 0 0x82 5 SIGVERSION_SEGSIG None"
  using SignatureHash_ignores [where ht = "0x82" and tx = "example_tx\<lparr>vin := [example_txin, CTxIn_default]\<rparr>"
      and outs = "[]" and nIn = 0 and ins = "[example_txin]"]
  by (simp add: Let_def)

section \<open>The checker\<close>

text \<open>The outputs can be written: the old format has only legacy scripts.\<close>

definition outputs_writable :: "CTransaction \<Rightarrow> bool" where
  "outputs_writable tx \<longleftrightarrow>
     IsOldTransactionVersion (nVersion tx) \<longrightarrow> list_all (\<lambda>out. txout_GetType out = 0) (vout tx)"

lemma txout_Write_total: "(IsOldTransactionVersion v \<longrightarrow> txout_GetType out = 0) \<Longrightarrow> \<exists>b. txout_Write v out = Inr b"
  by (simp add: txout_Write_def Let_def)

lemma for_each_total: "(\<And>x. x \<in> set xs \<Longrightarrow> \<exists>b. f x = Inr b) \<Longrightarrow> \<exists>b. for_each f xs = Inr b"
  by (induction xs) (auto, metis bind_e_Inr)

lemma SerializeInput_total:
  "signedIn s < length (vin (txTo s)) \<Longrightarrow> k < length (vin (txTo s)) \<or> fAnyoneCanPay s \<Longrightarrow>
   \<exists>b. SerializeInput s k = Inr b"
  by (auto simp: SerializeInput_def vec_index_def Let_def)

lemma SerializeOutput_total:
  assumes "outputs_writable (txTo s)" "fHashSingle s \<and> k \<noteq> signedIn s \<or> k < length (vout (txTo s))"
  shows "\<exists>b. SerializeOutput s k = Inr b"
proof (cases "fHashSingle s \<and> k \<noteq> signedIn s")
  case True
  then show ?thesis using txout_Write_total [of _ CTxOut_null] by (simp add: SerializeOutput_def CTxOut_null_def txout_GetType_def)
next
  case False
  then show ?thesis
    using assms txout_Write_total [of "nVersion (txTo s)" "vout (txTo s) ! k"]
    by (auto simp: SerializeOutput_def vec_index_def outputs_writable_def list_all_length)
qed

lemma serializer_total:
  assumes "nIn < length (vin tx)" "outputs_writable tx" "ht AND 0x1f = SIGHASH_SINGLE \<longrightarrow> nIn < length (vout tx)"
  shows "\<exists>b. serializer_Serialize (CTransactionSignatureSerializer tx code nIn ht) = Inr b"
proof -
  let ?s = "CTransactionSignatureSerializer tx code nIn ht"
  let ?ins = "[0..<(if ht AND SIGHASH_ANYONECANPAY \<noteq> 0 then 1 else length (vin tx))]"
  let ?outs = "[0..<(if ht AND 0x1f = SIGHASH_NONE then 0 else if ht AND 0x1f = SIGHASH_SINGLE then nIn + 1
      else length (vout tx))]"
  have "\<exists>b. SerializeInput ?s k = Inr b" if "k \<in> set ?ins" for k
    using that assms(1) by (intro SerializeInput_total) (auto split: if_splits)
  then obtain a where a: "for_each (SerializeInput ?s) ?ins = Inr a" using for_each_total by blast
  have "\<exists>b. SerializeOutput ?s k = Inr b" if "k \<in> set ?outs" for k
    using that assms(2,3) by (intro SerializeOutput_total) (auto split: if_splits)
  then obtain b where b: "for_each (SerializeOutput ?s) ?outs = Inr b" using for_each_total by blast
  show ?thesis by (simp only: serializer_Serialize_def Let_def serializer_fields a b bind_e_Inr) blast
qed

lemma segsig_hashes_total:
  assumes "outputs_writable tx"
  shows "\<exists>h. segsig_hashes tx nIn ht cache = Inr h"
proof -
  obtain h where h: "GetOutputsHash tx = Inr h"
    using for_each_total [of "vout tx" "txout_Write (nVersion tx)"] txout_Write_total assms
    by (fastforce simp: GetOutputsHash_def outputs_writable_def list_all_iff)
  have "\<exists>b. txout_Write (nVersion tx) (vout tx ! nIn) = Inr b" if "nIn < length (vout tx)"
    using that assms by (intro txout_Write_total) (auto simp: outputs_writable_def list_all_length)
  then show ?thesis by (auto simp: segsig_hashes_def Let_def h vec_index_def split: option.split)
qed

lemma SignatureHash_total:
  assumes "nIn < length (vin tx)" "outputs_writable tx"
  shows "\<exists>h. SignatureHash code tx nIn ht amount sv cache = Inr h"
  using segsig_hashes_total [OF assms(2), of nIn ht cache] serializer_total [OF assms, of ht code] assms(1)
  by (auto simp: SignatureHash_def vec_index_def)

text \<open>
  The methods of the transaction checker neither index a vector out of range nor fail an
  assertion, for any signature, key, script, operand and hash type, when the checked input exists
  and the outputs can be written: a transaction of the old format has legacy script outputs only.
\<close>

theorem tx_checker_total:
  assumes "c_nIn c < length (vin (c_txTo c))" "outputs_writable (c_txTo c)"
  shows "(\<exists>r. tx_CheckSig ec c sig key code sv = Inr r) \<and> (\<exists>r. tx_CheckLockTime c n = Inr r) \<and>
    (\<exists>r. tx_CheckSequence c n = Inr r)"
proof (intro conjI)
  obtain h where "SignatureHash code (c_txTo c) (c_nIn c) (ucast (last sig)) (c_amount c) sv (c_txdata c) = Inr h"
    using SignatureHash_total [OF assms] by blast
  then show "\<exists>r. tx_CheckSig ec c sig key code sv = Inr r"
    by (auto simp: tx_CheckSig_def Let_def split: option.split)
  show "\<exists>r. tx_CheckLockTime c n = Inr r" by (auto simp: tx_CheckLockTime_def Let_def)
  show "\<exists>r. tx_CheckSequence c n = Inr r" using assms(1) by (auto simp: tx_CheckSequence_def Let_def vec_index_def)
qed

definition example_checker :: tx_checker where
  "example_checker = \<lparr>signatureKeyID = 0, c_txTo = example_tx, c_nIn = 0, c_amount = 5, c_txdata = None\<rparr>"

definition example_curve :: curve where
  "example_curve = \<lparr>RecoverCompact = \<lambda>h s. None, Verify = \<lambda>k h s. False, IsLowS = \<lambda>s. True\<rparr>"

theorem tx_checker_total_witness:
  "\<exists>r. tx_CheckSig example_curve
     example_checker [1, 2, 3] [4] [0x51] SIGVERSION_SEGSIG = Inr r"
  using tx_checker_total [of example_checker]
  by (simp add: example_checker_def outputs_writable_def example_tx_def CTransaction_new_def IsOldTransactionVersion_def)

lemma never_satisfied: "tx_CheckLockTime c n \<noteq> Inr True" "tx_CheckSequence c n \<noteq> Inr True"
  by (auto simp: tx_CheckLockTime_def tx_CheckSequence_def Let_def exn_simps split: if_splits)

text \<open>
  C37. The lock opcodes can never succeed: the two tests that are to make the lock time and the
  transaction's lock time (or sequence number) of the same kind contradict each other, and the
  branch for the compact format rejects every operand. So with the flags set,
  \<^verbatim>\<open>OP_CHECKLOCKTIMEVERIFY\<close> fails every script that executes it, and
  \<^verbatim>\<open>OP_CHECKSEQUENCEVERIFY\<close> succeeds only on an operand that disables it in a legacy
  script.
\<close>

theorem lock_opcodes_never_satisfied:
  "tx_CheckLockTime c n \<noteq> Inr True \<and> tx_CheckSequence c n \<noteq> Inr True \<and>
   (let env = \<lparr>e_flags = flags, e_checker = TransactionSignatureChecker ec c, e_scriptversion = ver\<rparr> in
    (has_flag flags SCRIPT_VERIFY_CHECKLOCKTIMEVERIFY \<longrightarrow> op_CHECKLOCKTIMEVERIFY env s \<noteq> Inr ()) \<and>
    (has_flag flags SCRIPT_VERIFY_CHECKSEQUENCEVERIFY \<and> op_CHECKSEQUENCEVERIFY env s = Inr () \<longrightarrow>
       ver = SCRIPT_V1 \<and> (\<exists>k. CScriptNum (last s) (fRequireMinimal env) 5 = Inr k \<and> k AND 2 ^ 31 \<noteq> 0)))"
  using never_satisfied
  by (auto simp: op_CHECKLOCKTIMEVERIFY_def op_CHECKSEQUENCEVERIFY_def TransactionSignatureChecker_def Let_def
      exn_simps op_helpers require_def throws_def from_back_def last_conv_nth split: if_splits sum.splits)

theorem lock_opcodes_never_satisfied_witness:
  "let env = \<lparr>e_flags = 0x300, e_checker = TransactionSignatureChecker example_curve example_checker, e_scriptversion = SCRIPT_V1\<rparr> in
   op_CHECKLOCKTIMEVERIFY env [[5]] \<noteq> Inr () \<and> op_CHECKSEQUENCEVERIFY env [[0, 0, 0, 0x80, 0]] = Inr () \<and>
   (\<exists>k. CScriptNum [0, 0, 0, 0x80, 0] False 5 = Inr k \<and> k AND 2 ^ 31 \<noteq> 0)"
proof -
  let ?env = "\<lparr>e_flags = 0x300, e_checker = TransactionSignatureChecker example_curve example_checker, e_scriptversion = SCRIPT_V1\<rparr>"
  have num: "CScriptNum [0, 0, 0, 0x80, 0] False 5 = Inr (2 ^ 31)"
    by code_simp
  have csv: "op_CHECKSEQUENCEVERIFY ?env [[0, 0, 0, 0x80, 0]] = Inr ()"
    by (simp add: op_CHECKSEQUENCEVERIFY_def num op_helpers from_back_def fRequireMinimal_def has_flag_def
        SCRIPT_VERIFY_CHECKSEQUENCEVERIFY_def SCRIPT_VERIFY_MINIMALDATA_def require_def)
  have flags: "has_flag 0x300 SCRIPT_VERIFY_CHECKLOCKTIMEVERIFY" "has_flag 0x300 SCRIPT_VERIFY_CHECKSEQUENCEVERIFY"
    "\<not> has_flag 0x300 SCRIPT_VERIFY_MINIMALDATA"
    by (simp_all add: has_flag_def SCRIPT_VERIFY_CHECKLOCKTIMEVERIFY_def SCRIPT_VERIFY_CHECKSEQUENCEVERIFY_def
        SCRIPT_VERIFY_MINIMALDATA_def)
  show ?thesis
    using lock_opcodes_never_satisfied [of example_checker 0 "0x300" example_curve SCRIPT_V1 "[[5]]"]
      lock_opcodes_never_satisfied [of example_checker 0 "0x300" example_curve SCRIPT_V1 "[[0, 0, 0, 0x80, 0]]"] csv flags
    by (simp add: Let_def fRequireMinimal_def)
qed

end
