(* ===== verification/Script_Verify.thy ===== *)
theory Script_Verify
  imports Sighash Script_Safety
begin

text \<open>
  \<^verbatim>\<open>VerifyScript\<close> of \<^verbatim>\<open>src/src/script/interpreter.cpp\<close>: the evaluation of
  the signature script or, when it is empty, of the segregated signature data pushed as a script,
  then of the output script and, for a script hash, of the script it commits to.
\<close>

section \<open>Verification of a script pair\<close>

fun PushAll_from :: "cscript \<Rightarrow> valtype list \<Rightarrow> cpp_exn + cscript" where
  "PushAll_from result [] = Inr result"
| "PushAll_from result (v # vs) =
     bind_e
       (if length v = 0 then push_opcode result OP_0
        else if length v = 1 \<and> v ! 0 \<ge> 1 \<and> v ! 0 \<le> 16 then
          bind_e (EncodeOP_N (uint (v ! 0))) (push_opcode result)
        else Inr (push_data result v))
       (\<lambda>result. PushAll_from result vs)"

definition PushAll :: "valtype list \<Rightarrow> cpp_exn + cscript" where
  "PushAll vs = PushAll_from [] vs"

text \<open>The two tests on the stack after an evaluation.\<close>

definition require_true :: "valtype list \<Rightarrow> failure + unit" where
  "require_true s =
     (if s = [] then Inl (Err SCRIPT_ERR_EVAL_FALSE) else require (CastToBool (last s)) SCRIPT_ERR_EVAL_FALSE)"

text \<open>The additional validation of a script hash, on the stack saved before the output script.\<close>

definition redeem_script ::
  "cscript \<Rightarrow> valtype list \<Rightarrow> script_flags \<Rightarrow> checker \<Rightarrow> ScriptVersion \<Rightarrow> failure + valtype list" where
  "redeem_script sig stackCopy flags chk scriptversion =
     (if \<not> IsPushOnly sig then Inl (Err SCRIPT_ERR_SIG_PUSHONLY)
      else if stackCopy = [] then Inl (Exn AssertFail)
      else
        bind_e (stacktop stackCopy 1) (\<lambda>pubKey2.
        bind_e (popstack stackCopy) (\<lambda>s.
        bind_e (EvalScript s pubKey2 flags chk scriptversion) (\<lambda>s.
        bind_e (require_true s) (\<lambda>_. Inr s)))))"

definition clean_stack :: "valtype list \<Rightarrow> script_flags \<Rightarrow> failure + unit" where
  "clean_stack s flags =
     (if has_flag flags SCRIPT_VERIFY_CLEANSTACK then
        (if \<not> has_flag flags SCRIPT_VERIFY_P2SH then Inl (Exn AssertFail)
         else require (length s = 1) SCRIPT_ERR_CLEANSTACK)
      else Inr ())"

definition VerifyScript ::
  "cscript \<Rightarrow> cscript \<Rightarrow> valtype list option \<Rightarrow> script_flags \<Rightarrow> checker \<Rightarrow> ScriptVersion \<Rightarrow> failure + unit" where
  "VerifyScript sig scriptPubKey witness flags chk scriptversion =
     (let witness = (case witness of None \<Rightarrow> [] | Some w \<Rightarrow> w) in
      if has_flag flags SCRIPT_VERIFY_SIGPUSHONLY \<and> \<not> IsPushOnly sig then Inl (Err SCRIPT_ERR_SIG_PUSHONLY)
      else
        bind_e (if length sig = 0 then throws (PushAll witness) else Inr sig) (\<lambda>scriptSigTemp.
        bind_e (EvalScript [] scriptSigTemp flags chk scriptversion) (\<lambda>stackCopy.
        bind_e (EvalScript stackCopy scriptPubKey flags chk scriptversion) (\<lambda>s.
        bind_e (require_true s) (\<lambda>_.
        bind_e
          (if has_flag flags SCRIPT_VERIFY_P2SH \<and> IsPayToScriptHash scriptPubKey
           then redeem_script sig stackCopy flags chk scriptversion else Inr s)
          (\<lambda>s. clean_stack s flags))))))"

section \<open>Pushing the signature data\<close>

text \<open>The instruction an element is pushed by.\<close>

definition push_item :: "valtype \<Rightarrow> cscript" where
  "push_item v =
     (if v = [] then [0]
      else if length v = 1 \<and> v ! 0 \<ge> 1 \<and> v ! 0 \<le> 16 then [0x50 + v ! 0]
      else push_data [] v)"

lemma push_one:
  "(if length v = 0 then push_opcode r OP_0
    else if length v = 1 \<and> v ! 0 \<ge> 1 \<and> v ! 0 \<le> 16 then bind_e (EncodeOP_N (uint (v ! 0))) (push_opcode r)
    else Inr (push_data r v)) = Inr (r @ push_item v)"
proof (cases "length v = 1 \<and> v ! 0 \<ge> 1 \<and> v ! 0 \<le> 16")
  case True
  then have b: "1 \<le> uint (v ! 0)" "uint (v ! 0) \<le> 16" by (simp_all add: word_le_def)
  have "EncodeOP_N (uint (v ! 0)) = Inr (OP_1 + nat (uint (v ! 0)) - 1)"
    unfolding EncodeOP_N_def using b by auto
  moreover have "word_of_nat (OP_1 + nat (uint (v ! 0)) - 1) = 0x50 + v ! 0" using b by simp
  moreover have "OP_1 + nat (uint (v ! 0)) - 1 \<le> 255" using b by linarith
  ultimately show ?thesis using True by (auto simp: push_opcode_def push_item_def)
next
  case False
  then show ?thesis unfolding push_item_def if_not_P [OF False] push_data_append [of r] by (simp add: push_opcode_def)
qed

lemma PushAll_from_items: "PushAll_from r vs = Inr (r @ concat (map push_item vs))"
  by (induction vs arbitrary: r) (simp_all only: PushAll_from.simps push_one bind_e_Inr, simp_all)

lemma PushAll_items: "PushAll vs = Inr (concat (map push_item vs))"
  by (simp add: PushAll_def PushAll_from_items)

lemma GetOp2_push_minimal:
  assumes "v \<noteq> []" "length v \<le> 520"
  shows "GetOp2 (push_data [] v @ rest) 0 = (length (push_data [] v),
    Some (if length v < 76 then length v else if length v \<le> 255 then OP_PUSHDATA1 else OP_PUSHDATA2, v))"
proof -
  consider "length v < 76" | "76 \<le> length v" "length v \<le> 255" | "255 < length v" by linarith
  then show ?thesis
  proof cases
    case 3
    then have "unat (word_of_nat (length v) :: u16) = length v" using assms(2) by (simp add: unat_of_nat)
    with 3 assms show ?thesis by (simp add: push_data_def GetOp2_def push_size_def Let_def)
  qed (simp_all add: push_data_def GetOp2_def push_size_def Let_def assms)
qed

lemma getvch_small:
  assumes "1 \<le> unat (b :: byte)" "unat b \<le> 16"
  shows "getvch (int (unat b)) = [b]"
proof -
  have "abs_bytes (unat b) = [b]" using assms by (simp add: abs_bytes.simps)
  moreover have "uint b \<noteq> 0" using assms(1) by (auto simp: unsigned_eq_0_iff)
  ultimately show ?thesis using assms by (simp add: getvch_def serialize_def byte_and_128)
qed

lemma push_item_small:
  assumes "length v = 1" "v ! 0 \<ge> 1" "v ! 0 \<le> 16"
  obtains b where "v = [b]" "push_item v = [0x50 + b]" "1 \<le> unat b" "unat b \<le> 16" "unat (0x50 + b) = 80 + unat b"
proof -
  obtain b where v: "v = [b]" using assms(1) by (cases v) auto
  then have b: "1 \<le> unat b" "unat b \<le> 16" using assms by (simp_all add: word_le_nat_alt)
  then have "unat (0x50 + b) = 80 + unat b" by (simp add: unat_word_ariths)
  with v b assms show ?thesis by (intro that) (simp_all add: push_item_def)
qed

lemma push_item_read:
  assumes "length v \<le> MAX_SCRIPT_ELEMENT_SIZE"
  shows "(\<exists>opcode. GetOp2 (pre @ push_item v @ rest) (length pre) = (length pre + length (push_item v), Some (opcode, v)) \<and>
       opcode \<le> OP_PUSHDATA4 \<and> (v \<noteq> [0x81] \<longrightarrow> CheckMinimalPush v opcode)) \<or>
    (\<exists>b. v = [b] \<and> 1 \<le> unat b \<and> unat b \<le> 16 \<and>
       GetOp2 (pre @ push_item v @ rest) (length pre) = (length pre + length (push_item v), Some (80 + unat b, [])))"
proof -
  note at = GetOp2_append [of pre "push_item v @ rest" 0, simplified]
  consider "v = []" | "length v = 1 \<and> v ! 0 \<ge> 1 \<and> v ! 0 \<le> 16"
    | "v \<noteq> []" "\<not> (length v = 1 \<and> v ! 0 \<ge> 1 \<and> v ! 0 \<le> 16)" by blast
  then show ?thesis
  proof cases
    case 1
    then show ?thesis by (simp add: at push_item_def GetOp2_def push_size_def CheckMinimalPush_def)
  next
    case 2
    then obtain b where "v = [b]" "push_item v = [0x50 + b]" "1 \<le> unat b" "unat b \<le> 16" "unat (0x50 + b) = 80 + unat b"
      using push_item_small by blast
    then show ?thesis by (simp add: at GetOp2_def Let_def)
  next
    case 3
    let ?opcode = "if length v < 76 then length v else if length v \<le> 255 then OP_PUSHDATA1 else OP_PUSHDATA2"
    have "push_item v = push_data [] v" unfolding push_item_def if_not_P [OF 3(1)] if_not_P [OF 3(2)] ..
    then have "GetOp2 (pre @ push_item v @ rest) (length pre) = (length pre + length (push_item v), Some (?opcode, v))"
      using GetOp2_push_minimal [of v rest] 3(1) assms at by simp
    moreover have "CheckMinimalPush v ?opcode" if "v \<noteq> [0x81]"
      using that 3 assms by (cases v) (auto simp: CheckMinimalPush_def)
    moreover have "?opcode \<le> OP_PUSHDATA4" by simp
    ultimately show ?thesis by blast
  qed
qed

lemma eval_push_item:
  assumes "pc st = length pre" "vfExec st = []" "length (stack st) + length (altstack st) < MAX_STACK_SIZE"
    and "length v \<le> MAX_SCRIPT_ELEMENT_SIZE" "fRequireMinimal env \<longrightarrow> v \<noteq> [0x81]"
  shows "eval_step env (pre @ push_item v @ rest) st =
    Inr (st\<lparr>pc := length pre + length (push_item v), stack := stack st @ [v]\<rparr>)"
  using push_item_read [OF assms(4), of pre rest]
proof (elim disjE exE conjE)
  fix opcode
  assume "GetOp2 (pre @ push_item v @ rest) (length pre) = (length pre + length (push_item v), Some (opcode, v))"
    "opcode \<le> OP_PUSHDATA4" "v \<noteq> [0x81] \<longrightarrow> CheckMinimalPush v opcode"
  moreover from this assms(5) have "\<not> (fRequireMinimal env \<and> \<not> CheckMinimalPush v opcode)" by blast
  ultimately show ?thesis
    using assms(1-4) by (cases st) (simp add: eval_step_def exec_instruction_def disabled_opcodes_def Let_def)
next
  fix b
  assume "v = [b]" "1 \<le> unat b" "unat b \<le> 16"
    "GetOp2 (pre @ push_item v @ rest) (length pre) = (length pre + length (push_item v), Some (80 + unat b, []))"
  then show ?thesis
    using assms(1-4) getvch_small [of b]
    by (cases st) (simp add: eval_step_def exec_instruction_def exec_opcode_def stack_opcode_def op_push_small_def
        on_stack_def disabled_opcodes_def Let_def)
qed

lemma eval_push_items:
  assumes "vfExec st = []" "altstack st = []" "list_all (\<lambda>v. length v \<le> MAX_SCRIPT_ELEMENT_SIZE) vs"
    and "fRequireMinimal env \<longrightarrow> [0x81] \<notin> set vs"
  shows "pc st = length pre \<Longrightarrow> length (stack st) + length vs \<le> MAX_STACK_SIZE \<Longrightarrow>
    eval_loop env (pre @ concat (map push_item vs)) st =
      Inr (st\<lparr>pc := length (pre @ concat (map push_item vs)), stack := stack st @ vs\<rparr>)"
  using assms
proof (induction vs arbitrary: st pre)
  case Nil
  then show ?case by (simp add: eval_loop_done)
next
  case (Cons v vs)
  let ?script = "pre @ concat (map push_item (v # vs))"
  have "push_item v \<noteq> []" by (simp add: push_item_def push_data_def)
  then have "pc st < length ?script" using Cons.prems by simp
  moreover have "eval_step env ?script st = Inr (st\<lparr>pc := length (pre @ push_item v), stack := stack st @ [v]\<rparr>)"
    using eval_push_item [of st pre v env "concat (map push_item vs)"] Cons.prems by auto
  ultimately have "eval_loop env ?script st = eval_loop env ?script (st\<lparr>pc := length (pre @ push_item v), stack := stack st @ [v]\<rparr>)"
    by (rule eval_loop_step)
  then show ?case
    using Cons.IH [of "st\<lparr>pc := length (pre @ push_item v), stack := stack st @ [v]\<rparr>" "pre @ push_item v"] Cons.prems
    by simp
qed

lemma EvalScript_PushAll:
  assumes "PushAll vs = Inr s" "length s \<le> MAX_SCRIPT_SIZE" "length vs \<le> MAX_STACK_SIZE"
    and "list_all (\<lambda>v. length v \<le> MAX_SCRIPT_ELEMENT_SIZE) vs"
    and "has_flag flags SCRIPT_VERIFY_MINIMALDATA \<longrightarrow> [0x81] \<notin> set vs"
  shows "EvalScript [] s flags chk scriptversion = Inr vs"
  using eval_push_items [of "initial_interp []" vs "\<lparr>e_flags = flags, e_checker = chk, e_scriptversion = scriptversion\<rparr>" "[]"]
    assms
  by (simp add: PushAll_items EvalScript_def initial_interp_def fRequireMinimal_def catch_all_def)

section \<open>No assertion fails\<close>

lemma bind_no_exn:
  assumes "m \<noteq> Inl (Exn e)" "\<And>x. m = Inr x \<Longrightarrow> f x \<noteq> Inl (Exn e)"
  shows "bind_e m f \<noteq> Inl (Exn e)"
  using assms by (auto simp: exn_simps)

lemma require_true_no_exn: "require_true s \<noteq> Inl (Exn e)"
  by (simp add: require_true_def require_def)

lemma redeem_script_no_exn:
  assumes "st \<noteq> []"
  shows "redeem_script sig st flags chk ver \<noteq> Inl (Exn e)"
proof -
  have "bind_e (EvalScript (butlast st) k flags chk ver) (\<lambda>s. bind_e (require_true s) (\<lambda>_. Inr s)) \<noteq> Inl (Exn e)" for k
    by (intro bind_no_exn EvalScript_no_exn require_true_no_exn) simp
  moreover have "Suc 0 \<le> length st" using assms by (cases st) auto
  ultimately show ?thesis
    using assms by (simp add: redeem_script_def stacktop_def popstack_def from_back_def pop_back_def)
qed

lemma script_hash_needs_stack:
  assumes "IsPayToScriptHash spk"
  shows "EvalScript [] spk flags chk ver \<noteq> Inr s"
proof -
  let ?env = "\<lparr>e_flags = flags, e_checker = chk, e_scriptversion = ver\<rparr>"
  have spk: "length spk = 23" "unat (spk ! 0) = OP_HASH160" using assms by (simp_all add: IsPayToScriptHash_def)
  have "eval_step ?env spk (initial_interp []) = Inl (Err SCRIPT_ERR_INVALID_STACK_OPERATION)"
    using spk by (simp add: eval_step_def initial_interp_def GetOp2_def disabled_opcodes_def exec_instruction_def
        exec_opcode_def stack_opcode_def op_HASH_def op_helpers on_stack_def require_def)
  then have "eval_loop ?env spk (initial_interp []) = Inl (Err SCRIPT_ERR_INVALID_STACK_OPERATION)"
    using spk by (simp add: eval_loop.simps [of ?env spk] initial_interp_def)
  then show ?thesis by (simp add: EvalScript_def catch_all_def)
qed

text \<open>
  Script verification always ends with success or a script error: neither of its two
  assertions can fail, provided the clean-stack flag comes with the script-hash flag as its comment
  demands. In particular the stack saved before the output script is never empty when the script of
  a script hash is taken from it.
\<close>

theorem VerifyScript_no_exception:
  assumes "has_flag flags SCRIPT_VERIFY_CLEANSTACK \<longrightarrow> has_flag flags SCRIPT_VERIFY_P2SH"
  shows "VerifyScript sig spk witness flags chk ver \<noteq> Inl (Exn e)"
proof (cases "has_flag flags SCRIPT_VERIFY_SIGPUSHONLY \<and> \<not> IsPushOnly sig")
  case True
  then show ?thesis by (simp add: VerifyScript_def)
next
  case False
  have clean: "clean_stack s flags \<noteq> Inl (Exn e)" for s
    using assms by (simp add: clean_stack_def require_def)
  have redeem: "(if c \<and> IsPayToScriptHash spk then redeem_script sig st flags chk ver else Inr s) \<noteq> Inl (Exn e)"
    if "EvalScript st spk flags chk ver = Inr s" for c st s
    using that script_hash_needs_stack redeem_script_no_exn by (cases "st = []") auto
  have sig: "(if length sig = 0 then throws (PushAll w) else Inr sig) \<noteq> Inl (Exn e)" for w
    by (simp add: PushAll_items)
  show ?thesis
    unfolding VerifyScript_def Let_def if_not_P [OF False]
    by (intro bind_no_exn sig EvalScript_no_exn require_true_no_exn redeem clean)
qed

theorem VerifyScript_no_exception_witness:
  "has_flag 0x81 SCRIPT_VERIFY_CLEANSTACK \<and>
   VerifyScript [0x51] [0x87] None 0x81 (BaseSignatureChecker (\<lambda>_. True)) SCRIPT_V1 \<noteq> Inl (Exn AssertFail)"
  using VerifyScript_no_exception [of "0x81"]
  by (simp add: has_flag_def SCRIPT_VERIFY_CLEANSTACK_def SCRIPT_VERIFY_P2SH_def)

section \<open>The signature data\<close>

text \<open>A stack that ends an evaluation with success, and the rule of the clean stack.\<close>

definition accepted_stack :: "valtype list \<Rightarrow> bool" where
  "accepted_stack st \<longleftrightarrow> st \<noteq> [] \<and> CastToBool (last st)"

definition stack_clean :: "script_flags \<Rightarrow> valtype list \<Rightarrow> bool" where
  "stack_clean flags st \<longleftrightarrow> (has_flag flags SCRIPT_VERIFY_CLEANSTACK \<longrightarrow> length st = 1)"

lemma require_true_accepted: "require_true st = Inr () \<longleftrightarrow> accepted_stack st"
  by (auto simp: require_true_def accepted_stack_def require_def)

lemma clean_stack_clean:
  "has_flag flags SCRIPT_VERIFY_CLEANSTACK \<longrightarrow> has_flag flags SCRIPT_VERIFY_P2SH \<Longrightarrow> clean_stack st flags = Inr () \<longleftrightarrow> stack_clean flags st"
  by (auto simp: clean_stack_def stack_clean_def require_def)

text \<open>
  C38. The segregated signature data is the stack the output script starts from. For an empty signature script
  and signature data within the limits (no element \<^verbatim>\<open>0x81\<close> alone under the minimal-push rule,
  because \<^verbatim>\<open>PushAll\<close> does not use \<^verbatim>\<open>OP_1NEGATE\<close>), verification succeeds exactly
  when the output script evaluates on that stack to a true element; for the hash of a script the last element
  of the data, evaluated as a script on the others, must end so too; and where a clean stack is required, the
  true element is the only one left. A signature script that is not empty is evaluated instead of the
  signature data, which is then ignored.
\<close>

theorem VerifyScript_signature_data:
  assumes "PushAll vs = Inr s" "length s \<le> MAX_SCRIPT_SIZE" "length vs \<le> MAX_STACK_SIZE"
    and "list_all (\<lambda>v. length v \<le> MAX_SCRIPT_ELEMENT_SIZE) vs"
    and "has_flag flags SCRIPT_VERIFY_MINIMALDATA \<longrightarrow> [0x81] \<notin> set vs"
    and "has_flag flags SCRIPT_VERIFY_CLEANSTACK \<longrightarrow> has_flag flags SCRIPT_VERIFY_P2SH"
  shows "(VerifyScript [] spk (Some vs) flags chk ver = Inr () \<longleftrightarrow>
      (\<exists>st. EvalScript vs spk flags chk ver = Inr st \<and> accepted_stack st \<and>
         (if has_flag flags SCRIPT_VERIFY_P2SH \<and> IsPayToScriptHash spk
          then \<exists>st'. EvalScript (butlast vs) (last vs) flags chk ver = Inr st' \<and> accepted_stack st' \<and> stack_clean flags st'
          else stack_clean flags st))) \<and>
    (sig \<noteq> [] \<longrightarrow> VerifyScript sig spk (Some vs) flags chk ver = VerifyScript sig spk None flags chk ver)"
proof -
  have e: "EvalScript [] s flags chk ver = Inr vs" using assms(1-5) by (rule EvalScript_PushAll)
  have p: "IsPushOnly []" by (simp add: IsPushOnly_def IsPushOnly_from.simps)
  have redeem: "redeem_script [] vs flags chk ver = Inr st' \<longleftrightarrow> EvalScript (butlast vs) (last vs) flags chk ver = Inr st' \<and> accepted_stack st'"
    if hash: "IsPayToScriptHash spk" and st: "EvalScript vs spk flags chk ver = Inr st" for st st'
  proof -
    have ne: "vs \<noteq> []" using script_hash_needs_stack [OF hash] st by metis
    then have "Suc 0 \<le> length vs" by (cases vs) auto
    then show ?thesis
      using ne p by (auto simp: redeem_script_def stacktop_def popstack_def from_back_def pop_back_def last_conv_nth exn_simps require_true_accepted)
  qed
  have "VerifyScript [] spk (Some vs) flags chk ver = Inr () \<longleftrightarrow>
    (\<exists>st. EvalScript vs spk flags chk ver = Inr st \<and> accepted_stack st \<and>
      (\<exists>st'. (if has_flag flags SCRIPT_VERIFY_P2SH \<and> IsPayToScriptHash spk then redeem_script [] vs flags chk ver else Inr st) = Inr st' \<and>
        stack_clean flags st'))"
    using assms(1) e p clean_stack_clean [OF assms(6)] by (simp add: VerifyScript_def exn_simps require_true_accepted)
  also have "\<dots> \<longleftrightarrow> (\<exists>st. EvalScript vs spk flags chk ver = Inr st \<and> accepted_stack st \<and>
      (if has_flag flags SCRIPT_VERIFY_P2SH \<and> IsPayToScriptHash spk
       then \<exists>st'. EvalScript (butlast vs) (last vs) flags chk ver = Inr st' \<and> accepted_stack st' \<and> stack_clean flags st'
       else stack_clean flags st))"
  proof (cases "has_flag flags SCRIPT_VERIFY_P2SH \<and> IsPayToScriptHash spk")
    case True
    then show ?thesis using redeem by fastforce
  qed auto
  finally show ?thesis by (auto simp: VerifyScript_def Let_def)
qed

theorem VerifyScript_signature_data_witness:
  "VerifyScript [] [0x76, 0x6b] (Some [[7]]) 0 (BaseSignatureChecker (\<lambda>_. True)) SCRIPT_V2 = Inr ()"
proof -
  have p: "PushAll [[7]] = Inr [0x57]" by (simp add: PushAll_items push_item_def)
  have e: "EvalScript [[7]] [0x76, 0x6b] 0 (BaseSignatureChecker (\<lambda>_. True)) SCRIPT_V2 = Inr [[7]]"
    by (simp add: EvalScript_def eval_simps op_DUP_def op_TOALTSTACK_def op_helpers catch_all_def pop_back_def from_back_def)
  have "accepted_stack [[7]]" "stack_clean 0 [[7]]" by (simp_all add: accepted_stack_def stack_clean_def)
  then show ?thesis
    using VerifyScript_signature_data [OF p, of 0 "[0x76, 0x6b]" "BaseSignatureChecker (\<lambda>_. True)" SCRIPT_V2] e
    by (simp add: has_flag_def IsPayToScriptHash_def)
qed

end
