(* ===== verification/Arith_Uint256.thy ===== *)
theory Arith_Uint256
  imports Munt_Prelude
begin

text \<open>
  The 256-bit unsigned integers of \<^verbatim>\<open>src/src/arith_uint256.h\<close> and
  \<^verbatim>\<open>arith_uint256.cpp\<close>: an array of eight 32-bit limbs, the least significant first,
  with the loops of the source over it. Each operation refines the one of 256-bit words.
\<close>

section \<open>The operations on limbs\<close>

type_synonym limbs = "u32 list"

definition WIDTH :: nat where
  "WIDTH = 8"

definition base_uint_zero :: limbs where
  "base_uint_zero = replicate WIDTH 0"

definition base_uint_of :: "u64 \<Rightarrow> limbs" where
  "base_uint_of b = [ucast b, ucast (drop_bit 32 b)] @ replicate (WIDTH - 2) 0"

definition uint_is_zero :: "limbs \<Rightarrow> bool" where
  "uint_is_zero a \<longleftrightarrow> list_all (\<lambda>p. p = 0) a"

definition uint_not :: "limbs \<Rightarrow> limbs" where
  "uint_not a = map (\<lambda>p. NOT p) a"

text \<open>\<^verbatim>\<open>operator++\<close> and \<^verbatim>\<open>operator--\<close>: the carry stops at the last limb.\<close>

fun uint_inc :: "limbs \<Rightarrow> limbs" where
  "uint_inc [] = []"
| "uint_inc (p # ps) = (if p + 1 = 0 \<and> ps \<noteq> [] then (p + 1) # uint_inc ps else (p + 1) # ps)"

fun uint_dec :: "limbs \<Rightarrow> limbs" where
  "uint_dec [] = []"
| "uint_dec (p # ps) = (if p - 1 = - 1 \<and> ps \<noteq> [] then (p - 1) # uint_dec ps else (p - 1) # ps)"

definition uint_neg :: "limbs \<Rightarrow> limbs" where
  "uint_neg a = uint_inc (uint_not a)"

fun add_loop :: "u64 \<Rightarrow> limbs \<Rightarrow> limbs \<Rightarrow> limbs" where
  "add_loop carry (p # ps) (b # bs) =
     (let n = carry + ucast p + ucast b
      in ucast (n AND 0xffffffff) # add_loop (drop_bit 32 n) ps bs)"
| "add_loop carry ps bs = []"

definition uint_add :: "limbs \<Rightarrow> limbs \<Rightarrow> limbs" where
  "uint_add a b = add_loop 0 a b"

definition uint_sub :: "limbs \<Rightarrow> limbs \<Rightarrow> limbs" where
  "uint_sub a b = uint_add a (uint_neg b)"

definition uint_and :: "limbs \<Rightarrow> limbs \<Rightarrow> limbs" where
  "uint_and a b = map2 (AND) a b"

definition uint_or :: "limbs \<Rightarrow> limbs \<Rightarrow> limbs" where
  "uint_or a b = map2 (OR) a b"

definition uint_xor :: "limbs \<Rightarrow> limbs \<Rightarrow> limbs" where
  "uint_xor a b = map2 (XOR) a b"

fun mul32_loop :: "u64 \<Rightarrow> u32 \<Rightarrow> limbs \<Rightarrow> limbs" where
  "mul32_loop carry b32 [] = []"
| "mul32_loop carry b32 (p # ps) =
     (let n = carry + ucast b32 * ucast p
      in ucast (n AND 0xffffffff) # mul32_loop (drop_bit 32 n) b32 ps)"

definition uint_mul32 :: "limbs \<Rightarrow> u32 \<Rightarrow> limbs" where
  "uint_mul32 a b32 = mul32_loop 0 b32 a"

text \<open>
  The inner loop of the long multiplication runs over the limbs of the result from \<open>j\<close> on and
  the limbs of \<open>b\<close> from the first; the outer one over \<open>j\<close>.
\<close>

fun mul_row :: "u64 \<Rightarrow> u32 \<Rightarrow> limbs \<Rightarrow> limbs \<Rightarrow> limbs" where
  "mul_row carry aj (p # ps) (b # bs) =
     (let n = carry + ucast p + ucast aj * ucast b
      in ucast (n AND 0xffffffff) # mul_row (drop_bit 32 n) aj ps bs)"
| "mul_row carry aj ps bs = ps"

text \<open>\<^verbatim>\<open>operator*=\<close> on two different objects, as \<^verbatim>\<open>operator*\<close> calls it with a copy; it
  clears its target first, so that \<^verbatim>\<open>x *= x\<close> would be zero.\<close>

definition uint_mul :: "limbs \<Rightarrow> limbs \<Rightarrow> limbs" where
  "uint_mul a b =
     foldl (\<lambda>pn j. take j pn @ mul_row 0 (a ! j) (drop j pn) b) base_uint_zero [0..<WIDTH]"

definition shl_step :: "limbs \<Rightarrow> nat \<Rightarrow> nat \<Rightarrow> limbs \<Rightarrow> nat \<Rightarrow> limbs" where
  "shl_step a k s pn i =
     (let pn = (if i + k + 1 < WIDTH \<and> s \<noteq> 0
                then pn[i + k + 1 := pn ! (i + k + 1) OR drop_bit (32 - s) (a ! i)] else pn)
      in if i + k < WIDTH then pn[i + k := pn ! (i + k) OR push_bit s (a ! i)] else pn)"

definition uint_shl :: "limbs \<Rightarrow> nat \<Rightarrow> limbs" where
  "uint_shl a n = foldl (shl_step a (n div 32) (n mod 32)) base_uint_zero [0..<WIDTH]"

definition shr_step :: "limbs \<Rightarrow> nat \<Rightarrow> nat \<Rightarrow> limbs \<Rightarrow> nat \<Rightarrow> limbs" where
  "shr_step a k s pn i =
     (let pn = (if i \<ge> k + 1 \<and> s \<noteq> 0
                then pn[i - k - 1 := pn ! (i - k - 1) OR push_bit (32 - s) (a ! i)] else pn)
      in if i \<ge> k then pn[i - k := pn ! (i - k) OR drop_bit s (a ! i)] else pn)"

definition uint_shr :: "limbs \<Rightarrow> nat \<Rightarrow> limbs" where
  "uint_shr a n = foldl (shr_step a (n div 32) (n mod 32)) base_uint_zero [0..<WIDTH]"

text \<open>\<^verbatim>\<open>CompareTo\<close> looks at the limbs from the most significant one down.\<close>

fun compare_loop :: "limbs \<Rightarrow> limbs \<Rightarrow> int" where
  "compare_loop (p # ps) (q # qs) = (if p < q then - 1 else if p > q then 1 else compare_loop ps qs)"
| "compare_loop ps qs = 0"

definition CompareTo :: "limbs \<Rightarrow> limbs \<Rightarrow> int" where
  "CompareTo a b = compare_loop (rev a) (rev b)"

definition EqualTo :: "limbs \<Rightarrow> u64 \<Rightarrow> bool" where
  "EqualTo a b \<longleftrightarrow>
     list_all (\<lambda>p. p = 0) (drop 2 a) \<and> ucast (a ! 1) = drop_bit 32 b \<and> ucast (a ! 0) = b AND 0xffffffff"

fun limb_bits :: "u32 \<Rightarrow> nat \<Rightarrow> nat" where
  "limb_bits w 0 = 1"
| "limb_bits w (Suc n) = (if w AND push_bit (Suc n) 1 \<noteq> 0 then Suc n + 1 else limb_bits w n)"

fun bits_loop :: "limbs \<Rightarrow> nat \<Rightarrow> nat" where
  "bits_loop a 0 = 0"
| "bits_loop a (Suc pos) = (if a ! pos \<noteq> 0 then 32 * pos + limb_bits (a ! pos) 31 else bits_loop a pos)"

definition uint_bits :: "limbs \<Rightarrow> nat" where
  "uint_bits a = bits_loop a WIDTH"

definition GetLow64 :: "limbs \<Rightarrow> u64" where
  "GetLow64 a = ucast (a ! 0) OR push_bit 32 (ucast (a ! 1))"

text \<open>The long division: the loop runs for the shifts \<open>n - 1\<close> down to zero.\<close>

fun div_loop :: "nat \<Rightarrow> limbs \<Rightarrow> limbs \<Rightarrow> limbs \<Rightarrow> limbs" where
  "div_loop 0 num dv q = q"
| "div_loop (Suc n) num dv q =
     (if CompareTo num dv \<ge> 0
      then div_loop n (uint_sub num dv) (uint_shr dv 1) (q[n div 32 := q ! (n div 32) OR push_bit (n mod 32) 1])
      else div_loop n num (uint_shr dv 1) q)"

definition uint_div :: "limbs \<Rightarrow> limbs \<Rightarrow> cpp_exn + limbs" where
  "uint_div a b =
     (let num_bits = uint_bits a; div_bits = uint_bits b in
      if div_bits = 0 then Inl RuntimeError
      else if div_bits > num_bits then Inr base_uint_zero
      else let shift = num_bits - div_bits
           in Inr (div_loop (shift + 1) a (uint_shl b shift) base_uint_zero))"

section \<open>Conversion from and to byte blobs\<close>

definition ArithToUint256 :: "limbs \<Rightarrow> byte list" where
  "ArithToUint256 a = concat (map WriteLE32 a)"

definition UintToArith256 :: "byte list \<Rightarrow> limbs" where
  "UintToArith256 b = map (\<lambda>x. ReadLE32 (drop (x * 4) b)) [0..<WIDTH]"

section \<open>The value of the limbs\<close>

fun limbs_nat :: "limbs \<Rightarrow> nat" where
  "limbs_nat [] = 0"
| "limbs_nat (p # ps) = unat p + 2 ^ 32 * limbs_nat ps"

definition wf_uint :: "limbs \<Rightarrow> bool" where
  "wf_uint a \<longleftrightarrow> length a = WIDTH"

definition uint_word :: "limbs \<Rightarrow> uint256" where
  "uint_word a = word_of_nat (limbs_nat a)"

lemma limbs_nat_less: "limbs_nat a < 2 ^ (32 * length a)"
proof (induction a)
  case (Cons p ps)
  have "unat p + 2 ^ 32 * limbs_nat ps < 2 ^ 32 * (1 + limbs_nat ps)" using unat_less_2p [of p] by simp
  also have "\<dots> \<le> 2 ^ 32 * 2 ^ (32 * length ps)" using Cons by (intro mult_le_mono2) simp
  finally show ?case by (simp add: power_add)
qed simp

lemma unat_uint_word: "wf_uint a \<Longrightarrow> unat (uint_word a) = limbs_nat a"
  using limbs_nat_less [of a] by (simp add: uint_word_def wf_uint_def WIDTH_def unat_of_nat)

lemma limbs_nat_append: "limbs_nat (a @ b) = limbs_nat a + 2 ^ (32 * length a) * limbs_nat b"
  by (induction a) (simp_all add: algebra_simps power_add)

lemma limbs_nat_replicate [simp]: "limbs_nat (replicate n 0) = 0"
  by (induction n) simp_all

lemma wf_zero [simp]: "wf_uint base_uint_zero" "limbs_nat base_uint_zero = 0"
  by (simp_all add: wf_uint_def base_uint_zero_def)

text \<open>The bits of the value are the bits of the limbs.\<close>

lemma bit_limbs_nat: "bit (limbs_nat a) n \<longleftrightarrow> n div 32 < length a \<and> bit (a ! (n div 32)) (n mod 32)"
proof (induction a arbitrary: n)
  case (Cons p ps)
  have "unat p + 2 ^ 32 * limbs_nat ps = unat p OR push_bit 32 (limbs_nat ps)"
  proof -
    have "\<not> bit (unat p) m \<or> \<not> bit (push_bit 32 (limbs_nat ps)) m" for m
      by (auto simp: bit_push_bit_iff bit_unsigned_iff dest: bit_imp_le_length)
    then show ?thesis by (subst disjunctive_add [symmetric]) (auto simp: push_bit_eq_mult mult.commute)
  qed
  then have *: "bit (limbs_nat (p # ps)) n \<longleftrightarrow> bit p n \<or> 32 \<le> n \<and> bit (limbs_nat ps) (n - 32)"
    by (simp add: bit_or_iff bit_push_bit_iff bit_unsigned_iff)
  show ?case
  proof (cases "n < 32")
    case True
    then show ?thesis unfolding * by simp
  next
    case False
    then have "\<not> bit p n" by (auto dest: bit_imp_le_length)
    moreover have "n div 32 = Suc ((n - 32) div 32)" "n mod 32 = (n - 32) mod 32"
      using False by (simp_all add: le_div_geq le_mod_geq)
    ultimately show ?thesis unfolding * using Cons False by simp
  qed
qed simp

lemma bit_uint_word:
  assumes "wf_uint a"
  shows "bit (uint_word a) n \<longleftrightarrow> n < 256 \<and> bit (a ! (n div 32)) (n mod 32)"
proof -
  have "bit (uint_word a) n \<longleftrightarrow> bit (unat (uint_word a)) n" by (simp add: bit_unsigned_iff)
  also have "\<dots> \<longleftrightarrow> n < 256 \<and> bit (a ! (n div 32)) (n mod 32)"
    using assms by (simp add: unat_uint_word bit_limbs_nat wf_uint_def WIDTH_def less_mult_imp_div_less div_less_iff_less_mult)
  finally show ?thesis .
qed

lemma limbs_nat_inject: "length a = length b \<Longrightarrow> limbs_nat a = limbs_nat b \<Longrightarrow> a = b"
proof (induction a b rule: list_induct2)
  case (Cons p ps q qs)
  have "(unat p + 2 ^ 32 * limbs_nat ps) mod 2 ^ 32 = (unat q + 2 ^ 32 * limbs_nat qs) mod 2 ^ 32"
    using Cons(3) by (simp only: limbs_nat.simps)
  then have "unat p = unat q" using unat_less_2p [of p] unat_less_2p [of q] by simp
  with Cons show ?case by (simp add: word_unat_eq_iff)
qed simp

lemma uint_word_inject: "wf_uint a \<Longrightarrow> wf_uint b \<Longrightarrow> uint_word a = uint_word b \<longleftrightarrow> a = b"
  using limbs_nat_inject [of a b] unat_uint_word [of a] unat_uint_word [of b] by (auto simp: wf_uint_def)

section \<open>Refinement\<close>

text \<open>
  An operation on limbs that implements one on 256-bit words, and what follows for a whole
  computation with it.
\<close>

locale refines =
  fixes f :: "limbs \<Rightarrow> limbs \<Rightarrow> limbs" and g :: "uint256 \<Rightarrow> uint256 \<Rightarrow> uint256"
  assumes wf: "wf_uint a \<Longrightarrow> wf_uint b \<Longrightarrow> wf_uint (f a b)"
    and abs: "wf_uint a \<Longrightarrow> wf_uint b \<Longrightarrow> uint_word (f a b) = g (uint_word a) (uint_word b)"
begin

lemma fold_wf: "wf_uint a \<Longrightarrow> list_all wf_uint bs \<Longrightarrow> wf_uint (foldl f a bs)"
  by (induction bs arbitrary: a) (simp_all add: wf)

lemma fold_abs:
  "wf_uint a \<Longrightarrow> list_all wf_uint bs \<Longrightarrow> uint_word (foldl f a bs) = foldl g (uint_word a) (map uint_word bs)"
  by (induction bs arbitrary: a) (simp_all add: wf abs)

end

lemma unat_low32: "unat (ucast (n AND 0xffffffff) :: u32) = unat (n :: u64) mod 2 ^ 32"
proof -
  have "n AND 0xffffffff = take_bit 32 n" by (simp add: take_bit_eq_mask mask_eq_exp_minus_1)
  then have "unat (ucast (n AND 0xffffffff) :: u32) = take_bit 32 (take_bit 32 (unat n))"
    by (simp only: unsigned_ucast_eq unsigned_take_bit_eq) simp
  then show ?thesis by (simp add: take_bit_eq_mod)
qed

lemma unat_high32: "unat (drop_bit 32 (n :: u64)) = unat n div 2 ^ 32"
  by (simp add: drop_bit_eq_div unat_div_distrib)

lemma unat_up [simp]: "unat (ucast (p :: u32) :: u64) = unat p"
  using unat_less_2p [of p] by (simp add: unsigned_ucast_eq take_bit_nat_eq_self)

lemma unat_add_small: "unat x + unat y < 2 ^ 64 \<Longrightarrow> unat (x + y :: u64) = unat x + unat y"
  by (simp add: unat_word_ariths)

lemma unat_mult_small: "unat x * unat y < 2 ^ 64 \<Longrightarrow> unat (x * y :: u64) = unat x * unat y"
  by (simp add: unat_word_ariths)

lemma carry_step: "x mod B + B * ((x div B + R) mod B ^ k) = (x + B * R) mod B ^ Suc k" if "0 < B" for B :: nat
  using that by (simp add: mod_mult2_eq add.commute)

lemma carry_limb:
  assumes "limbs_nat rest = (unat (drop_bit 32 n) + R) mod 2 ^ (32 * k)"
  shows "limbs_nat (ucast (n AND 0xffffffff) # rest) = (unat (n :: u64) + 2 ^ 32 * R) mod 2 ^ (32 * Suc k)"
proof -
  have "limbs_nat (ucast (n AND 0xffffffff) # rest) = unat n mod 2 ^ 32 + 2 ^ 32 * ((unat n div 2 ^ 32 + R) mod (2 ^ 32) ^ k)"
    unfolding limbs_nat.simps assms unat_low32 unat_high32 power_mult ..
  also have "\<dots> = (unat n + 2 ^ 32 * R) mod (2 ^ 32) ^ Suc k" by (rule carry_step) simp
  finally show ?thesis unfolding power_mult .
qed

lemma add_loop_value:
  "length ps = length bs \<Longrightarrow> unat c \<le> 1 \<Longrightarrow>
   limbs_nat (add_loop c ps bs) = (unat c + (limbs_nat ps + limbs_nat bs)) mod 2 ^ (32 * length ps) \<and>
   length (add_loop c ps bs) = length ps"
proof (induction c ps bs rule: add_loop.induct)
  case (1 c p ps b bs)
  define n :: u64 where "n = c + ucast p + ucast b"
  have n: "unat n = unat c + unat p + unat b"
    using 1(3) unat_less_2p [of p] unat_less_2p [of b] by (simp add: n_def unat_add_small)
  then have "unat (drop_bit 32 n) \<le> 1"
    using 1(3) unat_less_2p [of p] unat_less_2p [of b] by (simp add: unat_high32)
  then have ih: "limbs_nat (add_loop (drop_bit 32 n) ps bs) =
      (unat (drop_bit 32 n) + (limbs_nat ps + limbs_nat bs)) mod 2 ^ (32 * length ps)"
      "length (add_loop (drop_bit 32 n) ps bs) = length ps"
    using 1(1) [OF n_def] 1(2) by simp_all
  have "unat n + 2 ^ 32 * (limbs_nat ps + limbs_nat bs) = unat c + (limbs_nat (p # ps) + limbs_nat (b # bs))"
    by (simp add: n)
  note eq = carry_limb [OF ih(1), unfolded this]
  show ?case unfolding add_loop.simps Let_def n_def [symmetric] length_Cons ih(2) by (intro conjI eq refl)
qed simp_all

lemma mul32_loop_value:
  "unat c < 2 ^ 32 \<Longrightarrow>
   limbs_nat (mul32_loop c b ps) = (unat c + unat b * limbs_nat ps) mod 2 ^ (32 * length ps) \<and>
   length (mul32_loop c b ps) = length ps"
proof (induction c b ps rule: mul32_loop.induct)
  case (2 c b p ps)
  define n :: u64 where "n = c + ucast b * ucast p"
  have prod: "unat b * unat p \<le> (2 ^ 32 - 1) * (2 ^ 32 - 1)"
    using unat_less_2p [of p] unat_less_2p [of b] by (intro mult_le_mono) simp_all
  have n: "unat n = unat c + unat b * unat p"
    using 2(2) prod by (simp add: n_def unat_add_small unat_mult_small)
  then have "unat (drop_bit 32 n) < 2 ^ 32" using 2(2) prod by (simp add: unat_high32)
  then have ih: "limbs_nat (mul32_loop (drop_bit 32 n) b ps) =
      (unat (drop_bit 32 n) + unat b * limbs_nat ps) mod 2 ^ (32 * length ps)"
      "length (mul32_loop (drop_bit 32 n) b ps) = length ps"
    using 2(1) [OF n_def] by simp_all
  have "unat n + 2 ^ 32 * (unat b * limbs_nat ps) = unat c + unat b * limbs_nat (p # ps)"
    by (simp add: n algebra_simps)
  note eq = carry_limb [OF ih(1), unfolded this]
  show ?case unfolding mul32_loop.simps Let_def n_def [symmetric] length_Cons ih(2) by (intro conjI eq refl)
qed simp

lemma mul_row_value:
  "length ps \<le> length bs \<Longrightarrow> unat c < 2 ^ 32 \<Longrightarrow>
   limbs_nat (mul_row c a ps bs) = (unat c + (limbs_nat ps + unat a * limbs_nat bs)) mod 2 ^ (32 * length ps) \<and>
   length (mul_row c a ps bs) = length ps"
proof (induction c a ps bs rule: mul_row.induct)
  case (1 c a p ps b bs)
  define n :: u64 where "n = c + ucast p + ucast a * ucast b"
  have prod: "unat a * unat b \<le> (2 ^ 32 - 1) * (2 ^ 32 - 1)"
    using unat_less_2p [of a] unat_less_2p [of b] by (intro mult_le_mono) simp_all
  have n: "unat n = unat c + unat p + unat a * unat b"
    using 1(3) prod unat_less_2p [of p] by (simp add: n_def unat_add_small unat_mult_small)
  then have "unat (drop_bit 32 n) < 2 ^ 32" using 1(3) prod unat_less_2p [of p] by (simp add: unat_high32)
  then have ih: "limbs_nat (mul_row (drop_bit 32 n) a ps bs) =
      (unat (drop_bit 32 n) + (limbs_nat ps + unat a * limbs_nat bs)) mod 2 ^ (32 * length ps)"
      "length (mul_row (drop_bit 32 n) a ps bs) = length ps"
    using 1(1) [OF n_def] 1(2) by simp_all
  have "unat n + 2 ^ 32 * (limbs_nat ps + unat a * limbs_nat bs) = unat c + (limbs_nat (p # ps) + unat a * limbs_nat (b # bs))"
    by (simp add: n algebra_simps)
  note eq = carry_limb [OF ih(1), unfolded this]
  show ?case unfolding mul_row.simps Let_def n_def [symmetric] length_Cons ih(2) by (intro conjI eq refl)
qed simp_all

lemma uint_word_eqI: "limbs_nat a mod 2 ^ 256 = n mod 2 ^ 256 \<Longrightarrow> uint_word a = word_of_nat n"
  by (simp add: uint_word_def word_unat_eq_iff unat_of_nat)

lemma uint_word_limbs: "limbs_nat a = n mod 2 ^ 256 \<Longrightarrow> uint_word a = word_of_nat n"
  by (rule uint_word_eqI) simp

interpretation add_refines: refines uint_add "(+)"
proof
  fix a b assume ab: "wf_uint a" "wf_uint b"
  then have v: "limbs_nat (uint_add a b) = (limbs_nat a + limbs_nat b) mod 2 ^ 256" "wf_uint (uint_add a b)"
    using add_loop_value [of a b 0] by (simp_all add: uint_add_def wf_uint_def WIDTH_def)
  then show "wf_uint (uint_add a b)" by simp
  show "uint_word (uint_add a b) = uint_word a + uint_word b"
    using uint_word_limbs [OF v(1)] by (simp add: uint_word_def)
qed

lemma length_uint_inc [simp]: "length (uint_inc a) = length a"
  by (induction a) simp_all

lemma uint_inc_value: "limbs_nat (uint_inc a) = (limbs_nat a + 1) mod 2 ^ (32 * length a)"
proof (induction a)
  case (Cons p ps)
  have last: "2 ^ (32 * length (p # ps)) = 2 ^ 32 * (2 :: nat) ^ (32 * length ps)" by (simp add: power_add)
  show ?case
  proof (cases "p + 1 = 0")
    case True
    then have "p = - 1" by (simp add: eq_neg_iff_add_eq_0)
    then have "unat p = 2 ^ 32 - 1" by (simp add: unsigned_minus_1_eq_mask mask_eq_exp_minus_1)
    then have "limbs_nat (p # ps) + 1 = 2 ^ 32 * (limbs_nat ps + 1)" by simp
    then have "(limbs_nat (p # ps) + 1) mod 2 ^ (32 * length (p # ps)) = 2 ^ 32 * ((limbs_nat ps + 1) mod 2 ^ (32 * length ps))"
      unfolding last by (simp only: mult_mod_right)
    moreover have "limbs_nat (uint_inc (p # ps)) = 2 ^ 32 * ((limbs_nat ps + 1) mod 2 ^ (32 * length ps))"
      using True Cons by (cases ps) simp_all
    ultimately show ?thesis by (simp only:)
  next
    case False
    then have "unat (p + 1) \<noteq> 0" by (simp add: unat_eq_zero)
    moreover have "unat (p + 1) = (unat p + 1) mod 2 ^ 32" by (simp add: unat_word_ariths)
    ultimately have "unat (p + 1) = unat p + 1"
      using unat_less_2p [of p] by (cases "unat p + 1 = 2 ^ 32") simp_all
    then have "limbs_nat (uint_inc (p # ps)) = limbs_nat (p # ps) + 1" using False by simp
    moreover have "limbs_nat (uint_inc (p # ps)) < 2 ^ (32 * length (p # ps))"
      using limbs_nat_less [of "uint_inc (p # ps)"] by (simp only: length_uint_inc)
    ultimately show ?thesis by simp
  qed
qed simp

lemma inc_refines: "wf_uint a \<Longrightarrow> wf_uint (uint_inc a) \<and> uint_word (uint_inc a) = uint_word a + 1"
  using uint_word_limbs [of "uint_inc a" "limbs_nat a + 1"] uint_inc_value [of a]
  by (simp add: wf_uint_def WIDTH_def uint_word_def)

lemma bitwise_refines:
  assumes "\<And>x y n. n < 32 \<Longrightarrow> bit (f x y :: u32) n = c (bit x n) (bit y n)"
    and "\<And>x y n. n < 256 \<Longrightarrow> bit (g x y :: uint256) n = c (bit x n) (bit y n)"
  shows "refines (map2 f) g"
proof
  fix a b assume ab: "wf_uint a" "wf_uint b"
  then show wf: "wf_uint (map2 f a b)" by (simp add: wf_uint_def)
  show "uint_word (map2 f a b) = g (uint_word a) (uint_word b)"
  proof (rule bit_word_eqI)
    fix n assume n: "n < LENGTH(256)"
    then have "n div 32 < 8" by simp
    then show "bit (uint_word (map2 f a b)) n = bit (g (uint_word a) (uint_word b)) n"
      using n ab wf by (simp add: bit_uint_word assms wf_uint_def WIDTH_def)
  qed
qed

interpretation and_refines: refines uint_and "(AND)"
  unfolding uint_and_def by (rule bitwise_refines [where c = "(\<and>)"]) (simp_all add: bit_and_iff)

interpretation or_refines: refines uint_or "(OR)"
  unfolding uint_or_def by (rule bitwise_refines [where c = "(\<or>)"]) (simp_all add: bit_or_iff)

interpretation xor_refines: refines uint_xor "(XOR)"
  unfolding uint_xor_def by (rule bitwise_refines [where c = "(\<noteq>)"]) (simp_all add: bit_xor_iff)

lemma not_refines:
  assumes "wf_uint a"
  shows "wf_uint (uint_not a)" "uint_word (uint_not a) = NOT (uint_word a)"
proof -
  show wf: "wf_uint (uint_not a)" using assms by (simp add: wf_uint_def uint_not_def)
  show "uint_word (uint_not a) = NOT (uint_word a)"
  proof (rule bit_word_eqI)
    fix n assume n: "n < LENGTH(256)"
    then have "n div 32 < length a" using assms by (simp add: wf_uint_def WIDTH_def)
    then show "bit (uint_word (uint_not a)) n = bit (NOT (uint_word a)) n"
      using n assms wf by (simp add: bit_uint_word bit_not_iff uint_not_def)
  qed
qed

lemma neg_refines: "wf_uint a \<Longrightarrow> wf_uint (uint_neg a) \<and> uint_word (uint_neg a) = - uint_word a"
  using inc_refines [of "uint_not a"] not_refines [of a] by (simp add: uint_neg_def minus_eq_not_plus_1)

interpretation sub_refines: refines uint_sub "(-)"
  using neg_refines by unfold_locales (simp_all add: uint_sub_def add_refines.wf add_refines.abs)

lemma mod_glue: "x < M \<Longrightarrow> x + M * (y mod N) = (x + M * y) mod (M * N)" for x :: nat
  by (cases "M = 0") (simp_all add: mod_mult2_eq)

lemma mul_step:
  fixes aj :: u32
  assumes "length pn = 8" "j < 8" "length b = 8"
  defines "pn' \<equiv> take j pn @ mul_row 0 aj (drop j pn) b"
  shows "length pn' = 8 \<and> limbs_nat pn' = (limbs_nat pn + 2 ^ (32 * j) * (unat aj * limbs_nat b)) mod 2 ^ 256"
proof -
  have row: "limbs_nat (mul_row 0 aj (drop j pn) b) = (limbs_nat (drop j pn) + unat aj * limbs_nat b) mod 2 ^ (32 * (8 - j))"
    "length (mul_row 0 aj (drop j pn) b) = 8 - j"
    using mul_row_value [of "drop j pn" b 0 aj] assms by simp_all
  have len: "length (take j pn) = j" using assms by simp
  then have small: "limbs_nat (take j pn) < 2 ^ (32 * j)" using limbs_nat_less [of "take j pn"] by simp
  have split: "limbs_nat pn = limbs_nat (take j pn) + 2 ^ (32 * j) * limbs_nat (drop j pn)"
    using limbs_nat_append [of "take j pn" "drop j pn"] len by simp
  have "limbs_nat pn' = limbs_nat (take j pn) +
      2 ^ (32 * j) * ((limbs_nat (drop j pn) + unat aj * limbs_nat b) mod 2 ^ (32 * (8 - j)))"
    using assms(1,2) by (simp add: pn'_def limbs_nat_append row)
  also have "\<dots> = (limbs_nat (take j pn) + 2 ^ (32 * j) * (limbs_nat (drop j pn) + unat aj * limbs_nat b)) mod
      (2 ^ (32 * j) * 2 ^ (32 * (8 - j)))"
    using small by (rule mod_glue)
  also have "2 ^ (32 * j) * 2 ^ (32 * (8 - j)) = (2 :: nat) ^ 256"
  proof -
    have "32 * j + 32 * (8 - j) = 256" using assms(2) by simp
    then show ?thesis by (simp only: power_add [symmetric])
  qed
  finally show ?thesis using row(2) len assms(1,2) by (simp add: split pn'_def algebra_simps)
qed

lemma mul_rows:
  assumes "wf_uint a" "wf_uint b" "n \<le> 8"
  defines "r \<equiv> foldl (\<lambda>pn j. take j pn @ mul_row 0 (a ! j) (drop j pn) b) base_uint_zero [0..<n]"
  shows "length r = 8 \<and> limbs_nat r = (limbs_nat (take n a) * limbs_nat b) mod 2 ^ 256"
  using assms(3) unfolding r_def
proof (induction n)
  case (Suc n)
  let ?r = "foldl (\<lambda>pn j. take j pn @ mul_row 0 (a ! j) (drop j pn) b) base_uint_zero [0..<n]"
  have "length ?r = 8" "limbs_nat ?r = (limbs_nat (take n a) * limbs_nat b) mod 2 ^ 256" using Suc by simp_all
  moreover have "limbs_nat (take (Suc n) a) = limbs_nat (take n a) + 2 ^ (32 * n) * unat (a ! n)"
    using Suc.prems assms(1) by (simp add: take_Suc_conv_app_nth limbs_nat_append wf_uint_def WIDTH_def)
  ultimately show ?case
    using mul_step [of ?r n b "a ! n"] Suc.prems assms(2)
    by (simp add: wf_uint_def WIDTH_def mod_add_right_eq algebra_simps)
qed (simp add: base_uint_zero_def WIDTH_def)

interpretation mul_refines: refines uint_mul "(*)"
proof
  fix a b assume ab: "wf_uint a" "wf_uint b"
  then have v: "length (uint_mul a b) = 8" "limbs_nat (uint_mul a b) = (limbs_nat a * limbs_nat b) mod 2 ^ 256"
    using mul_rows [of a b 8] by (simp_all add: uint_mul_def wf_uint_def WIDTH_def)
  then show "wf_uint (uint_mul a b)" by (simp add: wf_uint_def WIDTH_def)
  show "uint_word (uint_mul a b) = uint_word a * uint_word b"
    using uint_word_limbs [OF v(2)] by (simp add: uint_word_def)
qed

lemma mul32_refines:
  assumes "wf_uint a"
  shows "wf_uint (uint_mul32 a b) \<and> uint_word (uint_mul32 a b) = uint_word a * ucast b"
proof -
  have v: "limbs_nat (uint_mul32 a b) = (unat b * limbs_nat a) mod 2 ^ 256" "length (uint_mul32 a b) = 8"
    using mul32_loop_value [of 0 b a] assms by (simp_all add: uint_mul32_def wf_uint_def WIDTH_def)
  have "(word_of_nat (unat b) :: uint256) = ucast b" by simp
  then show ?thesis
    using uint_word_limbs [OF v(1)] v(2) by (simp add: uint_word_def wf_uint_def WIDTH_def mult.commute)
qed

section \<open>Shifts\<close>

lemma shl_steps:
  assumes "n \<le> 8" "m < 8" "length a = 8"
  shows "length (foldl (shl_step a k s) base_uint_zero [0..<n]) = 8 \<and>
    foldl (shl_step a k s) base_uint_zero [0..<n] ! m =
      (if k \<le> m \<and> m < n + k then push_bit s (a ! (m - k)) else 0) OR
      (if s \<noteq> 0 \<and> k < m \<and> m < n + k + 1 then drop_bit (32 - s) (a ! (m - k - 1)) else 0)"
  using assms(1)
proof (induction n)
  case 0
  then show ?case using assms by (auto simp: base_uint_zero_def WIDTH_def)
next
  case (Suc n)
  define pn where "pn = foldl (shl_step a k s) base_uint_zero [0..<n]"
  have pn: "length pn = 8" "pn ! m =
      (if k \<le> m \<and> m < n + k then push_bit s (a ! (m - k)) else 0) OR
      (if s \<noteq> 0 \<and> k < m \<and> m < n + k + 1 then drop_bit (32 - s) (a ! (m - k - 1)) else 0)"
    using Suc by (simp_all add: pn_def)
  have step: "foldl (shl_step a k s) base_uint_zero [0..<Suc n] = shl_step a k s pn n" by (simp add: pn_def)
  consider "m = n + k" | "m = n + k + 1" | "m \<noteq> n + k" "m \<noteq> n + k + 1" by blast
  then show ?case
    unfolding step using pn assms(2)
    by cases (auto simp: shl_step_def WIDTH_def Let_def nth_list_update or.commute or.left_commute)
qed

lemma shr_steps:
  assumes "n \<le> 8" "m < 8" "length a = 8"
  shows "length (foldl (shr_step a k s) base_uint_zero [0..<n]) = 8 \<and>
    foldl (shr_step a k s) base_uint_zero [0..<n] ! m =
      (if m + k < n then drop_bit s (a ! (m + k)) else 0) OR
      (if s \<noteq> 0 \<and> m + k + 1 < n then push_bit (32 - s) (a ! (m + k + 1)) else 0)"
  using assms(1)
proof (induction n)
  case 0
  then show ?case using assms by (auto simp: base_uint_zero_def WIDTH_def)
next
  case (Suc n)
  define pn where "pn = foldl (shr_step a k s) base_uint_zero [0..<n]"
  have pn: "length pn = 8" "pn ! m =
      (if m + k < n then drop_bit s (a ! (m + k)) else 0) OR
      (if s \<noteq> 0 \<and> m + k + 1 < n then push_bit (32 - s) (a ! (m + k + 1)) else 0)"
    using Suc by (simp_all add: pn_def)
  have step: "foldl (shr_step a k s) base_uint_zero [0..<Suc n] = shr_step a k s pn n" by (simp add: pn_def)
  consider "n = m + k" | "n = m + k + 1" | "n \<noteq> m + k" "n \<noteq> m + k + 1" by blast
  then show ?case
    unfolding step using pn assms(2) Suc.prems
    by cases (auto simp: shr_step_def Let_def nth_list_update or.commute or.left_commute)
qed

lemma limb_split: "(t :: nat) = 32 * m + j \<Longrightarrow> j < 32 \<Longrightarrow> t div 32 = m \<and> t mod 32 = j"
  by simp

lemma limb_position:
  obtains m j where "(t :: nat) = 32 * m + j" "j < 32" "t div 32 = m" "t mod 32 = j"
proof -
  have "t = 32 * (t div 32) + t mod 32" "t mod 32 < 32" by simp_all
  then show ?thesis using that by blast
qed

lemma shl_refines:
  assumes "wf_uint a"
  shows "wf_uint (uint_shl a n)" "uint_word (uint_shl a n) = push_bit n (uint_word a)"
proof -
  obtain k s where n: "n = 32 * k + s" "s < 32" "n div 32 = k" "n mod 32 = s" by (rule limb_position)
  have len: "length a = 8" using assms by (simp add: wf_uint_def WIDTH_def)
  have limb: "uint_shl a n ! m = (if k \<le> m then push_bit s (a ! (m - k)) else 0) OR
      (if s \<noteq> 0 \<and> k < m then drop_bit (32 - s) (a ! (m - k - 1)) else 0)" if "m < 8" for m
    using shl_steps [of 8 m a k s] that len by (simp add: uint_shl_def WIDTH_def n(3,4))
  show wf: "wf_uint (uint_shl a n)" using shl_steps [of 8 0 a k s] len by (simp add: uint_shl_def wf_uint_def WIDTH_def n(3,4))
  show "uint_word (uint_shl a n) = push_bit n (uint_word a)"
  proof (rule bit_word_eqI)
    fix t assume t256: "t < LENGTH(256)"
    obtain m j where t: "t = 32 * m + j" "j < 32" "t div 32 = m" "t mod 32 = j" by (rule limb_position)
    then have m: "m < 8" using t256 by simp
    have l: "bit (uint_word (uint_shl a n)) t \<longleftrightarrow> bit (uint_shl a n ! m) j"
      using t256 t(3,4) by (simp add: bit_uint_word [OF wf])
    have r: "bit (push_bit n (uint_word a)) t \<longleftrightarrow> n \<le> t \<and> bit (a ! ((t - n) div 32)) ((t - n) mod 32)"
      using t256 by (auto simp: bit_push_bit_iff bit_uint_word [OF assms])
    show "bit (uint_word (uint_shl a n)) t = bit (push_bit n (uint_word a)) t"
    proof (cases "s \<le> j")
      case True
      have le: "n \<le> t \<longleftrightarrow> k \<le> m" using n(1,2) t(1,2) True by linarith
      have at: "(t - n) div 32 = m - k \<and> (t - n) mod 32 = j - s" if "k \<le> m"
        using that n(1) t(1,2) True by (intro limb_split) linarith+
      have "\<not> bit (a ! i) (32 - s + j)" for i using True n(2) by (auto dest: bit_imp_le_length)
      then show ?thesis
        unfolding l r limb [OF m] le using at True t(2) by (auto simp: bit_or_iff bit_push_bit_iff bit_drop_bit_eq)
    next
      case False
      have le: "n \<le> t \<longleftrightarrow> k < m" using n(1,2) t(1,2) False by linarith
      have at: "(t - n) div 32 = m - k - 1 \<and> (t - n) mod 32 = 32 - s + j" if "k < m"
        using that n(1,2) t(1) False by (intro limb_split) linarith+
      show ?thesis
        unfolding l r limb [OF m] le using at False t(2) by (auto simp: bit_or_iff bit_push_bit_iff bit_drop_bit_eq)
    qed
  qed
qed

lemma shr_refines:
  assumes "wf_uint a"
  shows "wf_uint (uint_shr a n)" "uint_word (uint_shr a n) = drop_bit n (uint_word a)"
proof -
  obtain k s where n: "n = 32 * k + s" "s < 32" "n div 32 = k" "n mod 32 = s" by (rule limb_position)
  have len: "length a = 8" using assms by (simp add: wf_uint_def WIDTH_def)
  have limb: "uint_shr a n ! m = (if m + k < 8 then drop_bit s (a ! (m + k)) else 0) OR
      (if s \<noteq> 0 \<and> m + k + 1 < 8 then push_bit (32 - s) (a ! (m + k + 1)) else 0)" if "m < 8" for m
    using shr_steps [of 8 m a k s] that len by (simp add: uint_shr_def WIDTH_def n(3,4))
  show wf: "wf_uint (uint_shr a n)" using shr_steps [of 8 0 a k s] len by (simp add: uint_shr_def wf_uint_def WIDTH_def n(3,4))
  show "uint_word (uint_shr a n) = drop_bit n (uint_word a)"
  proof (rule bit_word_eqI)
    fix t assume t256: "t < LENGTH(256)"
    obtain m j where t: "t = 32 * m + j" "j < 32" "t div 32 = m" "t mod 32 = j" by (rule limb_position)
    then have m: "m < 8" using t256 by simp
    have l: "bit (uint_word (uint_shr a n)) t \<longleftrightarrow> bit (uint_shr a n ! m) j"
      using t256 t(3,4) by (simp add: bit_uint_word [OF wf])
    have r: "bit (drop_bit n (uint_word a)) t \<longleftrightarrow> n + t < 256 \<and> bit (a ! ((n + t) div 32)) ((n + t) mod 32)"
      by (simp add: bit_drop_bit_eq bit_uint_word [OF assms])
    show "bit (uint_word (uint_shr a n)) t = bit (drop_bit n (uint_word a)) t"
    proof (cases "s + j < 32")
      case True
      have le: "n + t < 256 \<longleftrightarrow> m + k < 8" using n(1) t(1) True by linarith
      have at: "(n + t) div 32 = m + k \<and> (n + t) mod 32 = s + j" using True by (intro limb_split) (simp_all add: n(1) t(1))
      show ?thesis
        unfolding l r limb [OF m] le using at True n(2) by (auto simp: bit_or_iff bit_push_bit_iff bit_drop_bit_eq)
    next
      case False
      have le: "n + t < 256 \<longleftrightarrow> m + k + 1 < 8" using n(1,2) t(1,2) False by linarith
      have at: "(n + t) div 32 = m + k + 1 \<and> (n + t) mod 32 = j - (32 - s)"
        using n(2) t(2) False by (intro limb_split) (simp_all add: n(1) t(1))
      have "\<not> bit (a ! i) (s + j)" for i using False by (auto dest: bit_imp_le_length)
      then show ?thesis
        unfolding l r limb [OF m] le using at False t(2) n(2) by (auto simp: bit_or_iff bit_push_bit_iff bit_drop_bit_eq)
    qed
  qed
qed

lemma shift_values:
  assumes "wf_uint a"
  shows "limbs_nat (uint_shl a n) = (limbs_nat a * 2 ^ n) mod 2 ^ 256" "limbs_nat (uint_shr a n) = limbs_nat a div 2 ^ n"
proof -
  have "limbs_nat (uint_shl a n) = unat (push_bit n (uint_word a))"
    using unat_uint_word [OF shl_refines(1) [OF assms]] shl_refines(2) [OF assms] by simp
  also have "\<dots> = (limbs_nat a * 2 ^ n) mod 2 ^ 256"
    by (simp only: unsigned_push_bit_eq unat_uint_word [OF assms]) (simp add: take_bit_eq_mod push_bit_eq_mult)
  finally show "limbs_nat (uint_shl a n) = (limbs_nat a * 2 ^ n) mod 2 ^ 256" .
  have "limbs_nat (uint_shr a n) = unat (drop_bit n (uint_word a))"
    using unat_uint_word [OF shr_refines(1) [OF assms]] shr_refines(2) [OF assms] by simp
  also have "\<dots> = drop_bit n (limbs_nat a)"
    using limbs_nat_less [of a] assms
    by (simp only: unsigned_drop_bit_eq unat_uint_word [OF assms])
      (simp add: wf_uint_def WIDTH_def take_bit_nat_eq_self)
  finally show "limbs_nat (uint_shr a n) = limbs_nat a div 2 ^ n" by (simp add: drop_bit_eq_div)
qed

section \<open>Comparison and the number of bits\<close>

lemma compare_value:
  "length a = length b \<Longrightarrow> CompareTo a b = sgn (int (limbs_nat a) - int (limbs_nat b))"
proof (induction a arbitrary: b rule: rev_induct)
  case (snoc p ps)
  then obtain qs q where b: "b = qs @ [q]" "length ps = length qs"
    by (metis length_append_singleton length_Suc_conv_rev)
  let ?M = "2 ^ (32 * length qs)"
  have less: "limbs_nat ps < ?M" "limbs_nat qs < ?M"
    using limbs_nat_less [of ps] limbs_nat_less [of qs] b(2) by simp_all
  have v: "limbs_nat (ps @ [p]) = limbs_nat ps + ?M * unat p" "limbs_nat b = limbs_nat qs + ?M * unat q"
    by (simp_all add: limbs_nat_append b)
  have below: "x + ?M * unat u < y + ?M * unat w" if "u < w" "x < ?M" for u w :: u32 and x y
  proof -
    have "x + ?M * unat u < ?M * (unat u + 1)" using that(2) by simp
    also have "\<dots> \<le> ?M * unat w" using that(1) by (intro mult_le_mono2) (simp add: word_less_nat_alt)
    finally show ?thesis by simp
  qed
  consider "p < q" | "q < p" | "p = q" by (rule linorder_cases)
  then show ?case
  proof cases
    case 1
    then have "limbs_nat (ps @ [p]) < limbs_nat b" unfolding v using below less by blast
    then show ?thesis using 1 by (simp add: CompareTo_def b)
  next
    case 2
    then have "limbs_nat b < limbs_nat (ps @ [p])" unfolding v using below less by blast
    then show ?thesis using 2 by (simp add: CompareTo_def b)
  next
    case 3
    then show ?thesis using snoc.IH [OF b(2)] v b by (simp add: CompareTo_def)
  qed
qed (simp add: CompareTo_def)

lemma compare_ge: "wf_uint a \<Longrightarrow> wf_uint b \<Longrightarrow> CompareTo a b \<ge> 0 \<longleftrightarrow> limbs_nat b \<le> limbs_nat a"
  using compare_value [of a b] by (auto simp: wf_uint_def sgn_if)

lemma and_bit: "(w :: u32) AND push_bit n 1 \<noteq> 0 \<longleftrightarrow> bit w n"
  by (metis and_exp_eq_0_iff_not_bit push_bit_of_1)

lemma limb_bits_Suc: "limb_bits w (Suc n) = (if bit w (Suc n) then Suc n + 1 else limb_bits w n)"
  by (simp only: limb_bits.simps and_bit)

declare limb_bits.simps(2) [simp del]

lemma limb_bits_spec:
  "w \<noteq> 0 \<Longrightarrow> unat w < 2 ^ Suc n \<Longrightarrow> n < 32 \<Longrightarrow>
   1 \<le> limb_bits w n \<and> limb_bits w n \<le> Suc n \<and> 2 ^ (limb_bits w n - 1) \<le> unat w \<and> unat w < 2 ^ limb_bits w n"
proof (induction n)
  case 0
  then show ?case by (simp add: unat_eq_zero Suc_le_eq unat_gt_0)
next
  case (Suc n)
  show ?case
  proof (cases "bit w (Suc n)")
    case True
    then have "bit (unat w) (Suc n)" by (simp add: bit_unsigned_iff)
    then have "odd (unat w div 2 ^ Suc n)" by (simp add: bit_iff_odd)
    then have "2 ^ Suc n \<le> unat w" by (metis div_less even_zero not_less)
    then show ?thesis using True Suc.prems by (simp add: limb_bits_Suc)
  next
    case False
    then have "even (unat w div 2 ^ Suc n)" by (metis bit_iff_odd bit_unsigned_iff)
    moreover have "unat w div 2 ^ Suc n < 2" using Suc.prems(2) by (simp add: less_mult_imp_div_less mult.commute)
    ultimately have "unat w div 2 ^ Suc n = 0" using less_2_cases by fastforce
    then have "unat w < 2 ^ Suc n" by (simp add: div_eq_0_iff)
    then show ?thesis using Suc False by (simp add: limb_bits_Suc)
  qed
qed

lemma bits_loop_spec:
  "n \<le> length a \<Longrightarrow> (limbs_nat (take n a) = 0 \<longleftrightarrow> bits_loop a n = 0) \<and> limbs_nat (take n a) < 2 ^ bits_loop a n \<and>
   (bits_loop a n \<noteq> 0 \<longrightarrow> 2 ^ (bits_loop a n - 1) \<le> limbs_nat (take n a)) \<and> bits_loop a n \<le> 32 * n"
proof (induction n)
  case (Suc n)
  let ?w = "a ! n" and ?M = "2 ^ (32 * n) :: nat"
  have v: "limbs_nat (take (Suc n) a) = limbs_nat (take n a) + ?M * unat ?w"
    using Suc.prems by (simp add: take_Suc_conv_app_nth limbs_nat_append)
  show ?case
  proof (cases "?w = 0")
    case True
    then show ?thesis using Suc v by simp
  next
    case False
    let ?b = "limb_bits ?w 31"
    have b: "1 \<le> ?b" "?b \<le> 32" "2 ^ (?b - 1) \<le> unat ?w" "unat ?w < 2 ^ ?b"
      using limb_bits_spec [of ?w 31] False unat_less_2p [of ?w] by simp_all
    have low: "limbs_nat (take n a) < ?M" using limbs_nat_less [of "take n a"] Suc.prems by simp
    have "?M * 2 ^ (?b - 1) \<le> ?M * unat ?w" using b(3) by (intro mult_le_mono2)
    also have "?M * 2 ^ (?b - 1) = 2 ^ (32 * n + ?b - 1)" using b(1) by (simp add: power_add [symmetric])
    finally have lower: "2 ^ (32 * n + ?b - 1) \<le> limbs_nat (take (Suc n) a)" using v by linarith
    have "limbs_nat (take (Suc n) a) < ?M * (unat ?w + 1)" using v low by simp
    also have "\<dots> \<le> ?M * 2 ^ ?b" using b(4) by (intro mult_le_mono2) simp
    finally have "limbs_nat (take (Suc n) a) < 2 ^ (32 * n + ?b)" by (simp add: power_add)
    moreover have "0 < limbs_nat (take (Suc n) a)" using lower by (rule less_le_trans [rotated]) simp
    ultimately show ?thesis using lower False b(1,2) by simp
  qed
qed simp

lemma uint_bits_spec:
  assumes "wf_uint a"
  shows "limbs_nat a = 0 \<longleftrightarrow> uint_bits a = 0" "limbs_nat a < 2 ^ uint_bits a"
    "uint_bits a \<noteq> 0 \<Longrightarrow> 2 ^ (uint_bits a - 1) \<le> limbs_nat a" "uint_bits a \<le> 256"
  using bits_loop_spec [of 8 a] assms by (simp_all add: uint_bits_def wf_uint_def WIDTH_def)

section \<open>Division\<close>

lemma limbs_nat_list_update:
  "n < length q \<Longrightarrow> limbs_nat (q[n := w]) + 2 ^ (32 * n) * unat (q ! n) = limbs_nat q + 2 ^ (32 * n) * unat w"
proof (induction q arbitrary: n)
  case (Cons p q)
  show ?case
  proof (cases n)
    case (Suc k)
    then have "2 ^ 32 * (limbs_nat (q[k := w]) + 2 ^ (32 * k) * unat (q ! k)) = 2 ^ 32 * (limbs_nat q + 2 ^ (32 * k) * unat w)"
      using Cons by simp
    then show ?thesis using Suc by (simp add: power_add algebra_simps)
  qed simp
qed simp

lemma set_bit_value:
  assumes "\<not> bit (w :: u32) j" "j < 32"
  shows "unat (w OR push_bit j 1) = unat w + 2 ^ j"
proof -
  have "unat (w OR push_bit j 1) = unat w OR 2 ^ j"
  proof -
    have "unat (push_bit j (1 :: u32)) = 2 ^ j"
      using assms(2) power_strict_increasing [of j 32 "2 :: nat"]
      by (simp only: unsigned_push_bit_eq) (simp add: push_bit_eq_mult take_bit_nat_eq_self)
    then show ?thesis by (simp only: unsigned_or_eq)
  qed
  also have "\<dots> = unat w + 2 ^ j"
    using assms by (intro disjunctive_add [symmetric]) (auto simp: bit_exp_iff bit_unsigned_iff)
  finally show ?thesis .
qed

lemma limbs_nat_set_bit:
  assumes "wf_uint q" "n < 256" "\<not> bit (limbs_nat q) n"
  shows "limbs_nat (q[n div 32 := q ! (n div 32) OR push_bit (n mod 32) 1]) = limbs_nat q + 2 ^ n"
proof -
  have n: "n div 32 < length q" "32 * (n div 32) + n mod 32 = n" using assms by (simp_all add: wf_uint_def WIDTH_def)
  then have "\<not> bit (q ! (n div 32)) (n mod 32)" using assms(3) by (simp add: bit_limbs_nat)
  then have "unat (q ! (n div 32) OR push_bit (n mod 32) 1) = unat (q ! (n div 32)) + 2 ^ (n mod 32)"
    by (rule set_bit_value) simp
  then show ?thesis
    using limbs_nat_list_update [OF n(1), of "q ! (n div 32) OR push_bit (n mod 32) 1"] n(2)
    by (simp add: algebra_simps power_add [symmetric])
qed

lemma uint_sub_value:
  assumes "wf_uint a" "wf_uint b" "limbs_nat b \<le> limbs_nat a"
  shows "limbs_nat (uint_sub a b) = limbs_nat a - limbs_nat b"
proof -
  have "limbs_nat (uint_sub a b) = unat (uint_word a - uint_word b)"
    using unat_uint_word [OF sub_refines.wf] sub_refines.abs assms(1,2) by metis
  also have "\<dots> = limbs_nat a - limbs_nat b"
    using assms by (simp add: unat_sub word_le_nat_alt unat_uint_word)
  finally show ?thesis .
qed

lemma div_loop_value:
  assumes "wf_uint num" "wf_uint dv" "wf_uint q" "n \<le> 256"
    and "n \<noteq> 0 \<longrightarrow> limbs_nat dv = d * 2 ^ (n - 1)" "limbs_nat num < d * 2 ^ n" "2 ^ n dvd limbs_nat q"
  shows "wf_uint (div_loop n num dv q) \<and> limbs_nat (div_loop n num dv q) = limbs_nat q + limbs_nat num div d"
  using assms
proof (induction n arbitrary: num dv q)
  case (Suc n)
  have dv: "limbs_nat dv = d * 2 ^ n" using Suc.prems(5) by simp
  have dv': "wf_uint (uint_shr dv 1)" "n \<noteq> 0 \<longrightarrow> limbs_nat (uint_shr dv 1) = d * 2 ^ (n - 1)"
    using shr_refines(1) [OF Suc.prems(2)] shift_values(2) [OF Suc.prems(2), of 1] dv by (cases n; simp)+
  have half: "2 ^ n dvd limbs_nat q" using Suc.prems(7) by (meson dvd_trans le_imp_power_dvd le_SucI order_refl)
  have cmp: "CompareTo num dv \<ge> 0 \<longleftrightarrow> d * 2 ^ n \<le> limbs_nat num"
    using compare_ge [OF Suc.prems(1,2)] dv by simp
  show ?case
  proof (cases "d * 2 ^ n \<le> limbs_nat num")
    case True
    let ?q = "q[n div 32 := q ! (n div 32) OR push_bit (n mod 32) 1]"
    have "\<not> bit (limbs_nat q) n" using Suc.prems(7) by (auto simp: bit_iff_odd elim!: dvdE)
    then have q: "limbs_nat ?q = limbs_nat q + 2 ^ n" using limbs_nat_set_bit [OF Suc.prems(3)] Suc.prems(4) by simp
    have num: "limbs_nat (uint_sub num dv) = limbs_nat num - d * 2 ^ n"
      using uint_sub_value [OF Suc.prems(1,2)] dv True by simp
    have "limbs_nat num - d * 2 ^ n < d * 2 ^ n" using Suc.prems(6) True by simp
    then have "wf_uint (div_loop n (uint_sub num dv) (uint_shr dv 1) ?q) \<and>
        limbs_nat (div_loop n (uint_sub num dv) (uint_shr dv 1) ?q) = limbs_nat ?q + (limbs_nat num - d * 2 ^ n) div d"
      using Suc.IH [of "uint_sub num dv" "uint_shr dv 1" ?q] dv' half q num Suc.prems sub_refines.wf
      by (simp add: wf_uint_def)
    moreover have "2 ^ n + (limbs_nat num - d * 2 ^ n) div d = limbs_nat num div d"
    proof -
      have "0 < d" using Suc.prems(6) by (cases d) auto
      moreover have "limbs_nat num = (limbs_nat num - d * 2 ^ n) + d * 2 ^ n" using True by simp
      ultimately show ?thesis by (metis add.commute div_mult_self2 less_numeral_extra(3))
    qed
    ultimately show ?thesis using True cmp q by simp
  next
    case False
    then show ?thesis using Suc.IH [of num "uint_shr dv 1" q] dv' half Suc.prems cmp by simp
  qed
qed simp

lemma uint_div_value:
  assumes "wf_uint a" "wf_uint b"
  shows "limbs_nat b = 0 \<Longrightarrow> uint_div a b = Inl RuntimeError"
    and "limbs_nat b \<noteq> 0 \<Longrightarrow> \<exists>q. uint_div a b = Inr q \<and> wf_uint q \<and> limbs_nat q = limbs_nat a div limbs_nat b"
proof -
  let ?n = "uint_bits a" and ?d = "uint_bits b"
  note n = uint_bits_spec [OF assms(1)] and d = uint_bits_spec [OF assms(2)]
  show "uint_div a b = Inl RuntimeError" if "limbs_nat b = 0"
    using that d(1) by (simp add: uint_div_def)
  assume "limbs_nat b \<noteq> 0"
  then have d0: "?d \<noteq> 0" and b: "2 ^ (?d - 1) \<le> limbs_nat b" using d(1,3) by simp_all
  show "\<exists>q. uint_div a b = Inr q \<and> wf_uint q \<and> limbs_nat q = limbs_nat a div limbs_nat b"
  proof (cases "?d > ?n")
    case True
    then have "(2 :: nat) ^ ?n \<le> 2 ^ (?d - 1)" by (intro power_increasing) simp_all
    then have "limbs_nat a < limbs_nat b" using n(2) b by linarith
    then show ?thesis using True d0 by (simp add: uint_div_def)
  next
    case False
    define k where "k = ?n - ?d"
    have "limbs_nat b * 2 ^ k < 2 ^ ?d * 2 ^ k" using d(2) by simp
    also have "\<dots> = 2 ^ ?n" using False by (simp add: k_def power_add [symmetric])
    also have "\<dots> \<le> (2 :: nat) ^ 256" using n(4) by (intro power_increasing) simp_all
    finally have dv: "limbs_nat (uint_shl b k) = limbs_nat b * 2 ^ k" using shift_values(1) [OF assms(2)] by simp
    have "?n = ?d - 1 + (k + 1)" using False d0 by (simp add: k_def)
    then have "(2 :: nat) ^ ?n = 2 ^ (?d - 1) * 2 ^ (k + 1)" by (simp only: power_add)
    then have "limbs_nat a < limbs_nat b * 2 ^ (k + 1)" using n(2) b by (metis mult_le_mono1 order_less_le_trans)
    moreover have "k + 1 \<le> 256" using n(4) d0 False by (simp add: k_def)
    ultimately have "wf_uint (div_loop (k + 1) a (uint_shl b k) base_uint_zero) \<and>
        limbs_nat (div_loop (k + 1) a (uint_shl b k) base_uint_zero) = limbs_nat base_uint_zero + limbs_nat a div limbs_nat b"
      using dv shl_refines(1) [OF assms(2)] assms(1) by (intro div_loop_value) simp_all
    then show ?thesis using False d0 by (simp add: uint_div_def k_def Let_def)
  qed
qed

section \<open>Conversions\<close>

lemma GetLow64_value:
  assumes "wf_uint a"
  shows "unat (GetLow64 a) = limbs_nat a mod 2 ^ 64"
proof -
  obtain p q ps where a: "a = p # q # ps" using assms by (auto simp: wf_uint_def WIDTH_def length_Suc_conv numeral_eq_Suc)
  have "unat (GetLow64 a) = unat p + 2 ^ 32 * unat q"
  proof -
    have "GetLow64 a = ucast p + push_bit 32 (ucast q)"
      unfolding GetLow64_def
      by (subst disjunctive_add [symmetric]) (auto simp: a bit_push_bit_iff bit_ucast_iff dest: bit_imp_le_length)
    moreover have "unat (push_bit 32 (ucast q :: u64)) = 2 ^ 32 * unat q"
      using unat_less_2p [of q] by (simp only: unsigned_push_bit_eq unat_up) (simp add: push_bit_eq_mult take_bit_nat_eq_self)
    moreover have "unat p + 2 ^ 32 * unat q < 2 ^ 64" using unat_less_2p [of p] unat_less_2p [of q] by simp
    ultimately show ?thesis by (simp add: unat_add_small)
  qed
  moreover have "limbs_nat a = (unat p + 2 ^ 32 * unat q) + 2 ^ 64 * limbs_nat ps" by (simp add: a)
  moreover have "unat p + 2 ^ 32 * unat q < 2 ^ 64" using unat_less_2p [of p] unat_less_2p [of q] by simp
  ultimately show ?thesis by simp
qed

lemma base_uint_of_value: "wf_uint (base_uint_of b)" "limbs_nat (base_uint_of b) = unat b"
proof -
  show "wf_uint (base_uint_of b)" by (simp add: wf_uint_def base_uint_of_def WIDTH_def)
  have "unat (ucast b :: u32) = unat b mod 2 ^ 32" by (simp add: unsigned_ucast_eq take_bit_eq_mod)
  moreover have "unat (ucast (drop_bit 32 b) :: u32) = unat b div 2 ^ 32"
    using unat_less_2p [of b]
    by (simp only: unsigned_ucast_eq unat_high32) (simp add: take_bit_nat_eq_self less_mult_imp_div_less)
  ultimately show "limbs_nat (base_uint_of b) = unat b" by (simp add: base_uint_of_def)
qed

lemma ArithToUint256_value: "ArithToUint256 a = le_bytes (4 * length a) (limbs_nat a)"
proof -
  have "length (ArithToUint256 a) = 4 * length a \<and> le_nat (ArithToUint256 a) = limbs_nat a"
  proof (induction a)
    case (Cons p ps)
    then show ?case
      using unat_less_2p [of p] by (simp add: ArithToUint256_def le_nat_append WriteLE32_def)
  qed (simp add: ArithToUint256_def)
  then show ?thesis using le_bytes_le_nat by metis
qed

lemma drop_blob: "drop (x * 4) (concat (map WriteLE32 a)) = concat (map WriteLE32 (drop x a))"
proof (induction a arbitrary: x)
  case (Cons p ps)
  then show ?case by (cases x) simp_all
qed simp

lemma UintToArith256_inverse:
  assumes "wf_uint a"
  shows "UintToArith256 (ArithToUint256 a) = a"
proof (rule nth_equalityI)
  show len: "length (UintToArith256 (ArithToUint256 a)) = length a"
    using assms by (simp add: UintToArith256_def wf_uint_def)
  fix x assume "x < length (UintToArith256 (ArithToUint256 a))"
  then have x: "x < length a" by (simp only: len)
  then have "drop x a = a ! x # drop (Suc x) a" by (rule Cons_nth_drop_Suc [symmetric])
  then show "UintToArith256 (ArithToUint256 a) ! x = a ! x"
    using x assms by (simp add: UintToArith256_def ArithToUint256_def drop_blob wf_uint_def)
qed

section \<open>Properties\<close>

text \<open>
  C39. The loops over the limbs compute in the ring of 256-bit words: sum, difference, product,
  product with a 32-bit number, negation, increment and the bitwise operations of well-formed
  numbers are well-formed and have the value of the word operation, carries, borrows and
  wrap-around included.
\<close>

theorem arith_ring_refines:
  assumes "wf_uint a" "wf_uint b"
  shows "uint_word (uint_add a b) = uint_word a + uint_word b \<and> uint_word (uint_sub a b) = uint_word a - uint_word b \<and>
    uint_word (uint_mul a b) = uint_word a * uint_word b \<and> uint_word (uint_mul32 a c) = uint_word a * ucast c \<and>
    uint_word (uint_neg a) = - uint_word a \<and> uint_word (uint_inc a) = uint_word a + 1 \<and>
    uint_word (uint_not a) = NOT (uint_word a) \<and> uint_word (uint_and a b) = uint_word a AND uint_word b \<and>
    uint_word (uint_or a b) = uint_word a OR uint_word b \<and> uint_word (uint_xor a b) = uint_word a XOR uint_word b \<and>
    list_all wf_uint [uint_add a b, uint_sub a b, uint_mul a b, uint_mul32 a c, uint_neg a, uint_inc a, uint_not a,
      uint_and a b, uint_or a b, uint_xor a b]"
  using assms mul32_refines neg_refines inc_refines not_refines
  by (simp add: add_refines.abs sub_refines.abs mul_refines.abs and_refines.abs or_refines.abs xor_refines.abs
      add_refines.wf sub_refines.wf mul_refines.wf and_refines.wf or_refines.wf xor_refines.wf)

definition example_limbs :: limbs where
  "example_limbs = 0xffffffff # replicate 7 0xffffffff"

theorem arith_ring_refines_witness:
  "uint_word (uint_mul example_limbs (base_uint_of 3)) = uint_word example_limbs * uint_word (base_uint_of 3) \<and>
   uint_word (uint_inc example_limbs) = uint_word example_limbs + 1"
  using arith_ring_refines [of example_limbs "base_uint_of 3" 0] base_uint_of_value(1) [of 3]
  by (simp add: example_limbs_def wf_uint_def WIDTH_def)

text \<open>
  Shifts by any distance, the comparison and the bit count are those of 256-bit words:
  \<^verbatim>\<open>CompareTo\<close> is the sign of the difference, and \<^verbatim>\<open>bits\<close> is the position of the
  highest bit set plus one.
\<close>

theorem arith_shift_compare_bits:
  assumes "wf_uint a" "wf_uint b"
  shows "uint_word (uint_shl a n) = push_bit n (uint_word a) \<and> uint_word (uint_shr a n) = drop_bit n (uint_word a) \<and>
    wf_uint (uint_shl a n) \<and> wf_uint (uint_shr a n) \<and>
    CompareTo a b = sgn (int (unat (uint_word a)) - int (unat (uint_word b))) \<and>
    (uint_word a = 0 \<longleftrightarrow> uint_bits a = 0) \<and>
    (uint_bits a \<noteq> 0 \<longrightarrow> 2 ^ (uint_bits a - 1) \<le> unat (uint_word a) \<and> unat (uint_word a) < 2 ^ uint_bits a)"
  using shl_refines [OF assms(1)] shr_refines [OF assms(1)] compare_value [of a b] uint_bits_spec [OF assms(1)] assms
    unat_uint_word [OF assms(1)] unat_uint_word [OF assms(2)]
  by (auto simp: wf_uint_def unat_eq_zero [symmetric])

theorem arith_shift_compare_bits_witness:
  "uint_word (uint_shl example_limbs 37) = push_bit 37 (uint_word example_limbs) \<and>
   CompareTo example_limbs (base_uint_of 5) = sgn (int (unat (uint_word example_limbs)) - int (unat (uint_word (base_uint_of 5))))"
  using arith_shift_compare_bits [of example_limbs "base_uint_of 5" 37] base_uint_of_value(1) [of 5]
  by (simp add: example_limbs_def wf_uint_def WIDTH_def)

text \<open>
  C40. Division is total but for a zero divisor, which throws: the shift-and-subtract loop ends with
  the quotient of the two values.
\<close>

theorem arith_division:
  assumes "wf_uint a" "wf_uint b"
  shows "if uint_word b = 0 then uint_div a b = Inl RuntimeError
    else \<exists>q. uint_div a b = Inr q \<and> wf_uint q \<and> uint_word q = uint_word a div uint_word b"
proof (cases "uint_word b = 0")
  case True
  then show ?thesis using uint_div_value(1) [OF assms] unat_uint_word [OF assms(2)] by simp
next
  case False
  then have "limbs_nat b \<noteq> 0" by (cases "limbs_nat b = 0") (simp_all add: uint_word_def)
  then obtain q where q: "uint_div a b = Inr q" "wf_uint q" "limbs_nat q = limbs_nat a div limbs_nat b"
    using uint_div_value(2) [OF assms] by blast
  moreover have "uint_word q = uint_word a div uint_word b"
    using unat_uint_word [OF q(2)] unat_uint_word [OF assms(1)] unat_uint_word [OF assms(2)] q(3)
    by (simp add: word_unat_eq_iff unat_div_distrib)
  ultimately show ?thesis using False by simp
qed

theorem arith_division_witness:
  "\<exists>q. uint_div example_limbs (base_uint_of 7) = Inr q \<and> uint_word q = uint_word example_limbs div uint_word (base_uint_of 7)"
proof -
  have "uint_word (base_uint_of 7) \<noteq> 0" using unat_uint_word [OF base_uint_of_value(1), of 7] base_uint_of_value(2) [of 7] by auto
  then show ?thesis
    using arith_division [of example_limbs "base_uint_of 7"] base_uint_of_value(1) [of 7]
    by (auto simp: example_limbs_def wf_uint_def WIDTH_def)
qed

end
