(* ===== verification/Compact_Target.thy ===== *)
theory Compact_Target
  imports Arith_Uint256
begin

text \<open>
  The compact format of difficulty targets (\<^verbatim>\<open>SetCompact\<close> and
  \<^verbatim>\<open>GetCompact\<close> of \<^verbatim>\<open>src/src/arith_uint256.cpp\<close>): an exponent to the base
  256 and a mantissa of 23 bits with a sign bit.
\<close>

section \<open>The compact format\<close>

definition SetCompact :: "u32 \<Rightarrow> limbs \<times> bool \<times> bool" where
  "SetCompact nCompact =
     (let nSize = unat (drop_bit 24 nCompact);
          nWord = nCompact AND 0x007fffff;
          nWord = (if nSize \<le> 3 then drop_bit (8 * (3 - nSize)) nWord else nWord);
          v = (if nSize \<le> 3 then base_uint_of (ucast nWord)
               else uint_shl (base_uint_of (ucast nWord)) (8 * (nSize - 3)))
      in (v, nWord \<noteq> 0 \<and> nCompact AND 0x00800000 \<noteq> 0,
          nWord \<noteq> 0 \<and> (nSize > 34 \<or> (nWord > 0xff \<and> nSize > 33) \<or> (nWord > 0xffff \<and> nSize > 32))))"

definition GetCompact :: "limbs \<Rightarrow> bool \<Rightarrow> cpp_exn + u32" where
  "GetCompact a fNegative =
     (let nSize = (uint_bits a + 7) div 8;
          nCompact :: u32 = (if nSize \<le> 3 then ucast (push_bit (8 * (3 - nSize)) (GetLow64 a))
                     else ucast (GetLow64 (uint_shr a (8 * (nSize - 3)))));
          (nCompact, nSize) = (if nCompact AND 0x00800000 \<noteq> 0 then (drop_bit 8 nCompact, nSize + 1)
                               else (nCompact, nSize)) in
      if nCompact AND NOT 0x007fffff \<noteq> 0 then Inl AssertFail
      else if \<not> nSize < 256 then Inl AssertFail
      else let nCompact = nCompact OR push_bit 24 (word_of_nat nSize)
           in Inr (nCompact OR (if fNegative \<and> nCompact AND 0x007fffff \<noteq> 0 then 0x00800000 else 0)))"

section \<open>Decoding\<close>

lemma and_mask_value: "unat ((c :: u32) AND 0x007fffff) = unat c mod 2 ^ 23"
proof -
  have "c AND 0x007fffff = take_bit 23 c" by (simp add: take_bit_eq_mask mask_eq_exp_minus_1)
  then show ?thesis by (simp only: unsigned_take_bit_eq) (simp add: take_bit_eq_mod)
qed

lemma unat_drop_bit: "unat (drop_bit n (c :: u32)) = unat c div 2 ^ n"
  using unat_less_2p [of c] by (simp only: unsigned_drop_bit_eq) (simp add: take_bit_nat_eq_self drop_bit_eq_div)

text \<open>The number a compact value stands for, before it is cut to 256 bits.\<close>

definition compact_nat :: "nat \<Rightarrow> nat \<Rightarrow> nat" where
  "compact_nat sz mantissa = mantissa * 256 ^ sz div 256 ^ 3"

lemma compact_nat_small: "sz \<le> 3 \<Longrightarrow> compact_nat sz m = m div 256 ^ (3 - sz)"
proof -
  assume "sz \<le> 3"
  then have "(256 :: nat) ^ 3 = 256 ^ sz * 256 ^ (3 - sz)" by (simp only: power_add [symmetric]) simp
  moreover have "256 ^ sz * m div (256 ^ sz * 256 ^ (3 - sz)) = m div 256 ^ (3 - sz)" by simp
  ultimately show ?thesis by (simp only: compact_nat_def mult.commute)
qed

lemma compact_nat_large: "3 \<le> sz \<Longrightarrow> compact_nat sz m = m * 256 ^ (sz - 3)"
proof -
  assume "3 \<le> sz"
  then have "(256 :: nat) ^ sz = 256 ^ (sz - 3) * 256 ^ 3" by (simp only: power_add [symmetric]) simp
  then show ?thesis by (simp add: compact_nat_def)
qed

lemma power_256: "(256 :: nat) ^ n = 2 ^ (8 * n)"
  by (simp add: power_mult)

lemma compact_overflow:
  assumes "m < 2 ^ 23"
  shows "2 ^ 256 \<le> compact_nat sz m \<longleftrightarrow>
    m \<noteq> 0 \<and> (sz > 34 \<or> (m > 0xff \<and> sz > 33) \<or> (m > 0xffff \<and> sz > 32))"
proof -
  consider "sz \<le> 32" | "sz = 33" | "sz = 34" | "35 \<le> sz" by linarith
  then show ?thesis
  proof cases
    case 1
    have "compact_nat sz m \<le> m * 256 ^ 29"
    proof (cases "sz \<le> 3")
      case True
      then have "compact_nat sz m \<le> m" by (simp add: compact_nat_small)
      also have "m \<le> m * 256 ^ 29" by simp
      finally show ?thesis .
    next
      case False
      then have "(256 :: nat) ^ (sz - 3) \<le> 256 ^ 29" using 1 by (intro power_increasing) simp_all
      then show ?thesis using False by (simp add: compact_nat_large)
    qed
    also have "\<dots> < 2 ^ 23 * 256 ^ 29" using assms by simp
    finally show ?thesis using 1 by simp
  next
    case 4
    have "2 ^ 256 \<le> compact_nat sz m" if "m \<noteq> 0"
    proof -
      have "(256 :: nat) ^ 32 \<le> 256 ^ (sz - 3)" using 4 by (intro power_increasing) simp_all
      also have "\<dots> \<le> m * 256 ^ (sz - 3)" using that by simp
      finally show ?thesis using 4 by (simp add: compact_nat_large)
    qed
    moreover have "compact_nat sz 0 = 0" by (simp add: compact_nat_def)
    ultimately show ?thesis using 4 by (cases "m = 0") simp_all
  qed (auto simp: compact_nat_large)
qed

lemma sign_bit: "(c :: u32) AND 0x00800000 \<noteq> 0 \<longleftrightarrow> bit c 23"
  using and_bit [of c 23] by (simp add: push_bit_of_1)

lemma unat_up_value: "limbs_nat (base_uint_of (ucast (w :: u32))) = unat w"
  by (simp add: base_uint_of_value)

lemma SetCompact_value:
  assumes "SetCompact c = (v, neg, ovf)"
  defines "N \<equiv> compact_nat (unat c div 2 ^ 24) (unat c mod 2 ^ 23)"
  shows "wf_uint v \<and> limbs_nat v = N mod 2 ^ 256 \<and> (ovf \<longleftrightarrow> 2 ^ 256 \<le> N) \<and> (neg \<longleftrightarrow> N \<noteq> 0 \<and> bit c 23)"
proof -
  define S W where "S = unat c div 2 ^ 24" and "W = unat c mod 2 ^ 23"
  define w where "w = c AND 0x007fffff"
  have S: "unat (drop_bit 24 c) = S" by (simp add: unat_drop_bit S_def)
  have w: "unat w = W" by (simp add: w_def and_mask_value W_def)
  have W: "W < 2 ^ 23" by (simp add: W_def)
  show ?thesis
  proof (cases "S \<le> 3")
    case True
    let ?w = "drop_bit (8 * (3 - S)) w"
    have N: "N = unat ?w" using True by (simp only: unat_drop_bit w N_def S_def [symmetric] W_def [symmetric] compact_nat_small power_256)
    have "unat ?w \<le> W" by (simp add: unat_drop_bit w)
    then have "N < 2 ^ 23" using W N by simp
    moreover have "v = base_uint_of (ucast ?w)" "neg \<longleftrightarrow> ?w \<noteq> 0 \<and> c AND 0x00800000 \<noteq> 0" "\<not> ovf"
      using assms(1) True by (auto simp: SetCompact_def S w_def Let_def)
    ultimately show ?thesis using N by (auto simp: base_uint_of_value(1) unat_up_value sign_bit unat_eq_zero)
  next
    case False
    have N: "N = W * 2 ^ (8 * (S - 3))"
      using False compact_nat_large [of S W] unfolding N_def S_def [symmetric] W_def [symmetric] power_256 by simp
    have v: "v = uint_shl (base_uint_of (ucast w)) (8 * (S - 3))" "neg \<longleftrightarrow> w \<noteq> 0 \<and> c AND 0x00800000 \<noteq> 0"
      and ovf: "ovf \<longleftrightarrow> w \<noteq> 0 \<and> (S > 34 \<or> (w > 0xff \<and> S > 33) \<or> (w > 0xffff \<and> S > 32))"
      using assms(1) False by (auto simp: SetCompact_def S w_def Let_def)
    have "limbs_nat v = N mod 2 ^ 256"
      unfolding v shift_values(1) [OF base_uint_of_value(1)] unat_up_value w N ..
    moreover have "ovf \<longleftrightarrow> 2 ^ 256 \<le> N"
      unfolding ovf N_def S_def [symmetric] W_def [symmetric] compact_overflow [OF W]
      using w by (auto simp: word_less_nat_alt unat_eq_zero [symmetric])
    moreover have "neg \<longleftrightarrow> N \<noteq> 0 \<and> bit c 23"
      unfolding v(2) sign_bit N using w by (auto simp: unat_eq_zero [symmetric])
    ultimately show ?thesis using v(1) shl_refines(1) [OF base_uint_of_value(1)] by simp
  qed
qed

section \<open>Encoding\<close>

lemma small_no_bit: "unat (m :: u32) < 2 ^ k \<Longrightarrow> k \<le> n \<Longrightarrow> \<not> bit m n"
proof -
  assume a: "unat m < 2 ^ k" "k \<le> n"
  have "(2 :: nat) ^ k \<le> 2 ^ n" using a(2) by (intro power_increasing) simp_all
  with a(1) have "unat m < 2 ^ n" by (rule less_le_trans)
  then have "\<not> bit (unat m) n" by (simp add: bit_iff_odd)
  then show ?thesis by (simp add: bit_unsigned_iff)
qed

lemma or_disjoint: "w AND x = 0 \<Longrightarrow> unat (w OR x :: u32) = unat w + unat x"
proof -
  assume "w AND x = 0"
  then have "unat w AND unat x = 0" by (simp only: unsigned_and_eq [symmetric]) simp
  then have "int (unat w) AND int (unat x) = 0" by (simp only: of_nat_and_eq [symmetric])
  then have "int (unat w OR unat x) = int (unat w + unat x)"
    using plus_and_or [of "int (unat w)" "int (unat x)"] by (simp only: of_nat_or_eq)
  then show ?thesis by (simp only: unsigned_or_eq of_nat_eq_iff)
qed

lemma and_not_mask: "unat (m :: u32) < 2 ^ 23 \<Longrightarrow> m AND NOT 0x007fffff = 0"
proof -
  assume "unat m < 2 ^ 23"
  then have "unat (m AND 0x007fffff) = unat m" by (simp only: and_mask_value) simp
  then have "m AND 0x007fffff = m" by (simp only: word_unat_eq_iff)
  then have "m AND NOT 0x007fffff = m AND (0x007fffff AND NOT 0x007fffff)" by (metis and.assoc)
  then show ?thesis by simp
qed

text \<open>The mantissa of a value at a given size in bytes.\<close>

definition compact_mantissa :: "nat \<Rightarrow> nat \<Rightarrow> nat" where
  "compact_mantissa sz n = n * 256 ^ 3 div 256 ^ sz"

lemma compact_mantissa_small: "sz \<le> 3 \<Longrightarrow> compact_mantissa sz n = n * 256 ^ (3 - sz)"
proof -
  assume "sz \<le> 3"
  then have "(256 :: nat) ^ 3 = 256 ^ (3 - sz) * 256 ^ sz" by (simp only: power_add [symmetric]) simp
  then have "compact_mantissa sz n = n * 256 ^ (3 - sz) * 256 ^ sz div 256 ^ sz"
    by (simp only: compact_mantissa_def mult.assoc)
  then show ?thesis by simp
qed

lemma compact_mantissa_large: "3 \<le> sz \<Longrightarrow> compact_mantissa sz n = n div 256 ^ (sz - 3)"
proof -
  assume "3 \<le> sz"
  then have "(256 :: nat) ^ sz = 256 ^ 3 * 256 ^ (sz - 3)" by (simp only: power_add [symmetric]) simp
  moreover have "256 ^ 3 * n div (256 ^ 3 * 256 ^ (sz - 3)) = n div 256 ^ (sz - 3)"
    by (rule div_mult_mult1) simp
  ultimately show ?thesis by (simp only: compact_mantissa_def mult.commute)
qed

lemma compact_mantissa_Suc: "compact_mantissa (Suc sz) n = compact_mantissa sz n div 256"
  by (simp only: compact_mantissa_def power_Suc2 div_mult2_eq)

lemma compact_mantissa_less: "n < 256 ^ sz \<Longrightarrow> compact_mantissa sz n < 256 ^ 3"
  unfolding compact_mantissa_def by (rule less_mult_imp_div_less) simp

lemma compact_mantissa_ge: "256 ^ sz \<le> n * 256 \<Longrightarrow> 2 ^ 16 \<le> compact_mantissa sz n"
proof -
  assume "256 ^ sz \<le> n * 256"
  then have "256 ^ sz * 2 ^ 16 \<le> n * 256 ^ 3" by simp
  then have "256 ^ sz * 2 ^ 16 div 256 ^ sz \<le> n * 256 ^ 3 div 256 ^ sz" by (rule div_le_mono)
  then show ?thesis by (simp add: compact_mantissa_def)
qed

lemma byte_size:
  assumes "wf_uint a"
  defines "s \<equiv> (uint_bits a + 7) div 8"
  shows "limbs_nat a < 256 ^ s" "limbs_nat a \<noteq> 0 \<Longrightarrow> 256 ^ s \<le> limbs_nat a * 256" "s \<le> 32"
    "limbs_nat a = 0 \<longleftrightarrow> s = 0"
proof -
  note b = uint_bits_spec [OF assms(1)]
  have "(2 :: nat) ^ uint_bits a \<le> 2 ^ (8 * s)" by (intro power_increasing) (auto simp: s_def)
  with b(2) show "limbs_nat a < 256 ^ s" unfolding power_256 by (rule less_le_trans)
  show "s \<le> 32" using b(4) by (simp add: s_def)
  show "limbs_nat a = 0 \<longleftrightarrow> s = 0" using b(1) by (auto simp: s_def)
  assume "limbs_nat a \<noteq> 0"
  then have n: "uint_bits a \<noteq> 0" "2 ^ (uint_bits a - 1) \<le> limbs_nat a" using b by simp_all
  have "(256 :: nat) ^ s \<le> 2 ^ (uint_bits a - 1 + 8)" unfolding power_256
    by (intro power_increasing) (use n in \<open>auto simp: s_def\<close>)
  also have "\<dots> = 2 ^ (uint_bits a - 1) * 256" by (simp add: power_add)
  also have "\<dots> \<le> limbs_nat a * 256" using n by simp
  finally show "256 ^ s \<le> limbs_nat a * 256" .
qed

text \<open>The mantissa that \<open>GetCompact\<close> reads before it looks at the sign bit.\<close>

definition first_mantissa :: "limbs \<Rightarrow> u32" where
  "first_mantissa a =
     (let s = (uint_bits a + 7) div 8 in
      if s \<le> 3 then ucast (push_bit (8 * (3 - s)) (GetLow64 a)) else ucast (GetLow64 (uint_shr a (8 * (s - 3)))))"

lemma first_mantissa_value:
  assumes "wf_uint a"
  shows "unat (first_mantissa a) = compact_mantissa ((uint_bits a + 7) div 8) (limbs_nat a)"
proof -
  define s A where "s = (uint_bits a + 7) div 8" and "A = limbs_nat a"
  have m: "compact_mantissa s A < 2 ^ 24"
    using compact_mantissa_less [OF byte_size(1) [OF assms]] by (simp add: s_def A_def)
  have low: "unat (ucast (w :: u64) :: u32) = unat w mod 2 ^ 32" for w
    by (simp add: unsigned_ucast_eq take_bit_eq_mod)
  show ?thesis
  proof (cases "s \<le> 3")
    case True
    have M: "compact_mantissa s A = A * 2 ^ (8 * (3 - s))"
      using compact_mantissa_small [OF True] by (simp add: power_256)
    have "unat (push_bit (8 * (3 - s)) (GetLow64 a)) = A mod 2 ^ 64 * 2 ^ (8 * (3 - s)) mod 2 ^ 64"
      by (simp only: unsigned_push_bit_eq GetLow64_value [OF assms] A_def [symmetric])
         (simp add: take_bit_eq_mod push_bit_eq_mult)
    also have "\<dots> = compact_mantissa s A mod 2 ^ 64" by (simp only: M mod_mult_left_eq)
    finally show ?thesis using m True
      by (simp only: first_mantissa_def s_def [symmetric] A_def [symmetric] Let_def low if_True) simp
  next
    case False
    then have "compact_mantissa s A = A div 2 ^ (8 * (s - 3))"
      using compact_mantissa_large [of s A] by (simp add: power_256)
    then have "unat (GetLow64 (uint_shr a (8 * (s - 3)))) = compact_mantissa s A mod 2 ^ 64"
      by (simp only: GetLow64_value [OF shr_refines(1) [OF assms]] shift_values(2) [OF assms] A_def)
    then show ?thesis using m False
      by (simp only: first_mantissa_def s_def [symmetric] A_def [symmetric] Let_def low if_False) simp
  qed
qed

text \<open>What \<open>GetCompact\<close> assembles from a mantissa without sign and a size.\<close>

lemma assemble:
  assumes "unat (m :: u32) < 2 ^ 23" "S \<le> 33"
  defines "c \<equiv> m OR push_bit 24 (word_of_nat S)"
  shows "unat c = 2 ^ 24 * S + unat m" "unat (c AND 0x007fffff) = unat m"
    "unat (c OR 0x00800000) = 2 ^ 24 * S + 2 ^ 23 + unat m"
proof -
  have S: "unat (push_bit 24 (word_of_nat S) :: u32) = 2 ^ 24 * S" using assms(2)
    by (simp only: unsigned_push_bit_eq) (simp add: push_bit_eq_mult take_bit_eq_mod unat_of_nat)
  have "m AND push_bit 24 (word_of_nat S) = 0"
    using small_no_bit [OF assms(1)] by (auto intro!: bit_word_eqI simp: bit_simps)
  then show c: "unat c = 2 ^ 24 * S + unat m" unfolding c_def by (simp only: or_disjoint S)
  show "unat (c AND 0x007fffff) = unat m"
    unfolding and_mask_value c using assms(1) by (simp add: mod_add_eq [symmetric] mod_mult_eq [symmetric])
  have "\<not> bit c 23" using small_no_bit [OF assms(1), of 23] by (simp add: c_def bit_simps)
  then have "c AND 0x00800000 = 0" using sign_bit by blast
  then show "unat (c OR 0x00800000) = 2 ^ 24 * S + 2 ^ 23 + unat m" by (simp only: or_disjoint c) simp
qed

lemma top_bit: "unat (m :: u32) < 2 ^ 24 \<Longrightarrow> bit m 23 \<longleftrightarrow> 2 ^ 23 \<le> unat m"
proof -
  assume m: "unat m < 2 ^ 24"
  have "bit m 23 \<longleftrightarrow> odd (unat m div 2 ^ 23)"
    using bit_unsigned_iff [of m 23, where ?'a = nat] bit_iff_odd [of "unat m" 23] by simp
  moreover have "unat m div 2 ^ 23 < 2" using m by (intro less_mult_imp_div_less) simp
  ultimately show ?thesis by (cases "unat m div 2 ^ 23 = 0") (auto simp: div_eq_0_iff less_2_cases_iff)
qed

definition chosen_mantissa :: "limbs \<Rightarrow> u32 \<times> nat" where
  "chosen_mantissa a =
     (let m = first_mantissa a; s = (uint_bits a + 7) div 8 in
      if m AND 0x00800000 \<noteq> 0 then (drop_bit 8 m, s + 1) else (m, s))"

lemma chosen_mantissa_value:
  assumes "wf_uint a" "chosen_mantissa a = (m, S)"
  shows "unat m = compact_mantissa S (limbs_nat a)" "unat m < 2 ^ 23" "S \<le> 33"
    "limbs_nat a \<noteq> 0 \<Longrightarrow> 2 ^ 15 \<le> unat m" "limbs_nat a = 0 \<Longrightarrow> S = 0 \<and> m = 0"
proof -
  define s A where "s = (uint_bits a + 7) div 8" and "A = limbs_nat a"
  note size = byte_size [OF assms(1), folded s_def A_def]
  have f: "unat (first_mantissa a) = compact_mantissa s A"
    using first_mantissa_value [OF assms(1)] by (simp add: s_def A_def)
  have less: "compact_mantissa s A < 2 ^ 24" using compact_mantissa_less [OF size(1)] by simp
  have ge: "A \<noteq> 0 \<Longrightarrow> 2 ^ 16 \<le> compact_mantissa s A" using compact_mantissa_ge [OF size(2)] .
  have "unat m = compact_mantissa S A \<and> unat m < 2 ^ 23 \<and> S \<le> 33 \<and>
    (A \<noteq> 0 \<longrightarrow> 2 ^ 15 \<le> unat m) \<and> (A = 0 \<longrightarrow> S = 0 \<and> m = 0)"
  proof (cases "bit (first_mantissa a) 23")
    case True
    then have big: "2 ^ 23 \<le> compact_mantissa s A" using top_bit [of "first_mantissa a"] f less by simp
    have S: "m = drop_bit 8 (first_mantissa a)" "S = Suc s"
      using assms(2) True by (simp_all add: chosen_mantissa_def Let_def s_def sign_bit)
    then have m: "unat m = compact_mantissa s A div 2 ^ 8" by (simp only: unat_drop_bit f)
    moreover have "A \<noteq> 0" using big by (intro notI) (simp add: compact_mantissa_def)
    moreover have "2 ^ 15 \<le> compact_mantissa s A div 2 ^ 8" "compact_mantissa s A div 2 ^ 8 < 2 ^ 23"
      using big less by (simp_all add: less_eq_div_iff_mult_less_eq div_less_iff_less_mult)
    ultimately show ?thesis using S(2) size(3) by (simp add: compact_mantissa_Suc)
  next
    case False
    then have small: "compact_mantissa s A < 2 ^ 23" using top_bit [of "first_mantissa a"] f less by simp
    have S: "m = first_mantissa a" "S = s"
      using assms(2) False by (auto simp: chosen_mantissa_def Let_def s_def sign_bit)
    have "A = 0 \<Longrightarrow> unat m = 0 \<and> s = 0" using S f size(4) by (simp add: compact_mantissa_def)
    then show ?thesis using S f small ge size(3) by (auto simp: unat_eq_zero)
  qed
  then show "unat m = compact_mantissa S (limbs_nat a)" "unat m < 2 ^ 23" "S \<le> 33"
    "limbs_nat a \<noteq> 0 \<Longrightarrow> 2 ^ 15 \<le> unat m" "limbs_nat a = 0 \<Longrightarrow> S = 0 \<and> m = 0"
    by (simp_all add: A_def)
qed

lemma GetCompact_chosen:
  "GetCompact a fNegative =
     (let (m, S) = chosen_mantissa a in
      if m AND NOT 0x007fffff \<noteq> 0 then Inl AssertFail
      else if \<not> S < 256 then Inl AssertFail
      else let c = m OR push_bit 24 (word_of_nat S)
           in Inr (c OR (if fNegative \<and> c AND 0x007fffff \<noteq> 0 then 0x00800000 else 0)))"
  unfolding GetCompact_def chosen_mantissa_def first_mantissa_def Let_def by (rule refl)

lemma GetCompact_value:
  assumes "wf_uint a"
  obtains c S m where "GetCompact a fNegative = Inr c" "chosen_mantissa a = (m, S)"
    "unat c = 2 ^ 24 * S + (if fNegative \<and> limbs_nat a \<noteq> 0 then 2 ^ 23 else 0) + unat m"
proof -
  obtain m S where mS: "chosen_mantissa a = (m, S)" by fastforce
  note v = chosen_mantissa_value [OF assms mS]
  note c = assemble [OF v(2,3)]
  have "unat m = 0 \<longleftrightarrow> limbs_nat a = 0" using v(4,5) by fastforce
  then have nz: "(m OR push_bit 24 (word_of_nat S)) AND 0x007fffff \<noteq> 0 \<longleftrightarrow> limbs_nat a \<noteq> 0"
    using c(2) by (simp add: unat_eq_zero [symmetric] del: unat_eq_zero)
  have "GetCompact a fNegative = Inr ((m OR push_bit 24 (word_of_nat S)) OR (if fNegative \<and> limbs_nat a \<noteq> 0 then 0x00800000 else 0))"
    using v(3) and_not_mask [OF v(2)] by (simp only: GetCompact_chosen mS Let_def prod.case nz) simp
  moreover have "unat ((m OR push_bit 24 (word_of_nat S)) OR (if b then 0x00800000 else 0)) =
    2 ^ 24 * S + (if b then 2 ^ 23 else 0) + unat m" for b
    using c(1,3) by (cases b) simp_all
  ultimately show ?thesis using mS that by blast
qed

section \<open>Rounding\<close>

lemma compact_rounding:
  assumes "2 ^ 15 \<le> compact_mantissa S n \<or> n = 0"
  defines "v \<equiv> compact_nat S (compact_mantissa S n)"
  shows "v \<le> n" "(n - v) * 2 ^ 15 \<le> n" "compact_mantissa S v = compact_mantissa S n" "v = 0 \<longleftrightarrow> n = 0"
proof -
  have "v \<le> n \<and> (n - v) * 2 ^ 15 \<le> n \<and> compact_mantissa S v = compact_mantissa S n \<and> (v = 0 \<longleftrightarrow> n = 0)"
  proof (cases "S \<le> 3")
    case True
    then have "v = n" by (simp add: v_def compact_mantissa_small compact_nat_small)
    then show ?thesis by simp
  next
    case False
    define K :: nat where "K = 256 ^ (S - 3)"
    have K: "0 < K" by (simp add: K_def)
    have m: "compact_mantissa S x = x div K" for x using False by (simp add: compact_mantissa_large K_def)
    have v: "v = n div K * K" using False by (simp add: v_def m compact_nat_large K_def)
    have "n - v \<le> K" using K by (simp add: v minus_div_mult_eq_mod less_imp_le)
    then have "(n - v) * 2 ^ 15 \<le> n div K * K \<or> n = 0"
      using assms(1) m by (metis mult.commute mult_le_mono)
    then show ?thesis using K assms(1) div_times_less_eq_dividend [of n K] unfolding m v
      by (auto intro: order_trans)
  qed
  then show "v \<le> n" "(n - v) * 2 ^ 15 \<le> n" "compact_mantissa S v = compact_mantissa S n" "v = 0 \<longleftrightarrow> n = 0"
    by simp_all
qed

lemma compact_mantissa_mono: "S < S' \<Longrightarrow> compact_mantissa S' n * 256 \<le> compact_mantissa S n"
proof -
  assume "S < S'"
  then obtain d where d: "S' = S + Suc d" by (metis add_Suc_right less_imp_Suc_add)
  have "compact_mantissa S' n = compact_mantissa S n div 256 ^ d div 256"
    unfolding d by (simp only: compact_mantissa_def power_add power_Suc2 div_mult2_eq)
  then show ?thesis using div_times_less_eq_dividend div_le_dividend order_trans by metis
qed

lemma compact_size_unique:
  assumes "2 ^ 15 \<le> compact_mantissa S n" "compact_mantissa S n < 2 ^ 23"
    "2 ^ 15 \<le> compact_mantissa S' n" "compact_mantissa S' n < 2 ^ 23"
  shows "S = S'"
  using compact_mantissa_mono [of S S' n] compact_mantissa_mono [of S' S n] assms
  by (cases S S' rule: linorder_cases) simp_all

lemma compact_fields:
  assumes "unat (c :: u32) = 2 ^ 24 * S + (if b then 2 ^ 23 else 0) + m" "m < 2 ^ 23"
  shows "unat c div 2 ^ 24 = S" "unat c mod 2 ^ 23 = m" "bit c 23 \<longleftrightarrow> b"
proof -
  define q where "q = 2 * S + (if b then 1 else 0)"
  have c: "unat c = 2 ^ 23 * q + m" using assms(1) by (simp add: q_def)
  show "unat c mod 2 ^ 23 = m" unfolding c using assms(2) by simp
  have d: "unat c div 2 ^ 23 = q" unfolding c using assms(2) by simp
  have "unat c div 2 ^ 24 = unat c div 2 ^ 23 div 2" by (simp add: div_mult2_eq [symmetric])
  then show "unat c div 2 ^ 24 = S" unfolding d q_def by simp
  from d show "bit c 23 \<longleftrightarrow> b"
    using bit_unsigned_iff [of c 23, where ?'a = nat] bit_iff_odd [of "unat c" 23] by (simp add: q_def split: if_splits)
qed

section \<open>Properties\<close>

text \<open>\<open>SetCompact\<close> decodes every 32-bit compact value exactly: with the size S in the top byte and
  the mantissa M in the low 23 bits it stores M * 256^S / 256^3 reduced modulo 2^256, the overflow flag
  says whether that reduction lost something, and the negative flag whether the sign bit is set on a
  number that is not zero.\<close>

theorem SetCompact_exact:
  "case SetCompact c of (v, neg, ovf) \<Rightarrow>
     let N = (unat c mod 2 ^ 23) * 256 ^ (unat c div 2 ^ 24) div 256 ^ 3 in
     wf_uint v \<and> limbs_nat v = N mod 2 ^ 256 \<and> (ovf \<longleftrightarrow> 2 ^ 256 \<le> N) \<and> (neg \<longleftrightarrow> N \<noteq> 0 \<and> bit c 23)"
proof -
  obtain v neg ovf where "SetCompact c = (v, neg, ovf)" by (cases "SetCompact c")
  then show ?thesis using SetCompact_value [of c v neg ovf] by (simp only: prod.case compact_nat_def Let_def)
qed

text \<open>\<open>GetCompact\<close> never fails one of its assertions, and encoding is canonical: decoding the
  result gives, without overflow and with the sign asked for, a value that is at most the encoded one and
  below it by no more than one part in 2^15, and encoding that value again gives the same compact
  number.\<close>

theorem GetCompact_canonical:
  assumes "wf_uint a"
  shows "\<exists>c v. GetCompact a fNegative = Inr c \<and> SetCompact c = (v, fNegative \<and> limbs_nat a \<noteq> 0, False) \<and>
    wf_uint v \<and> limbs_nat v \<le> limbs_nat a \<and> (limbs_nat a - limbs_nat v) * 2 ^ 15 \<le> limbs_nat a \<and>
    GetCompact v fNegative = Inr c"
proof -
  let ?n = "limbs_nat a"
  obtain c S m where c: "GetCompact a fNegative = Inr c" "chosen_mantissa a = (m, S)"
    "unat c = 2 ^ 24 * S + (if fNegative \<and> ?n \<noteq> 0 then 2 ^ 23 else 0) + unat m"
    by (rule GetCompact_value [OF assms])
  note m = chosen_mantissa_value [OF assms c(2)]
  note f = compact_fields [OF c(3) m(2)]
  have "2 ^ 15 \<le> compact_mantissa S ?n \<or> ?n = 0" using m by auto
  note r = compact_rounding [OF this]
  obtain v neg ovf where v: "SetCompact c = (v, neg, ovf)" by (cases "SetCompact c")
  note sv = SetCompact_value [OF v, unfolded f m(1)]
  have "?n < 2 ^ 256" using limbs_nat_less [of a] assms by (simp add: wf_uint_def WIDTH_def)
  then have small: "compact_nat S (compact_mantissa S ?n) < 2 ^ 256" using r(1) by (rule le_less_trans [rotated])
  then have V: "limbs_nat v = compact_nat S (compact_mantissa S ?n)" "wf_uint v" using sv by simp_all
  obtain c' S' m' where c': "GetCompact v fNegative = Inr c'" "chosen_mantissa v = (m', S')"
    "unat c' = 2 ^ 24 * S' + (if fNegative \<and> limbs_nat v \<noteq> 0 then 2 ^ 23 else 0) + unat m'"
    by (rule GetCompact_value [OF V(2)])
  note m' = chosen_mantissa_value [OF V(2) c'(2)]
  have z: "limbs_nat v = 0 \<longleftrightarrow> ?n = 0" using r(4) V(1) by simp
  have same: "compact_mantissa S (limbs_nat v) = unat m" using r(3) V(1) m(1) by simp
  have S: "S' = S"
  proof (cases "?n = 0")
    case False
    then show ?thesis using compact_size_unique [of S' "limbs_nat v" S] m' m same z by simp
  qed (use m(5) m'(5) z in simp)
  then have "unat c' = unat c" using c(3) c'(3) z m'(1) same by simp
  then have "c' = c" by (simp only: word_unat_eq_iff)
  moreover have "neg = (fNegative \<and> ?n \<noteq> 0)" "\<not> ovf" using sv small r(4) by auto
  ultimately show ?thesis using c(1) c'(1) v V r by auto
qed

text \<open>Witness: the 256-bit value 0x80 needs a second byte for its sign bit.\<close>

theorem GetCompact_canonical_witness:
  "wf_uint (base_uint_of 0x80) \<and> GetCompact (base_uint_of 0x80) True = Inr 0x02808000 \<and>
   (\<exists>v. SetCompact 0x02808000 = (v, True, False) \<and> limbs_nat v \<le> 0x80 \<and> GetCompact v True = Inr 0x02808000)"
proof -
  have "GetCompact (base_uint_of 0x80) True = Inr 0x02808000" by code_simp
  then show ?thesis using GetCompact_canonical [of "base_uint_of 0x80" True] by (auto simp: base_uint_of_value)
qed

end
