(* ===== verification/Witness_Util.thy ===== *)
theory Witness_Util
  imports Script_Standard Arith_Uint256
begin

text \<open>
  The witness helpers of \<^verbatim>\<open>src/src/witnessutil.h\<close> and \<^verbatim>\<open>witnessutil.cpp\<close>:
  recognising witness outputs, the phases of the protocol, lock lengths and the weight of a witness
  account. The chain parameters the functions read are a record; a block index pointer is the height
  of the block or \<^const>\<open>None\<close>.
\<close>

section \<open>Constants and parameters\<close>

definition gRefactorDailyBlocksUsage :: int where
  "gRefactorDailyBlocksUsage = 576"
definition gMinimumWitnessAmount :: int where
  "gMinimumWitnessAmount = 5000"
definition gMinimumWitnessWeight :: int where
  "gMinimumWitnessWeight = 10000"
definition gMinimumWitnessLockDays :: int where
  "gMinimumWitnessLockDays = 30"
definition gMaximumWitnessLockDays :: int where
  "gMaximumWitnessLockDays = 3 * 365"
definition gMaximumWitnessCompoundAmount :: int where
  "gMaximumWitnessCompoundAmount = 40"

record chain_params =
  fIsOfficialTestnetV1 :: bool
  fIsTestnet :: bool
  nPowTargetSpacing :: int
  pow2Phase2FirstBlockHeight :: u64
  pow2Phase3FirstBlockHeight :: u64
  pow2Phase4FirstBlockHeight :: u64
  pow2Phase5FirstBlockHeight :: u64
  pow2WitnessSyncHeight :: u64

section \<open>Witness outputs\<close>

definition IsPow2WitnessOutput :: "CTxOut \<Rightarrow> bool" where
  "IsPow2WitnessOutput out \<longleftrightarrow> txout_GetType out = 31"

definition GetPow2WitnessOutput :: "CTxOut \<Rightarrow> CTxOutPoW2Witness option" where
  "GetPow2WitnessOutput out = (case txout out of PoW2WitnessOutput w \<Rightarrow> Some w | _ \<Rightarrow> None)"

definition GetPoW2WitnessOutputFromWitnessDestination :: "CTxOutPoW2Witness \<Rightarrow> CTxOutPoW2Witness" where
  "GetPoW2WitnessOutputFromWitnessDestination fromDest =
     \<lparr>spendingKeyID = spendingKeyID fromDest, witnessKeyID = witnessKeyID fromDest,
      lockFromBlock = lockFromBlock fromDest, lockUntilBlock = lockUntilBlock fromDest,
      failCount = failCount fromDest, actionNonce = actionNonce fromDest\<rparr>"

definition IsPoW2WitnessLocked_details :: "CTxOutPoW2Witness \<Rightarrow> u64 \<Rightarrow> bool" where
  "IsPoW2WitnessLocked_details w nTipHeight \<longleftrightarrow> lockUntilBlock w \<ge> nTipHeight"

definition IsPoW2WitnessLocked :: "CTxOut \<Rightarrow> u64 \<Rightarrow> bool" where
  "IsPoW2WitnessLocked out nTipHeight \<longleftrightarrow>
     (case GetPow2WitnessOutput out of None \<Rightarrow> False | Some w \<Rightarrow> IsPoW2WitnessLocked_details w nTipHeight)"

section \<open>Phases\<close>

definition IsPow2Phase2Active :: "chain_params \<Rightarrow> int option \<Rightarrow> bool" where
  "IsPow2Phase2Active params pindexPrev \<longleftrightarrow>
     (case pindexPrev of None \<Rightarrow> False | Some h \<Rightarrow> (word_of_int h :: u64) \<ge> pow2Phase2FirstBlockHeight params)"

definition IsPow2Phase3Active :: "chain_params \<Rightarrow> u64 \<Rightarrow> bool" where
  "IsPow2Phase3Active params h \<longleftrightarrow> h \<ge> pow2Phase3FirstBlockHeight params"

definition IsPow2Phase4Active :: "chain_params \<Rightarrow> int option \<Rightarrow> bool" where
  "IsPow2Phase4Active params pindexPrev \<longleftrightarrow>
     (case pindexPrev of None \<Rightarrow> False | Some h \<Rightarrow> (word_of_int h :: u64) \<ge> pow2Phase4FirstBlockHeight params)"

definition IsPow2Phase5Active :: "chain_params \<Rightarrow> u64 \<Rightarrow> bool" where
  "IsPow2Phase5Active params h \<longleftrightarrow> h \<ge> pow2Phase5FirstBlockHeight params"

definition IsPow2Phase5Active_index :: "chain_params \<Rightarrow> int option \<Rightarrow> bool" where
  "IsPow2Phase5Active_index params pIndex \<longleftrightarrow>
     (case pIndex of None \<Rightarrow> False | Some h \<Rightarrow> IsPow2Phase5Active params (word_of_int h))"

definition IsPow2WitnessingActive :: "chain_params \<Rightarrow> u64 \<Rightarrow> bool" where
  "IsPow2WitnessingActive params h \<longleftrightarrow> IsPow2Phase3Active params h"

definition GetPoW2Phase :: "chain_params \<Rightarrow> int option \<Rightarrow> int" where
  "GetPoW2Phase params pindexPrev =
     (if IsPow2Phase2Active params pindexPrev then
        if IsPow2Phase3Active params (case pindexPrev of None \<Rightarrow> 0 | Some h \<Rightarrow> word_of_int h) then
          if IsPow2Phase4Active params pindexPrev then 4 else 3
        else 2
      else 1)"

section \<open>Locks\<close>

text \<open>
  The length of a lock with its first and last block. The difference is taken in 64 bits and wraps
  when the lock ends before it starts.
\<close>

definition GetPoW2LockLengthInBlocksFromOutput :: "CTxOut \<Rightarrow> u64 \<Rightarrow> cpp_exn + u64 \<times> u64 \<times> u64" where
  "GetPoW2LockLengthInBlocksFromOutput out txBlockNumber =
     bind_e (case txout out of
               PoW2WitnessOutput w \<Rightarrow> Inr w
             | ScriptLegacyOutput s \<Rightarrow>
                 bind_e (ExtractPoW2WitnessFromScript s) (\<lambda>r.
                 Inr (case r of None \<Rightarrow> CTxOutPoW2Witness_clear | Some w \<Rightarrow> w))
             | _ \<Rightarrow> Inl AssertFail) (\<lambda>w.
       let nFromBlockOut = (if lockFromBlock w = 0 then txBlockNumber else lockFromBlock w);
           nUntilBlockOut = lockUntilBlock w
       in Inr ((nUntilBlockOut - nFromBlockOut) + 1, nFromBlockOut, nUntilBlockOut))"

definition GetPoW2RemainingLockLengthInBlocks :: "u64 \<Rightarrow> u64 \<Rightarrow> u64" where
  "GetPoW2RemainingLockLengthInBlocks until tipHeight =
     (if until < tipHeight then 0 else (until - tipHeight) + 1)"

definition DailyBlocksTarget :: "chain_params \<Rightarrow> int" where
  "DailyBlocksTarget params = i32 (c_div (24 * 60 * 60) (nPowTargetSpacing params))"

definition MinimumWitnessLockLength :: "chain_params \<Rightarrow> u64" where
  "MinimumWitnessLockLength params =
     (if fIsOfficialTestnetV1 params then word_of_int (gMinimumWitnessLockDays * gRefactorDailyBlocksUsage)
      else if fIsTestnet params then 50
      else word_of_int (i32 (gMinimumWitnessLockDays * DailyBlocksTarget params)))"

definition MaximumWitnessLockLength :: "chain_params \<Rightarrow> u64" where
  "MaximumWitnessLockLength params =
     (if fIsTestnet params then word_of_int (gMaximumWitnessLockDays * gRefactorDailyBlocksUsage)
      else word_of_int (i32 (gMaximumWitnessLockDays * DailyBlocksTarget params)))"

section \<open>Weight\<close>

text \<open>
  The weight is computed on 256-bit numbers scaled by the number of units of a coin; the result is
  the low 64 bits of the quotient, read as a signed number.
\<close>

definition GetPoW2RawWeightForAmount :: "int \<Rightarrow> int \<Rightarrow> int \<Rightarrow> cpp_exn + int" where
  "GetPoW2RawWeightForAmount nAmount nHeight nLockLengthInBlocks =
     (let base = base_uint_of (word_of_int COIN);
          base3 = uint_mul (uint_mul base base) base;
          BlocksPerYear = base_uint_of (365 * 576);
          Quantity = base_uint_of (word_of_int nAmount) in
      bind_e (uint_div (uint_mul Quantity Quantity) (base_uint_of 100000)) (\<lambda>square.
      bind_e (uint_div (uint_mul (base_uint_of (word_of_int nLockLengthInBlocks)) base) BlocksPerYear) (\<lambda>years.
      bind_e (uint_div (uint_mul (uint_add (uint_mul Quantity base) square)
                                 (uint_add (uint_mul (base_uint_of 1) base) years)) base3) (\<lambda>nWeight.
      Inr (sint (GetLow64 nWeight))))))"

section \<open>The weight is exact\<close>

lemma uint_mul_value:
  assumes "wf_uint a" "wf_uint b" "limbs_nat a * limbs_nat b < 2 ^ 256"
  shows "wf_uint (uint_mul a b)" "limbs_nat (uint_mul a b) = limbs_nat a * limbs_nat b"
proof -
  show wf: "wf_uint (uint_mul a b)" using assms mul_refines.wf by blast
  have "limbs_nat (uint_mul a b) = unat (uint_word a * uint_word b)"
    using unat_uint_word [OF wf] mul_refines.abs [OF assms(1,2)] by simp
  also have "\<dots> = limbs_nat a * limbs_nat b mod 2 ^ 256"
    by (simp only: unat_word_ariths unat_uint_word assms(1,2)) simp
  finally show "limbs_nat (uint_mul a b) = limbs_nat a * limbs_nat b" using assms(3) by simp
qed

lemma uint_add_value:
  assumes "wf_uint a" "wf_uint b" "limbs_nat a + limbs_nat b < 2 ^ 256"
  shows "wf_uint (uint_add a b)" "limbs_nat (uint_add a b) = limbs_nat a + limbs_nat b"
proof -
  show wf: "wf_uint (uint_add a b)" using assms add_refines.wf by blast
  have "limbs_nat (uint_add a b) = unat (uint_word a + uint_word b)"
    using unat_uint_word [OF wf] add_refines.abs [OF assms(1,2)] by simp
  also have "\<dots> = (limbs_nat a + limbs_nat b) mod 2 ^ 256"
    by (simp only: unat_word_ariths unat_uint_word assms(1,2)) simp
  finally show "limbs_nat (uint_add a b) = limbs_nat a + limbs_nat b" using assms(3) by simp
qed

lemma uint_div_small:
  assumes "wf_uint a" "wf_uint b" "limbs_nat b \<noteq> 0"
  obtains q where "uint_div a b = Inr q" "wf_uint q" "limbs_nat q = limbs_nat a div limbs_nat b"
  using uint_div_value(2) [OF assms] by blast

definition raw_weight :: "nat \<Rightarrow> nat \<Rightarrow> nat" where
  "raw_weight q l = (q * 100000000 + q * q div 100000) * (100000000 + l * 100000000 div (365 * 576)) div 100000000 ^ 3"

lemma weight_bounds:
  assumes "q \<le> 168000000000000000" "l < 2 ^ 32"
  shows "q * q < 2 ^ 256" "q * 100000000 < 2 ^ 256" "l * 100000000 < 2 ^ 256"
    "q * 100000000 + q * q div 100000 < 2 ^ 99" "100000000 + l * 100000000 div (365 * 576) < 2 ^ 41"
    "raw_weight q l < 2 ^ 63"
proof -
  have qq: "q * q \<le> 168000000000000000 * 168000000000000000" using assms(1) by (intro mult_le_mono)
  then show "q * q < 2 ^ 256" by simp
  show "q * 100000000 < 2 ^ 256" "l * 100000000 < 2 ^ 256" using assms by simp_all
  have "q * q div 100000 \<le> 168000000000000000 * 168000000000000000 div 100000" using qq by (rule div_le_mono)
  then have a: "q * 100000000 + q * q div 100000 \<le> 282256800000000000000000000000" using assms(1) by simp
  then show "q * 100000000 + q * q div 100000 < 2 ^ 99" by simp
  have "l * 100000000 div (365 * 576) \<le> 2 ^ 32 * 100000000 div (365 * 576)" using assms(2) by (intro div_le_mono) simp
  then have b: "100000000 + l * 100000000 div (365 * 576) \<le> 2042987792998" by simp
  then show "100000000 + l * 100000000 div (365 * 576) < 2 ^ 41" by simp
  have "raw_weight q l \<le> 282256800000000000000000000000 * 2042987792998 div 100000000 ^ 3"
    unfolding raw_weight_def by (intro div_le_mono mult_le_mono a b)
  then show "raw_weight q l < 2 ^ 63" by simp
qed

lemma base_uint_of_int: "0 \<le> x \<Longrightarrow> x < 2 ^ 64 \<Longrightarrow> limbs_nat (base_uint_of (word_of_int x)) = nat x"
proof -
  assume x: "0 \<le> x" "x < 2 ^ 64"
  then have "unat (word_of_int x :: u64) = unat (word_of_nat (nat x) :: u64)" by simp
  also have "\<dots> = nat x" using x by (simp only: unat_of_nat) (simp add: nat_less_iff)
  finally show ?thesis by (simp add: base_uint_of_value)
qed

lemma sint_small: "unat w < 2 ^ 63 \<Longrightarrow> sint (w :: u64) = int (unat w)"
  using sint_word_of_nat [of "unat w"] by simp

text \<open>The scaled operations on values that do not wrap.\<close>

lemma COIN_limbs: "wf_uint (base_uint_of (word_of_int COIN))" "limbs_nat (base_uint_of (word_of_int COIN)) = 100000000"
  using base_uint_of_int [of COIN] by (simp_all add: COIN_def base_uint_of_value)

lemma COIN_cubed:
  defines "base \<equiv> base_uint_of (word_of_int COIN)"
  shows "wf_uint (uint_mul (uint_mul base base) base)" "limbs_nat (uint_mul (uint_mul base base) base) = 100000000 ^ 3"
proof -
  note b = COIN_limbs [folded base_def]
  have "limbs_nat base * limbs_nat base < 2 ^ 256" by (simp add: b)
  note s = uint_mul_value [OF b(1) b(1) this]
  have "limbs_nat (uint_mul base base) * limbs_nat base < 2 ^ 256" by (simp add: s b)
  note c = uint_mul_value [OF s(1) b(1) this]
  show "wf_uint (uint_mul (uint_mul base base) base)" by (rule c(1))
  show "limbs_nat (uint_mul (uint_mul base base) base) = 100000000 ^ 3" by (simp add: c(2) s(2) b(2))
qed

lemma scaled_one:
  defines "base \<equiv> base_uint_of (word_of_int COIN)"
  shows "wf_uint (uint_mul (base_uint_of 1) base)" "limbs_nat (uint_mul (base_uint_of 1) base) = 100000000"
  using uint_mul_value [OF base_uint_of_value(1) COIN_limbs(1), of 1] COIN_limbs(2)
  by (simp_all add: base_def base_uint_of_value)

lemma raw_weight_int:
  "0 \<le> q \<Longrightarrow> 0 \<le> l \<Longrightarrow>
   int (raw_weight (nat q) (nat l)) = (q * COIN + q * q div 100000) * (COIN + l * COIN div (365 * 576)) div COIN ^ 3"
  by (simp add: raw_weight_def COIN_def zdiv_int)

lemma raw_weight_value:
  assumes "MoneyRange q" "0 \<le> l" "l < 2 ^ 32"
  shows "GetPoW2RawWeightForAmount q h l =
    Inr ((q * COIN + q * q div 100000) * (COIN + l * COIN div (365 * 576)) div COIN ^ 3)"
proof -
  define Q L where "Q = nat q" and "L = nat l"
  have q: "0 \<le> q" "q < 2 ^ 64" "Q \<le> 168000000000000000" "L < 2 ^ 32"
    using assms by (auto simp: MoneyRange_def MAX_MONEY_def COIN_def Q_def L_def nat_less_iff)
  note b = weight_bounds [OF q(3,4)]
  note base = COIN_limbs(2)
  note wf = base_uint_of_value(1)
  have Q: "limbs_nat (base_uint_of (word_of_int q)) = Q" and L: "limbs_nat (base_uint_of (word_of_int l)) = L"
    using q assms(2,3) by (simp_all add: base_uint_of_int Q_def L_def)
  note QQ = uint_mul_value [OF wf wf, of "word_of_int q" "word_of_int q", unfolded Q, OF b(1)]
  note LB = uint_mul_value [OF wf wf, of "word_of_int l" "word_of_int COIN", unfolded L base, OF b(3)]
  note QB = uint_mul_value [OF wf wf, of "word_of_int q" "word_of_int COIN", unfolded Q base, OF b(2)]
  obtain sq where sq: "uint_div (uint_mul (base_uint_of (word_of_int q)) (base_uint_of (word_of_int q))) (base_uint_of 100000) = Inr sq"
    "wf_uint sq" "limbs_nat sq = Q * Q div 100000"
    using uint_div_small [OF QQ(1) wf, of 100000] QQ(2) by (auto simp: base_uint_of_value)
  obtain yr where yr: "uint_div (uint_mul (base_uint_of (word_of_int l)) (base_uint_of (word_of_int COIN))) (base_uint_of (365 * 576)) = Inr yr"
    "wf_uint yr" "limbs_nat yr = L * 100000000 div (365 * 576)"
    using uint_div_small [OF LB(1) wf, of "365 * 576"] LB(2) by (auto simp: base_uint_of_value)
  let ?a = "uint_add (uint_mul (base_uint_of (word_of_int q)) (base_uint_of (word_of_int COIN))) sq"
  let ?b = "uint_add (uint_mul (base_uint_of 1) (base_uint_of (word_of_int COIN))) yr"
  have a: "wf_uint ?a" "limbs_nat ?a = Q * 100000000 + Q * Q div 100000"
    using uint_add_value [OF QB(1) sq(2)] b(4) by (simp_all add: QB(2) sq(3))
  have y: "wf_uint ?b" "limbs_nat ?b = 100000000 + L * 100000000 div (365 * 576)"
    using uint_add_value [OF scaled_one(1) yr(2)] b(5) by (simp_all add: scaled_one(2) yr(3))
  have "limbs_nat ?a * limbs_nat ?b < 2 ^ 99 * 2 ^ 41"
    unfolding a(2) y(2) using b(4,5) by (rule mult_strict_mono) simp_all
  then have ab: "limbs_nat ?a * limbs_nat ?b < 2 ^ 256" by simp
  note m = uint_mul_value [OF a(1) y(1) ab]
  obtain w where w: "uint_div (uint_mul ?a ?b) (uint_mul (uint_mul (base_uint_of (word_of_int COIN))
      (base_uint_of (word_of_int COIN))) (base_uint_of (word_of_int COIN))) = Inr w"
    "wf_uint w" "limbs_nat w = raw_weight Q L"
    using uint_div_small [OF m(1) COIN_cubed(1)] unfolding COIN_cubed(2) m(2) a(2) y(2) raw_weight_def by auto
  have "unat (GetLow64 w) = raw_weight Q L" using GetLow64_value [OF w(2)] w(3) b(6) by simp
  then have "sint (GetLow64 w) = int (raw_weight Q L)" using b(6) sint_small [of "GetLow64 w"] by (simp only:)
  then show ?thesis
    using raw_weight_int [OF q(1) assms(2)]
    by (simp only: GetPoW2RawWeightForAmount_def Let_def sq(1) yr(1) w(1) bind_e_Inr Q_def L_def)
qed

text \<open>For amounts in the money range and locks of less than 2^32 blocks no intermediate product of
  \<open>GetPoW2RawWeightForAmount\<close> wraps, no division fails and the result fits in 64 bits: the weight is
  the formula (q + q^2/100000) * (1 + years) in coin units, with every division truncated.\<close>

theorem raw_weight_exact:
  assumes "MoneyRange q" "0 \<le> l" "l < 2 ^ 32"
  shows "GetPoW2RawWeightForAmount q h l =
    Inr ((q * COIN + q * q div 100000) * (COIN + l * COIN div (365 * 576)) div COIN ^ 3)"
  using assms by (rule raw_weight_value)

theorem raw_weight_exact_witness:
  "GetPoW2RawWeightForAmount 500000000000 100 17280 = Inr 5681"
  using raw_weight_exact [of 500000000000 17280 100] by (simp add: MoneyRange_def MAX_MONEY_def COIN_def)

end
