(* ===== verification/Validation_State.thy ===== *)
theory Validation_State
  imports Munt_Prelude
begin

text \<open>
  The outcome of a validation check: \<^verbatim>\<open>CValidationState\<close> of
  \<^verbatim>\<open>src/src/consensus/validation.h\<close>. A check that fails calls \<^verbatim>\<open>DoS\<close> or
  \<^verbatim>\<open>Invalid\<close> once and returns false; here it returns the arguments of that call as an
  error value, and \<open>report\<close> gives the effect of the call on the state. The texts of the reasons are
  constructors, and the debug messages are left out.
\<close>

datatype reject_reason =
    NoReason
  | BadTxnsVinEmpty
  | BadTxnsVoutEmpty
  | BadTxnsOversize
  | BadTxnsVoutNegative
  | BadTxnsVoutToolarge
  | BadTxnsTxouttotalToolarge
  | BadTxnsInputsDuplicate
  | BadCbLength
  | BadCbSegdata
  | BadTxnsPrevoutNull
  | WitnessOutputTooSmall
  | WitnessLockTooShort
  | WitnessLockTooLong
  | WitnessInsufficientWeight
  | WitnessCoinbaseCompoundingTooMuch
  | BadTxnsInWitnessMissingSpendKey
  | BadTxnsInWitnessBundleMismatchingLockfrom
  | BadTxnsInWitnessInvalidRearrangeBundle
  | BadTxnsInWitnessInvalidSpendBundle
  | BadTxnsInWitnessInvalidIncreaseBundle
  | BadTxnsInWitnessInvalidChangewitnesskeyBundle
  | BadTxnsInsufficientDepthIndexInput
  | BadTxnsPrematureSpendOfCoinbase
  | BadTxnsInputvaluesOutofrange
  | BadTxnsInBelowout
  | BadTxnsFeeNegative
  | BadTxnsFeeMissingWitnessRenewalPenaltyFee
  | BadTxnsFeeOutofrange

definition REJECT_INVALID :: nat where
  "REJECT_INVALID = 0x10"

datatype mode_state = MODE_VALID | MODE_INVALID | MODE_ERROR

record CValidationState =
  vs_mode :: mode_state
  nDoS :: int
  strRejectReason :: reject_reason
  chRejectCode :: nat
  corruptionPossible :: bool

definition CValidationState_new :: CValidationState where
  "CValidationState_new =
     \<lparr>vs_mode = MODE_VALID, nDoS = 0, strRejectReason = NoReason, chRejectCode = 0, corruptionPossible = False\<rparr>"

definition vs_DoS :: "int \<Rightarrow> bool \<Rightarrow> nat \<Rightarrow> reject_reason \<Rightarrow> bool \<Rightarrow> CValidationState \<Rightarrow> bool \<times> CValidationState" where
  "vs_DoS level ret chRejectCodeIn strRejectReasonIn corruptionIn st =
     (let st = st\<lparr>chRejectCode := chRejectCodeIn, strRejectReason := strRejectReasonIn, corruptionPossible := corruptionIn\<rparr> in
      if vs_mode st = MODE_ERROR then (ret, st)
      else (ret, st\<lparr>nDoS := nDoS st + level, vs_mode := MODE_INVALID\<rparr>))"

definition vs_Invalid :: "bool \<Rightarrow> nat \<Rightarrow> reject_reason \<Rightarrow> CValidationState \<Rightarrow> bool \<times> CValidationState" where
  "vs_Invalid ret code reason = vs_DoS 0 ret code reason False"

definition vs_Error :: "reject_reason \<Rightarrow> CValidationState \<Rightarrow> bool \<times> CValidationState" where
  "vs_Error reason st =
     (False, (if vs_mode st = MODE_VALID then st\<lparr>strRejectReason := reason\<rparr> else st)\<lparr>vs_mode := MODE_ERROR\<rparr>)"

definition vs_IsValid :: "CValidationState \<Rightarrow> bool" where
  "vs_IsValid st \<longleftrightarrow> vs_mode st = MODE_VALID"

definition vs_IsInvalid :: "CValidationState \<Rightarrow> bool" where
  "vs_IsInvalid st \<longleftrightarrow> vs_mode st = MODE_INVALID"

definition vs_IsError :: "CValidationState \<Rightarrow> bool" where
  "vs_IsError st \<longleftrightarrow> vs_mode st = MODE_ERROR"

text \<open>The ways a check can fail: \<^verbatim>\<open>return state.DoS(level, false, code, reason)\<close>,
  \<^verbatim>\<open>return state.Invalid(false, code, reason)\<close>, a plain \<^verbatim>\<open>return false\<close>, and
  an exception or failed assertion.\<close>

datatype tx_failure =
    DoS int nat reject_reason
  | Invalid nat reject_reason
  | ReturnFalse
  | TxExn cpp_exn

definition tx_throws :: "cpp_exn + 'a \<Rightarrow> tx_failure + 'a" where
  "tx_throws r = (case r of Inl e \<Rightarrow> Inl (TxExn e) | Inr x \<Rightarrow> Inr x)"

definition tx_require :: "bool \<Rightarrow> tx_failure \<Rightarrow> tx_failure + unit" where
  "tx_require c f = (if c then Inr () else Inl f)"

definition report :: "tx_failure + 'a \<Rightarrow> CValidationState \<Rightarrow> cpp_exn + (bool \<times> CValidationState)" where
  "report r st =
     (case r of Inr _ \<Rightarrow> Inr (True, st)
      | Inl (DoS level code reason) \<Rightarrow> Inr (vs_DoS level False code reason False st)
      | Inl (Invalid code reason) \<Rightarrow> Inr (vs_Invalid False code reason st)
      | Inl ReturnFalse \<Rightarrow> Inr (False, st)
      | Inl (TxExn e) \<Rightarrow> Inl e)"

lemma tx_throws_eq [simp, exn_simps]:
  "tx_throws (Inr x) = Inr x" "tx_throws (Inl e) = Inl (TxExn e)"
  "tx_throws r = Inr x \<longleftrightarrow> r = Inr x"
  "tx_throws r = Inl f \<longleftrightarrow> (\<exists>e. r = Inl e \<and> f = TxExn e)"
  by (auto simp: tx_throws_def split: sum.splits)

lemma tx_require_eq [simp, exn_simps]:
  "tx_require c f = Inr u \<longleftrightarrow> c" "tx_require c f = Inl g \<longleftrightarrow> \<not> c \<and> g = f"
  by (auto simp: tx_require_def)

lemma report_accepts: "report r st = Inr (True, st') \<longleftrightarrow> (\<exists>x. r = Inr x) \<and> st' = st"
  by (auto simp: report_def vs_DoS_def vs_Invalid_def Let_def split: sum.splits tx_failure.splits if_splits)

end
