(* ===== verification/Witness_Bundles.thy ===== *)
theory Witness_Bundles
  imports Witness_Util Validation_State
begin

text \<open>
  The witness bundles of \<^verbatim>\<open>src/src/consensus/tx_verify.h\<close> and \<^verbatim>\<open>tx_verify.cpp\<close>:
  the inputs and outputs of a transaction that belong to witness accounts are grouped into bundles, one
  per operation on an account, and each bundle must obey the rules of its operation. The lookup of a
  spent output (\<^verbatim>\<open>getTxOut\<close>) is a parameter, as it is in the code. The unused half of the
  storage of the outpoints kept in a bundle is zero.
\<close>

section \<open>Bundles\<close>

datatype WitnessTxType =
  CreationType | WitnessType | SpendType | RenewType | IncreaseType | RearrangeType | ChangeWitnessKeyType

type_synonym witness_item = "CTxOut \<times> CTxOutPoW2Witness \<times> COutPoint"

record CWitnessTxBundle =
  bundleType :: WitnessTxType
  inputsActualLockFromBlock :: u64
  b_inputs :: "witness_item list"
  b_outputs :: "witness_item list"

definition CWitnessTxBundle_new :: "WitnessTxType \<Rightarrow> CWitnessTxBundle" where
  "CWitnessTxBundle_new t = \<lparr>bundleType = t, inputsActualLockFromBlock = 0, b_inputs = [], b_outputs = []\<rparr>"

definition CWitnessTxBundle_output :: "WitnessTxType \<Rightarrow> witness_item \<Rightarrow> CWitnessTxBundle" where
  "CWitnessTxBundle_output t output = (CWitnessTxBundle_new t)\<lparr>b_outputs := [output]\<rparr>"

definition push_input :: "witness_item \<Rightarrow> CWitnessTxBundle \<Rightarrow> CWitnessTxBundle" where
  "push_input i b = b\<lparr>b_inputs := b_inputs b @ [i]\<rparr>"

definition push_output :: "witness_item \<Rightarrow> CWitnessTxBundle \<Rightarrow> CWitnessTxBundle" where
  "push_output i b = b\<lparr>b_outputs := b_outputs b @ [i]\<rparr>"

abbreviation item_value :: "witness_item \<Rightarrow> CAmount" where
  "item_value i \<equiv> nValue (fst i)"

abbreviation item_details :: "witness_item \<Rightarrow> CTxOutPoW2Witness" where
  "item_details i \<equiv> fst (snd i)"

definition details_IsLockFromConsistent :: "CTxOutPoW2Witness \<Rightarrow> CTxOutPoW2Witness \<Rightarrow> u64 \<Rightarrow> bool" where
  "details_IsLockFromConsistent inputDetails outputDetails nInputHeight \<longleftrightarrow>
     (if lockFromBlock inputDetails = 0 then lockFromBlock outputDetails = nInputHeight
      else lockFromBlock inputDetails = lockFromBlock outputDetails)"

definition IsLockFromConsistent :: "CWitnessTxBundle \<Rightarrow> bool" where
  "IsLockFromConsistent b \<longleftrightarrow>
     \<not> (length (b_inputs b) > 0 \<and> inputsActualLockFromBlock b = 0) \<and>
     list_all (\<lambda>output. lockFromBlock (item_details output) = inputsActualLockFromBlock b) (b_outputs b)"

section \<open>Fail counts and the renewal penalty\<close>

definition gMaximumRenewalPenalty :: int where
  "gMaximumRenewalPenalty = COIN * 20"

definition gPerFailCountRenewalPenalty :: int where
  "gPerFailCountRenewalPenalty = (2 * COIN) div 100"

definition CalculateWitnessPenaltyFee :: "CTxOut \<Rightarrow> CAmount" where
  "CalculateWitnessPenaltyFee output =
     (case GetPow2WitnessOutput output of None \<Rightarrow> 0
      | Some w \<Rightarrow>
          let nPenalty = sint (word_of_int gPerFailCountRenewalPenalty * failCount w)
          in if nPenalty > gMaximumRenewalPenalty then gMaximumRenewalPenalty else nPenalty)"

definition IncrementWitnessFailCount :: "u64 \<Rightarrow> u64" where
  "IncrementWitnessFailCount n =
     (let n = n + n div 3; n = n + 1
      in if n > 0xffffffffffffffff div 3 then 0xffffffffffffffff div 3 else n)"

section \<open>The rules of the operations\<close>

definition HasSpendKey :: "CTxIn \<Rightarrow> bool" where
  "HasSpendKey input \<longleftrightarrow> length (segregatedSignatureData input) = 2"

text \<open>Witnessing. The type of the spent output is an argument, as the code keeps it in the details.\<close>

definition IsWitnessBundle ::
  "CTxIn \<Rightarrow> nat \<Rightarrow> CTxOutPoW2Witness \<Rightarrow> CTxOutPoW2Witness \<Rightarrow> CAmount \<Rightarrow> CAmount \<Rightarrow> u64 \<Rightarrow> bool \<Rightarrow> bool" where
  "IsWitnessBundle input nType inputDetails outputDetails nInputAmount nOutputAmount nInputHeight isOldTransactionVersion \<longleftrightarrow>
     \<not> isOldTransactionVersion \<and>
     (nType = 31 \<longrightarrow> length (segregatedSignatureData input) = 1) \<and>
     (nType = 0 \<longrightarrow> length (segregatedSignatureData input) = 2) \<and>
     \<not> nInputAmount > nOutputAmount \<and>
     actionNonce inputDetails + 1 = actionNonce outputDetails \<and>
     spendingKeyID inputDetails = spendingKeyID outputDetails \<and>
     witnessKeyID inputDetails = witnessKeyID outputDetails \<and>
     lockUntilBlock inputDetails = lockUntilBlock outputDetails \<and>
     details_IsLockFromConsistent inputDetails outputDetails nInputHeight \<and>
     (failCount inputDetails = failCount outputDetails + 1 \<or> failCount outputDetails = 0)"

definition IsValidSpendBundle :: "u64 \<Rightarrow> CWitnessTxBundle \<Rightarrow> cpp_exn + bool" where
  "IsValidSpendBundle nCheckHeight b =
     (if length (b_outputs b) \<noteq> 0 then Inr False
      else if length (b_inputs b) \<noteq> 1 then Inr False
      else bind_e (vec_index (b_inputs b) 0) (\<lambda>input. Inr (\<not> lockUntilBlock (item_details input) \<ge> nCheckHeight)))"

definition IsRenewalBundle ::
  "CTxIn \<Rightarrow> CTxOutPoW2Witness \<Rightarrow> CTxOutPoW2Witness \<Rightarrow> CTxOut \<Rightarrow> CTxOut \<Rightarrow> u64 \<Rightarrow> bool" where
  "IsRenewalBundle input inputDetails outputDetails prevOut output nInputHeight \<longleftrightarrow>
     HasSpendKey input \<and>
     nValue prevOut = nValue output \<and>
     actionNonce inputDetails + 1 = actionNonce outputDetails \<and>
     spendingKeyID inputDetails = spendingKeyID outputDetails \<and>
     witnessKeyID inputDetails = witnessKeyID outputDetails \<and>
     lockUntilBlock inputDetails = lockUntilBlock outputDetails \<and>
     details_IsLockFromConsistent inputDetails outputDetails nInputHeight \<and>
     IncrementWitnessFailCount (failCount inputDetails) = failCount outputDetails"

definition renews :: "witness_item \<Rightarrow> witness_item \<Rightarrow> bool" where
  "renews input output \<longleftrightarrow>
     item_value input = item_value output \<and>
     actionNonce (item_details input) + 1 = actionNonce (item_details output) \<and>
     spendingKeyID (item_details input) = spendingKeyID (item_details output) \<and>
     witnessKeyID (item_details input) = witnessKeyID (item_details output) \<and>
     lockUntilBlock (item_details input) = lockUntilBlock (item_details output) \<and>
     IncrementWitnessFailCount (failCount (item_details input)) = failCount (item_details output)"

fun renewals_loop :: "witness_item list \<Rightarrow> witness_item list \<Rightarrow> nat list \<Rightarrow> cpp_exn + bool" where
  "renewals_loop inputs outputs [] = Inr True"
| "renewals_loop inputs outputs (inputIndex # rest) =
     bind_e (vec_index inputs inputIndex) (\<lambda>input.
     bind_e (vec_index outputs inputIndex) (\<lambda>output.
     if \<not> renews input output then Inr False else renewals_loop inputs outputs rest))"

definition IsValidMultiRenewalBundle :: "chain_params \<Rightarrow> u64 \<Rightarrow> CWitnessTxBundle \<Rightarrow> cpp_exn + bool" where
  "IsValidMultiRenewalBundle params nSpendHeight b =
     (if nSpendHeight \<le> pow2WitnessSyncHeight params then Inr False
      else if length (b_inputs b) < 2 then Inr False
      else if length (b_outputs b) < 2 then Inr False
      else if length (b_inputs b) \<noteq> length (b_outputs b) then Inr False
      else bind_e (renewals_loop (b_inputs b) (b_outputs b) [0..<length (b_inputs b)]) (\<lambda>ok. Inr (ok \<and> IsLockFromConsistent b)))"

text \<open>
  The loops over the inputs and the outputs of an increase or a rearrangement: the first checks each
  input and collects the highest action nonce, the highest fail count and the sum of the values; the
  second checks each output and sums the values.
\<close>

fun inputs_loop ::
  "(CTxOutPoW2Witness \<Rightarrow> bool) \<Rightarrow> u64 \<Rightarrow> u64 \<Rightarrow> CAmount \<Rightarrow> witness_item list \<Rightarrow> (u64 \<times> u64 \<times> CAmount) option" where
  "inputs_loop ok highestActionNonce highestFailCount nInputValue [] =
     Some (highestActionNonce, highestFailCount, nInputValue)"
| "inputs_loop ok highestActionNonce highestFailCount nInputValue (input # rest) =
     (let details = item_details input in
      if \<not> ok details then None
      else inputs_loop ok
             (if actionNonce details > highestActionNonce then actionNonce details else highestActionNonce)
             (if failCount details > highestFailCount then failCount details else highestFailCount)
             (i64 (nInputValue + item_value input)) rest)"

fun outputs_loop :: "(CTxOutPoW2Witness \<Rightarrow> bool) \<Rightarrow> CAmount \<Rightarrow> witness_item list \<Rightarrow> CAmount option" where
  "outputs_loop ok nOutputValue [] = Some nOutputValue"
| "outputs_loop ok nOutputValue (output # rest) =
     (if \<not> ok (item_details output) then None
      else outputs_loop ok (i64 (nOutputValue + item_value output)) rest)"

text \<open>\<^verbatim>\<open>++begin()\<close>: the elements after the first; on an empty vector it has no meaning.\<close>

definition after_first :: "'a list \<Rightarrow> cpp_exn + 'a list" where
  "after_first xs = (case xs of [] \<Rightarrow> Inl UndefinedBehaviour | x # rest \<Rightarrow> Inr rest)"

definition IsValidIncreaseBundle :: "CWitnessTxBundle \<Rightarrow> cpp_exn + bool" where
  "IsValidIncreaseBundle b =
     (if length (b_inputs b) < 1 then Inr False
      else if length (b_outputs b) < 1 then Inr False
      else
        bind_e (vec_index (b_inputs b) 0) (\<lambda>i0.
        bind_e (vec_index (b_outputs b) 0) (\<lambda>o0.
        let input0 = item_details i0; output0 = item_details o0 in
        case inputs_loop (\<lambda>w. spendingKeyID w = spendingKeyID output0 \<and> witnessKeyID w = witnessKeyID output0)
               0 0 0 (b_inputs b) of
          None \<Rightarrow> Inr False
        | Some (highestActionNonce, highestFailCount, nInputValue) \<Rightarrow>
            (case outputs_loop (\<lambda>w. highestActionNonce + 1 = actionNonce w \<and> highestFailCount = failCount w \<and>
                     spendingKeyID input0 = spendingKeyID w \<and> witnessKeyID input0 = witnessKeyID w \<and>
                     0 = lockFromBlock w) 0 (b_outputs b) of
               None \<Rightarrow> Inr False
             | Some nOutputValue \<Rightarrow>
                 bind_e (after_first (b_inputs b)) (\<lambda>inputs.
                 if \<not> list_all (\<lambda>input. lockUntilBlock (item_details input) = lockUntilBlock input0) inputs then Inr False
                 else
                   bind_e (after_first (b_outputs b)) (\<lambda>outputs.
                   Inr (list_all (\<lambda>output. lockUntilBlock (item_details output) = lockUntilBlock output0) outputs \<and>
                        \<not> lockUntilBlock input0 > lockUntilBlock output0 \<and>
                        \<not> nOutputValue < nInputValue)))))))"

definition IsValidRearrangeBundle :: "CWitnessTxBundle \<Rightarrow> cpp_exn + bool" where
  "IsValidRearrangeBundle b =
     (if length (b_inputs b) < 1 then Inr False
      else if length (b_outputs b) < 1 then Inr False
      else
        bind_e (vec_index (b_inputs b) 0) (\<lambda>i0.
        bind_e (vec_index (b_outputs b) 0) (\<lambda>o0.
        let input0 = item_details i0; output0 = item_details o0 in
        case inputs_loop (\<lambda>w. spendingKeyID w = spendingKeyID output0 \<and> witnessKeyID w = witnessKeyID output0 \<and>
                  lockUntilBlock w = lockUntilBlock output0) 0 0 0 (b_inputs b) of
          None \<Rightarrow> Inr False
        | Some (highestActionNonce, highestFailCount, nInputValue) \<Rightarrow>
            (case outputs_loop (\<lambda>w. highestActionNonce + 1 = actionNonce w \<and> highestFailCount = failCount w \<and>
                     spendingKeyID input0 = spendingKeyID w \<and> witnessKeyID input0 = witnessKeyID w \<and>
                     lockUntilBlock input0 = lockUntilBlock w) 0 (b_outputs b) of
               None \<Rightarrow> Inr False
             | Some nOutputValue \<Rightarrow> Inr (nInputValue = nOutputValue \<and> IsLockFromConsistent b)))))"

definition changes_witness_key :: "witness_item \<Rightarrow> witness_item \<Rightarrow> bool" where
  "changes_witness_key input output \<longleftrightarrow>
     item_value input = item_value output \<and>
     spendingKeyID (item_details input) = spendingKeyID (item_details output) \<and>
     \<not> witnessKeyID (item_details input) = witnessKeyID (item_details output) \<and>
     lockUntilBlock (item_details input) = lockUntilBlock (item_details output) \<and>
     actionNonce (item_details input) + 1 = actionNonce (item_details output) \<and>
     failCount (item_details input) = failCount (item_details output)"

definition IsValidChangeWitnessKeyBundle :: "CWitnessTxBundle \<Rightarrow> cpp_exn + bool" where
  "IsValidChangeWitnessKeyBundle b =
     (if length (b_inputs b) < 1 \<or> length (b_inputs b) \<noteq> length (b_outputs b) then Inr False
      else
        bind_e (vec_index (b_outputs b) 0) (\<lambda>o0.
        let output0 = item_details o0 in
        if \<not> list_all (\<lambda>input. \<not> 1 > length (filter (changes_witness_key input) (b_outputs b))) (b_inputs b) then Inr False
        else if \<not> IsLockFromConsistent b then Inr False
        else
          bind_e (after_first (b_outputs b)) (\<lambda>outputs.
          Inr (list_all (\<lambda>output. spendingKeyID (item_details output) = spendingKeyID output0 \<and>
                                  witnessKeyID (item_details output) = witnessKeyID output0) outputs \<and>
               \<not> witnessKeyID output0 = spendingKeyID output0))))"

section \<open>Matching an input\<close>

definition item_outpoint :: "u64 \<Rightarrow> u64 \<Rightarrow> u64 \<Rightarrow> COutPoint" where
  "item_outpoint h txIndex outputIndex = COutPoint_index 0 h txIndex (ucast outputIndex)"

text \<open>\<^verbatim>\<open>bundle.outputs[0]\<close>.\<close>

definition first_output :: "CWitnessTxBundle \<Rightarrow> tx_failure + witness_item" where
  "first_output b = tx_throws (vec_index (b_outputs b) 0)"

text \<open>The first loop looks for a bundle of one output that the input witnesses or renews.\<close>

fun match_single ::
  "CTxIn \<Rightarrow> CTxOut \<Rightarrow> witness_item \<Rightarrow> u64 \<Rightarrow> bool \<Rightarrow> CWitnessTxBundle list \<Rightarrow> tx_failure + CWitnessTxBundle list option" where
  "match_single input prevOut item inputTxHeight old [] = Inr None"
| "match_single input prevOut item inputTxHeight old (b # bs) =
     (let continue = bind_e (match_single input prevOut item inputTxHeight old bs) (\<lambda>r. Inr (map_option ((#) b) r)) in
      if length (b_outputs b) = 1 then
        bind_e (first_output b) (\<lambda>out.
        if IsWitnessBundle input 31 (item_details item) (item_details out) (nValue prevOut) (item_value out) inputTxHeight old
        then if i64 (item_value out - nValue prevOut) > gMaximumWitnessCompoundAmount * COIN
             then Inl (DoS 50 REJECT_INVALID WitnessCoinbaseCompoundingTooMuch)
             else Inr (Some ((push_input item b)\<lparr>bundleType := WitnessType\<rparr> # bs))
        else if IsRenewalBundle input (item_details item) (item_details out) prevOut (fst out) inputTxHeight
        then Inr (Some ((push_input item b)\<lparr>bundleType := RenewType\<rparr> # bs))
        else continue)
      else continue)"

text \<open>Adding an input to a bundle of several inputs: all must be locked from the same block.\<close>

definition add_input :: "WitnessTxType \<Rightarrow> u64 \<Rightarrow> witness_item \<Rightarrow> CWitnessTxBundle \<Rightarrow> tx_failure + CWitnessTxBundle" where
  "add_input t actualLockFromBlock item b =
     (let b = b\<lparr>bundleType := t\<rparr> in
      if inputsActualLockFromBlock b = 0
      then Inr (push_input item (b\<lparr>inputsActualLockFromBlock := actualLockFromBlock\<rparr>))
      else if inputsActualLockFromBlock b \<noteq> actualLockFromBlock
      then Inl (DoS 100 REJECT_INVALID BadTxnsInWitnessBundleMismatchingLockfrom)
      else Inr (push_input item b))"

text \<open>The second loop adds the input to every bundle it could rearrange, increase or change the key of.\<close>

fun match_multi :: "u64 \<Rightarrow> witness_item \<Rightarrow> CWitnessTxBundle list \<Rightarrow> tx_failure + bool \<times> CWitnessTxBundle list" where
  "match_multi actualLockFromBlock item [] = Inr (False, [])"
| "match_multi actualLockFromBlock item (b # bs) =
     (let w = item_details item;
          continue = bind_e (match_multi actualLockFromBlock item bs) (\<lambda>(m, bs'). Inr (m, b # bs')) in
      if length (b_outputs b) = 0 then continue
      else
        bind_e (first_output b) (\<lambda>out.
          let w0 = item_details out in
          if (bundleType b = SpendType \<or> bundleType b = RearrangeType \<or> bundleType b = IncreaseType) \<and>
             witnessKeyID w0 = witnessKeyID w \<and> spendingKeyID w0 = spendingKeyID w
          then bind_e (add_input (if lockFromBlock w0 = 0 then IncreaseType else RearrangeType) actualLockFromBlock item b) (\<lambda>b'.
               bind_e (match_multi actualLockFromBlock item bs) (\<lambda>(m, bs'). Inr (True, b' # bs')))
          else if (bundleType b = SpendType \<or> bundleType b = ChangeWitnessKeyType \<or> bundleType b = RearrangeType) \<and>
             witnessKeyID w0 \<noteq> witnessKeyID w \<and> spendingKeyID w0 = spendingKeyID w
          then bind_e (add_input ChangeWitnessKeyType actualLockFromBlock item b) (\<lambda>b'.
               bind_e (match_multi actualLockFromBlock item bs) (\<lambda>(m, bs'). Inr (True, b' # bs')))
          else continue))"

definition CheckTxInputAgainstWitnessBundles ::
  "CWitnessTxBundle list \<Rightarrow> CTxOut \<Rightarrow> CTxIn \<Rightarrow> u64 \<Rightarrow> u64 \<Rightarrow> u64 \<Rightarrow> bool \<Rightarrow> tx_failure + CWitnessTxBundle list" where
  "CheckTxInputAgainstWitnessBundles bundles prevOut input inputTxHeight inputTxIndex inputTxOutputIndex old =
     (case GetPow2WitnessOutput prevOut of
        None \<Rightarrow> Inr bundles
      | Some inputDetails \<Rightarrow>
          let item = (prevOut, inputDetails, item_outpoint inputTxHeight inputTxIndex inputTxOutputIndex) in
          bind_e (match_single input prevOut item inputTxHeight old bundles) (\<lambda>r.
          case r of
            Some bundles' \<Rightarrow> Inr bundles'
          | None \<Rightarrow>
              bind_e (tx_require (HasSpendKey input \<or> \<not> txout_GetType prevOut \<noteq> 0)
                       (DoS 100 REJECT_INVALID BadTxnsInWitnessMissingSpendKey)) (\<lambda>_.
              let actualLockFromBlock = (if lockFromBlock inputDetails = 0 then inputTxHeight else lockFromBlock inputDetails) in
              bind_e (match_multi actualLockFromBlock item bundles) (\<lambda>(matched, bundles').
              if matched then Inr bundles'
              else Inr (bundles' @ [push_input item
                     ((CWitnessTxBundle_new SpendType)\<lparr>inputsActualLockFromBlock := actualLockFromBlock\<rparr>)])))))"

section \<open>Building the bundles of a transaction\<close>

definition extraLockLengthAllowance :: u64 where
  "extraLockLengthAllowance = 721"

text \<open>The limits on a witness output: amount, lock length and weight.\<close>

definition witness_output_checks :: "chain_params \<Rightarrow> u64 \<Rightarrow> CTxOut \<Rightarrow> CTxOutPoW2Witness \<Rightarrow> tx_failure + unit" where
  "witness_output_checks params nHeight out w =
     bind_e (tx_require (nValue out < gMinimumWitnessAmount * COIN \<longrightarrow> \<not> lockFromBlock w \<noteq> 1)
              (DoS 10 REJECT_INVALID WitnessOutputTooSmall)) (\<lambda>_.
     bind_e (tx_throws (GetPoW2LockLengthInBlocksFromOutput out nHeight)) (\<lambda>(len, _, _).
     let nLockLengthInBlocks = sint len in
     bind_e (tx_require (\<not> nLockLengthInBlocks < sint (MinimumWitnessLockLength params))
              (DoS 10 REJECT_INVALID WitnessLockTooShort)) (\<lambda>_.
     bind_e (tx_require (nLockLengthInBlocks > sint (MaximumWitnessLockLength params + extraLockLengthAllowance) \<longrightarrow>
                         \<not> lockFromBlock w \<noteq> 1)
              (DoS 10 REJECT_INVALID WitnessLockTooLong)) (\<lambda>_.
     bind_e (tx_throws (GetPoW2RawWeightForAmount (nValue out) (sint nHeight) nLockLengthInBlocks)) (\<lambda>nWeight.
     tx_require (nWeight < gMinimumWitnessWeight \<longrightarrow> \<not> lockFromBlock w \<noteq> 1)
       (DoS 10 REJECT_INVALID WitnessInsufficientWeight))))))"

text \<open>
  The loop that places an output: creations are collected per account without leaving the loop, other
  outputs go to the first bundle of the account.
\<close>

fun place_output :: "witness_item \<Rightarrow> CWitnessTxBundle list \<Rightarrow> tx_failure + bool \<times> CWitnessTxBundle list" where
  "place_output item [] = Inr (False, [])"
| "place_output item (b # bs) =
     (let w = item_details item;
          continue = bind_e (place_output item bs) (\<lambda>(m, bs'). Inr (m, b # bs')) in
      if bundleType b = CreationType \<and> lockFromBlock w = 0 \<and> actionNonce w = 0 then
        bind_e (first_output b) (\<lambda>out.
        if witnessKeyID (item_details out) = witnessKeyID w \<and> spendingKeyID (item_details out) = spendingKeyID w
        then bind_e (place_output item bs) (\<lambda>(m, bs'). Inr (True, push_output item b # bs'))
        else continue)
      else if bundleType b = SpendType \<or> bundleType b = RearrangeType then
        bind_e (first_output b) (\<lambda>out.
        if witnessKeyID (item_details out) = witnessKeyID w \<and> spendingKeyID (item_details out) = spendingKeyID w
        then Inr (True, push_output item (b\<lparr>bundleType := RearrangeType\<rparr>) # bs)
        else continue)
      else continue)"

fun outputs_bundles ::
  "chain_params \<Rightarrow> CTransaction \<Rightarrow> u64 \<Rightarrow> u64 \<Rightarrow> u64 \<Rightarrow> CTxOut list \<Rightarrow> CWitnessTxBundle list \<Rightarrow> tx_failure + CWitnessTxBundle list" where
  "outputs_bundles params tx nSpendHeight transactionIndex transactionOutputIndex [] bundles = Inr bundles"
| "outputs_bundles params tx nSpendHeight transactionIndex transactionOutputIndex (out # outs) bundles =
     bind_e (case GetPow2WitnessOutput out of
               None \<Rightarrow> Inr bundles
             | Some w \<Rightarrow>
                 bind_e (witness_output_checks params nSpendHeight out w) (\<lambda>_.
                 let item = (out, w, item_outpoint nSpendHeight transactionIndex transactionOutputIndex) in
                 if IsPoW2WitnessCoinBase tx then Inr (bundles @ [CWitnessTxBundle_output WitnessType item])
                 else bind_e (place_output item bundles) (\<lambda>(matched, bundles').
                      if matched then Inr bundles'
                      else if lockFromBlock w = 0 \<and> actionNonce w = 0
                      then Inr (bundles' @ [CWitnessTxBundle_output CreationType item])
                      else Inr (bundles' @ [CWitnessTxBundle_output SpendType item])))) (\<lambda>bundles'.
     outputs_bundles params tx nSpendHeight transactionIndex (transactionOutputIndex + 1) outs bundles')"

fun inputs_bundles ::
  "CTransaction \<Rightarrow> (COutPoint \<Rightarrow> (CTxOut \<times> u64 \<times> u64 \<times> u64) option) \<Rightarrow> CTxIn list \<Rightarrow> CWitnessTxBundle list \<Rightarrow>
     tx_failure + CWitnessTxBundle list" where
  "inputs_bundles tx getTxOut [] bundles = Inr bundles"
| "inputs_bundles tx getTxOut (input # rest) bundles =
     bind_e (if outpoint_IsNull (prevout input) \<and> IsCoinBase tx then Inr bundles
             else case getTxOut (prevout input) of
                    None \<Rightarrow> Inl ReturnFalse
                  | Some (inputTxOut, inputTxHeight, inputTxIndex, inputTxOutputIndex) \<Rightarrow>
                      CheckTxInputAgainstWitnessBundles bundles inputTxOut input inputTxHeight inputTxIndex
                        inputTxOutputIndex (IsOldTransactionVersion (nVersion tx))) (\<lambda>bundles'.
     inputs_bundles tx getTxOut rest bundles')"

definition check_bundle :: "chain_params \<Rightarrow> u64 \<Rightarrow> CWitnessTxBundle \<Rightarrow> tx_failure + CWitnessTxBundle" where
  "check_bundle params nSpendHeight b =
     (case bundleType b of
        RearrangeType \<Rightarrow>
          bind_e (tx_throws (IsValidRearrangeBundle b)) (\<lambda>valid.
          if \<not> valid
          then bind_e (tx_throws (IsValidMultiRenewalBundle params nSpendHeight b)) (\<lambda>renewal.
               if renewal then Inr (b\<lparr>bundleType := RenewType\<rparr>)
               else Inl (DoS 100 REJECT_INVALID BadTxnsInWitnessInvalidRearrangeBundle))
          else Inr b)
      | SpendType \<Rightarrow>
          bind_e (tx_throws (IsValidSpendBundle nSpendHeight b)) (\<lambda>valid.
          if \<not> valid then Inl (DoS 100 REJECT_INVALID BadTxnsInWitnessInvalidSpendBundle) else Inr b)
      | IncreaseType \<Rightarrow>
          bind_e (tx_throws (IsValidIncreaseBundle b)) (\<lambda>valid.
          if \<not> valid then Inl (DoS 100 REJECT_INVALID BadTxnsInWitnessInvalidIncreaseBundle) else Inr b)
      | ChangeWitnessKeyType \<Rightarrow>
          bind_e (tx_throws (IsValidChangeWitnessKeyBundle b)) (\<lambda>valid.
          if \<not> valid then Inl (DoS 100 REJECT_INVALID BadTxnsInWitnessInvalidChangewitnesskeyBundle) else Inr b)
      | _ \<Rightarrow> Inr b)"

fun check_bundles :: "chain_params \<Rightarrow> u64 \<Rightarrow> CWitnessTxBundle list \<Rightarrow> tx_failure + CWitnessTxBundle list" where
  "check_bundles params nSpendHeight [] = Inr []"
| "check_bundles params nSpendHeight (b # bs) =
     bind_e (check_bundle params nSpendHeight b) (\<lambda>b'.
     bind_e (check_bundles params nSpendHeight bs) (\<lambda>bs'. Inr (b' # bs')))"

definition BuildWitnessBundles ::
  "chain_params \<Rightarrow> CTransaction \<Rightarrow> u64 \<Rightarrow> u64 \<Rightarrow> (COutPoint \<Rightarrow> (CTxOut \<times> u64 \<times> u64 \<times> u64) option) \<Rightarrow>
     tx_failure + CWitnessTxBundle list" where
  "BuildWitnessBundles params tx nSpendHeight transactionIndex getTxOut =
     bind_e (outputs_bundles params tx nSpendHeight transactionIndex 0 (vout tx) []) (\<lambda>bundles.
     bind_e (inputs_bundles tx getTxOut (vin tx) bundles) (\<lambda>bundles.
     check_bundles params nSpendHeight bundles))"

section \<open>What the loops compute\<close>

declare split_paired_Ex [simp del] split_paired_All [simp del]

abbreviation spend_key :: "witness_item \<Rightarrow> uint160" where
  "spend_key i \<equiv> spendingKeyID (item_details i)"

abbreviation witness_key :: "witness_item \<Rightarrow> uint160" where
  "witness_key i \<equiv> witnessKeyID (item_details i)"

abbreviation lock_until :: "witness_item \<Rightarrow> u64" where
  "lock_until i \<equiv> lockUntilBlock (item_details i)"

abbreviation total_value :: "witness_item list \<Rightarrow> int" where
  "total_value xs \<equiv> (\<Sum>i \<leftarrow> xs. item_value i)"

lemma i64_add: "i64 (i64 a + b) = i64 (a + b)"
  using signed_take_bit_add [of 63 "signed_take_bit 63 a" b] signed_take_bit_add [of 63 a b] by (simp add: i64_def)

lemma outputs_loop_Some:
  "outputs_loop ok v xs = Some t \<Longrightarrow> list_all (ok \<circ> item_details) xs \<and> i64 t = i64 (v + total_value xs)"
proof (induction ok v xs rule: outputs_loop.induct)
  case (2 ok v x xs)
  then show ?case by (auto simp: i64_add add.assoc split: if_splits)
qed simp

lemma outputs_loop_i64: "outputs_loop ok v xs = Some t \<Longrightarrow> v = i64 v \<Longrightarrow> t = i64 t"
  by (induction ok v xs rule: outputs_loop.induct) (auto simp: split: if_splits)

lemma inputs_loop_Some:
  "inputs_loop ok n f v xs = Some (n', f', t) \<Longrightarrow>
   list_all (ok \<circ> item_details) xs \<and> i64 t = i64 (v + total_value xs) \<and> n \<le> n' \<and> f \<le> f' \<and>
   (\<forall>x \<in> set xs. actionNonce (item_details x) \<le> n' \<and> failCount (item_details x) \<le> f')"
proof (induction ok n f v xs rule: inputs_loop.induct)
  case (2 ok n f v x xs)
  let ?w = "item_details x"
  let ?n = "if actionNonce ?w > n then actionNonce ?w else n" and ?f = "if failCount ?w > f then failCount ?w else f"
  have ok: "ok ?w" and rest: "inputs_loop ok ?n ?f (i64 (v + item_value x)) xs = Some (n', f', t)"
    using "2.prems" by (auto simp: Let_def split: if_splits)
  have "n \<le> ?n" "actionNonce ?w \<le> ?n" "f \<le> ?f" "failCount ?w \<le> ?f" by auto
  with "2.IH" [OF refl _ rest] ok show ?case by (auto simp: i64_add add.assoc intro: order_trans)
qed auto

lemma inputs_loop_i64: "inputs_loop ok n f v xs = Some (n', f', t) \<Longrightarrow> v = i64 v \<Longrightarrow> t = i64 t"
  by (induction ok n f v xs rule: inputs_loop.induct)
     (auto simp: Let_def split: if_splits)

end
