(* ===== verification/Witness_Safety.thy ===== *)
theory Witness_Safety
  imports Witness_Bundles
begin

text \<open>
  Proofs about the witness bundles: the invariant that the loops of \<^verbatim>\<open>BuildWitnessBundles\<close>
  keep, that no access of the loops is out of range, and what an accepted bundle guarantees to the coins
  it spends.
\<close>

section \<open>The invariant of the bundles\<close>

text \<open>An item of a bundle describes its output.\<close>

definition item_ok :: "witness_item \<Rightarrow> bool" where
  "item_ok i \<longleftrightarrow> GetPow2WitnessOutput (fst i) = Some (item_details i)"

text \<open>What a bundle of one output and one input keeps: the account, the lock and at least the amount.\<close>

definition carries_over :: "witness_item \<Rightarrow> witness_item \<Rightarrow> bool" where
  "carries_over i out \<longleftrightarrow>
     spend_key i = spend_key out \<and> witness_key i = witness_key out \<and> lock_until i = lock_until out \<and>
     item_value i \<le> item_value out \<and> actionNonce (item_details i) + 1 = actionNonce (item_details out)"

text \<open>The outputs of a bundle belong to one account, and its inputs to the holder of the same spending key.\<close>

definition one_account :: "witness_item set \<Rightarrow> bool" where
  "one_account S \<longleftrightarrow> (\<forall>x \<in> S. \<forall>y \<in> S. spend_key x = spend_key y \<and> witness_key x = witness_key y)"

definition same_holder :: "witness_item set \<Rightarrow> witness_item set \<Rightarrow> bool" where
  "same_holder I S \<longleftrightarrow> (\<forall>i \<in> I. \<forall>x \<in> S. spend_key i = spend_key x)"

lemma one_account_insert:
  "one_account S \<Longrightarrow> x \<in> S \<Longrightarrow> witness_key x = witness_key i \<Longrightarrow> spend_key x = spend_key i \<Longrightarrow> one_account (insert i S)"
  unfolding one_account_def by (metis insert_iff)

lemma one_account_single [simp]: "one_account {}" "one_account {x}"
  by (simp_all add: one_account_def)

lemma same_holder_simps [simp]: "same_holder {} S" "same_holder I {}"
  "same_holder (insert i I) S \<longleftrightarrow> (\<forall>x \<in> S. spend_key i = spend_key x) \<and> same_holder I S"
  by (auto simp: same_holder_def)

definition parts_inv :: "WitnessTxType \<Rightarrow> witness_item list \<Rightarrow> witness_item list \<Rightarrow> bool" where
  "parts_inv t ins outs \<longleftrightarrow>
     (\<forall>i \<in> set ins \<union> set outs. item_ok i) \<and>
     one_account (set outs) \<and> same_holder (set ins) (set outs) \<and>
     (outs = [] \<longrightarrow> t = SpendType \<and> (\<exists>i. ins = [i])) \<and>
     (t = CreationType \<longrightarrow> ins = [] \<and>
       (\<forall>out \<in> set outs. lockFromBlock (item_details out) = 0 \<and> actionNonce (item_details out) = 0)) \<and>
     (t = WitnessType \<or> t = RenewType \<longrightarrow> (\<exists>out. outs = [out] \<and> (ins \<noteq> [] \<longrightarrow> carries_over (last ins) out)))"

definition bundle_inv :: "CWitnessTxBundle \<Rightarrow> bool" where
  "bundle_inv b \<longleftrightarrow> parts_inv (bundleType b) (b_inputs b) (b_outputs b)"

text \<open>While the outputs are placed no bundle has an input yet.\<close>

definition outputs_inv :: "CWitnessTxBundle \<Rightarrow> bool" where
  "outputs_inv b \<longleftrightarrow> bundle_inv b \<and> b_inputs b = [] \<and> b_outputs b \<noteq> []"

lemma first_output_inv:
  assumes "outputs_inv b"
  shows "first_output b = Inr (hd (b_outputs b))" "hd (b_outputs b) \<in> set (b_outputs b)"
  using assms by (simp_all add: outputs_inv_def first_output_def vec_index_def hd_conv_nth)

lemma first_output_Cons [simp]: "b_outputs b = out # outs \<Longrightarrow> first_output b = Inr out"
  by (simp add: first_output_def vec_index_def)

lemma outputs_inv_new: "item_ok i \<Longrightarrow> t \<in> {WitnessType, SpendType} \<Longrightarrow> outputs_inv (CWitnessTxBundle_output t i)"
  "item_ok i \<Longrightarrow> lockFromBlock (item_details i) = 0 \<Longrightarrow> actionNonce (item_details i) = 0 \<Longrightarrow>
     outputs_inv (CWitnessTxBundle_output CreationType i)"
  by (auto simp: outputs_inv_def bundle_inv_def parts_inv_def CWitnessTxBundle_output_def CWitnessTxBundle_new_def)

lemma parts_inv_push_output:
  assumes "parts_inv t [] outs" "item_ok i" "out \<in> set outs" "witness_key out = witness_key i" "spend_key out = spend_key i"
    "t' = CreationType \<Longrightarrow> t = CreationType \<and> lockFromBlock (item_details i) = 0 \<and> actionNonce (item_details i) = 0"
    "t' \<noteq> WitnessType" "t' \<noteq> RenewType"
  shows "parts_inv t' [] (outs @ [i])"
proof -
  have "one_account (insert i (set outs))"
    using one_account_insert [OF _ assms(3-5)] assms(1) unfolding parts_inv_def by blast
  then show ?thesis using assms unfolding parts_inv_def by auto
qed

lemma outputs_inv_push:
  assumes "outputs_inv b" "item_ok i" "out \<in> set (b_outputs b)" "witness_key out = witness_key i" "spend_key out = spend_key i"
  shows "bundleType b = CreationType \<Longrightarrow> lockFromBlock (item_details i) = 0 \<Longrightarrow> actionNonce (item_details i) = 0 \<Longrightarrow>
      outputs_inv (push_output i b)"
    "outputs_inv (push_output i (b\<lparr>bundleType := RearrangeType\<rparr>))"
proof -
  have inv: "parts_inv (bundleType b) [] (b_outputs b)" "b_inputs b = []"
    using assms(1) by (auto simp: outputs_inv_def bundle_inv_def)
  note push = parts_inv_push_output [OF inv(1) assms(2-5)]
  show "outputs_inv (push_output i (b\<lparr>bundleType := RearrangeType\<rparr>))"
    using push [of RearrangeType] inv(2) by (simp add: outputs_inv_def bundle_inv_def push_output_def)
  assume "bundleType b = CreationType" "lockFromBlock (item_details i) = 0" "actionNonce (item_details i) = 0"
  then show "outputs_inv (push_output i b)"
    using push [of CreationType] inv(2) by (simp add: outputs_inv_def bundle_inv_def push_output_def)
qed

lemma place_output_inv:
  assumes "list_all outputs_inv bs" "item_ok i"
  shows "\<exists>m bs'. place_output i bs = Inr (m, bs') \<and> list_all outputs_inv bs'"
  using assms
proof (induction i bs rule: place_output.induct)
  case (2 i b bs)
  note out = first_output_inv [of b]
  have "\<exists>m bs'. place_output i bs = Inr (m, bs') \<and> list_all outputs_inv bs'" using "2.IH" "2.prems" by (auto simp: out)
  then show ?case using out outputs_inv_push [of b i "hd (b_outputs b)"] "2.prems" by (auto simp: Let_def)
qed auto

section \<open>Placing the inputs\<close>

definition input_items :: "CWitnessTxBundle list \<Rightarrow> witness_item set" where
  "input_items bs = (\<Union>b \<in> set bs. set (b_inputs b))"

lemma input_items_simps [simp]: "input_items [] = {}" "input_items (b # bs) = set (b_inputs b) \<union> input_items bs"
  "input_items (bs @ bs') = input_items bs \<union> input_items bs'"
  by (auto simp: input_items_def)

lemma push_input_fields [simp]:
  "b_inputs (push_input i b) = b_inputs b @ [i]" "b_outputs (push_input i b) = b_outputs b"
  "bundleType (push_input i b) = bundleType b"
  by (simp_all add: push_input_def)

lemma single_match_inv:
  assumes "bundle_inv b" "b_outputs b = [out]" "item_ok i" "carries_over i out" "t = WitnessType \<or> t = RenewType"
  shows "bundle_inv ((push_input i b)\<lparr>bundleType := t\<rparr>)"
  using assms by (auto simp: bundle_inv_def parts_inv_def carries_over_def same_holder_def)

lemma match_single_carries:
  "IsWitnessBundle input 31 (item_details item) (item_details out) (item_value item) (item_value out) h old \<Longrightarrow> carries_over item out"
  "IsRenewalBundle input (item_details item) (item_details out) (fst item) (fst out) h \<Longrightarrow> carries_over item out"
  by (auto simp: IsWitnessBundle_def IsRenewalBundle_def carries_over_def)

lemma match_single_inv:
  assumes "list_all bundle_inv bs" "item_ok item" "fst item = prevOut"
    "match_single input prevOut item h old bs = Inr (Some bs')"
  shows "list_all bundle_inv bs' \<and> input_items bs' = insert item (input_items bs)"
  using assms
proof (induction bs arbitrary: bs')
  case (Cons b bs)
  show ?case
  proof (cases "\<exists>out. b_outputs b = [out] \<and> carries_over item out \<and>
      (\<exists>t. (t = WitnessType \<or> t = RenewType) \<and> bs' = (push_input item b)\<lparr>bundleType := t\<rparr> # bs)")
    case True
    then obtain out t where b: "b_outputs b = [out]" "carries_over item out" "t = WitnessType \<or> t = RenewType"
      "bs' = (push_input item b)\<lparr>bundleType := t\<rparr> # bs" by blast
    have "bundle_inv ((push_input item b)\<lparr>bundleType := t\<rparr>)"
      using single_match_inv [OF _ b(1) Cons.prems(2) b(2,3)] Cons.prems(1) by simp
    then show ?thesis using b(4) Cons.prems(1) by simp
  next
    case False
    then obtain bs'' where "match_single input prevOut item h old bs = Inr (Some bs'')" "bs' = b # bs''"
      using Cons.prems(3,4) match_single_carries [of input item _ h]
      by (auto simp: Let_def exn_simps length_Suc_conv split: if_splits)
    then show ?thesis using Cons.IH [of bs''] Cons.prems by auto
  qed
qed simp

lemma match_single_no_exn: "match_single input prevOut item h old bs \<noteq> Inl (TxExn e)"
  by (induction bs) (auto simp: Let_def exn_simps length_Suc_conv)

lemma add_input_fields:
  "add_input t lock i b = Inr b' \<Longrightarrow> b_inputs b' = b_inputs b @ [i] \<and> b_outputs b' = b_outputs b \<and> bundleType b' = t"
  by (auto simp: add_input_def Let_def split: if_splits)

lemma parts_inv_push_input:
  assumes "parts_inv t ins outs" "out \<in> set outs" "item_ok i" "spend_key out = spend_key i"
    "t' \<notin> {CreationType, WitnessType, RenewType}"
  shows "parts_inv t' (ins @ [i]) outs"
proof -
  have "\<forall>x \<in> set outs. spend_key i = spend_key x"
    using assms(1,2,4) unfolding parts_inv_def one_account_def by metis
  then show ?thesis using assms(1,2,3,5) unfolding parts_inv_def by auto
qed

lemma multi_match_inv:
  assumes "bundle_inv b" "b_outputs b = out # outs" "item_ok i" "spend_key out = spend_key i"
    "add_input t lock i b = Inr b'" "t \<notin> {CreationType, WitnessType, RenewType}"
  shows "bundle_inv b' \<and> set (b_inputs b') = insert i (set (b_inputs b))"
  using parts_inv_push_input [of _ _ "b_outputs b" out i t] add_input_fields [OF assms(5)] assms
  by (simp add: bundle_inv_def)

lemma add_input_no_exn: "add_input t lock i b \<noteq> Inl (TxExn e)"
  by (auto simp: add_input_def Let_def)

lemma match_multi_inv:
  assumes "list_all bundle_inv bs" "item_ok item" "match_multi lock item bs = Inr (m, bs')"
  shows "list_all bundle_inv bs' \<and> input_items bs' = (if m then {item} else {}) \<union> input_items bs"
  using assms
proof (induction bs arbitrary: m bs')
  case (Cons b bs)
  obtain m0 b' bs0 where r: "match_multi lock item bs = Inr (m0, bs0)" "bs' = b' # bs0"
    and cases: "(b' = b \<and> m = m0) \<or>
      (m \<and> (\<exists>out outs t. b_outputs b = out # outs \<and> spend_key out = spend_key item \<and> add_input t lock item b = Inr b' \<and>
         t \<notin> {CreationType, WitnessType, RenewType}))"
    using Cons.prems(3) by (cases "b_outputs b") (auto simp: Let_def exn_simps split: if_splits)
  have IH: "list_all bundle_inv bs0 \<and> input_items bs0 = (if m0 then {item} else {}) \<union> input_items bs"
    using Cons.IH [OF _ Cons.prems(2) r(1)] Cons.prems(1) by simp
  from cases show ?case
  proof
    assume "b' = b \<and> m = m0"
    then show ?thesis using IH r(2) Cons.prems(1) by auto
  next
    assume "m \<and> (\<exists>out outs t. b_outputs b = out # outs \<and> spend_key out = spend_key item \<and> add_input t lock item b = Inr b' \<and>
         t \<notin> {CreationType, WitnessType, RenewType})"
    then have "m" "bundle_inv b' \<and> set (b_inputs b') = insert item (set (b_inputs b))"
      using multi_match_inv [of b _ _ item _ lock b'] Cons.prems(1,2) unfolding list.pred_inject by blast+
    then show ?thesis using IH r(2) by auto
  qed
qed simp

lemma match_multi_no_exn: "match_multi lock item bs \<noteq> Inl (TxExn e)"
proof (induction bs)
  case (Cons b bs)
  then show ?case by (cases "b_outputs b") (auto simp: Let_def exn_simps add_input_no_exn)
qed simp

section \<open>The whole construction\<close>

text \<open>The witness coins a transaction spends, as items of its bundles.\<close>

definition spent_item :: "(COutPoint \<Rightarrow> (CTxOut \<times> u64 \<times> u64 \<times> u64) option) \<Rightarrow> CTxIn \<Rightarrow> witness_item option" where
  "spent_item getTxOut input =
     (case getTxOut (prevout input) of None \<Rightarrow> None
      | Some (out, h, txIndex, outputIndex) \<Rightarrow>
          map_option (\<lambda>w. (out, w, item_outpoint h txIndex outputIndex)) (GetPow2WitnessOutput out))"

definition spent_items :: "CTransaction \<Rightarrow> (COutPoint \<Rightarrow> (CTxOut \<times> u64 \<times> u64 \<times> u64) option) \<Rightarrow> CTxIn list \<Rightarrow> witness_item set" where
  "spent_items tx getTxOut ins =
     {i. \<exists>input \<in> set ins. \<not> (outpoint_IsNull (prevout input) \<and> IsCoinBase tx) \<and> spent_item getTxOut input = Some i}"

lemma spent_items_simps:
  "spent_items tx getTxOut [] = {}"
  "spent_items tx getTxOut (input # ins) =
     (if outpoint_IsNull (prevout input) \<and> IsCoinBase tx then {} else set_option (spent_item getTxOut input)) \<union>
     spent_items tx getTxOut ins"
  by (auto simp: spent_items_def)

lemma new_spend_inv: "item_ok i \<Longrightarrow> bundle_inv (push_input i ((CWitnessTxBundle_new SpendType)\<lparr>inputsActualLockFromBlock := h\<rparr>))"
  by (simp add: bundle_inv_def parts_inv_def push_input_def CWitnessTxBundle_new_def)

lemma CheckTxInput_inv:
  assumes "list_all bundle_inv bs"
    "CheckTxInputAgainstWitnessBundles bs out input h ti oi old = Inr bs'"
  shows "list_all bundle_inv bs' \<and>
    input_items bs' = input_items bs \<union> set_option (map_option (\<lambda>w. (out, w, item_outpoint h ti oi)) (GetPow2WitnessOutput out))"
proof (cases "GetPow2WitnessOutput out")
  case None
  then show ?thesis using assms by (simp add: CheckTxInputAgainstWitnessBundles_def)
next
  case (Some w)
  let ?i = "(out, w, item_outpoint h ti oi)"
  have ok: "item_ok ?i" using Some by (simp add: item_ok_def)
  obtain r where r: "match_single input out ?i h old bs = Inr r"
    using assms(2) Some by (auto simp: CheckTxInputAgainstWitnessBundles_def Let_def exn_simps)
  show ?thesis
  proof (cases r)
    case (Some bs0)
    then have "bs' = bs0" using assms(2) r \<open>GetPow2WitnessOutput out = Some w\<close>
      by (simp add: CheckTxInputAgainstWitnessBundles_def Let_def)
    then show ?thesis using match_single_inv [OF assms(1) ok, of out input h old bs0] r Some \<open>GetPow2WitnessOutput out = Some w\<close>
      by simp
  next
    case None
    let ?lock = "if lockFromBlock w = 0 then h else lockFromBlock w"
    obtain m bs0 where m: "match_multi ?lock ?i bs = Inr (m, bs0)"
      "bs' = (if m then bs0 else bs0 @ [push_input ?i ((CWitnessTxBundle_new SpendType)\<lparr>inputsActualLockFromBlock := ?lock\<rparr>)])"
      using assms(2) r None \<open>GetPow2WitnessOutput out = Some w\<close>
      by (auto simp: CheckTxInputAgainstWitnessBundles_def Let_def exn_simps simp del: match_multi.simps split: if_splits)
    show ?thesis
      using match_multi_inv [OF assms(1) ok m(1)] new_spend_inv [OF ok] m(2) \<open>GetPow2WitnessOutput out = Some w\<close>
      by (simp add: push_input_def CWitnessTxBundle_new_def)
  qed
qed

lemma CheckTxInput_no_exn: "CheckTxInputAgainstWitnessBundles bs out input h ti oi old \<noteq> Inl (TxExn e)"
  using match_single_no_exn match_multi_no_exn
  by (auto simp: CheckTxInputAgainstWitnessBundles_def Let_def exn_simps split: option.splits if_splits)

lemma inputs_bundles_inv:
  assumes "list_all bundle_inv bs" "inputs_bundles tx getTxOut ins bs = Inr bs'"
  shows "list_all bundle_inv bs' \<and> input_items bs' = input_items bs \<union> spent_items tx getTxOut ins"
  using assms
proof (induction ins arbitrary: bs)
  case (Cons input ins)
  obtain bs0 where bs0: "inputs_bundles tx getTxOut ins bs0 = Inr bs'"
    and step: "(if outpoint_IsNull (prevout input) \<and> IsCoinBase tx then Inr bs
             else case getTxOut (prevout input) of
                    None \<Rightarrow> Inl ReturnFalse
                  | Some (out, h, ti, oi) \<Rightarrow>
                      CheckTxInputAgainstWitnessBundles bs out input h ti oi (IsOldTransactionVersion (nVersion tx))) = Inr bs0"
    using Cons.prems(2) by (auto simp only: inputs_bundles.simps bind_e_eq_Inr)
  have "list_all bundle_inv bs0 \<and> input_items bs0 = input_items bs \<union>
    (if outpoint_IsNull (prevout input) \<and> IsCoinBase tx then {} else set_option (spent_item getTxOut input))"
    using step Cons.prems(1) CheckTxInput_inv [OF Cons.prems(1)]
    by (auto simp: spent_item_def split: if_splits option.splits prod.splits)
  then show ?case using Cons.IH [OF _ bs0] by (auto simp: spent_items_simps)
qed (simp add: spent_items_simps)

lemma inputs_bundles_no_exn: "inputs_bundles tx getTxOut ins bs \<noteq> Inl (TxExn e)"
  by (induction ins arbitrary: bs) (auto simp: exn_simps CheckTxInput_no_exn split: option.split)

lemma uint_div_total: "wf_uint a \<Longrightarrow> wf_uint b \<Longrightarrow> limbs_nat b \<noteq> 0 \<Longrightarrow> \<exists>q. uint_div a b = Inr q \<and> wf_uint q"
  using uint_div_value(2) by blast

lemma raw_weight_total: "\<exists>v. GetPoW2RawWeightForAmount q h l = Inr v"
proof -
  note wf = base_uint_of_value(1) mul_refines.wf add_refines.wf
  have nz: "limbs_nat (base_uint_of 100000) \<noteq> 0" "limbs_nat (base_uint_of (365 * 576)) \<noteq> 0"
    by (simp_all add: base_uint_of_value)
  obtain a where a: "uint_div (uint_mul (base_uint_of (word_of_int q)) (base_uint_of (word_of_int q))) (base_uint_of 100000) = Inr a" "wf_uint a"
    using uint_div_total [OF wf(2) [OF wf(1) wf(1)] wf(1) nz(1)] by blast
  obtain b where b: "uint_div (uint_mul (base_uint_of (word_of_int l)) (base_uint_of (word_of_int COIN))) (base_uint_of (365 * 576)) = Inr b" "wf_uint b"
    using uint_div_total [OF wf(2) [OF wf(1) wf(1)] wf(1) nz(2)] by blast
  have "limbs_nat (uint_mul (uint_mul (base_uint_of (word_of_int COIN)) (base_uint_of (word_of_int COIN))) (base_uint_of (word_of_int COIN))) \<noteq> 0"
    by (simp only: COIN_cubed(2)) simp
  then have "\<exists>c. uint_div (uint_mul (uint_add (uint_mul (base_uint_of (word_of_int q)) (base_uint_of (word_of_int COIN))) a)
     (uint_add (uint_mul (base_uint_of 1) (base_uint_of (word_of_int COIN))) b))
     (uint_mul (uint_mul (base_uint_of (word_of_int COIN)) (base_uint_of (word_of_int COIN))) (base_uint_of (word_of_int COIN))) = Inr c"
    using uint_div_total [OF wf(2) [OF wf(3) [OF wf(2) [OF wf(1) wf(1)] a(2)] wf(3) [OF wf(2) [OF wf(1) wf(1)] b(2)]] COIN_cubed(1)]
    by blast
  then show ?thesis using a(1) b(1) by (auto simp only: GetPoW2RawWeightForAmount_def Let_def bind_e_Inr)
qed

lemma raw_weight_no_exn [simp]: "GetPoW2RawWeightForAmount q h l \<noteq> Inl e"
  using raw_weight_total [of q h l] by auto

lemma witness_output_checks_no_exn:
  "GetPow2WitnessOutput out = Some w \<Longrightarrow> witness_output_checks params h out w \<noteq> Inl (TxExn e)"
  by (auto simp: witness_output_checks_def exn_simps Let_def GetPoW2LockLengthInBlocksFromOutput_def GetPow2WitnessOutput_def
      split: txout_data.splits)

lemma outputs_bundles_inv:
  assumes "list_all outputs_inv bs"
  shows "case outputs_bundles params tx h ti oi outs bs of
    Inr bs' \<Rightarrow> list_all outputs_inv bs' | Inl f \<Rightarrow> \<forall>e. f \<noteq> TxExn e"
  using assms
proof (induction outs arbitrary: bs oi)
  case (Cons out outs)
  show ?case
  proof (cases "GetPow2WitnessOutput out")
    case None
    then show ?thesis using Cons by simp
  next
    case (Some w)
    let ?i = "(out, w, item_outpoint h ti oi)"
    have ok: "item_ok ?i" using Some by (simp add: item_ok_def)
    obtain m bs' where place: "place_output ?i bs = Inr (m, bs')" "list_all outputs_inv bs'"
      using place_output_inv [OF Cons.prems ok] by blast
    define new where "new = (if IsPoW2WitnessCoinBase tx then bs @ [CWitnessTxBundle_output WitnessType ?i]
      else if m then bs' else if lockFromBlock w = 0 \<and> actionNonce w = 0
      then bs' @ [CWitnessTxBundle_output CreationType ?i] else bs' @ [CWitnessTxBundle_output SpendType ?i])"
    have "list_all outputs_inv new"
      using Cons.prems place(2) outputs_inv_new [OF ok] by (simp add: new_def)
    then have IH: "case outputs_bundles params tx h ti (oi + 1) outs new of
      Inr bs' \<Rightarrow> list_all outputs_inv bs' | Inl f \<Rightarrow> \<forall>e. f \<noteq> TxExn e" by (rule Cons.IH)
    have "outputs_bundles params tx h ti oi (out # outs) bs =
      bind_e (witness_output_checks params h out w) (\<lambda>_. outputs_bundles params tx h ti (oi + 1) outs new)"
      using Some place(1) by (cases "witness_output_checks params h out w") (simp_all add: Let_def new_def)
    then show ?thesis
      using IH witness_output_checks_no_exn [OF Some] by (cases "witness_output_checks params h out w") auto
  qed
qed simp

section \<open>What an accepted bundle guarantees\<close>

text \<open>Every input that is still locked has a successor with the same spending key and at least the
  same lock, and the outputs are worth at least as much as the inputs.\<close>

definition successors :: "u64 \<Rightarrow> CWitnessTxBundle \<Rightarrow> bool" where
  "successors h b \<longleftrightarrow>
     (\<forall>i \<in> set (b_inputs b). h \<le> lock_until i \<longrightarrow>
        (\<exists>out \<in> set (b_outputs b). spend_key out = spend_key i \<and> lock_until i \<le> lock_until out))"

definition keeps_value :: "CWitnessTxBundle \<Rightarrow> bool" where
  "keeps_value b \<longleftrightarrow>
     (b_inputs b \<noteq> [] \<and> b_outputs b \<noteq> [] \<and> in_i64 (total_value (b_inputs b)) \<and> in_i64 (total_value (b_outputs b)) \<longrightarrow>
      total_value (b_inputs b) \<le> total_value (b_outputs b))"

lemma loops_values:
  assumes "inputs_loop ok 0 0 0 ins = Some (n, f, v)" "outputs_loop ok' 0 outs = Some v'"
  shows "in_i64 (total_value ins) \<Longrightarrow> v = total_value ins" "in_i64 (total_value outs) \<Longrightarrow> v' = total_value outs"
    "list_all (ok \<circ> item_details) ins" "list_all (ok' \<circ> item_details) outs"
  using inputs_loop_Some [OF assms(1)] outputs_loop_Some [OF assms(2)]
    inputs_loop_i64 [OF assms(1)] outputs_loop_i64 [OF assms(2)] by (auto simp: in_i64_def)

lemma renewals_loop_value:
  "\<forall>i \<in> set is. i < length ins \<and> i < length outs \<Longrightarrow> renewals_loop ins outs is = Inr (\<forall>i \<in> set is. renews (ins ! i) (outs ! i))"
  by (induction "is") (auto simp: vec_index_def)

text \<open>The rules of the bundles read inside their vectors, whatever the bundle.\<close>

lemma after_first_tl: "xs \<noteq> [] \<Longrightarrow> after_first xs = Inr (tl xs)"
  by (cases xs) (simp_all add: after_first_def)

lemma rules_total:
  "IsValidSpendBundle h b \<noteq> Inl e" "IsValidMultiRenewalBundle params h b \<noteq> Inl e" "IsValidIncreaseBundle b \<noteq> Inl e"
  "IsValidRearrangeBundle b \<noteq> Inl e" "IsValidChangeWitnessKeyBundle b \<noteq> Inl e"
proof -
  have ne: "\<not> length xs < 1 \<Longrightarrow> xs \<noteq> []" for xs :: "witness_item list" by auto
  show "IsValidSpendBundle h b \<noteq> Inl e" by (simp add: IsValidSpendBundle_def vec_index_def)
  show "IsValidMultiRenewalBundle params h b \<noteq> Inl e"
    using renewals_loop_value [of "[0..<length (b_outputs b)]" "b_inputs b" "b_outputs b"] by (auto simp: IsValidMultiRenewalBundle_def)
  show "IsValidIncreaseBundle b \<noteq> Inl e"
    by (auto simp: IsValidIncreaseBundle_def vec_index_def Let_def after_first_tl ne split: option.splits if_splits)
  show "IsValidRearrangeBundle b \<noteq> Inl e" by (auto simp: IsValidRearrangeBundle_def vec_index_def Let_def split: option.splits)
  show "IsValidChangeWitnessKeyBundle b \<noteq> Inl e"
    by (cases "b_outputs b") (auto simp: IsValidChangeWitnessKeyBundle_def vec_index_def Let_def after_first_def)
qed

lemma multi_renewal_guarantee:
  assumes "renewals_loop ins outs [0..<length ins] = Inr True" "length ins = length outs"
  shows "\<forall>i \<in> set ins. \<exists>out \<in> set outs. spend_key out = spend_key i \<and> lock_until i \<le> lock_until out"
    "total_value ins = total_value outs"
proof -
  have "list_all2 renews ins outs" using assms renewals_loop_value [of "[0..<length ins]" ins outs]
    by (simp add: list_all2_conv_all_nth)
  then have "(\<forall>i \<in> set ins. \<exists>out \<in> set outs. spend_key out = spend_key i \<and> lock_until i \<le> lock_until out) \<and>
    total_value ins = total_value outs"
    by (induction rule: list_all2_induct) (auto simp: renews_def)
  then show "\<forall>i \<in> set ins. \<exists>out \<in> set outs. spend_key out = spend_key i \<and> lock_until i \<le> lock_until out"
    "total_value ins = total_value outs" by blast+
qed

lemma rearrange_guarantee:
  assumes "IsValidRearrangeBundle b = Inr True"
  shows "successors h b \<and> keeps_value b"
proof -
  let ?o = "b_outputs b ! 0"
  have o: "?o \<in> set (b_outputs b)" using assms by (simp add: IsValidRearrangeBundle_def split: if_splits)
  obtain n f v v' ok where l: "inputs_loop (\<lambda>w. spendingKeyID w = spend_key ?o \<and> witnessKeyID w = witness_key ?o \<and>
      lockUntilBlock w = lock_until ?o) 0 0 0 (b_inputs b) = Some (n, f, v)"
    "outputs_loop ok 0 (b_outputs b) = Some v'" "v = v'"
    using assms by (auto simp: IsValidRearrangeBundle_def vec_index_def Let_def split: option.splits if_splits)
  note r = loops_values [OF l(1,2)]
  have "successors h b" unfolding successors_def using r(3) o by (auto simp: list.pred_set)
  moreover have "keeps_value b" unfolding keeps_value_def using r(1,2) l(3) by auto
  ultimately show ?thesis by simp
qed

lemma increase_guarantee:
  assumes "IsValidIncreaseBundle b = Inr True"
  shows "successors h b \<and> keeps_value b"
proof -
  let ?i = "b_inputs b ! 0" and ?o = "b_outputs b ! 0"
  have ne: "b_inputs b \<noteq> []" "?o \<in> set (b_outputs b)" using assms by (auto simp: IsValidIncreaseBundle_def split: if_splits)
  obtain n f v v' ok where l: "inputs_loop (\<lambda>w. spendingKeyID w = spend_key ?o \<and> witnessKeyID w = witness_key ?o)
      0 0 0 (b_inputs b) = Some (n, f, v)"
    "outputs_loop ok 0 (b_outputs b) = Some v'" "v \<le> v'" "lock_until ?i \<le> lock_until ?o"
    "list_all (\<lambda>i. lock_until i = lock_until ?i) (tl (b_inputs b))"
    using assms ne by (auto simp: IsValidIncreaseBundle_def vec_index_def Let_def not_less after_first_tl split: option.splits if_splits)
  note r = loops_values [OF l(1,2)]
  have "\<forall>i \<in> set (b_inputs b). lock_until i = lock_until ?i"
    using l(5) ne(1) by (cases "b_inputs b") (auto simp: list.pred_set)
  then have "successors h b" unfolding successors_def using r(3) ne(2) l(4) by (auto simp: list.pred_set)
  moreover have "keeps_value b" unfolding keeps_value_def using r(1,2) l(3) by auto
  ultimately show ?thesis by simp
qed

lemma change_key_guarantee:
  assumes "IsValidChangeWitnessKeyBundle b = Inr True"
  shows "successors h b"
  unfolding successors_def
proof (intro ballI impI)
  fix i assume "i \<in> set (b_inputs b)"
  then have "filter (changes_witness_key i) (b_outputs b) \<noteq> []"
    using assms by (auto simp: IsValidChangeWitnessKeyBundle_def vec_index_def Let_def list.pred_set split: if_splits)
  then obtain out where "out \<in> set (b_outputs b)" "changes_witness_key i out" by (auto simp: filter_empty_conv)
  then show "\<exists>out \<in> set (b_outputs b). spend_key out = spend_key i \<and> lock_until i \<le> lock_until out"
    by (auto simp: changes_witness_key_def)
qed

lemma single_guarantee:
  assumes "bundle_inv b" "bundleType b \<in> {WitnessType, RenewType}" "length (b_inputs b) \<le> length (b_outputs b)"
  shows "successors h b \<and> keeps_value b"
proof -
  obtain out where out: "b_outputs b = [out]" "b_inputs b \<noteq> [] \<longrightarrow> carries_over (last (b_inputs b)) out"
    using assms(1,2) unfolding bundle_inv_def parts_inv_def by blast
  then have "b_inputs b = [] \<or> (\<exists>i. b_inputs b = [i] \<and> carries_over i out)"
    using assms(3) by (cases "b_inputs b") auto
  then show ?thesis using out(1) by (auto simp: successors_def keeps_value_def carries_over_def)
qed

text \<open>A bundle that witnesses or renews is not checked again when the inputs are placed, so that it may have
  several inputs for one output.\<close>

definition crowded :: "CWitnessTxBundle \<Rightarrow> bool" where
  "crowded b \<longleftrightarrow> bundleType b \<in> {WitnessType, RenewType} \<and> length (b_outputs b) < length (b_inputs b)"

definition guarantee :: "u64 \<Rightarrow> CWitnessTxBundle \<Rightarrow> bool" where
  "guarantee h b \<longleftrightarrow>
     (if crowded b then \<exists>out. b_outputs b = [out] \<and> carries_over (last (b_inputs b)) out
      else successors h b \<and> (bundleType b \<noteq> ChangeWitnessKeyType \<longrightarrow> keeps_value b))"

lemma single_bundle_guarantee:
  assumes "bundle_inv b" "bundleType b \<in> {WitnessType, RenewType}"
  shows "guarantee h b"
proof (cases "crowded b")
  case True
  then have "b_inputs b \<noteq> []" by (auto simp: crowded_def)
  then show ?thesis using assms True unfolding guarantee_def bundle_inv_def parts_inv_def by auto
next
  case False
  then show ?thesis using single_guarantee [OF assms] assms(2) by (auto simp: guarantee_def crowded_def)
qed

lemma check_bundle_guarantee:
  assumes "bundle_inv b" "check_bundle params h b = Inr b'"
  shows "b_inputs b' = b_inputs b \<and> guarantee h b'"
proof (cases "bundleType b")
  case SpendType
  then have "b' = b" "IsValidSpendBundle h b = Inr True" using assms(2) by (auto simp: check_bundle_def exn_simps split: if_splits)
  then show ?thesis using SpendType by (auto simp: guarantee_def crowded_def successors_def keeps_value_def IsValidSpendBundle_def vec_index_def length_Suc_conv split: if_splits)
next
  case CreationType
  then have "b' = b" "b_inputs b = []"
    using assms by (auto simp: check_bundle_def bundle_inv_def parts_inv_def split: if_splits)
  then show ?thesis by (simp add: guarantee_def crowded_def successors_def keeps_value_def)
next
  case IncreaseType
  then show ?thesis using assms increase_guarantee [of b h] by (auto simp: check_bundle_def guarantee_def crowded_def exn_simps split: if_splits)
next
  case ChangeWitnessKeyType
  then show ?thesis using assms change_key_guarantee [of b h] by (auto simp: check_bundle_def guarantee_def crowded_def exn_simps split: if_splits)
next
  case RearrangeType
  then consider "b' = b" "IsValidRearrangeBundle b = Inr True"
    | "b' = b\<lparr>bundleType := RenewType\<rparr>" "IsValidMultiRenewalBundle params h b = Inr True"
    using assms by (auto simp: check_bundle_def exn_simps split: if_splits)
  then show ?thesis
  proof cases
    case 1
    then show ?thesis using rearrange_guarantee [of b h] RearrangeType by (simp add: guarantee_def crowded_def)
  next
    case 2
    then have "renewals_loop (b_inputs b) (b_outputs b) [0..<length (b_inputs b)] = Inr True" "length (b_inputs b) = length (b_outputs b)"
      by (auto simp: IsValidMultiRenewalBundle_def exn_simps split: if_splits)
    then have "length (b_inputs b) = length (b_outputs b)" and g: "guarantee h (b\<lparr>bundleType := RenewType\<rparr>)"
      using multi_renewal_guarantee by (simp_all add: guarantee_def crowded_def successors_def keeps_value_def)
    show ?thesis using 2(1) g by simp
  qed
qed (use assms single_bundle_guarantee [of b h] in \<open>auto simp: check_bundle_def\<close>)

lemma check_bundles_guarantee:
  "list_all bundle_inv bs \<Longrightarrow> check_bundles params h bs = Inr bs' \<Longrightarrow>
   input_items bs' = input_items bs \<and> list_all (guarantee h) bs'"
proof (induction bs arbitrary: bs')
  case (Cons b bs)
  obtain b0 bs0 where r: "check_bundle params h b = Inr b0" "check_bundles params h bs = Inr bs0" "bs' = b0 # bs0"
    using Cons.prems(2) by (auto simp: exn_simps)
  show ?case using Cons.IH [OF _ r(2)] Cons.prems(1) check_bundle_guarantee [OF _ r(1)] r(3) by simp
qed simp

lemma check_bundles_no_exn: "check_bundles params h bs \<noteq> Inl (TxExn e)"
  by (induction bs) (auto simp: check_bundle_def exn_simps rules_total split: WitnessTxType.split)

lemma outputs_inv_bundle_inv: "list_all outputs_inv bs \<Longrightarrow> list_all bundle_inv bs \<and> input_items bs = {}"
  by (induction bs) (simp_all add: outputs_inv_def)

section \<open>Example\<close>

text \<open>A coin locked for a year, and transactions that renew it once and twice.\<close>

definition example_params :: chain_params where
  "example_params =
     \<lparr>fIsOfficialTestnetV1 = False, fIsTestnet = False, nPowTargetSpacing = 150, pow2Phase2FirstBlockHeight = 0,
      pow2Phase3FirstBlockHeight = 0, pow2Phase4FirstBlockHeight = 0, pow2Phase5FirstBlockHeight = 0,
      pow2WitnessSyncHeight = 0\<rparr>"

definition example_details :: CTxOutPoW2Witness where
  "example_details =
     \<lparr>spendingKeyID = 1, witnessKeyID = 2, lockFromBlock = 900000, lockUntilBlock = 1110239, failCount = 3, actionNonce = 7\<rparr>"

definition renewed_details :: CTxOutPoW2Witness where
  "renewed_details = example_details\<lparr>actionNonce := 8, failCount := 5\<rparr>"

definition example_coin :: CTxOut where
  "example_coin = \<lparr>nValue = 1000000000000, txout = PoW2WitnessOutput example_details\<rparr>"

definition renewed_coin :: CTxOut where
  "renewed_coin = \<lparr>nValue = 1000000000000, txout = PoW2WitnessOutput renewed_details\<rparr>"

definition plain_output :: CTxOut where
  "plain_output = \<lparr>nValue = 990000000000, txout = StandardKeyHashOutput 9\<rparr>"

definition example_input :: "u32 \<Rightarrow> CTxIn" where
  "example_input n = CTxIn_default\<lparr>prevout := COutPoint_hash 5 n, segregatedSignatureData := [[1], [2]]\<rparr>"

definition example_lookup :: "COutPoint \<Rightarrow> (CTxOut \<times> u64 \<times> u64 \<times> u64) option" where
  "example_lookup out = (if o_hash out = 5 then Some (example_coin, 900000, 1, ucast (o_n out)) else None)"

definition renewal_tx :: CTransaction where
  "renewal_tx = (CTransaction_new 5)\<lparr>vin := [example_input 0], vout := [renewed_coin]\<rparr>"

definition double_renewal_tx :: CTransaction where
  "double_renewal_tx = (CTransaction_new 5)\<lparr>vin := [example_input 0, example_input 1], vout := [renewed_coin, plain_output]\<rparr>"

lemmas example_defs = example_details_def renewed_details_def example_coin_def renewed_coin_def plain_output_def
  example_input_def example_lookup_def GetPow2WitnessOutput_def HasSpendKey_def CTxIn_default_def COutPoint_hash_def

lemma renewed_checks: "witness_output_checks example_params 1000000 renewed_coin renewed_details = Inr ()"
proof -
  have "GetPoW2RawWeightForAmount 1000000000000 1000000 210240 = Inr 22000"
    using raw_weight_value [of 1000000000000 210240 1000000] by (simp add: MoneyRange_def MAX_MONEY_def COIN_def)
  moreover have "GetPoW2LockLengthInBlocksFromOutput renewed_coin 1000000 = Inr (210240, 900000, 1110239)"
    by (simp add: GetPoW2LockLengthInBlocksFromOutput_def example_defs)
  moreover have "MinimumWitnessLockLength example_params = 17280" "MaximumWitnessLockLength example_params = 630720"
    by (simp_all add: MinimumWitnessLockLength_def MaximumWitnessLockLength_def DailyBlocksTarget_def example_params_def
        gMinimumWitnessLockDays_def gMaximumWitnessLockDays_def c_div_def in_i32_def)
  ultimately show ?thesis
    by (simp add: witness_output_checks_def tx_require_def gMinimumWitnessAmount_def gMinimumWitnessWeight_def
        extraLockLengthAllowance_def example_defs COIN_def)
qed

lemma example_facts:
  "GetPow2WitnessOutput example_coin = Some example_details" "GetPow2WitnessOutput renewed_coin = Some renewed_details"
  "example_lookup (prevout (example_input 0)) = Some (example_coin, 900000, 1, 0)"
  "\<not> outpoint_IsNull (prevout (example_input 0))"
  by (simp_all add: example_defs outpoint_IsNull_def)

lemma example_renewal:
  "IsRenewalBundle (example_input n) example_details renewed_details example_coin renewed_coin h"
  "\<not> IsWitnessBundle (example_input n) 31 example_details renewed_details v v' h old"
  by (simp_all add: IsRenewalBundle_def IsWitnessBundle_def details_IsLockFromConsistent_def IncrementWitnessFailCount_def
      example_defs Let_def)

section \<open>Properties\<close>




text \<open>
  C25. Two equal coins can be renewed into one output. The loop that looks for a bundle to renew does not
  ask whether the bundle already has an input, and renewals are not checked again, so a transaction that
  spends two equal witness coins, locked or not, with both keys and renews one of them is accepted with
  both in one bundle: nothing constrains what the value of the second coin is spent on.
\<close>

theorem double_renewal_accepted:
  assumes "\<not> outpoint_IsNull (prevout a)" "vin tx = [a, b]" "vout tx = [out, rest]" "GetPow2WitnessOutput rest = None"
    "getTxOut (prevout a) = Some (coin, ha, ta, na)" "getTxOut (prevout b) = Some (coin, hb, tb, nb)"
    "HasSpendKey a" "HasSpendKey b" "GetPow2WitnessOutput coin = Some w" "lockFromBlock w \<noteq> 0"
    "w' = w\<lparr>actionNonce := actionNonce w + 1, failCount := IncrementWitnessFailCount (failCount w)\<rparr>"
    "out = coin\<lparr>txout := PoW2WitnessOutput w'\<rparr>" "witness_output_checks params h out w' = Inr ()"
  shows "BuildWitnessBundles params tx h ti getTxOut =
    Inr [\<lparr>bundleType = RenewType, inputsActualLockFromBlock = 0,
          b_inputs = [(coin, w, item_outpoint ha ta na), (coin, w, item_outpoint hb tb nb)],
          b_outputs = [(out, w', item_outpoint h ti 0)]\<rparr>]"
proof -
  have cb: "\<not> IsCoinBase tx" "\<not> IsPoW2WitnessCoinBase tx"
    using assms(1,2) by (simp_all add: IsCoinBase_def IsPoW2WitnessCoinBase_def)
  have w': "GetPow2WitnessOutput out = Some w'" "lockFromBlock w' = lockFromBlock w"
    using assms(11,12) by (simp_all add: GetPow2WitnessOutput_def)
  let ?o = "(out, w', item_outpoint h ti 0)"
  have outs: "outputs_bundles params tx h ti 0 (vout tx) [] = Inr [CWitnessTxBundle_output SpendType ?o]"
    using assms(3,4,10,13) cb(2) w' by (simp add: Let_def)
  have renew: "IsRenewalBundle i w w' coin out k" "\<not> IsWitnessBundle i 31 w w' v v' k old" if "HasSpendKey i" for i k v v' old
    using that assms(10-12) by (auto simp: IsRenewalBundle_def IsWitnessBundle_def HasSpendKey_def details_IsLockFromConsistent_def)
  have step: "CheckTxInputAgainstWitnessBundles [c] coin i k kt kn old =
      Inr [(push_input (coin, w, item_outpoint k kt kn) c)\<lparr>bundleType := RenewType\<rparr>]"
    if "HasSpendKey i" "b_outputs c = [?o]" for i c k kt kn old
    using that assms(9) renew [OF that(1)] by (simp add: CheckTxInputAgainstWitnessBundles_def Let_def)
  show ?thesis
    using assms(2,5-8) cb(1)
    by (simp add: BuildWitnessBundles_def outs step check_bundle_def CWitnessTxBundle_output_def CWitnessTxBundle_new_def push_input_def)
qed

theorem double_renewal_accepted_witness:
  "\<exists>b. BuildWitnessBundles example_params double_renewal_tx 1000000 0 example_lookup = Inr [b] \<and>
     total_value (b_inputs b) = 2000000000000 \<and> total_value (b_outputs b) = 1000000000000 \<and>
     list_all (\<lambda>i. 1000000 \<le> lock_until i) (b_inputs b)"
proof -
  have "BuildWitnessBundles example_params double_renewal_tx 1000000 0 example_lookup =
    Inr [\<lparr>bundleType = RenewType, inputsActualLockFromBlock = 0,
          b_inputs = [(example_coin, example_details, item_outpoint 900000 1 0), (example_coin, example_details, item_outpoint 900000 1 1)],
          b_outputs = [(renewed_coin, renewed_details, item_outpoint 1000000 0 0)]\<rparr>]"
  proof (rule double_renewal_accepted)
    show "vin double_renewal_tx = [example_input 0, example_input 1]" "vout double_renewal_tx = [renewed_coin, plain_output]"
      by (simp_all add: double_renewal_tx_def)
    show "renewed_details = example_details\<lparr>actionNonce := actionNonce example_details + 1,
        failCount := IncrementWitnessFailCount (failCount example_details)\<rparr>"
      by (simp add: renewed_details_def example_details_def IncrementWitnessFailCount_def Let_def)
  qed (use renewed_checks example_facts in \<open>simp_all add: example_defs\<close>)
  then show ?thesis by (simp add: example_defs)
qed

text \<open>
  A coin can be released while it is locked. An input that renews nothing is first placed in the bundle of an
  output of its account; a second input that renews this output makes the bundle a renewal, whose other inputs
  are not checked any more. The first coin may be locked longer than the output, and it has no successor.
\<close>

theorem locked_coin_released:
  assumes "\<not> outpoint_IsNull (prevout a)" "vin tx = [a, b]" "vout tx = [out, rest]" "GetPow2WitnessOutput rest = None"
    "getTxOut (prevout a) = Some (locked, ha, ta, na)" "getTxOut (prevout b) = Some (coin, hb, tb, nb)"
    "HasSpendKey a" "HasSpendKey b" "GetPow2WitnessOutput locked = Some l" "GetPow2WitnessOutput coin = Some w" "lockFromBlock w \<noteq> 0"
    "spendingKeyID l = spendingKeyID w" "witnessKeyID l = witnessKeyID w" "lockUntilBlock w < lockUntilBlock l" "h \<le> lockUntilBlock l"
    "w' = w\<lparr>actionNonce := actionNonce w + 1, failCount := IncrementWitnessFailCount (failCount w)\<rparr>"
    "out = coin\<lparr>txout := PoW2WitnessOutput w'\<rparr>" "witness_output_checks params h out w' = Inr ()"
  shows "\<exists>bundle. BuildWitnessBundles params tx h ti getTxOut = Inr [bundle] \<and> bundleType bundle = RenewType \<and>
    b_inputs bundle = [(locked, l, item_outpoint ha ta na), (coin, w, item_outpoint hb tb nb)] \<and>
    b_outputs bundle = [(out, w', item_outpoint h ti 0)] \<and> \<not> successors h bundle"
proof -
  have cb: "\<not> IsCoinBase tx" "\<not> IsPoW2WitnessCoinBase tx"
    using assms(1,2) by (simp_all add: IsCoinBase_def IsPoW2WitnessCoinBase_def)
  have w': "GetPow2WitnessOutput out = Some w'" "lockFromBlock w' = lockFromBlock w" "lockUntilBlock w' = lockUntilBlock w"
    "witnessKeyID w' = witnessKeyID w" "spendingKeyID w' = spendingKeyID w"
    using assms(16,17) by (simp_all add: GetPow2WitnessOutput_def)
  let ?o = "(out, w', item_outpoint h ti 0)" and ?c = "CWitnessTxBundle_output SpendType (out, w', item_outpoint h ti 0)"
  let ?l = "if lockFromBlock l = 0 then ha else lockFromBlock l"
  let ?r = "push_input (locked, l, item_outpoint ha ta na) (?c\<lparr>bundleType := RearrangeType, inputsActualLockFromBlock := ?l\<rparr>)"
  have outs: "outputs_bundles params tx h ti 0 (vout tx) [] = Inr [?c]"
    using assms(3,4,11,18) cb(2) w' by (simp add: Let_def)
  have fields: "b_outputs ?c = [?o]" "bundleType ?c = SpendType" "inputsActualLockFromBlock ?c = 0" "b_inputs ?c = []"
    by (simp_all add: CWitnessTxBundle_output_def CWitnessTxBundle_new_def)
  have "\<not> IsRenewalBundle i l w' locked out k" "\<not> IsWitnessBundle i 31 l w' v v' k old" for i k v v' old
    using assms(14) w'(3) by (auto simp: IsRenewalBundle_def IsWitnessBundle_def)
  then have first: "CheckTxInputAgainstWitnessBundles [?c] locked a ha ta na old = Inr [?r]" for old
    using assms(7,9,11-13) w' fields by (simp add: CheckTxInputAgainstWitnessBundles_def add_input_def tx_require_def Let_def)
  have "IsRenewalBundle b w w' coin out k" "\<not> IsWitnessBundle b 31 w w' v v' k old" for k v v' old
    using assms(8,11,16,17) by (auto simp: IsRenewalBundle_def IsWitnessBundle_def HasSpendKey_def details_IsLockFromConsistent_def)
  then have second: "CheckTxInputAgainstWitnessBundles [?r] coin b hb tb nb old =
      Inr [(push_input (coin, w, item_outpoint hb tb nb) ?r)\<lparr>bundleType := RenewType\<rparr>]" for old
    using assms(10) fields by (simp add: CheckTxInputAgainstWitnessBundles_def Let_def)
  let ?b = "(push_input (coin, w, item_outpoint hb tb nb) ?r)\<lparr>bundleType := RenewType\<rparr>"
  have "BuildWitnessBundles params tx h ti getTxOut = Inr [?b]"
    using assms(2,5,6) cb(1) by (simp add: BuildWitnessBundles_def outs first second check_bundle_def)
  moreover have "\<not> successors h ?b" using assms(14,15) w'(3) fields by (auto simp: successors_def not_le)
  ultimately show ?thesis using fields by (intro exI [of _ ?b]) simp
qed

definition longer_coin :: CTxOut where
  "longer_coin = \<lparr>nValue = 5000000000000, txout = PoW2WitnessOutput (example_details\<lparr>lockUntilBlock := 1500000\<rparr>)\<rparr>"

definition longer_lookup :: "COutPoint \<Rightarrow> (CTxOut \<times> u64 \<times> u64 \<times> u64) option" where
  "longer_lookup out =
     (if o_n out = 0 then Some (longer_coin, 900000, 1, 0) else Some (example_coin, 900000, 1, 1))"

theorem locked_coin_released_witness:
  "\<exists>bundle. BuildWitnessBundles example_params double_renewal_tx 1000000 0 longer_lookup = Inr [bundle] \<and> \<not> successors 1000000 bundle"
proof -
  have "\<exists>bundle. BuildWitnessBundles example_params double_renewal_tx 1000000 0 longer_lookup = Inr [bundle] \<and> bundleType bundle = RenewType \<and>
    b_inputs bundle = [(longer_coin, example_details\<lparr>lockUntilBlock := 1500000\<rparr>, item_outpoint 900000 1 0), (example_coin, example_details, item_outpoint 900000 1 1)] \<and>
    b_outputs bundle = [(renewed_coin, renewed_details, item_outpoint 1000000 0 0)] \<and> \<not> successors 1000000 bundle"
  proof (rule locked_coin_released)
    show "vin double_renewal_tx = [example_input 0, example_input 1]" "vout double_renewal_tx = [renewed_coin, plain_output]"
      by (simp_all add: double_renewal_tx_def)
    show "renewed_details = example_details\<lparr>actionNonce := actionNonce example_details + 1,
        failCount := IncrementWitnessFailCount (failCount example_details)\<rparr>"
      by (simp add: renewed_details_def example_details_def IncrementWitnessFailCount_def Let_def)
  qed (use renewed_checks example_facts in \<open>simp_all add: example_defs longer_coin_def longer_lookup_def\<close>)
  then show ?thesis by blast
qed

end
