(* ===== verification/Chain_Index.thy ===== *)
theory Chain_Index
  imports Witness_Util Compact_Target
begin

text \<open>
  The block index of \<^verbatim>\<open>src/src/chain.h\<close> and \<^verbatim>\<open>chain.cpp\<close>: entries linked to
  their predecessors and by skip pointers, the walk to an ancestor, the past block times, the active
  chain as a vector, and the work of a block. The entries live in a store from addresses to records; a
  null pointer is \<^const>\<open>None\<close>, and following a pointer that is not in the store is undefined
  behaviour. Loops whose end depends on the links are partial functions: \<^const>\<open>None\<close> stands
  for a loop that does not end.
\<close>

section \<open>Entries\<close>

record CBlockIndex =
  hashBlock :: uint256
  pprev :: "nat option"
  pskip :: "nat option"
  bi_nHeight :: int
  nVersionPoW2Witness :: u32
  nTimePoW2Witness :: u32
  bi_nVersion :: u32
  bi_nTime :: u32
  bi_nBits :: u32
  nChainWork :: limbs
  nTimeMax :: u32

type_synonym block_store = "nat \<rightharpoonup> CBlockIndex"

definition deref :: "block_store \<Rightarrow> nat \<Rightarrow> cpp_exn + CBlockIndex" where
  "deref st p = (case st p of None \<Rightarrow> Inl UndefinedBehaviour | Some b \<Rightarrow> Inr b)"

definition GetBlockTime :: "CBlockIndex \<Rightarrow> int" where
  "GetBlockTime b = uint (bi_nTime b)"

definition GetBlockTimePoW2Witness :: "CBlockIndex \<Rightarrow> int" where
  "GetBlockTimePoW2Witness b = (if nTimePoW2Witness b = 0 then uint (bi_nTime b) else uint (nTimePoW2Witness b))"

section \<open>Ancestors\<close>

definition InvertLowestOne :: "int \<Rightarrow> int" where
  "InvertLowestOne n = n AND (n - 1)"

definition GetSkipHeight :: "int \<Rightarrow> int" where
  "GetSkipHeight height =
     (if height < 2 then 0
      else if height AND 1 \<noteq> 0 then InvertLowestOne (InvertLowestOne (height - 1)) + 1
      else InvertLowestOne height)"

lemma InvertLowestOne_bounds: "0 \<le> n \<Longrightarrow> 0 \<le> InvertLowestOne n \<and> InvertLowestOne n \<le> max 0 (n - 1)"
  by (cases "n = 0") (simp_all add: InvertLowestOne_def AND_upper2 le_max_iff_disj)

lemma GetSkipHeight_bounds: "0 \<le> GetSkipHeight n" "0 < n \<Longrightarrow> GetSkipHeight n < n"
proof -
  have "2 \<le> n \<Longrightarrow> 0 \<le> InvertLowestOne n \<and> InvertLowestOne n < n"
    using InvertLowestOne_bounds [of n] by auto
  moreover have "2 \<le> n \<Longrightarrow> n \<noteq> 2 \<Longrightarrow> 0 \<le> InvertLowestOne (InvertLowestOne (n - 1)) \<and> InvertLowestOne (InvertLowestOne (n - 1)) + 1 < n"
    using InvertLowestOne_bounds [of "n - 1"] InvertLowestOne_bounds [of "InvertLowestOne (n - 1)"] by auto
  moreover have "(2 :: int) AND 1 = 0" by simp
  ultimately show "0 \<le> GetSkipHeight n" "0 < n \<Longrightarrow> GetSkipHeight n < n"
    by (cases "n = 2"; auto simp: GetSkipHeight_def)+
qed

text \<open>The walk of \<^verbatim>\<open>GetAncestor\<close>. The height is not negative there, and the height reached
  decreases in every round.\<close>

function ancestor_walk :: "block_store \<Rightarrow> nat \<Rightarrow> int \<Rightarrow> nat \<Rightarrow> cpp_exn + nat option" where
  "ancestor_walk st height heightWalk p =
     (if heightWalk > int height then
        bind_e (deref st p) (\<lambda>b.
        let heightSkip = GetSkipHeight heightWalk;
            heightSkipPrev = GetSkipHeight (heightWalk - 1) in
        case (if heightSkip = int height \<or>
                 (heightSkip > int height \<and> \<not> (heightSkipPrev < heightSkip - 2 \<and> heightSkipPrev \<ge> int height))
              then pskip b else None) of
          Some q \<Rightarrow> ancestor_walk st height heightSkip q
        | None \<Rightarrow> (case pprev b of
                    Some q \<Rightarrow> ancestor_walk st height (heightWalk - 1) q
                  | None \<Rightarrow> Inr None))
      else Inr (Some p))"
  by pat_completeness auto
termination
  by (relation "measure (\<lambda>(st, height, heightWalk, p). nat heightWalk)") (auto simp: GetSkipHeight_bounds)

declare ancestor_walk.simps [simp del]

definition GetAncestor :: "block_store \<Rightarrow> nat \<Rightarrow> int \<Rightarrow> cpp_exn + nat option" where
  "GetAncestor st p height =
     bind_e (deref st p) (\<lambda>b.
     if height > bi_nHeight b \<or> height < 0 then Inr None
     else ancestor_walk st (nat height) (bi_nHeight b) p)"

definition BuildSkip :: "block_store \<Rightarrow> nat \<Rightarrow> cpp_exn + block_store" where
  "BuildSkip st p =
     bind_e (deref st p) (\<lambda>b.
     case pprev b of
       None \<Rightarrow> Inr st
     | Some q \<Rightarrow> bind_e (GetAncestor st q (GetSkipHeight (bi_nHeight b))) (\<lambda>r. Inr (st(p \<mapsto> b\<lparr>pskip := r\<rparr>))))"

text \<open>The part of \<^verbatim>\<open>AddToBlockIndex\<close> that links a new entry at a free address to its
  predecessor. Heights are integers without bound: the code adds one to an \<^verbatim>\<open>int\<close>, which differs
  only from height 2^31 on.\<close>

definition link_block :: "block_store \<Rightarrow> nat \<Rightarrow> CBlockIndex \<Rightarrow> nat option \<Rightarrow> cpp_exn + block_store" where
  "link_block st p b miPrev =
     (case miPrev of
        None \<Rightarrow> Inr (st(p \<mapsto> b\<lparr>nTimeMax := bi_nTime b\<rparr>))
      | Some q \<Rightarrow>
          bind_e (deref st q) (\<lambda>prev.
          let b = b\<lparr>pprev := Some q, bi_nHeight := bi_nHeight prev + 1\<rparr>;
              st = st(p \<mapsto> b) in
          bind_e (if pskip prev \<noteq> None \<or> bi_nHeight prev = 0 then BuildSkip st p else Inr st) (\<lambda>st.
          bind_e (deref st p) (\<lambda>b. Inr (st(p \<mapsto> b\<lparr>nTimeMax := max (nTimeMax prev) (bi_nTime b)\<rparr>))))))"

section \<open>Past block times\<close>

fun times_back :: "(CBlockIndex \<Rightarrow> int list) \<Rightarrow> block_store \<Rightarrow> nat \<Rightarrow> nat option \<Rightarrow> cpp_exn + int list" where
  "times_back f st 0 pindex = Inr []"
| "times_back f st (Suc n) None = Inr []"
| "times_back f st (Suc n) (Some p) =
     bind_e (deref st p) (\<lambda>b. bind_e (times_back f st n (pprev b)) (\<lambda>ts. Inr (ts @ f b)))"

definition median_span :: "chain_params \<Rightarrow> CBlockIndex \<Rightarrow> nat" where
  "median_span params b = (if bi_nHeight b > 437500 \<or> fIsTestnet params then 3 else 11)"

text \<open>The comparison \<^verbatim>\<open>pbegin-pend < nMedianTimeSpan\<close> is kept: its left side is minus the number
  of times collected.\<close>

definition GetMedianTimePast :: "chain_params \<Rightarrow> block_store \<Rightarrow> nat \<Rightarrow> cpp_exn + int" where
  "GetMedianTimePast params st p =
     bind_e (deref st p) (\<lambda>this.
     let nMedianTimeSpan = median_span params this in
     if nTimePoW2Witness this \<noteq> 0 then
       let nMedianTimeSpan = nMedianTimeSpan * 2; nMid = nMedianTimeSpan div 2 in
       bind_e (times_back (\<lambda>b. [GetBlockTime b, GetBlockTimePoW2Witness b]) st (nMedianTimeSpan div 2) (Some p)) (\<lambda>ts.
       let pmedian = sort ts in
       if - int (length pmedian) < int nMedianTimeSpan then vec_index pmedian 0
       else bind_e (vec_index pmedian (nMid - 1)) (\<lambda>a. bind_e (vec_index pmedian nMid) (\<lambda>b. Inr (c_div (a + b) 2))))
     else
       bind_e (times_back (\<lambda>b. [GetBlockTime b]) st nMedianTimeSpan (Some p)) (\<lambda>ts.
       let pmedian = sort ts in
       if - int (length pmedian) < int nMedianTimeSpan then vec_index pmedian 0
       else vec_index pmedian (length pmedian div 2)))"

definition GetMedianTimePastPoW :: "chain_params \<Rightarrow> block_store \<Rightarrow> nat \<Rightarrow> cpp_exn + int" where
  "GetMedianTimePastPoW params st p =
     bind_e (deref st p) (\<lambda>this.
     bind_e (times_back (\<lambda>b. [GetBlockTime b]) st (median_span params this) (Some p)) (\<lambda>ts.
     let pmedian = sort ts in
     if - int (length pmedian) < int (median_span params this) then vec_index pmedian 0
     else vec_index pmedian (length pmedian div 2)))"

definition GetMedianTimePastWitness :: "chain_params \<Rightarrow> block_store \<Rightarrow> nat \<Rightarrow> cpp_exn + int" where
  "GetMedianTimePastWitness params st p =
     bind_e (deref st p) (\<lambda>this.
     bind_e (times_back (\<lambda>b. [GetBlockTimePoW2Witness b]) st (median_span params this) (Some p)) (\<lambda>ts.
     let pmedian = sort ts in
     if - int (length pmedian) < int (median_span params this) then vec_index pmedian 0
     else vec_index pmedian (length pmedian div 2)))"

section \<open>The active chain\<close>

type_synonym chain = "nat option list"

definition chain_at :: "chain \<Rightarrow> int \<Rightarrow> nat option" where
  "chain_at vChain h = (if h < 0 \<or> h \<ge> int (length vChain) then None else vChain ! nat h)"

definition chain_Height :: "chain \<Rightarrow> int" where
  "chain_Height vChain = int (length vChain) - 1"

definition chain_Genesis :: "chain \<Rightarrow> nat option" where
  "chain_Genesis vChain = (if chain_Height vChain \<ge> 0 then chain_at vChain 0 else None)"

definition chain_Tip :: "chain \<Rightarrow> nat option" where
  "chain_Tip vChain = (if chain_Height vChain \<ge> 0 then chain_at vChain (chain_Height vChain) else None)"

definition chain_TipPrev :: "chain \<Rightarrow> nat option" where
  "chain_TipPrev vChain = (if chain_Height vChain > 0 then chain_at vChain (chain_Height vChain - 1) else None)"

definition chain_Contains :: "block_store \<Rightarrow> chain \<Rightarrow> nat \<Rightarrow> cpp_exn + bool" where
  "chain_Contains st vChain p = bind_e (deref st p) (\<lambda>b. Inr (chain_at vChain (bi_nHeight b) = Some p))"

definition chain_Next :: "block_store \<Rightarrow> chain \<Rightarrow> nat \<Rightarrow> cpp_exn + nat option" where
  "chain_Next st vChain p =
     bind_e (deref st p) (\<lambda>b. bind_e (chain_Contains st vChain p) (\<lambda>c.
     Inr (if c then chain_at vChain (bi_nHeight b + 1) else None)))"

definition chain_Prev :: "block_store \<Rightarrow> chain \<Rightarrow> nat \<Rightarrow> cpp_exn + nat option" where
  "chain_Prev st vChain p =
     bind_e (deref st p) (\<lambda>b. bind_e (chain_Contains st vChain p) (\<lambda>c.
     Inr (if c \<and> bi_nHeight b > 0 then chain_at vChain (bi_nHeight b - 1) else None)))"

definition resize :: "nat \<Rightarrow> chain \<Rightarrow> chain" where
  "resize n v = take n v @ replicate (n - length v) None"

partial_function (option) set_tip_loop :: "block_store \<Rightarrow> chain \<Rightarrow> nat option \<Rightarrow> (cpp_exn + chain) option" where
  "set_tip_loop st vChain pindex =
     (case pindex of
        None \<Rightarrow> Some (Inr vChain)
      | Some p \<Rightarrow>
          (case st p of
             None \<Rightarrow> Some (Inl UndefinedBehaviour)
           | Some b \<Rightarrow>
               if bi_nHeight b < 0 \<or> bi_nHeight b \<ge> int (length vChain) then Some (Inl UndefinedBehaviour)
               else if vChain ! nat (bi_nHeight b) = Some p then Some (Inr vChain)
               else set_tip_loop st (vChain[nat (bi_nHeight b) := Some p]) (pprev b)))"

definition SetTip :: "block_store \<Rightarrow> chain \<Rightarrow> nat option \<Rightarrow> (cpp_exn + chain) option" where
  "SetTip st vChain pindex =
     (case pindex of
        None \<Rightarrow> Some (Inr [])
      | Some p \<Rightarrow>
          (case st p of
             None \<Rightarrow> Some (Inl UndefinedBehaviour)
           | Some b \<Rightarrow> set_tip_loop st (resize (nat (bi_nHeight b + 1)) vChain) pindex))"

partial_function (option) fork_loop :: "block_store \<Rightarrow> chain \<Rightarrow> nat option \<Rightarrow> (cpp_exn + nat option) option" where
  "fork_loop st vChain pindex =
     (case pindex of
        None \<Rightarrow> Some (Inr None)
      | Some p \<Rightarrow>
          (case st p of
             None \<Rightarrow> Some (Inl UndefinedBehaviour)
           | Some b \<Rightarrow> if chain_at vChain (bi_nHeight b) = Some p then Some (Inr (Some p)) else fork_loop st vChain (pprev b)))"

definition FindFork :: "block_store \<Rightarrow> chain \<Rightarrow> nat option \<Rightarrow> (cpp_exn + nat option) option" where
  "FindFork st vChain pindex =
     (case pindex of
        None \<Rightarrow> Some (Inr None)
      | Some p \<Rightarrow>
          (case bind_e (deref st p) (\<lambda>b.
                  if bi_nHeight b > chain_Height vChain then GetAncestor st p (chain_Height vChain) else Inr (Some p)) of
             Inl e \<Rightarrow> Some (Inl e)
           | Inr q \<Rightarrow> fork_loop st vChain q))"

partial_function (option) common_loop :: "block_store \<Rightarrow> nat option \<Rightarrow> nat option \<Rightarrow> (cpp_exn + nat option) option" where
  "common_loop st pa pb =
     (if pa \<noteq> pb \<and> pa \<noteq> None \<and> pb \<noteq> None then
        (case (st (the pa), st (the pb)) of
           (Some a, Some b) \<Rightarrow> common_loop st (pprev a) (pprev b)
         | _ \<Rightarrow> Some (Inl UndefinedBehaviour))
      else Some (if pa = pb then Inr pa else Inl AssertFail))"

definition LastCommonAncestor :: "block_store \<Rightarrow> nat \<Rightarrow> nat \<Rightarrow> (cpp_exn + nat option) option" where
  "LastCommonAncestor st pa pb =
     (case bind_e (deref st pa) (\<lambda>a. bind_e (deref st pb) (\<lambda>b.
             if bi_nHeight a > bi_nHeight b then bind_e (GetAncestor st pa (bi_nHeight b)) (\<lambda>pa. Inr (pa, Some pb))
             else if bi_nHeight b > bi_nHeight a then bind_e (GetAncestor st pb (bi_nHeight a)) (\<lambda>pb. Inr (Some pa, pb))
             else Inr (Some pa, Some pb))) of
        Inl e \<Rightarrow> Some (Inl e)
      | Inr (pa, pb) \<Rightarrow> common_loop st pa pb)"

text \<open>The hashes a locator lists, with steps that double after ten entries.\<close>

partial_function (option) locator_loop ::
  "block_store \<Rightarrow> chain \<Rightarrow> int \<Rightarrow> uint256 list \<Rightarrow> nat option \<Rightarrow> (cpp_exn + uint256 list) option" where
  "locator_loop st vChain nStep vHave pindex =
     (case pindex of
        None \<Rightarrow> Some (Inr vHave)
      | Some p \<Rightarrow>
          (case st p of
             None \<Rightarrow> Some (Inl UndefinedBehaviour)
           | Some b \<Rightarrow>
               let vHave = vHave @ [hashBlock b] in
               if bi_nHeight b = 0 then Some (Inr vHave)
               else
                 let h = max (bi_nHeight b - nStep) 0 in
                 (case (if chain_at vChain (bi_nHeight b) = Some p then Inr (chain_at vChain h) else GetAncestor st p h) of
                    Inl e \<Rightarrow> Some (Inl e)
                  | Inr q \<Rightarrow> locator_loop st vChain (if length vHave > 10 then i32 (nStep * 2) else nStep) vHave q)))"

definition GetLocatorPoW2 :: "block_store \<Rightarrow> chain \<Rightarrow> nat option \<Rightarrow> (cpp_exn + uint256 list) option" where
  "GetLocatorPoW2 st vChain pindex =
     locator_loop st vChain 1 [] (case pindex of None \<Rightarrow> chain_Tip vChain | Some p \<Rightarrow> Some p)"

section \<open>Work\<close>

definition GetBlockProof :: "CBlockIndex \<Rightarrow> cpp_exn + limbs" where
  "GetBlockProof block =
     (let (bnTarget, fNegative, fOverflow) = SetCompact (bi_nBits block) in
      if fNegative \<or> fOverflow \<or> EqualTo bnTarget 0 then Inr (base_uint_of 0)
      else bind_e (uint_div (uint_not bnTarget) (uint_add bnTarget (base_uint_of 1))) (\<lambda>q.
           Inr (uint_add q (base_uint_of 1))))"

definition GetBlockProofEquivalentTime ::
  "CBlockIndex \<Rightarrow> CBlockIndex \<Rightarrow> CBlockIndex \<Rightarrow> chain_params \<Rightarrow> cpp_exn + int" where
  "GetBlockProofEquivalentTime pto pfrom tip params =
     (let (r, sign) = (if CompareTo (nChainWork pto) (nChainWork pfrom) > 0
                       then (uint_sub (nChainWork pto) (nChainWork pfrom), 1)
                       else (uint_sub (nChainWork pfrom) (nChainWork pto), - 1)) in
      bind_e (GetBlockProof tip) (\<lambda>proof.
      bind_e (uint_div (uint_mul r (base_uint_of (word_of_int (nPowTargetSpacing params)))) proof) (\<lambda>r.
      Inr (if uint_bits r > 63 then sign * (2 ^ 63 - 1)
           else sint (word_of_int sign * GetLow64 r)))))"

end
