(* ===== verification/Chain_Walk.thy ===== *)
theory Chain_Walk
  imports Chain_Index
begin

text \<open>
  What the block index computes: the skip list leads to the same ancestors as the links to the
  predecessors, the loops over the links end, the chain vector lists the ancestors of its tip, and the
  work of a block is the expected number of hashes.
\<close>

section \<open>The links\<close>

text \<open>The entry reached by a number of steps to the predecessor.\<close>

fun steps_back :: "block_store \<Rightarrow> nat \<Rightarrow> nat \<Rightarrow> nat option" where
  "steps_back st 0 p = Some p"
| "steps_back st (Suc n) p = (case st p of None \<Rightarrow> None | Some b \<Rightarrow> (case pprev b of None \<Rightarrow> None | Some q \<Rightarrow> steps_back st n q))"

text \<open>A well-formed index: heights count the links, and a skip pointer leads to the ancestor at the skip
  height.\<close>

definition entry_linked :: "block_store \<Rightarrow> CBlockIndex \<Rightarrow> bool" where
  "entry_linked st b \<longleftrightarrow> 0 \<le> bi_nHeight b \<and>
     (case pprev b of None \<Rightarrow> True | Some q \<Rightarrow> (case st q of None \<Rightarrow> False | Some b' \<Rightarrow> bi_nHeight b = bi_nHeight b' + 1))"

definition index_ok :: "block_store \<Rightarrow> bool" where
  "index_ok st \<longleftrightarrow>
     (\<forall>p b. st p = Some b \<longrightarrow> entry_linked st b \<and>
        (\<forall>q. pskip b = Some q \<longrightarrow> steps_back st (nat (bi_nHeight b - GetSkipHeight (bi_nHeight b))) p = Some q))"

lemma index_okD:
  assumes "index_ok st" "st p = Some b"
  shows "0 \<le> bi_nHeight b"
    "pprev b = Some q \<Longrightarrow> \<exists>b'. st q = Some b' \<and> bi_nHeight b = bi_nHeight b' + 1"
    "pskip b = Some q \<Longrightarrow> steps_back st (nat (bi_nHeight b - GetSkipHeight (bi_nHeight b))) p = Some q"
  using assms unfolding index_ok_def entry_linked_def by (fastforce split: option.splits)+

lemma back_add: "steps_back st (m + n) p = Option.bind (steps_back st m p) (steps_back st n)"
  by (induction m arbitrary: p) (auto split: option.split)

lemma back_height:
  "index_ok st \<Longrightarrow> st p = Some b \<Longrightarrow> steps_back st n p = Some q \<Longrightarrow> \<exists>b'. st q = Some b' \<and> bi_nHeight b' = bi_nHeight b - int n"
proof (induction n arbitrary: p b)
  case (Suc n)
  then obtain r where r: "pprev b = Some r" "steps_back st n r = Some q" by (auto split: option.splits)
  obtain b' where b': "st r = Some b'" "bi_nHeight b = bi_nHeight b' + 1"
    using index_okD(2) [OF Suc.prems(1,2) r(1)] by blast
  then show ?case using Suc.IH [OF Suc.prems(1) b'(1) r(2)] by auto
qed simp

lemma ancestor_walk_back:
  "index_ok st \<Longrightarrow> st p = Some b \<Longrightarrow> bi_nHeight b = hw \<Longrightarrow> int h \<le> hw \<Longrightarrow>
   ancestor_walk st h hw p = Inr (steps_back st (nat (hw - int h)) p)"
proof (induction st h hw p arbitrary: b rule: ancestor_walk.induct)
  case (1 st h hw p)
  note prems = "1.prems" and IH = "1.IH"
  show ?case
  proof (cases "hw > int h")
    case True
    have d: "deref st p = Inr b" using prems by (simp add: deref_def)
    let ?s = "GetSkipHeight hw"
    let ?c = "?s = int h \<or> (?s > int h \<and> \<not> (GetSkipHeight (hw - 1) < ?s - 2 \<and> GetSkipHeight (hw - 1) \<ge> int h))"
    have lt: "?s < hw" using GetSkipHeight_bounds(2) [of hw] True by simp
    show ?thesis
    proof (cases "if ?c then pskip b else None")
      case (Some q)
      then have c: "?c" "pskip b = Some q" by (auto split: if_splits)
      then have q: "steps_back st (nat (hw - ?s)) p = Some q" using index_okD(3) [OF prems(1,2), of q] prems(3) by simp
      obtain b' where b': "st q = Some b'" "bi_nHeight b' = ?s"
        using back_height [OF prems(1,2) q] prems(3) lt by auto
      have "int h \<le> ?s" using c(1) by linarith
      then have "ancestor_walk st h ?s q = Inr (steps_back st (nat (?s - int h)) q)"
        using IH(2) [OF True d refl refl Some prems(1) b'] by simp
      moreover have "nat (hw - int h) = nat (hw - ?s) + nat (?s - int h)" using \<open>int h \<le> ?s\<close> lt by simp
      ultimately show ?thesis
        using True d Some q by (subst ancestor_walk.simps) (simp add: back_add Let_def)
    next
      case None
      have n: "nat (hw - int h) = Suc (nat (hw - 1 - int h))" using True by simp
      show ?thesis
      proof (cases "pprev b")
        case None
        then show ?thesis using True d \<open>(if ?c then pskip b else None) = None\<close> n prems(2)
          by (subst ancestor_walk.simps) (simp add: Let_def)
      next
        case (Some q)
        then obtain b' where b': "st q = Some b'" "bi_nHeight b' = hw - 1"
          using index_okD(2) [OF prems(1,2), of q] prems(3) by auto
        have "ancestor_walk st h (hw - 1) q = Inr (steps_back st (nat (hw - 1 - int h)) q)"
          using IH(1) [OF True d refl refl None Some prems(1) b'] True by simp
        then show ?thesis using True d None Some n prems(2) by (subst ancestor_walk.simps) (simp add: Let_def)
      qed
    qed
  next
    case False
    then show ?thesis using prems by (subst ancestor_walk.simps) simp
  qed
qed

lemma GetAncestor_back:
  assumes "index_ok st" "st p = Some b"
  shows "GetAncestor st p h =
    Inr (if 0 \<le> h \<and> h \<le> bi_nHeight b then steps_back st (nat (bi_nHeight b - h)) p else None)"
  using ancestor_walk_back [OF assms refl, of "nat h"] assms(2) by (auto simp: GetAncestor_def deref_def)

section \<open>Building the skip list\<close>

lemma back_same_links:
  assumes "\<And>q. map_option pprev (st' q) = map_option pprev (st q)"
  shows "steps_back st' n p = steps_back st n p"
proof (induction n arbitrary: p)
  case (Suc n)
  then show ?case using assms [of p] by (cases "st p"; cases "st' p") (auto split: option.split)
qed simp

lemma index_ok_update:
  assumes "index_ok st" "st p = Some b" "pprev b' = pprev b" "bi_nHeight b' = bi_nHeight b"
    "\<And>q. pskip b' = Some q \<Longrightarrow> steps_back st (nat (bi_nHeight b - GetSkipHeight (bi_nHeight b))) p = Some q"
  shows "index_ok (st(p \<mapsto> b'))"
proof -
  have links: "steps_back (st(p \<mapsto> b')) n q = steps_back st n q" for n q
    using assms(2,3) by (intro back_same_links) simp
  have linked: "entry_linked (st(p \<mapsto> b')) x = entry_linked st x" for x
    using assms(2,4) by (auto simp: entry_linked_def split: option.splits)
  have "entry_linked st b' = entry_linked st b"
    using assms(3,4) by (cases "pprev b"; auto simp: entry_linked_def split: option.splits)
  then show ?thesis
    using assms unfolding index_ok_def links linked by auto
qed

lemma steps_back_extend:
  "index_ok st \<Longrightarrow> st p = None \<Longrightarrow> st q \<noteq> None \<Longrightarrow> steps_back (st(p \<mapsto> b)) n q = steps_back st n q"
proof (induction n arbitrary: q)
  case (Suc n)
  then obtain bq where bq: "st q = Some bq" "q \<noteq> p" by fastforce
  show ?case
  proof (cases "pprev bq")
    case (Some r)
    then have "st r \<noteq> None" using index_okD(2) [OF Suc.prems(1) bq(1)] by auto
    then show ?thesis using Suc bq Some by simp
  qed (use bq in simp)
qed simp

lemma index_ok_extend:
  assumes "index_ok st" "st p = None" "entry_linked st b" "pskip b = None"
  shows "index_ok (st(p \<mapsto> b))"
  unfolding index_ok_def
proof (intro allI impI conjI)
  fix q c assume c: "(st(p \<mapsto> b)) q = Some c"
  then have "entry_linked st c" using assms(1,3) unfolding index_ok_def by (auto split: if_splits)
  then show "entry_linked (st(p \<mapsto> b)) c" using assms(2) by (auto simp: entry_linked_def split: option.splits)
  fix r assume r: "pskip c = Some r"
  then have "q \<noteq> p" using c assms(4) by auto
  then show "steps_back (st(p \<mapsto> b)) (nat (bi_nHeight c - GetSkipHeight (bi_nHeight c))) q = Some r"
    using c r index_okD(3) [OF assms(1), of q c r] steps_back_extend [OF assms(1,2), of q] by simp
qed

lemma BuildSkip_ok:
  assumes "index_ok st" "st p = Some b"
  shows "\<exists>r. BuildSkip st p = Inr (st(p \<mapsto> b\<lparr>pskip := r\<rparr>)) \<and> index_ok (st(p \<mapsto> b\<lparr>pskip := r\<rparr>))"
proof (cases "pprev b")
  case None
  have "st(p \<mapsto> b\<lparr>pskip := pskip b\<rparr>) = st" using assms(2) by auto
  then show ?thesis using assms None by (intro exI [of _ "pskip b"]) (simp add: BuildSkip_def deref_def)
next
  case (Some q)
  then obtain bq where bq: "st q = Some bq" "bi_nHeight b = bi_nHeight bq + 1" using index_okD(2) [OF assms] by blast
  let ?s = "GetSkipHeight (bi_nHeight b)"
  have s: "0 \<le> ?s" "?s \<le> bi_nHeight bq"
    using GetSkipHeight_bounds [of "bi_nHeight b"] bq(2) index_okD(1) [OF assms(1) bq(1)] by auto
  define r where "r = steps_back st (nat (bi_nHeight bq - ?s)) q"
  have "nat (bi_nHeight b - ?s) = Suc (nat (bi_nHeight bq - ?s))" using s bq(2) by simp
  then have "steps_back st (nat (bi_nHeight b - ?s)) p = r" using assms(2) Some by (simp add: r_def)
  then have "index_ok (st(p \<mapsto> b\<lparr>pskip := r\<rparr>))" using assms by (intro index_ok_update) auto
  moreover have "BuildSkip st p = Inr (st(p \<mapsto> b\<lparr>pskip := r\<rparr>))"
    using assms(2) Some s GetAncestor_back [OF assms(1) bq(1), of ?s] by (simp add: BuildSkip_def deref_def r_def)
  ultimately show ?thesis by blast
qed

lemma link_block_ok:
  assumes "index_ok st" "st p = None" "pprev b = None" "pskip b = None" "bi_nHeight b = 0"
    "case miPrev of None \<Rightarrow> True | Some q \<Rightarrow> st q \<noteq> None"
  shows "\<exists>b'. link_block st p b miPrev = Inr (st(p \<mapsto> b')) \<and> index_ok (st(p \<mapsto> b')) \<and> pprev b' = miPrev \<and>
    bi_nHeight b' = (case miPrev of None \<Rightarrow> 0 | Some q \<Rightarrow> bi_nHeight (the (st q)) + 1)"
proof (cases miPrev)
  case None
  have "index_ok (st(p \<mapsto> b\<lparr>nTimeMax := bi_nTime b\<rparr>))"
    using assms by (intro index_ok_extend) (simp_all add: entry_linked_def)
  then show ?thesis using None assms(3,5) by (auto simp: link_block_def)
next
  case (Some q)
  then obtain prev where q: "st q = Some prev" "q \<noteq> p" using assms(2,6) by fastforce
  define b1 where "b1 = b\<lparr>pprev := Some q, bi_nHeight := bi_nHeight prev + 1\<rparr>"
  have ok1: "index_ok (st(p \<mapsto> b1))"
    using assms(1,2,4) q index_okD(1) [OF assms(1) q(1)]
    by (intro index_ok_extend) (simp_all add: b1_def entry_linked_def)
  obtain r where r: "BuildSkip (st(p \<mapsto> b1)) p = Inr (st(p \<mapsto> b1\<lparr>pskip := r\<rparr>))" "index_ok (st(p \<mapsto> b1\<lparr>pskip := r\<rparr>))"
    using BuildSkip_ok [OF ok1, of p b1] by auto
  define b2 where "b2 = (if pskip prev \<noteq> None \<or> bi_nHeight prev = 0 then b1\<lparr>pskip := r\<rparr> else b1)"
  have ok2: "index_ok (st(p \<mapsto> b2))" using ok1 r(2) by (simp add: b2_def)
  define b3 where "b3 = b2\<lparr>nTimeMax := max (nTimeMax prev) (bi_nTime b2)\<rparr>"
  have "index_ok ((st(p \<mapsto> b2))(p \<mapsto> b3))"
    using index_okD(3) [OF ok2, of p b2] by (intro index_ok_update [OF ok2, where b = b2]) (simp_all add: b3_def)
  moreover have "link_block st p b miPrev = Inr (st(p \<mapsto> b3))"
    using Some q r(1) by (simp add: link_block_def deref_def b1_def [symmetric] b2_def b3_def Let_def)
  ultimately show ?thesis using Some q(1) by (intro exI [of _ b3]) (simp add: b3_def b2_def b1_def)
qed

section \<open>Setting the tip\<close>

text \<open>The entry at each position of a chain is followed downwards by its ancestors.\<close>

definition chain_ok :: "block_store \<Rightarrow> chain \<Rightarrow> bool" where
  "chain_ok st v \<longleftrightarrow> (\<forall>i < length v. \<forall>p. v ! i = Some p \<longrightarrow> (\<forall>j \<le> i. v ! j = steps_back st (i - j) p))"

text \<open>An entry that leads back to a block of height zero.\<close>

definition connected :: "block_store \<Rightarrow> nat \<Rightarrow> bool" where
  "connected st p \<longleftrightarrow> (case st p of None \<Rightarrow> False | Some b \<Rightarrow> steps_back st (nat (bi_nHeight b)) p \<noteq> None)"

lemma connected_prev:
  assumes "index_ok st" "connected st p" "st p = Some b" "0 < bi_nHeight b"
  obtains q bq where "pprev b = Some q" "st q = Some bq" "bi_nHeight bq = bi_nHeight b - 1" "connected st q"
proof -
  obtain n where n: "nat (bi_nHeight b) = Suc n" using assms(4) by (metis Suc_pred zero_less_nat_eq)
  then obtain q where q: "pprev b = Some q" "steps_back st n q \<noteq> None"
    using assms(2,3) by (auto simp: connected_def split: option.splits)
  obtain bq where "st q = Some bq" "bi_nHeight b = bi_nHeight bq + 1" using index_okD(2) [OF assms(1,3) q(1)] by blast
  moreover from this n have "nat (bi_nHeight bq) = n" by simp
  ultimately show thesis using that q by (simp add: connected_def)
qed

lemma root_prev: "index_ok st \<Longrightarrow> st p = Some b \<Longrightarrow> bi_nHeight b = 0 \<Longrightarrow> pprev b = None"
  using index_okD(1,2) [of st] by (cases "pprev b") fastforce+

lemma set_tip_loop_chain:
  assumes "index_ok st"
  shows "st p = Some b \<Longrightarrow> bi_nHeight b = int n \<Longrightarrow> connected st p \<Longrightarrow> n < length v \<Longrightarrow>
    (\<forall>i \<le> n. \<forall>q. v ! i = Some q \<longrightarrow> (\<forall>j \<le> i. v ! j = steps_back st (i - j) q)) \<Longrightarrow>
    \<exists>v'. set_tip_loop st v (Some p) = Some (Inr v') \<and> length v' = length v \<and>
      (\<forall>j \<le> n. v' ! j = steps_back st (n - j) p) \<and> (\<forall>j > n. v' ! j = v ! j)"
proof (induction n arbitrary: p b v)
  case (0 p b v)
  then have "pprev b = None" using root_prev [OF assms] by simp
  then show ?case using 0 by (subst set_tip_loop.simps) (subst set_tip_loop.simps, auto)
next
  case (Suc n p b v)
  obtain q bq where q: "pprev b = Some q" "st q = Some bq" "bi_nHeight bq = int n" "connected st q"
    using connected_prev [OF assms Suc.prems(3,1)] Suc.prems(2) by auto
  show ?case
  proof (cases "v ! Suc n = Some p")
    case True
    then have "set_tip_loop st v (Some p) = Some (Inr v)"
      using Suc.prems(1,2,4) by (subst set_tip_loop.simps) (simp add: nat_add_distrib)
    then show ?thesis using True Suc.prems(5) by auto
  next
    case False
    let ?v = "v[Suc n := Some p]"
    obtain v' where v': "set_tip_loop st ?v (Some q) = Some (Inr v')" "length v' = length v"
      "\<forall>j \<le> n. v' ! j = steps_back st (n - j) q" "\<forall>j > n. v' ! j = ?v ! j"
      using Suc.IH [OF q(2-4), of ?v] Suc.prems(4,5) by auto
    have "set_tip_loop st v (Some p) = set_tip_loop st ?v (Some q)"
      using False Suc.prems(1,2,4) q(1) by (subst set_tip_loop.simps) (simp add: nat_add_distrib)
    moreover have "v' ! j = steps_back st (Suc n - j) p" if "j \<le> Suc n" for j
      using that v'(3,4) Suc.prems(1,4) q(1) by (cases "j = Suc n") (auto simp: Suc_diff_le)
    moreover have "\<forall>j > Suc n. v' ! j = v ! j" using v'(4) by simp
    ultimately show ?thesis using v' by auto
  qed
qed

lemma length_resize [simp]: "length (resize n v) = n"
  by (simp add: resize_def)

lemma SetTip_chain:
  assumes "index_ok st" "chain_ok st v" "st p = Some b" "connected st p"
  shows "\<exists>v'. SetTip st v (Some p) = Some (Inr v') \<and> int (length v') = bi_nHeight b + 1 \<and> chain_ok st v' \<and>
    (\<forall>j. int j \<le> bi_nHeight b \<longrightarrow> v' ! j = steps_back st (nat (bi_nHeight b) - j) p)"
proof -
  define n where "n = nat (bi_nHeight b)"
  have n: "bi_nHeight b = int n" using index_okD(1) [OF assms(1,3)] by (simp add: n_def)
  let ?v = "resize (Suc n) v"
  have nth: "?v ! i = (if i < length v then v ! i else None)" if "i \<le> n" for i
    using that by (auto simp: resize_def nth_append)
  have "\<forall>i \<le> n. \<forall>q. ?v ! i = Some q \<longrightarrow> (\<forall>j \<le> i. ?v ! j = steps_back st (i - j) q)"
    using assms(2) nth by (auto simp: chain_ok_def split: if_splits)
  then obtain v' where v': "set_tip_loop st ?v (Some p) = Some (Inr v')" "length v' = Suc n"
    "\<forall>j \<le> n. v' ! j = steps_back st (n - j) p"
    using set_tip_loop_chain [OF assms(1,3) n assms(4), of ?v] by auto
  have "chain_ok st v'"
    unfolding chain_ok_def
  proof (intro allI impI)
    fix i q j assume i: "i < length v'" "v' ! i = Some q" "j \<le> i"
    then have "steps_back st (n - i) p = Some q" using v'(2,3) by simp
    then have "steps_back st ((n - i) + (i - j)) p = steps_back st (i - j) q" by (simp only: back_add bind.bind_lunit)
    moreover have "(n - i) + (i - j) = n - j" using i v'(2) by simp
    ultimately show "v' ! j = steps_back st (i - j) q" using v'(2,3) i by simp
  qed
  then show ?thesis using v' assms(3) n by (auto simp: SetTip_def nat_add_distrib)
qed

section \<open>Forks\<close>

definition ancestor :: "block_store \<Rightarrow> nat \<Rightarrow> nat \<Rightarrow> bool" where
  "ancestor st q p \<longleftrightarrow> (\<exists>n. steps_back st n p = Some q)"

definition height_of :: "block_store \<Rightarrow> nat \<Rightarrow> int" where
  "height_of st p = (case st p of None \<Rightarrow> - 1 | Some b \<Rightarrow> bi_nHeight b)"

text \<open>The highest of the ancestors of an entry that satisfy a condition, if there is one.\<close>

definition highest :: "block_store \<Rightarrow> nat \<Rightarrow> (nat \<Rightarrow> bool) \<Rightarrow> nat option \<Rightarrow> bool" where
  "highest st p P r \<longleftrightarrow>
     (case r of
        None \<Rightarrow> \<forall>q. ancestor st q p \<longrightarrow> \<not> P q
      | Some q \<Rightarrow> ancestor st q p \<and> P q \<and> (\<forall>q'. ancestor st q' p \<and> P q' \<longrightarrow> height_of st q' \<le> height_of st q))"

lemma ancestor_refl [simp]: "ancestor st p p"
  unfolding ancestor_def by (rule exI [of _ 0]) simp

lemma ancestor_step:
  assumes "st p = Some b"
  shows "ancestor st q p \<longleftrightarrow> q = p \<or> (\<exists>r. pprev b = Some r \<and> ancestor st q r)"
proof
  assume "ancestor st q p"
  then obtain n where "steps_back st n p = Some q" by (auto simp: ancestor_def)
  then show "q = p \<or> (\<exists>r. pprev b = Some r \<and> ancestor st q r)"
    using assms by (cases n) (auto simp: ancestor_def split: option.splits)
next
  assume "q = p \<or> (\<exists>r. pprev b = Some r \<and> ancestor st q r)"
  then show "ancestor st q p"
  proof
    assume "\<exists>r. pprev b = Some r \<and> ancestor st q r"
    then obtain r n where "pprev b = Some r" "steps_back st n r = Some q" by (auto simp: ancestor_def)
    then have "steps_back st (Suc n) p = Some q" using assms by simp
    then show ?thesis unfolding ancestor_def by blast
  qed simp
qed

lemma ancestor_height: "index_ok st \<Longrightarrow> st p \<noteq> None \<Longrightarrow> ancestor st q p \<Longrightarrow> st q \<noteq> None \<and> height_of st q \<le> height_of st p"
  using back_height [of st p] by (fastforce simp: ancestor_def height_of_def)

lemma ancestor_at_height:
  assumes "index_ok st" "st p = Some b" "ancestor st q p"
  shows "steps_back st (nat (bi_nHeight b - height_of st q)) p = Some q"
proof -
  obtain n where n: "steps_back st n p = Some q" using assms(3) by (auto simp: ancestor_def)
  then show ?thesis using back_height [OF assms(1,2) n] by (auto simp: height_of_def)
qed

lemma highest_step:
  assumes "index_ok st" "st p = Some b" "\<not> P p" "pprev b = Some q" "highest st q P r"
  shows "highest st p P r"
  using assms(3-5) unfolding highest_def ancestor_step [where st = st and p = p and b = b, OF assms(2)] by (auto split: option.splits)

lemma highest_self:
  assumes "index_ok st" "st p = Some b" "P p"
  shows "highest st p P (Some p)"
  using assms ancestor_height [OF assms(1), of p] by (auto simp: highest_def)

lemma highest_root:
  assumes "st p = Some b" "\<not> P p" "pprev b = None"
  shows "highest st p P None"
  using assms(2,3) by (auto simp: highest_def ancestor_step [where st = st and p = p and b = b, OF assms(1)])

lemma fork_loop_highest:
  assumes "index_ok st"
  shows "st p = Some b \<Longrightarrow> bi_nHeight b = int n \<Longrightarrow>
    \<exists>r. fork_loop st v (Some p) = Some (Inr r) \<and> highest st p (\<lambda>q. chain_at v (height_of st q) = Some q) r"
proof (induction n arbitrary: p b rule: less_induct)
  case (less n p b)
  let ?P = "\<lambda>q. chain_at v (height_of st q) = Some q"
  have P: "?P p \<longleftrightarrow> chain_at v (bi_nHeight b) = Some p" using less.prems(1) by (simp add: height_of_def)
  show ?case
  proof (cases "?P p")
    case True
    then show ?thesis using P less.prems(1) highest_self [OF assms less.prems(1), of ?P] by (subst fork_loop.simps) auto
  next
    case False
    then have step: "fork_loop st v (Some p) = fork_loop st v (pprev b)"
      using P less.prems(1) by (subst fork_loop.simps) simp
    show ?thesis
    proof (cases "pprev b")
      case None
      then have "fork_loop st v (pprev b) = Some (Inr None)" by (simp add: fork_loop.simps)
      then show ?thesis using step highest_root [of st p b ?P] less.prems(1) False None by auto
    next
      case (Some q)
      obtain bq where bq: "st q = Some bq" "bi_nHeight b = bi_nHeight bq + 1" using index_okD(2) [OF assms less.prems(1) Some] by blast
      have m: "bi_nHeight bq = int (nat (bi_nHeight bq))" "nat (bi_nHeight bq) < n"
        using index_okD(1) [OF assms bq(1)] bq(2) less.prems(2) by simp_all
      obtain r where "fork_loop st v (Some q) = Some (Inr r)" "highest st q ?P r"
        using less.IH [OF m(2) bq(1) m(1)] by blast
      then show ?thesis using step Some highest_step [where P = ?P, OF assms less.prems(1) False Some] by auto
    qed
  qed
qed

text \<open>A chain vector with its tip.\<close>

definition chain_of :: "block_store \<Rightarrow> chain \<Rightarrow> nat \<Rightarrow> bool" where
  "chain_of st v t \<longleftrightarrow>
     (case st t of None \<Rightarrow> False
      | Some b \<Rightarrow> int (length v) = bi_nHeight b + 1 \<and> (\<forall>j < length v. v ! j = steps_back st (length v - 1 - j) t))"

lemma contains_ancestor:
  assumes "index_ok st" "chain_of st v t" "st q = Some b"
  shows "chain_at v (height_of st q) = Some q \<longleftrightarrow> ancestor st q t"
proof -
  obtain bt where t: "st t = Some bt" "int (length v) = bi_nHeight bt + 1"
    "\<And>j. j < length v \<Longrightarrow> v ! j = steps_back st (length v - 1 - j) t"
    using assms(2) by (auto simp: chain_of_def split: option.splits)
  have h: "height_of st q = bi_nHeight b" "0 \<le> bi_nHeight b" using assms(3) index_okD(1) [OF assms(1,3)] by (simp_all add: height_of_def)
  show ?thesis
  proof
    assume "chain_at v (height_of st q) = Some q"
    then show "ancestor st q t" using t(3) [of "nat (bi_nHeight b)"] h by (auto simp: chain_at_def ancestor_def split: if_splits)
  next
    assume a: "ancestor st q t"
    have le: "bi_nHeight b \<le> bi_nHeight bt"
      using ancestor_height [OF assms(1) _ a] t(1) h by (simp add: height_of_def)
    have "nat (bi_nHeight bt - bi_nHeight b) = length v - 1 - nat (bi_nHeight b)" using t(2) h(2) by linarith
    then show "chain_at v (height_of st q) = Some q"
      using ancestor_at_height [OF assms(1) t(1) a] t(2,3) h le by (auto simp: chain_at_def)
  qed
qed

lemma ancestor_jump:
  assumes "index_ok st" "st p = Some b" "steps_back st n p = Some q0" "height_of st q \<le> height_of st q0"
  shows "ancestor st q p \<longleftrightarrow> ancestor st q q0"
proof
  obtain b0 where b0: "st q0 = Some b0" "bi_nHeight b0 = bi_nHeight b - int n" using back_height [OF assms(1-3)] by blast
  assume "ancestor st q p"
  then obtain m where m: "steps_back st m p = Some q" by (auto simp: ancestor_def)
  then have "n \<le> m" using back_height [OF assms(1,2) m] b0 assms(4) by (auto simp: height_of_def)
  then have "steps_back st (m - n) q0 = Some q" using m back_add [of st n "m - n" p] assms(3) by simp
  then show "ancestor st q q0" by (auto simp: ancestor_def)
next
  assume "ancestor st q q0"
  then obtain m where "steps_back st m q0 = Some q" by (auto simp: ancestor_def)
  then have "steps_back st (n + m) p = Some q" using assms(3) by (simp add: back_add)
  then show "ancestor st q p" unfolding ancestor_def by blast
qed

lemma highest_cong: "(\<And>q. ancestor st q p \<Longrightarrow> P q = P' q) \<Longrightarrow> highest st p P r = highest st p P' r"
  unfolding highest_def by (cases r) auto

lemma highest_jump:
  assumes "index_ok st" "st p = Some b" "steps_back st n p = Some q0" "highest st q0 P r"
    "\<And>q. ancestor st q p \<Longrightarrow> P q \<Longrightarrow> height_of st q \<le> height_of st q0"
  shows "highest st p P r"
proof -
  have "st q0 \<noteq> None" using back_height [OF assms(1-3)] by auto
  then have up: "ancestor st q q0 \<Longrightarrow> ancestor st q p" for q
    using ancestor_jump [OF assms(1-3)] ancestor_height [OF assms(1)] by blast
  have down: "ancestor st q p \<Longrightarrow> P q \<Longrightarrow> ancestor st q q0" for q
    using ancestor_jump [OF assms(1-3)] assms(5) by blast
  show ?thesis using assms(4) up down unfolding highest_def by (cases r) auto
qed

lemma FindFork_highest:
  assumes "index_ok st" "chain_of st v t" "st p = Some b"
  shows "\<exists>r. FindFork st v (Some p) = Some (Inr r) \<and> highest st p (\<lambda>q. ancestor st q t) r"
proof -
  let ?P = "\<lambda>q. chain_at v (height_of st q) = Some q"
  obtain bt where t: "st t = Some bt" "chain_Height v = bi_nHeight bt"
    using assms(2) by (auto simp: chain_of_def chain_Height_def split: option.splits)
  have cong: "highest st q ?P r = highest st q (\<lambda>q. ancestor st q t) r" if "st q = Some c" for q c r
    using contains_ancestor [OF assms(1,2)] ancestor_height [OF assms(1), of q] that by (intro highest_cong) fastforce
  have low: "ancestor st q t \<Longrightarrow> height_of st q \<le> bi_nHeight bt" for q
    using ancestor_height [OF assms(1), of t q] t(1) by (simp add: height_of_def)
  have loop: "\<exists>r. fork_loop st v (Some q) = Some (Inr r) \<and> highest st q (\<lambda>q. ancestor st q t) r" if "st q = Some c" for q c
    using fork_loop_highest [OF assms(1) that, of "nat (bi_nHeight c)" v] index_okD(1) [OF assms(1) that] cong [OF that] by auto
  show ?thesis
  proof (cases "bi_nHeight b > bi_nHeight bt")
    case False
    then show ?thesis using loop [OF assms(3)] assms(3) t(2) by (auto simp: FindFork_def deref_def)
  next
    case True
    let ?n = "nat (bi_nHeight b - bi_nHeight bt)"
    have g: "GetAncestor st p (chain_Height v) = Inr (steps_back st ?n p)"
      using GetAncestor_back [OF assms(1,3), of "chain_Height v"] True t(2) index_okD(1) [OF assms(1) t(1)] by simp
    show ?thesis
    proof (cases "steps_back st ?n p")
      case None
      have "\<not> ancestor st q t" if "ancestor st q p" for q
      proof
        assume "ancestor st q t"
        then have "?n \<le> nat (bi_nHeight b - height_of st q)" using low by (intro nat_mono) simp
        then show False
          using ancestor_at_height [OF assms(1,3) that] None back_add [of st ?n "nat (bi_nHeight b - height_of st q) - ?n" p] by simp
      qed
      moreover have "fork_loop st v None = Some (Inr None)" by (simp add: fork_loop.simps)
      ultimately show ?thesis using None g True assms(3) t(2) by (auto simp: FindFork_def deref_def highest_def)
    next
      case (Some q0)
      then obtain b0 where b0: "st q0 = Some b0" "bi_nHeight b0 = bi_nHeight bt" using back_height [OF assms(1,3) Some] True by auto
      obtain r where r: "fork_loop st v (Some q0) = Some (Inr r)" "highest st q0 (\<lambda>q. ancestor st q t) r" using loop [OF b0(1)] by blast
      have "highest st p (\<lambda>q. ancestor st q t) r"
        using low b0 by (intro highest_jump [OF assms(1,3) Some r(2)]) (simp add: height_of_def)
      then show ?thesis using r(1) g Some True assms(3) t(2) by (auto simp: FindFork_def deref_def)
    qed
  qed
qed

lemma same_height_ancestor:
  assumes "index_ok st" "st p = Some b" "ancestor st q p" "height_of st q = bi_nHeight b"
  shows "q = p"
  using ancestor_at_height [OF assms(1-3)] assms(4) by simp

lemma common_loop_highest:
  assumes "index_ok st"
  shows "st pa = Some a \<Longrightarrow> st pb = Some b \<Longrightarrow> bi_nHeight a = int n \<Longrightarrow> bi_nHeight b = int n \<Longrightarrow> connected st pa \<Longrightarrow> connected st pb \<Longrightarrow>
    \<exists>r. common_loop st (Some pa) (Some pb) = Some (Inr r) \<and> highest st pa (\<lambda>q. ancestor st q pb) r"
proof (induction n arbitrary: pa pb a b)
  case (0 pa pb a b)
  have roots: "pprev a = None" "pprev b = None" using root_prev [OF assms 0(1)] root_prev [OF assms 0(2)] 0(3,4) by simp_all
  show ?case
  proof (cases "pa = pb")
    case True
    then show ?thesis using highest_self [where P = "\<lambda>q. ancestor st q pb", OF assms 0(1)] by (subst common_loop.simps) auto
  next
    case False
    then have "\<not> ancestor st pa pb" using same_height_ancestor [OF assms 0(2)] 0(1,3,4) by (auto simp: height_of_def)
    then have "highest st pa (\<lambda>q. ancestor st q pb) None" using highest_root [of st pa a "\<lambda>q. ancestor st q pb"] 0(1) roots(1) by blast
    moreover have "common_loop st (Some pa) (Some pb) = Some (Inr None)"
      using False 0(1,2) roots by (subst common_loop.simps) (simp add: common_loop.simps)
    ultimately show ?thesis by blast
  qed
next
  case (Suc n pa pb a b)
  note prems = Suc.prems
  show ?case
  proof (cases "pa = pb")
    case True
    then show ?thesis using highest_self [where P = "\<lambda>q. ancestor st q pb", OF assms prems(1)] by (subst common_loop.simps) auto
  next
    case False
    obtain qa ba where qa: "pprev a = Some qa" "st qa = Some ba" "bi_nHeight ba = int n" "connected st qa"
      using connected_prev [OF assms prems(5,1)] prems(3) by auto
    obtain qb bb where qb: "pprev b = Some qb" "st qb = Some bb" "bi_nHeight bb = int n" "connected st qb"
      using connected_prev [OF assms prems(6,2)] prems(4) by auto
    obtain r where r: "common_loop st (Some qa) (Some qb) = Some (Inr r)" "highest st qa (\<lambda>q. ancestor st q qb) r"
      using Suc.IH [OF qa(2) qb(2) qa(3) qb(3) qa(4) qb(4)] by blast
    have not_a: "\<not> ancestor st pa pb" using False same_height_ancestor [OF assms prems(2)] prems(1,3,4) by (auto simp: height_of_def)
    have "ancestor st q pb = ancestor st q qb" if "ancestor st q qa" for q
    proof -
      have "height_of st q \<le> int n" using ancestor_height [OF assms, of qa q] that qa(2,3) by (simp add: height_of_def)
      then have "q \<noteq> pb" using prems(2,4) by (auto simp: height_of_def)
      then show ?thesis using ancestor_step [where st = st and p = pb and b = b, OF prems(2)] qb(1) by simp
    qed
    then have "highest st qa (\<lambda>q. ancestor st q pb) r" using r(2) highest_cong [of st qa "\<lambda>q. ancestor st q pb" "\<lambda>q. ancestor st q qb" r] by simp
    then have "highest st pa (\<lambda>q. ancestor st q pb) r"
      using highest_step [where P = "\<lambda>q. ancestor st q pb", OF assms prems(1) not_a qa(1)] by blast
    moreover have "common_loop st (Some pa) (Some pb) = common_loop st (Some qa) (Some qb)"
      using False prems(1,2) qa(1) qb(1) by (subst common_loop.simps) simp
    ultimately show ?thesis using r(1) by auto
  qed
qed

lemma steps_back_connected:
  assumes "index_ok st" "connected st p" "st p = Some b" "0 \<le> h" "h \<le> bi_nHeight b"
  obtains q bq where "steps_back st (nat (bi_nHeight b - h)) p = Some q" "st q = Some bq" "bi_nHeight bq = h" "connected st q"
proof -
  let ?n = "nat (bi_nHeight b - h)"
  have split: "nat (bi_nHeight b) = ?n + nat h" using assms(4,5) by simp
  have "steps_back st (?n + nat h) p \<noteq> None" using assms(2,3) unfolding split [symmetric] connected_def by simp
  then obtain q where q: "steps_back st ?n p = Some q" "steps_back st (nat h) q \<noteq> None"
    unfolding back_add by (cases "steps_back st ?n p") simp_all
  obtain bq where "st q = Some bq" "bi_nHeight bq = h" using back_height [OF assms(1,3) q(1)] assms(4,5) by auto
  then show thesis using that q by (simp add: connected_def)
qed

lemma LastCommonAncestor_highest:
  assumes "index_ok st" "connected st pa" "connected st pb"
  shows "\<exists>r. LastCommonAncestor st pa pb = Some (Inr r) \<and> highest st pa (\<lambda>q. ancestor st q pb) r"
proof -
  obtain a b where ab: "st pa = Some a" "st pb = Some b" using assms(2,3) by (auto simp: connected_def split: option.splits)
  have h: "0 \<le> bi_nHeight a" "0 \<le> bi_nHeight b" using index_okD(1) [OF assms(1)] ab by auto
  have loop: "\<exists>r. common_loop st (Some p) (Some q) = Some (Inr r) \<and> highest st p (\<lambda>x. ancestor st x q) r"
    if "st p = Some x" "st q = Some y" "bi_nHeight x = bi_nHeight y" "connected st p" "connected st q" for p q x y
  proof -
    have "bi_nHeight x = int (nat (bi_nHeight x))" "bi_nHeight y = int (nat (bi_nHeight x))"
      using index_okD(1) [OF assms(1) that(1)] that(3) by simp_all
    then show ?thesis by (rule common_loop_highest [OF assms(1) that(1,2) _ _ that(4,5)])
  qed
  consider "bi_nHeight a = bi_nHeight b" | "bi_nHeight a > bi_nHeight b" | "bi_nHeight b > bi_nHeight a" by linarith
  then show ?thesis
  proof cases
    case 1
    then show ?thesis using loop [OF ab 1 assms(2,3)] ab by (auto simp: LastCommonAncestor_def deref_def)
  next
    case 2
    obtain q bq where q: "steps_back st (nat (bi_nHeight a - bi_nHeight b)) pa = Some q" "st q = Some bq"
      "bi_nHeight bq = bi_nHeight b" "connected st q"
      using steps_back_connected [OF assms(1,2) ab(1) h(2)] 2 by auto
    obtain r where r: "common_loop st (Some q) (Some pb) = Some (Inr r)" "highest st q (\<lambda>x. ancestor st x pb) r"
      using loop [OF q(2) ab(2) q(3,4) assms(3)] by blast
    have "highest st pa (\<lambda>x. ancestor st x pb) r"
      using ancestor_height [OF assms(1), of pb] ab(2) q(2,3)
      by (intro highest_jump [OF assms(1) ab(1) q(1) r(2)]) (simp add: height_of_def)
    then show ?thesis using r(1) 2 q(1) h ab GetAncestor_back [OF assms(1) ab(1), of "bi_nHeight b"]
      by (auto simp: LastCommonAncestor_def deref_def)
  next
    case 3
    obtain q bq where q: "steps_back st (nat (bi_nHeight b - bi_nHeight a)) pb = Some q" "st q = Some bq"
      "bi_nHeight bq = bi_nHeight a" "connected st q"
      using steps_back_connected [OF assms(1,3) ab(2) h(1)] 3 by auto
    obtain r where r: "common_loop st (Some pa) (Some q) = Some (Inr r)" "highest st pa (\<lambda>x. ancestor st x q) r"
      using loop [OF ab(1) q(2) q(3) [symmetric] assms(2) q(4)] by blast
    have "ancestor st x q = ancestor st x pb" if "ancestor st x pa" for x
      using ancestor_jump [OF assms(1) ab(2) q(1)] ancestor_height [OF assms(1) _ that] ab(1) q(2,3) by (simp add: height_of_def)
    then have "highest st pa (\<lambda>x. ancestor st x pb) r" using r(2) highest_cong [of st pa "\<lambda>x. ancestor st x pb" "\<lambda>x. ancestor st x q" r] by simp
    then show ?thesis using r(1) 3 q(1) h ab GetAncestor_back [OF assms(1) ab(2), of "bi_nHeight a"]
      by (auto simp: LastCommonAncestor_def deref_def)
  qed
qed

section \<open>Locators\<close>

definition hash_of :: "block_store \<Rightarrow> nat \<Rightarrow> uint256" where
  "hash_of st p = (case st p of None \<Rightarrow> 0 | Some b \<Rightarrow> hashBlock b)"

definition descends :: "block_store \<Rightarrow> nat \<Rightarrow> nat list \<Rightarrow> bool" where
  "descends st p qs \<longleftrightarrow> sorted_wrt (\<lambda>x y. height_of st y < height_of st x) (p # qs) \<and>
     list_all (\<lambda>q. ancestor st q p) qs \<and> height_of st (last (p # qs)) = 0"

lemma descends_Cons:
  assumes "index_ok st" "st p = Some b" "steps_back st n p = Some q" "height_of st q < height_of st p" "descends st q qs"
  shows "descends st p (q # qs)"
proof -
  have "st q \<noteq> None" using back_height [OF assms(1-3)] by auto
  then have "ancestor st x p \<and> height_of st x < height_of st p" if "ancestor st x q" for x
    using ancestor_jump [OF assms(1-3), of x] ancestor_height [OF assms(1) _ that] that assms(4) by auto
  then show ?thesis using assms(5) ancestor_refl [of st q] by (auto simp: descends_def list_all_iff)
qed

lemma locator_next:
  assumes "index_ok st" "chain_ok st v" "st p = Some b" "0 \<le> h" "h \<le> bi_nHeight b"
  shows "(if chain_at v (bi_nHeight b) = Some p then Inr (chain_at v h) else GetAncestor st p h) =
    Inr (steps_back st (nat (bi_nHeight b - h)) p)"
proof (cases "chain_at v (bi_nHeight b) = Some p")
  case True
  then have "nat (bi_nHeight b) < length v" "v ! nat (bi_nHeight b) = Some p" by (auto simp: chain_at_def split: if_splits)
  then have "v ! nat h = steps_back st (nat (bi_nHeight b) - nat h) p"
    using assms(2,5) unfolding chain_ok_def by (meson nat_mono)
  then show ?thesis using True assms(4,5) by (auto simp: chain_at_def nat_diff_distrib split: if_splits)
next
  case False
  then show ?thesis using GetAncestor_back [OF assms(1,3), of h] assms(4,5) by simp
qed

lemma locator_loop_descends:
  assumes "index_ok st" "chain_ok st v"
  shows "st p = Some b \<Longrightarrow> bi_nHeight b = int n \<Longrightarrow> connected st p \<Longrightarrow>
    (0 < n \<longrightarrow> 1 \<le> s \<and> s \<le> D + 1 \<and> D + int n < 2 ^ 30) \<Longrightarrow>
    \<exists>qs. locator_loop st v s hs (Some p) = Some (Inr (hs @ map (hash_of st) (p # qs))) \<and> descends st p qs"
proof (induction n arbitrary: p b s hs D rule: less_induct)
  case (less n p b s hs D)
  have hash: "hash_of st p = hashBlock b" using less.prems(1) by (simp add: hash_of_def)
  show ?case
  proof (cases "n = 0")
    case True
    then have "locator_loop st v s hs (Some p) = Some (Inr (hs @ map (hash_of st) [p]))"
      using less.prems(1,2) hash by (subst locator_loop.simps) (simp add: Let_def)
    moreover have "descends st p []" using True less.prems(1,2) by (simp add: descends_def height_of_def)
    ultimately show ?thesis by blast
  next
    case False
    define h where "h = max (bi_nHeight b - s) 0"
    have s: "1 \<le> s" "s \<le> D + 1" "D + int n < 2 ^ 30" using less.prems(4) False by auto
    have h: "0 \<le> h" "h < bi_nHeight b" using s(1) less.prems(2) False by (auto simp: h_def)
    obtain q bq where q: "steps_back st (nat (bi_nHeight b - h)) p = Some q" "st q = Some bq" "bi_nHeight bq = h" "connected st q"
      using steps_back_connected [OF assms(1) less.prems(3,1) h(1)] h(2) by auto
    define s' where "s' = (if length (hs @ [hashBlock b]) > 10 then i32 (s * 2) else s)"
    have "i32 (s * 2) = s * 2" using s False by (intro i32_id) (auto simp: in_i32_def)
    then have s': "s' = s \<or> s' = s * 2" by (simp add: s'_def)
    have bound: "0 < nat h \<longrightarrow> 1 \<le> s' \<and> s' \<le> D + s + 1 \<and> D + s + int (nat h) < 2 ^ 30"
      using s s' less.prems(2) by (auto simp: h_def)
    obtain qs where qs: "locator_loop st v s' (hs @ [hashBlock b]) (Some q) = Some (Inr (hs @ [hashBlock b] @ map (hash_of st) (q # qs)))"
      "descends st q qs"
      using less.IH [OF _ q(2) _ q(4) bound, of "hs @ [hashBlock b]"] q(3) h less.prems(2) by auto
    have "(if chain_at v (bi_nHeight b) = Some p then Inr (chain_at v h) else GetAncestor st p h) = Inr (Some q)"
      using locator_next [OF assms less.prems(1) h(1)] h(2) q(1) by simp
    then have "locator_loop st v s hs (Some p) = locator_loop st v s' (hs @ [hashBlock b]) (Some q)"
      using less.prems(1,2) False
      by (subst locator_loop.simps) (cases "chain_at v (bi_nHeight b) = Some p"; simp add: Let_def h_def s'_def)
    moreover have "descends st p (q # qs)"
      using descends_Cons [OF assms(1) less.prems(1) q(1) _ qs(2)] q(2,3) h(2) less.prems(1) by (simp add: height_of_def)
    ultimately show ?thesis using qs(1) hash by (intro exI [of _ "q # qs"]) simp
  qed
qed

section \<open>Block times\<close>

text \<open>The times of an entry and of the entries before it.\<close>

definition times_window :: "(CBlockIndex \<Rightarrow> int list) \<Rightarrow> block_store \<Rightarrow> nat \<Rightarrow> nat \<Rightarrow> int set" where
  "times_window f st n p = (\<Union>i < n. case steps_back st i p of None \<Rightarrow> {} | Some q \<Rightarrow> (case st q of None \<Rightarrow> {} | Some b \<Rightarrow> set (f b)))"

lemma times_window_Suc:
  assumes "st p = Some b"
  shows "times_window f st (Suc n) p = set (f b) \<union> (case pprev b of None \<Rightarrow> {} | Some q \<Rightarrow> times_window f st n q)"
proof -
  have "times_window f st (Suc n) p = set (f b) \<union> (\<Union>i < n. case steps_back st (Suc i) p of None \<Rightarrow> {}
      | Some q \<Rightarrow> (case st q of None \<Rightarrow> {} | Some b \<Rightarrow> set (f b)))"
    using assms by (simp add: times_window_def lessThan_Suc_eq_insert_0 image_image)
  then show ?thesis using assms by (cases "pprev b") (simp_all add: times_window_def)
qed

lemma times_back_window:
  "index_ok st \<Longrightarrow> st p = Some b \<Longrightarrow> \<exists>ts. times_back f st n (Some p) = Inr ts \<and> set ts = times_window f st n p"
proof (induction n arbitrary: p b)
  case (Suc n)
  have d: "deref st p = Inr b" using Suc.prems(2) by (simp add: deref_def)
  show ?case
  proof (cases "pprev b")
    case None
    then show ?thesis using d times_window_Suc [of st p b f n] Suc.prems(2) by (cases n) auto
  next
    case (Some q)
    then obtain bq where "st q = Some bq" using index_okD(2) [OF Suc.prems] by blast
    then obtain ts where "times_back f st n (Some q) = Inr ts" "set ts = times_window f st n q" using Suc.IH [OF Suc.prems(1)] by blast
    then show ?thesis using d Some times_window_Suc [of st p b f n] Suc.prems(2) by auto
  qed
qed (simp add: times_window_def)

lemma sort_first_Min: "ts \<noteq> [] \<Longrightarrow> vec_index (sort ts) 0 = Inr (Min (set ts))" for ts :: "int list"
proof -
  assume "ts \<noteq> []"
  then have "sort ts \<noteq> []" by (metis set_empty set_sort)
  then obtain a xs where xs: "sort ts = a # xs" by (cases "sort ts") auto
  then have "set ts = insert a (set xs)" "\<forall>x \<in> set xs. a \<le> x"
    by (metis list.simps(15) set_sort, metis sorted_sort sorted_simps(2))
  then have "Min (set ts) = a" by (intro Min_eqI) auto
  then show ?thesis using xs by (simp add: vec_index_def)
qed

lemma first_of_window:
  assumes "index_ok st" "st p = Some b" "0 < n" "\<And>x. f x \<noteq> []"
  shows "\<exists>ts. times_back f st n (Some p) = Inr ts \<and> vec_index (sort ts) 0 = Inr (Min (times_window f st n p))"
proof -
  obtain ts where ts: "times_back f st n (Some p) = Inr ts" "set ts = times_window f st n p"
    using times_back_window [OF assms(1,2)] by blast
  obtain m where "n = Suc m" using assms(3) by (cases n) auto
  then have "ts \<noteq> []" using ts(2) times_window_Suc [of st p b f m] assms(2,4) by auto
  then show ?thesis using ts sort_first_Min [of ts] by simp
qed

section \<open>Work\<close>

lemma compact_target_bound: "SetCompact c = (t, neg, ovf) \<Longrightarrow> \<not> ovf \<Longrightarrow> limbs_nat t + 1 < 2 ^ 256"
proof -
  assume a: "SetCompact c = (t, neg, ovf)" "\<not> ovf"
  define S where "S = unat c div 2 ^ 24"
  define N where "N = compact_nat S (unat c mod 2 ^ 23)"
  have v: "limbs_nat t = N" "N < 2 ^ 256" using SetCompact_value [OF a(1)] a(2) by (simp_all add: N_def S_def)
  show ?thesis
  proof (cases "S \<le> 3")
    case True
    then have "N \<le> unat c mod 2 ^ 23" by (simp add: N_def compact_nat_small)
    moreover have "unat c mod 2 ^ 23 < 2 ^ 23" by simp
    ultimately show ?thesis using v(1) by simp
  next
    case False
    then have "even N" by (simp add: N_def compact_nat_large)
    then have "N \<noteq> 2 ^ 256 - 1" by auto
    then show ?thesis using v by simp
  qed
qed

lemma work_identity: "(2 ^ 256 - 1 - t) div (t + 1) + 1 = 2 ^ 256 div (t + 1)" if "t < 2 ^ 256" for t :: nat
proof -
  have "2 ^ 256 div (t + 1) = ((2 ^ 256 - 1 - t) + (t + 1)) div (t + 1)" using that by simp
  then show ?thesis by (simp only: div_add_self2 add_eq_0_iff_both_eq_0 one_neq_zero simp_thms Suc_eq_plus1)
qed

lemma EqualTo_zero:
  assumes "wf_uint t"
  shows "EqualTo t 0 \<longleftrightarrow> limbs_nat t = 0"
proof -
  obtain a b r where t: "t = a # b # r" using assms by (auto simp: wf_uint_def WIDTH_def length_Suc_conv numeral_eq_Suc)
  have zero: "limbs_nat r = 0 \<longleftrightarrow> list_all (\<lambda>p. p = 0) r" for r by (induction r) (auto simp: unat_eq_zero)
  have "ucast (ucast (w :: u32) :: u64) = w" for w by (rule bit_word_eqI) (auto simp: bit_simps)
  then have "ucast (w :: u32) = (0 :: u64) \<longleftrightarrow> w = 0" for w by (metis unsigned_0)
  then show ?thesis using zero [of r] by (auto simp: t EqualTo_def unat_eq_zero)
qed

lemma uint_not_value:
  assumes "wf_uint t"
  shows "wf_uint (uint_not t)" "limbs_nat (uint_not t) = 2 ^ 256 - 1 - limbs_nat t"
proof -
  show wf: "wf_uint (uint_not t)" by (rule not_refines(1) [OF assms])
  have "NOT (uint_word t) = - 1 - uint_word t" by (simp add: not_eq_complement)
  then have "unat (NOT (uint_word t)) = unat (- 1 :: uint256) - unat (uint_word t)"
    using unat_sub [of "uint_word t" "- 1"] by (simp add: word_order.extremum)
  then have "unat (NOT (uint_word t)) = 2 ^ 256 - 1 - unat (uint_word t)" by (simp add: unsigned_minus_1_eq_mask mask_eq_exp_minus_1)
  then show "limbs_nat (uint_not t) = 2 ^ 256 - 1 - limbs_nat t"
    using unat_uint_word [OF wf] unat_uint_word [OF assms] not_refines(2) [OF assms] by simp
qed

lemma uint_add_one:
  assumes "wf_uint t" "limbs_nat t + 1 < 2 ^ 256"
  shows "wf_uint (uint_add t (base_uint_of 1))" "limbs_nat (uint_add t (base_uint_of 1)) = limbs_nat t + 1"
proof -
  show wf: "wf_uint (uint_add t (base_uint_of 1))" by (rule add_refines.wf [OF assms(1) base_uint_of_value(1)])
  have "limbs_nat (base_uint_of 1) = 1" using base_uint_of_value(2) [of 1] by simp
  then have one: "uint_word (base_uint_of 1) = 1" by (simp add: uint_word_def)
  have "unat (uint_word t + 1) = unat (uint_word t) + 1"
    using unat_uint_word [OF assms(1)] assms(2) unat_add_lem [of "uint_word t" 1] by simp
  then show "limbs_nat (uint_add t (base_uint_of 1)) = limbs_nat t + 1"
    using unat_uint_word [OF wf] unat_uint_word [OF assms(1)] add_refines.abs [OF assms(1) base_uint_of_value(1), of 1] one by simp
qed

section \<open>Properties\<close>

definition example_entry :: "nat option \<Rightarrow> int \<Rightarrow> CBlockIndex" where
  "example_entry prev h = \<lparr>hashBlock = word_of_int (h + 100), pprev = prev, pskip = None, bi_nHeight = h,
     nVersionPoW2Witness = 0, nTimePoW2Witness = 0, bi_nVersion = 0x20000001, bi_nTime = word_of_int (1000 + 150 * h), bi_nBits = 0x1d00ffff, nChainWork = base_uint_of 0, nTimeMax = 0\<rparr>"

definition example_store :: block_store where
  "example_store = [0 \<mapsto> example_entry None 0, 1 \<mapsto> example_entry (Some 0) 1, 2 \<mapsto> example_entry (Some 1) 2]"

lemma example_store_at [simp]:
  "example_store 0 = Some (example_entry None 0)" "example_store (Suc 0) = Some (example_entry (Some 0) 1)"
  "example_store 2 = Some (example_entry (Some 1) 2)" "example_store 3 = None"
  by (simp_all add: example_store_def)

lemma example_entry_simps [simp]:
  "pprev (example_entry q h) = q" "pskip (example_entry q h) = None" "bi_nHeight (example_entry q h) = h"
  "nTimePoW2Witness (example_entry q h) = 0"
  by (simp_all add: example_entry_def)

lemma example_store_ok: "index_ok example_store" "chain_ok example_store []"
  "connected example_store 0" "connected example_store 1" "connected example_store 2"
proof -
  have "example_store p = Some b \<Longrightarrow> p = 0 \<and> b = example_entry None 0 \<or> p = 1 \<and> b = example_entry (Some 0) 1 \<or> p = 2 \<and> b = example_entry (Some 1) 2" for p b
    by (auto simp: example_store_def split: if_splits)
  then show "index_ok example_store" unfolding index_ok_def entry_linked_def by fastforce
qed (simp_all add: chain_ok_def connected_def numeral_2_eq_2 [symmetric], simp_all add: numeral_2_eq_2 example_store_def)

text \<open>
  C18. The skip list is correct. Linking a new block to the index, as is done for every header received,
  succeeds and keeps the index well formed, whatever its heights; and on every well-formed index
  \<^verbatim>\<open>GetAncestor\<close>, which follows skip pointers where it can, returns the block that the same number
  of single steps to the predecessor leads to, and null for a height outside the chain of the block.
\<close>

theorem skip_list_correct:
  assumes "index_ok st" "st p = None" "pprev b = None" "pskip b = None" "bi_nHeight b = 0" "st q = Some bq"
  shows "\<exists>b'. link_block st p b (Some q) = Inr (st(p \<mapsto> b')) \<and> index_ok (st(p \<mapsto> b')) \<and>
    pprev b' = Some q \<and> bi_nHeight b' = bi_nHeight bq + 1 \<and>
    GetAncestor (st(p \<mapsto> b')) p h =
      Inr (if 0 \<le> h \<and> h \<le> bi_nHeight b' then steps_back (st(p \<mapsto> b')) (nat (bi_nHeight b' - h)) p else None)"
proof -
  obtain b' where b': "link_block st p b (Some q) = Inr (st(p \<mapsto> b'))" "index_ok (st(p \<mapsto> b'))" "pprev b' = Some q"
    "bi_nHeight b' = bi_nHeight bq + 1"
    using link_block_ok [OF assms(1-5), of "Some q"] assms(6) by auto
  then show ?thesis using GetAncestor_back [OF b'(2), of p b' h] by auto
qed

theorem skip_list_correct_witness:
  "\<exists>b'. link_block example_store 3 (example_entry None 0) (Some 2) = Inr (example_store(3 \<mapsto> b')) \<and>
    index_ok (example_store(3 \<mapsto> b')) \<and> pprev b' = Some 2 \<and> bi_nHeight b' = bi_nHeight (example_entry (Some 1) 2) + 1 \<and>
    GetAncestor (example_store(3 \<mapsto> b')) 3 1 =
      Inr (if 0 \<le> (1 :: int) \<and> 1 \<le> bi_nHeight b' then steps_back (example_store(3 \<mapsto> b')) (nat (bi_nHeight b' - 1)) 3 else None)"
  by (rule skip_list_correct) (simp_all add: example_store_ok)

text \<open>
  C19. The loops over the links of the index end. Setting the tip of the active chain to any block that is
  connected to a block of height zero ends without an exception, also when it stops early at a block
  that is in the vector already, and leaves exactly the ancestors of the tip in the vector, each at its
  height; and the locator of such a block, of fewer than 2 to the 30 predecessors, is a list of ancestors of
  strictly decreasing height that ends with the block of height zero.
\<close>

theorem chain_loops_end:
  assumes "index_ok st" "chain_ok st v" "st p = Some b" "connected st p" "bi_nHeight b < 2 ^ 30"
  shows "\<exists>v' qs. SetTip st v (Some p) = Some (Inr v') \<and> chain_ok st v' \<and> chain_of st v' p \<and>
    GetLocatorPoW2 st v (Some p) = Some (Inr (map (hash_of st) (p # qs))) \<and> descends st p qs"
proof -
  have h: "0 \<le> bi_nHeight b" by (rule index_okD(1) [OF assms(1,3)])
  obtain v' where v': "SetTip st v (Some p) = Some (Inr v')" "int (length v') = bi_nHeight b + 1" "chain_ok st v'"
    "\<forall>j. int j \<le> bi_nHeight b \<longrightarrow> v' ! j = steps_back st (nat (bi_nHeight b) - j) p"
    using SetTip_chain [OF assms(1-4)] by blast
  have "length v' - 1 = nat (bi_nHeight b)" using v'(2) by simp
  moreover have "int j \<le> bi_nHeight b" if "j < length v'" for j using that v'(2) by simp
  ultimately have "chain_of st v' p" using v'(2,4) assms(3) by (simp add: chain_of_def)
  moreover obtain qs where "locator_loop st v 1 [] (Some p) = Some (Inr ([] @ map (hash_of st) (p # qs)))" "descends st p qs"
    using locator_loop_descends [OF assms(1,2,3) _ assms(4), of "nat (bi_nHeight b)" 1 0 "[]"] h assms(5) by auto
  ultimately show ?thesis using v'(1,3) by (auto simp: GetLocatorPoW2_def)
qed

theorem chain_loops_end_witness:
  "\<exists>v' qs. SetTip example_store [] (Some 2) = Some (Inr v') \<and> chain_ok example_store v' \<and> chain_of example_store v' 2 \<and>
    GetLocatorPoW2 example_store [] (Some 2) = Some (Inr (map (hash_of example_store) (2 # qs))) \<and> descends example_store 2 qs"
  by (rule chain_loops_end [OF example_store_ok(1,2) example_store_at(3) example_store_ok(5)]) simp

text \<open>
  C20. Both searches for a fork point return the highest common ancestor: \<^verbatim>\<open>FindFork\<close> the highest
  ancestor of a block in the active chain, whatever the heights of the two, and
  \<^verbatim>\<open>LastCommonAncestor\<close> that of two blocks. They return null exactly when there is none, and the
  assertion of \<^verbatim>\<open>LastCommonAncestor\<close> holds for connected blocks.
\<close>

theorem fork_points:
  assumes "index_ok st" "chain_of st v t" "connected st t" "connected st p"
  shows "\<exists>r r'. FindFork st v (Some p) = Some (Inr r) \<and> highest st p (\<lambda>q. ancestor st q t) r \<and>
    LastCommonAncestor st p t = Some (Inr r') \<and> highest st p (\<lambda>q. ancestor st q t) r'"
proof -
  obtain b where "st p = Some b" using assms(4) by (auto simp: connected_def split: option.splits)
  then show ?thesis using FindFork_highest [OF assms(1,2)] LastCommonAncestor_highest [OF assms(1,4,3)] by blast
qed

theorem fork_points_witness:
  "\<exists>r r'. FindFork example_store [Some 0, Some 1] (Some 2) = Some (Inr r) \<and> highest example_store 2 (\<lambda>q. ancestor example_store q 1) r \<and>
    LastCommonAncestor example_store 2 1 = Some (Inr r') \<and> highest example_store 2 (\<lambda>q. ancestor example_store q 1) r'"
proof (rule fork_points [OF example_store_ok(1) _ example_store_ok(4,5)])
  have "[Some 0, Some 1] ! j = steps_back example_store (1 - j) 1" if "j < 2" for j :: nat
    using that by (cases "j = 0") (auto simp: less_2_cases_iff)
  then show "chain_of example_store [Some 0, Some 1] 1" by (simp add: chain_of_def)
qed

text \<open>
  C22. The three functions that are to return the median time past return the minimum instead: the test
  for too few blocks compares the negated number of collected times with the span and is always true, so
  the smallest of the times of the last 3 or 11 blocks is returned however many blocks there are.
\<close>

theorem median_time_is_minimum:
  assumes "index_ok st" "st p = Some b"
  shows "GetMedianTimePast params st p =
      Inr (Min (times_window (\<lambda>b. if nTimePoW2Witness (the (st p)) \<noteq> 0 then [GetBlockTime b, GetBlockTimePoW2Witness b] else [GetBlockTime b])
             st (median_span params b) p)) \<and>
    GetMedianTimePastPoW params st p = Inr (Min (times_window (\<lambda>b. [GetBlockTime b]) st (median_span params b) p)) \<and>
    GetMedianTimePastWitness params st p = Inr (Min (times_window (\<lambda>b. [GetBlockTimePoW2Witness b]) st (median_span params b) p))"
proof -
  have pos: "0 < median_span params b" by (simp add: median_span_def)
  have d: "deref st p = Inr b" using assms(2) by (simp add: deref_def)
  obtain ts where ts: "times_back (\<lambda>b. [GetBlockTime b, GetBlockTimePoW2Witness b]) st (median_span params b) (Some p) = Inr ts"
    "vec_index (sort ts) 0 = Inr (Min (times_window (\<lambda>b. [GetBlockTime b, GetBlockTimePoW2Witness b]) st (median_span params b) p))"
    using first_of_window [OF assms pos, of "\<lambda>b. [GetBlockTime b, GetBlockTimePoW2Witness b]"] by auto
  obtain us where us: "times_back (\<lambda>b. [GetBlockTime b]) st (median_span params b) (Some p) = Inr us"
    "vec_index (sort us) 0 = Inr (Min (times_window (\<lambda>b. [GetBlockTime b]) st (median_span params b) p))"
    using first_of_window [OF assms pos, of "\<lambda>b. [GetBlockTime b]"] by auto
  obtain ws where ws: "times_back (\<lambda>b. [GetBlockTimePoW2Witness b]) st (median_span params b) (Some p) = Inr ws"
    "vec_index (sort ws) 0 = Inr (Min (times_window (\<lambda>b. [GetBlockTimePoW2Witness b]) st (median_span params b) p))"
    using first_of_window [OF assms pos, of "\<lambda>b. [GetBlockTimePoW2Witness b]"] by auto
  have neg: "- int n < int (m * 2)" "- int n < int m" if "0 < m" for n m using that by linarith+
  show ?thesis
    using d ts us ws assms(2) neg [OF pos]
    by (cases "nTimePoW2Witness b = 0")
      (simp_all add: GetMedianTimePast_def GetMedianTimePastPoW_def GetMedianTimePastWitness_def Let_def)
qed

definition example_net :: chain_params where
  "example_net = \<lparr>fIsOfficialTestnetV1 = False, fIsTestnet = True, nPowTargetSpacing = 150, pow2Phase2FirstBlockHeight = 0,
     pow2Phase3FirstBlockHeight = 0, pow2Phase4FirstBlockHeight = 0, pow2Phase5FirstBlockHeight = 0, pow2WitnessSyncHeight = 0\<rparr>"

theorem median_time_is_minimum_witness:
  "GetMedianTimePastPoW example_net example_store 2 = Inr 1000 \<and>
   times_window (\<lambda>b. [GetBlockTime b]) example_store 3 2 = {1000, 1150, 1300}"
proof -
  let ?f = "\<lambda>b. [GetBlockTime b]"
  have t: "GetBlockTime (example_entry q 0) = 1000" "GetBlockTime (example_entry q 1) = 1150" "GetBlockTime (example_entry q 2) = 1300" for q
    by (simp_all add: GetBlockTime_def example_entry_def)
  have "times_window ?f example_store (Suc 0) 0 = {1000}" by (simp add: times_window_def t lessThan_Suc)
  then have "times_window ?f example_store (Suc (Suc 0)) (Suc 0) = {1000, 1150}"
    using times_window_Suc [where st = example_store and p = "Suc 0" and f = ?f and n = "Suc 0", OF example_store_at(2)] t by auto
  then have w: "times_window ?f example_store 3 2 = {1000, 1150, 1300}"
    using times_window_Suc [where st = example_store and p = 2 and f = ?f and n = "Suc (Suc 0)", OF example_store_at(3)] t by (auto simp: numeral_3_eq_3)
  then show ?thesis
    using median_time_is_minimum [OF example_store_ok(1) example_store_at(3), of example_net]
    by (simp add: median_span_def example_net_def)
qed

text \<open>
  \<^verbatim>\<open>GetBlockProof\<close> computes the expected number of hashes exactly: for a valid compact target t
  it returns 2 to the 256 divided by t + 1, rounded down, although the dividend does not fit the integer
  type; for a negative, overflowing or zero target it returns 0. It never divides by zero.
\<close>

theorem GetBlockProof_exact:
  "case SetCompact (bi_nBits block) of (t, neg, ovf) \<Rightarrow>
     \<exists>q. GetBlockProof block = Inr q \<and> wf_uint q \<and>
       limbs_nat q = (if neg \<or> ovf \<or> limbs_nat t = 0 then 0 else 2 ^ 256 div (limbs_nat t + 1))"
proof -
  obtain t neg ovf where c: "SetCompact (bi_nBits block) = (t, neg, ovf)" by (cases "SetCompact (bi_nBits block)")
  have t: "wf_uint t" using SetCompact_value [OF c] by blast
  show ?thesis
  proof (cases "neg \<or> ovf \<or> limbs_nat t = 0")
    case True
    then show ?thesis using c EqualTo_zero [OF t] base_uint_of_value [of 0] by (auto simp: GetBlockProof_def)
  next
    case False
    let ?t = "limbs_nat t"
    have le: "?t + 1 < 2 ^ 256" using compact_target_bound [OF c] False by blast
    have nt: "wf_uint (uint_not t)" "limbs_nat (uint_not t) = 2 ^ 256 - 1 - ?t" by (rule uint_not_value [OF t])+
    have d: "wf_uint (uint_add t (base_uint_of 1))" "limbs_nat (uint_add t (base_uint_of 1)) = ?t + 1"
      using uint_add_one [OF t le] by auto
    obtain q where q: "uint_div (uint_not t) (uint_add t (base_uint_of 1)) = Inr q" "wf_uint q"
      "limbs_nat q = (2 ^ 256 - 1 - ?t) div (?t + 1)"
      using uint_div_value(2) [OF nt(1) d(1)] d(2) nt(2) by auto
    have w: "limbs_nat q + 1 = 2 ^ 256 div (?t + 1)" using work_identity [of ?t] le q(3) by simp
    have "2 ^ 256 div (?t + 1) \<le> 2 ^ 256 div 2" using False by (intro div_le_mono2) auto
    then have "limbs_nat q + 1 < 2 ^ 256" using w by simp
    then show ?thesis using c False q uint_add_one [OF q(2)] w EqualTo_zero [OF t] by (simp add: GetBlockProof_def)
  qed
qed

end
