(* ===== verification/Coins.thy ===== *)
theory Coins
  imports Witness_Util Tx_Serialize
begin

text \<open>
  The coin cache of \<^verbatim>\<open>src/src/coins.h\<close> and \<^verbatim>\<open>coins.cpp\<close>. A cache keeps the
  entries it has read or changed in a map, and beside it a map from index-based outpoints to the
  hash-based ones. The view it is built on is a function from outpoints to coins. The keys of the maps are
  the values by which \<^verbatim>\<open>operator==\<close> of \<^verbatim>\<open>COutPoint\<close> compares; an iterator is
  its key. The memory accounting and the checks of debug builds are left out.
\<close>

section \<open>Coins\<close>

record Coin =
  coin_out :: CTxOut
  fCoinBase :: bool
  fSegSig :: bool
  coin_nHeight :: "30 word"
  nTxIndex :: u32

definition coinEmpty :: Coin where
  "coinEmpty = \<lparr>coin_out = \<lparr>nValue = - 1, txout = ScriptLegacyOutput []\<rparr>, fCoinBase = False, fSegSig = False,
                coin_nHeight = 0, nTxIndex = 0\<rparr>"

definition Coin_new :: "CTxOut \<Rightarrow> u32 \<Rightarrow> u32 \<Rightarrow> bool \<Rightarrow> bool \<Rightarrow> Coin" where
  "Coin_new outIn nHeightIn nTxIndexIn fCoinBaseIn fSegSigIn =
     \<lparr>coin_out = outIn, fCoinBase = fCoinBaseIn, fSegSig = fSegSigIn, coin_nHeight = ucast nHeightIn, nTxIndex = nTxIndexIn\<rparr>"

definition coin_Clear :: "Coin \<Rightarrow> Coin" where
  "coin_Clear c = \<lparr>coin_out = txout_SetNull (coin_out c), fCoinBase = False, fSegSig = False, coin_nHeight = 0, nTxIndex = 0\<rparr>"

definition coin_IsSpent :: "Coin \<Rightarrow> bool" where
  "coin_IsSpent c \<longleftrightarrow> txout_IsNull (coin_out c)"

definition coin_Spend :: "Coin \<Rightarrow> Coin" where
  "coin_Spend c = c\<lparr>coin_out := txout_SetNull (coin_out c)\<rparr>"

section \<open>The cache\<close>

datatype okey = HashOut uint256 "31 word" | IndexOut u64 u64 "31 word"

definition okey_of :: "COutPoint \<Rightarrow> okey" where
  "okey_of out =
     (if isHash out then HashOut (o_hash out) (o_n out)
      else IndexOut (prevBlock_blockNumber out) (prevBlock_transactionIndex out) (o_n out))"

fun okey_n :: "okey \<Rightarrow> 31 word" where
  "okey_n (HashOut h n) = n"
| "okey_n (IndexOut b t n) = n"

text \<open>\<^verbatim>\<open>getTransactionHash\<close>: it asserts that the outpoint is hash-based.\<close>

fun okey_hash :: "okey \<Rightarrow> cpp_exn + uint256" where
  "okey_hash (HashOut h n) = Inr h"
| "okey_hash (IndexOut b t n) = Inl AssertFail"

fun is_HashOut :: "okey \<Rightarrow> bool" where
  "is_HashOut (HashOut h n) = True"
| "is_HashOut (IndexOut b t n) = False"

definition null_okey :: okey where
  "null_okey = HashOut 0 UINT31_MAX"

record CCoinsCacheEntry =
  e_coin :: Coin
  e_dirty :: bool
  e_fresh :: bool

definition empty_entry :: CCoinsCacheEntry where
  "empty_entry = \<lparr>e_coin = coinEmpty, e_dirty = False, e_fresh = False\<rparr>"

type_synonym coins_view = "okey \<Rightarrow> (Coin \<times> okey) option"

record coins_cache =
  cc_hashBlock :: uint256
  cacheCoins :: "okey \<rightharpoonup> CCoinsCacheEntry"
  cacheCoinRefs :: "okey \<rightharpoonup> okey"

definition CCoinsViewCache :: coins_cache where
  "CCoinsViewCache = \<lparr>cc_hashBlock = 0, cacheCoins = Map.empty, cacheCoinRefs = Map.empty\<rparr>"

definition MEMPOOL_HEIGHT :: "30 word" where
  "MEMPOOL_HEIGHT = 1073741823"
definition MEMPOOL_INDEX :: u32 where
  "MEMPOOL_INDEX = 4294967295"

definition in_mempool :: "Coin \<Rightarrow> bool" where
  "in_mempool c \<longleftrightarrow> coin_nHeight c = MEMPOOL_HEIGHT \<and> nTxIndex c = MEMPOOL_INDEX"

text \<open>\<^verbatim>\<open>COutPoint(coin.nHeight, coin.nTxIndex, n)\<close>.\<close>

definition index_key :: "Coin \<Rightarrow> 31 word \<Rightarrow> okey" where
  "index_key c n = IndexOut (ucast (coin_nHeight c)) (ucast (nTxIndex c)) n"

text \<open>The part of \<^verbatim>\<open>FetchCoin\<close> that asks the base view and copies the coin into the cache.
  The insertion leaves an entry that is there already, but the flags are set on it all the same.\<close>

definition fetch_base :: "coins_view \<Rightarrow> okey \<Rightarrow> coins_cache \<Rightarrow> cpp_exn + coins_cache \<times> (okey \<times> okey option) option" where
  "fetch_base base outpoint c =
     (case base outpoint of
        None \<Rightarrow> Inr (c, None)
      | Some (tmp, ins) \<Rightarrow>
          if \<not> is_HashOut ins then Inl AssertFail
          else
            let ref = index_key tmp (okey_n ins);
                refs = (if in_mempool tmp then cacheCoinRefs c else (cacheCoinRefs c)(ref \<mapsto> ins));
                entry = (case cacheCoins c ins of Some e \<Rightarrow> e | None \<Rightarrow> empty_entry\<lparr>e_coin := tmp\<rparr>);
                entry = (if coin_IsSpent (e_coin entry) then entry\<lparr>e_dirty := False, e_fresh := True\<rparr> else entry)
            in Inr (c\<lparr>cacheCoins := (cacheCoins c)(ins \<mapsto> entry), cacheCoinRefs := refs\<rparr>,
                    Some (ins, if in_mempool tmp then None else Some ref)))"

definition FetchCoin :: "coins_view \<Rightarrow> bool \<Rightarrow> okey \<Rightarrow> coins_cache \<Rightarrow> cpp_exn + coins_cache \<times> (okey \<times> okey option) option" where
  "FetchCoin base wantRef outpoint c =
     (case outpoint of
        HashOut h n \<Rightarrow>
          (case cacheCoins c outpoint of
             Some e \<Rightarrow>
               if wantRef \<and> \<not> in_mempool (e_coin e)
               then if cacheCoinRefs c (index_key (e_coin e) n) = None then Inl AssertFail
                    else Inr (c, Some (outpoint, Some (index_key (e_coin e) n)))
               else Inr (c, Some (outpoint, None))
           | None \<Rightarrow> fetch_base base outpoint c)
      | IndexOut b t n \<Rightarrow>
          if b = ucast MEMPOOL_HEIGHT \<and> t = ucast MEMPOOL_INDEX then Inl AssertFail
          else case cacheCoinRefs c outpoint of
                 Some k \<Rightarrow> if cacheCoins c k = None then Inl AssertFail else Inr (c, Some (k, Some outpoint))
               | None \<Rightarrow> fetch_base base outpoint c)"

definition cached_coin :: "coins_cache \<Rightarrow> okey \<Rightarrow> Coin" where
  "cached_coin c k = (case cacheCoins c k of Some e \<Rightarrow> e_coin e | None \<Rightarrow> coinEmpty)"

definition GetCoin :: "coins_view \<Rightarrow> okey \<Rightarrow> coins_cache \<Rightarrow> cpp_exn + coins_cache \<times> (Coin \<times> okey) option" where
  "GetCoin base outpoint c =
     bind_e (FetchCoin base False outpoint c) (\<lambda>(c, r).
     Inr (c, map_option (\<lambda>(k, _). (cached_coin c k, k)) r))"

definition AccessCoin :: "coins_view \<Rightarrow> okey \<Rightarrow> coins_cache \<Rightarrow> cpp_exn + coins_cache \<times> Coin" where
  "AccessCoin base outpoint c =
     bind_e (FetchCoin base False outpoint c) (\<lambda>(c, r).
     Inr (c, case r of None \<Rightarrow> coinEmpty | Some (k, _) \<Rightarrow> cached_coin c k))"

definition HaveCoin :: "coins_view \<Rightarrow> okey \<Rightarrow> coins_cache \<Rightarrow> cpp_exn + coins_cache \<times> bool" where
  "HaveCoin base outpoint c =
     bind_e (FetchCoin base False outpoint c) (\<lambda>(c, r).
     Inr (c, case r of None \<Rightarrow> False | Some (k, _) \<Rightarrow> \<not> coin_IsSpent (cached_coin c k)))"

definition HaveCoinInCache :: "okey \<Rightarrow> coins_cache \<Rightarrow> bool" where
  "HaveCoinInCache outpoint c \<longleftrightarrow> cacheCoins c outpoint \<noteq> None"

definition cache_GetBestBlock :: "uint256 \<Rightarrow> coins_cache \<Rightarrow> coins_cache \<times> uint256" where
  "cache_GetBestBlock baseBest c =
     (let c = (if cc_hashBlock c = 0 then c\<lparr>cc_hashBlock := baseBest\<rparr> else c) in (c, cc_hashBlock c))"

definition cache_SetBestBlock :: "uint256 \<Rightarrow> coins_cache \<Rightarrow> coins_cache" where
  "cache_SetBestBlock h c = c\<lparr>cc_hashBlock := h\<rparr>"

text \<open>\<^verbatim>\<open>AddCoin\<close>, with the exception for replacing an unspent coin.\<close>

definition drop_own_ref :: "okey \<Rightarrow> coins_cache \<Rightarrow> cpp_exn + (okey \<rightharpoonup> okey)" where
  "drop_own_ref outpoint c =
     (case cacheCoins c outpoint of
        None \<Rightarrow> Inr (cacheCoinRefs c)
      | Some e \<Rightarrow>
          let i = index_key (e_coin e) (okey_n outpoint) in
          (case cacheCoinRefs c i of
             None \<Rightarrow> Inr (cacheCoinRefs c)
           | Some k \<Rightarrow>
               bind_e (okey_hash k) (\<lambda>h1. bind_e (okey_hash outpoint) (\<lambda>h2.
               Inr (if h1 = h2 then (cacheCoinRefs c)(i := None) else cacheCoinRefs c)))))"

definition AddCoin :: "okey \<Rightarrow> Coin \<Rightarrow> bool \<Rightarrow> coins_cache \<Rightarrow> cpp_exn + coins_cache" where
  "AddCoin outpoint coin possible_overwrite c =
     (if coin_IsSpent coin then Inl AssertFail
      else if txout_IsUnspendable (coin_out coin) then Inr c
      else if \<not> is_HashOut outpoint then Inl AssertFail
      else
        bind_e (drop_own_ref outpoint c) (\<lambda>refs.
        let refs = (if in_mempool coin then refs else refs(index_key coin (okey_n outpoint) \<mapsto> outpoint));
            entry = (case cacheCoins c outpoint of None \<Rightarrow> empty_entry | Some e \<Rightarrow> e) in
        if \<not> possible_overwrite \<and> \<not> coin_IsSpent (e_coin entry) then Inl RuntimeError
        else
          let fresh = (\<not> possible_overwrite \<and> \<not> e_dirty entry);
              entry = \<lparr>e_coin = coin, e_dirty = True, e_fresh = e_fresh entry \<or> fresh\<rparr>
          in Inr (c\<lparr>cacheCoins := (cacheCoins c)(outpoint \<mapsto> entry), cacheCoinRefs := refs\<rparr>)))"

text \<open>\<^verbatim>\<open>SpendCoin\<close> returns the coin it removed with the hash of its outpoint.\<close>

definition SpendCoin :: "coins_view \<Rightarrow> okey \<Rightarrow> bool \<Rightarrow> coins_cache \<Rightarrow> cpp_exn + coins_cache \<times> (Coin \<times> uint256) option" where
  "SpendCoin base outpoint nodeletefresh c =
     bind_e (FetchCoin base True outpoint c) (\<lambda>(c, r).
     case r of
       None \<Rightarrow> Inr (c, None)
     | Some (k, ref) \<Rightarrow>
         let entry = (case cacheCoins c k of Some e \<Rightarrow> e | None \<Rightarrow> empty_entry) in
         if \<not> in_mempool (e_coin entry) \<and> ref = None then Inl AssertFail
         else
           bind_e (okey_hash k) (\<lambda>hash.
           let moveout = Some (e_coin entry, hash) in
           if \<not> nodeletefresh \<and> e_fresh entry then
             let refs = (case ref of
                           None \<Rightarrow> cacheCoinRefs c
                         | Some r \<Rightarrow>
                             if \<not> is_HashOut outpoint \<or> cacheCoinRefs c r = Some outpoint
                             then (cacheCoinRefs c)(r := None) else cacheCoinRefs c)
             in Inr (c\<lparr>cacheCoins := (cacheCoins c)(k := None), cacheCoinRefs := refs\<rparr>, moveout)
           else
             Inr (c\<lparr>cacheCoins := (cacheCoins c)(k \<mapsto> \<lparr>e_coin = coin_Spend (e_coin entry), e_dirty = True, e_fresh = e_fresh entry\<rparr>)\<rparr>,
                  moveout)))"

definition Uncache :: "okey \<Rightarrow> coins_cache \<Rightarrow> coins_cache" where
  "Uncache hash c =
     (case (if is_HashOut hash then Some hash else cacheCoinRefs c hash) of
        None \<Rightarrow> c
      | Some canonicalHash \<Rightarrow>
          (case cacheCoins c canonicalHash of
             None \<Rightarrow> c
           | Some e \<Rightarrow>
               if \<not> e_dirty e \<and> \<not> e_fresh e then
                 let i = index_key (e_coin e) (okey_n canonicalHash);
                     refs = (if \<not> in_mempool (e_coin e) \<and> cacheCoinRefs c i = Some canonicalHash
                             then (cacheCoinRefs c)(i := None) else cacheCoinRefs c)
                 in c\<lparr>cacheCoins := (cacheCoins c)(canonicalHash := None), cacheCoinRefs := refs\<rparr>
               else c))"

section \<open>Writing a cache to its parent\<close>

text \<open>One entry of the batch: the parent after it, and whether its index entry is to be rewritten.
  \<^verbatim>\<open>cacheCoinRefs[indexed]\<close> creates a null outpoint where there was none.\<close>

definition batch_entry :: "okey \<Rightarrow> CCoinsCacheEntry \<Rightarrow> coins_cache \<Rightarrow> cpp_exn + coins_cache \<times> okey list" where
  "batch_entry k e c =
     (if \<not> e_dirty e then Inr (c, [])
      else case cacheCoins c k of
        None \<Rightarrow>
          if e_fresh e \<and> coin_IsSpent (e_coin e) then Inr (c, [])
          else Inr (c\<lparr>cacheCoins := (cacheCoins c)(k \<mapsto> \<lparr>e_coin = e_coin e, e_dirty = True, e_fresh = e_fresh e\<rparr>)\<rparr>,
                    if in_mempool (e_coin e) then [] else [k])
      | Some us \<Rightarrow>
          if e_fresh e \<and> \<not> coin_IsSpent (e_coin us) then Inl RuntimeError
          else
            let indexed = index_key (e_coin us) (okey_n k) in
            if e_fresh us \<and> coin_IsSpent (e_coin e) then
              let refs = (if \<not> in_mempool (e_coin us) \<and> coin_nHeight (e_coin us) = coin_nHeight (e_coin e) \<and>
                             nTxIndex (e_coin us) = nTxIndex (e_coin e)
                          then (cacheCoinRefs c)(indexed := None) else cacheCoinRefs c)
              in Inr (c\<lparr>cacheCoins := (cacheCoins c)(k := None), cacheCoinRefs := refs\<rparr>, [])
            else
              let ref = (case cacheCoinRefs c indexed of None \<Rightarrow> null_okey | Some r \<Rightarrow> r) in
              bind_e (okey_hash ref) (\<lambda>h1. bind_e (okey_hash k) (\<lambda>h2.
              let refs = (if h1 = h2 then (cacheCoinRefs c)(indexed := None) else (cacheCoinRefs c)(indexed \<mapsto> ref)) in
              Inr (c\<lparr>cacheCoins := (cacheCoins c)(k \<mapsto> us\<lparr>e_coin := e_coin e, e_dirty := True\<rparr>), cacheCoinRefs := refs\<rparr>, [k]))))"

fun batch_entries :: "(okey \<times> CCoinsCacheEntry) list \<Rightarrow> coins_cache \<Rightarrow> cpp_exn + coins_cache \<times> okey list" where
  "batch_entries [] c = Inr (c, [])"
| "batch_entries ((k, e) # rest) c =
     bind_e (batch_entry k e c) (\<lambda>(c, mods).
     bind_e (batch_entries rest c) (\<lambda>(c, mods'). Inr (c, mods @ mods')))"

text \<open>The two loops that rewrite the index entries: the spent coins first, then the unspent ones.
  \<^verbatim>\<open>cacheCoins[iterRefs->second]\<close> creates an empty entry where there was none.\<close>

fun reindex_spent :: "okey list \<Rightarrow> coins_cache \<Rightarrow> coins_cache" where
  "reindex_spent [] c = c"
| "reindex_spent (k # ks) c =
     reindex_spent ks
       (case cacheCoins c k of
          None \<Rightarrow> c
        | Some e \<Rightarrow>
            if coin_IsSpent (e_coin e) then
              let i = index_key (e_coin e) (okey_n k);
                  (keep, c) = (case cacheCoinRefs c i of
                       None \<Rightarrow> (False, c)
                     | Some r \<Rightarrow>
                         (case cacheCoins c r of
                            Some e' \<Rightarrow> (\<not> coin_IsSpent (e_coin e'), c)
                          | None \<Rightarrow> (False, c\<lparr>cacheCoins := (cacheCoins c)(r \<mapsto> empty_entry)\<rparr>)))
              in if keep then c else c\<lparr>cacheCoinRefs := (cacheCoinRefs c)(i \<mapsto> k)\<rparr>
            else c)"

fun reindex_unspent :: "okey list \<Rightarrow> coins_cache \<Rightarrow> coins_cache" where
  "reindex_unspent [] c = c"
| "reindex_unspent (k # ks) c =
     reindex_unspent ks
       (case cacheCoins c k of
          None \<Rightarrow> c
        | Some e \<Rightarrow>
            if \<not> coin_IsSpent (e_coin e)
            then c\<lparr>cacheCoinRefs := (cacheCoinRefs c)(index_key (e_coin e) (okey_n k) \<mapsto> k)\<rparr> else c)"

definition BatchWrite :: "(okey \<times> CCoinsCacheEntry) list \<Rightarrow> uint256 \<Rightarrow> coins_cache \<Rightarrow> cpp_exn + coins_cache" where
  "BatchWrite mapCoins hashBlockIn c =
     bind_e (batch_entries mapCoins c) (\<lambda>(c, modificationMap).
     Inr ((reindex_unspent modificationMap (reindex_spent modificationMap c))\<lparr>cc_hashBlock := hashBlockIn\<rparr>))"

text \<open>\<^verbatim>\<open>Flush\<close> into a parent cache. The entries come in the order in which the hash map
  iterates; they are an argument that lists the map.\<close>

definition lists_map :: "(okey \<times> CCoinsCacheEntry) list \<Rightarrow> (okey \<rightharpoonup> CCoinsCacheEntry) \<Rightarrow> bool" where
  "lists_map xs m \<longleftrightarrow> distinct (map fst xs) \<and> map_of xs = m"

definition Flush :: "(okey \<times> CCoinsCacheEntry) list \<Rightarrow> coins_cache \<Rightarrow> coins_cache \<Rightarrow> cpp_exn + coins_cache \<times> coins_cache" where
  "Flush order child parent =
     bind_e (BatchWrite order (cc_hashBlock child) parent) (\<lambda>parent.
     Inr (child\<lparr>cacheCoins := Map.empty, cacheCoinRefs := Map.empty\<rparr>, parent))"

text \<open>
  A cache with a sibling (\<^verbatim>\<open>pChainedWitView\<close>) that follows the witness coins: every
  change goes to the sibling first, and a coin spent there is never erased, only marked.
\<close>

record chained_cache =
  own_view :: coins_cache
  pChainedWitView :: "coins_cache option"

definition chained_AddCoin :: "okey \<Rightarrow> Coin \<Rightarrow> bool \<Rightarrow> chained_cache \<Rightarrow> cpp_exn + chained_cache" where
  "chained_AddCoin outpoint coin possible_overwrite v =
     bind_e (case pChainedWitView v of
               Some w \<Rightarrow> if IsPow2WitnessOutput (coin_out coin)
                         then bind_e (AddCoin outpoint coin possible_overwrite w) (\<lambda>w. Inr (Some w)) else Inr (Some w)
             | None \<Rightarrow> Inr None) (\<lambda>w.
     bind_e (AddCoin outpoint coin possible_overwrite (own_view v)) (\<lambda>c.
     Inr \<lparr>own_view = c, pChainedWitView = w\<rparr>))"

definition chained_SpendCoin ::
  "coins_view \<Rightarrow> coins_view \<Rightarrow> okey \<Rightarrow> bool \<Rightarrow> chained_cache \<Rightarrow> cpp_exn + chained_cache \<times> (Coin \<times> uint256) option" where
  "chained_SpendCoin base witBase outpoint nodeletefresh v =
     bind_e (case pChainedWitView v of
               Some w \<Rightarrow> bind_e (SpendCoin witBase outpoint True w) (\<lambda>(w, _). Inr (Some w))
             | None \<Rightarrow> Inr None) (\<lambda>w.
     bind_e (SpendCoin base outpoint nodeletefresh (own_view v)) (\<lambda>(c, moveout).
     Inr (\<lparr>own_view = c, pChainedWitView = w\<rparr>, moveout)))"

definition chained_Uncache :: "okey \<Rightarrow> chained_cache \<Rightarrow> chained_cache" where
  "chained_Uncache hash v =
     \<lparr>own_view = Uncache hash (own_view v), pChainedWitView = map_option (Uncache hash) (pChainedWitView v)\<rparr>"

section \<open>Transactions\<close>

fun value_in :: "coins_view \<Rightarrow> CAmount \<Rightarrow> CTxIn list \<Rightarrow> coins_cache \<Rightarrow> cpp_exn + coins_cache \<times> CAmount" where
  "value_in base nResult [] c = Inr (c, nResult)"
| "value_in base nResult (i # ins) c =
     bind_e (AccessCoin base (okey_of (prevout i)) c) (\<lambda>(c, coin).
     let coinAmount = nValue (coin_out coin) in
     value_in base (if coinAmount \<noteq> - 1 then i64 (nResult + coinAmount) else nResult) ins c)"

definition GetValueIn :: "coins_view \<Rightarrow> CTransaction \<Rightarrow> coins_cache \<Rightarrow> cpp_exn + coins_cache \<times> CAmount" where
  "GetValueIn base tx c =
     (if IsCoinBase tx \<and> \<not> IsPoW2WitnessCoinBase tx then Inr (c, 0) else value_in base 0 (vin tx) c)"

fun have_inputs :: "coins_view \<Rightarrow> CTransaction \<Rightarrow> CTxIn list \<Rightarrow> coins_cache \<Rightarrow> cpp_exn + coins_cache \<times> bool" where
  "have_inputs base tx [] c = Inr (c, True)"
| "have_inputs base tx (i # ins) c =
     bind_e (HaveCoin base (okey_of (prevout i)) c) (\<lambda>(c, have).
     if \<not> have \<and> (\<not> IsPoW2WitnessCoinBase tx \<or> \<not> outpoint_IsNull (prevout i)) then Inr (c, False)
     else have_inputs base tx ins c)"

definition HaveInputs :: "coins_view \<Rightarrow> CTransaction \<Rightarrow> coins_cache \<Rightarrow> cpp_exn + coins_cache \<times> bool" where
  "HaveInputs base tx c =
     (if \<not> IsCoinBase tx \<or> IsPoW2WitnessCoinBase tx then have_inputs base tx (vin tx) c else Inr (c, True))"

text \<open>\<^verbatim>\<open>AddCoins\<close>: the outputs of a transaction with its hash.\<close>

fun add_outputs :: "uint256 \<Rightarrow> CTransaction \<Rightarrow> u32 \<Rightarrow> u32 \<Rightarrow> nat \<Rightarrow> CTxOut list \<Rightarrow> coins_cache \<Rightarrow> cpp_exn + coins_cache" where
  "add_outputs txid tx nHeight nTxIdx i [] c = Inr c"
| "add_outputs txid tx nHeight nTxIdx i (out # outs) c =
     bind_e (AddCoin (HashOut txid (word_of_nat i))
               (Coin_new out nHeight nTxIdx (IsCoinBase tx) (\<not> IsOldTransactionVersion (nVersion tx))) (IsCoinBase tx) c)
       (add_outputs txid tx nHeight nTxIdx (i + 1) outs)"

definition AddCoins :: "CTransaction \<Rightarrow> u32 \<Rightarrow> u32 \<Rightarrow> coins_cache \<Rightarrow> cpp_exn + coins_cache" where
  "AddCoins tx nHeight nTxIdx c =
     bind_e (ComputeHash tx) (\<lambda>h. add_outputs (word_of_nat (le_nat h)) tx nHeight nTxIdx 0 (vout tx) c)"

text \<open>\<^verbatim>\<open>UpdateCoins\<close> of \<^verbatim>\<open>validation.cpp\<close>; the undo record is the list of spent coins,
  an empty one where there was none to spend. The cache is one without a sibling view; with one, the additions
  and spends are those of \<open>chained_AddCoin\<close> and \<open>chained_SpendCoin\<close>.\<close>

fun spend_inputs :: "coins_view \<Rightarrow> CTxIn list \<Rightarrow> coins_cache \<Rightarrow> cpp_exn + coins_cache \<times> (Coin \<times> uint256) list" where
  "spend_inputs base [] c = Inr (c, [])"
| "spend_inputs base (i # ins) c =
     (if outpoint_IsNull (prevout i) then spend_inputs base ins c
      else bind_e (SpendCoin base (okey_of (prevout i)) False c) (\<lambda>(c, undo).
           bind_e (spend_inputs base ins c) (\<lambda>(c, undos).
           Inr (c, (case undo of Some u \<Rightarrow> u | None \<Rightarrow> (coinEmpty, 0)) # undos))))"

definition UpdateCoins :: "coins_view \<Rightarrow> CTransaction \<Rightarrow> u32 \<Rightarrow> u32 \<Rightarrow> coins_cache \<Rightarrow> cpp_exn + coins_cache \<times> (Coin \<times> uint256) list" where
  "UpdateCoins base tx nHeight nTxIdx c =
     bind_e (if \<not> IsCoinBase tx \<or> IsPoW2WitnessCoinBase tx then spend_inputs base (vin tx) c else Inr (c, [])) (\<lambda>(c, undo).
     bind_e (AddCoins tx nHeight nTxIdx c) (\<lambda>c. Inr (c, undo)))"

section \<open>The set of coins a cache stands for\<close>

text \<open>The abstract contents of a view: the unspent coins by their hash-based outpoints.\<close>

definition unspent :: "Coin option \<Rightarrow> Coin option" where
  "unspent r = (case r of Some coin \<Rightarrow> if coin_IsSpent coin then None else Some coin | None \<Rightarrow> None)"

definition base_coins :: "coins_view \<Rightarrow> okey \<Rightarrow> Coin option" where
  "base_coins base k = unspent (map_option fst (base k))"

definition coins :: "coins_view \<Rightarrow> coins_cache \<Rightarrow> okey \<Rightarrow> Coin option" where
  "coins base c k =
     (if \<not> is_HashOut k then None
      else case cacheCoins c k of Some e \<Rightarrow> unspent (Some (e_coin e)) | None \<Rightarrow> base_coins base k)"

lemma unspent_simps [simp]:
  "unspent None = None" "unspent (Some coin) = (if coin_IsSpent coin then None else Some coin)"
  "unspent r = Some coin \<longleftrightarrow> r = Some coin \<and> \<not> coin_IsSpent coin"
  "coin_IsSpent (coin_Spend coin)" "coin_IsSpent coinEmpty"
  by (auto simp: unspent_def coin_IsSpent_def coin_Spend_def txout_SetNull_def txout_IsNull_def coinEmpty_def
      split: option.splits)

text \<open>What the code relies on of the base view: a hash-based lookup returns the outpoint asked for, every
  lookup returns a hash-based one, and nothing is stored under the null outpoint.\<close>

definition base_ok :: "coins_view \<Rightarrow> bool" where
  "base_ok base \<longleftrightarrow>
     (\<forall>k coin ins. base k = Some (coin, ins) \<longrightarrow> is_HashOut ins \<and> (is_HashOut k \<longrightarrow> ins = k)) \<and>
     base_coins base null_okey = None"

text \<open>Two unspent coins have different positions in the chain.\<close>

definition positions_unique :: "(okey \<Rightarrow> Coin option) \<Rightarrow> bool" where
  "positions_unique m \<longleftrightarrow>
     (\<forall>k k' coin coin'. m k = Some coin \<and> m k' = Some coin' \<and> \<not> in_mempool coin \<and>
        index_key coin (okey_n k) = index_key coin' (okey_n k') \<longrightarrow> k = k')"

text \<open>The position of a cached unspent coin refers to it.\<close>

definition refs_ok :: "coins_cache \<Rightarrow> bool" where
  "refs_ok c \<longleftrightarrow>
     (\<forall>k e. cacheCoins c k = Some e \<and> \<not> coin_IsSpent (e_coin e) \<and> \<not> in_mempool (e_coin e) \<longrightarrow>
        cacheCoinRefs c (index_key (e_coin e) (okey_n k)) = Some k)"

text \<open>The invariant of a cache: only hash-based outpoints have entries, a fresh entry is one the base view
  has no coin for, an entry that is not dirty agrees with the base view, and the index refers to
  hash-based outpoints that are cached or that the base view has no coin for.\<close>

definition entry_ok :: "coins_view \<Rightarrow> okey \<Rightarrow> CCoinsCacheEntry \<Rightarrow> bool" where
  "entry_ok base k e \<longleftrightarrow>
     is_HashOut k \<and> (e_fresh e \<longrightarrow> base_coins base k = None) \<and>
     (\<not> e_dirty e \<longrightarrow> unspent (Some (e_coin e)) = base_coins base k)"

definition cache_inv :: "coins_view \<Rightarrow> coins_cache \<Rightarrow> bool" where
  "cache_inv base c \<longleftrightarrow>
     (\<forall>k e. cacheCoins c k = Some e \<longrightarrow> entry_ok base k e) \<and>
     (\<forall>i k. cacheCoinRefs c i = Some k \<longrightarrow> is_HashOut k \<and> (cacheCoins c k = None \<longrightarrow> base_coins base k = None))"

lemma cache_invD:
  assumes "cache_inv base c"
  shows "cacheCoins c k = Some e \<Longrightarrow> entry_ok base k e"
    "cacheCoinRefs c i = Some k \<Longrightarrow> is_HashOut k"
    "cacheCoinRefs c i = Some k \<Longrightarrow> cacheCoins c k = None \<Longrightarrow> base_coins base k = None"
  using assms unfolding cache_inv_def by blast+

lemma cache_inv_update:
  assumes "cache_inv base c" "entry_ok base k e"
    "\<And>i r. refs i = Some r \<Longrightarrow> r = k \<or> (\<exists>j. cacheCoinRefs c j = Some r) \<or> (is_HashOut r \<and> base_coins base r = None)"
  shows "cache_inv base (c\<lparr>cacheCoins := (cacheCoins c)(k \<mapsto> e), cacheCoinRefs := refs\<rparr>)"
  using assms unfolding cache_inv_def entry_ok_def by auto metis+

lemma cache_inv_erase:
  assumes "cache_inv base c" "base_coins base k = None" "\<And>i r. refs i = Some r \<Longrightarrow> \<exists>j. cacheCoinRefs c j = Some r"
  shows "cache_inv base (c\<lparr>cacheCoins := (cacheCoins c)(k := None), cacheCoinRefs := refs\<rparr>)"
  using assms unfolding cache_inv_def by auto metis+

lemma coins_update: "coins base (c\<lparr>cacheCoins := (cacheCoins c)(k \<mapsto> e), cacheCoinRefs := refs\<rparr>) =
    (if is_HashOut k then (coins base c)(k := unspent (Some (e_coin e))) else coins base c)"
  by (auto simp: coins_def fun_eq_iff)

lemma coins_erase: "coins base (c\<lparr>cacheCoins := (cacheCoins c)(k := None), cacheCoinRefs := refs\<rparr>) =
    (if is_HashOut k then (coins base c)(k := base_coins base k) else coins base c)"
  by (auto simp: coins_def fun_eq_iff)

lemma coins_cached: "cache_inv base c \<Longrightarrow> cacheCoins c k = Some e \<Longrightarrow> coins base c k = unspent (Some (e_coin e))"
  using cache_invD(1) [of base c k e] by (simp add: coins_def entry_ok_def)

section \<open>Lookups\<close>

lemma FetchCoin_hash:
  assumes "base_ok base" "cache_inv base c" "is_HashOut k" "FetchCoin base want k c = Inr (c', r)"
  shows "cache_inv base c' \<and> coins base c' = coins base c \<and>
    (case r of None \<Rightarrow> coins base c k = None | Some (k', ref) \<Rightarrow> k' = k \<and> cacheCoins c' k \<noteq> None)"
proof -
  obtain h n where k: "k = HashOut h n" using assms(3) by (cases k) auto
  show ?thesis
  proof (cases "cacheCoins c k")
    case (Some e)
    then show ?thesis using assms(2,4) k by (auto simp: FetchCoin_def split: if_splits)
  next
    case None
    then have fetch: "fetch_base base k c = Inr (c', r)" using assms(4) k by (simp add: FetchCoin_def)
    show ?thesis
    proof (cases "base k")
      case None
      then show ?thesis using fetch \<open>cacheCoins c k = None\<close> assms(2) by (auto simp: fetch_base_def coins_def base_coins_def)
    next
      case (Some p)
      then obtain tmp where b: "base k = Some (tmp, k)" using assms(1,3) unfolding base_ok_def by (metis surj_pair)
      define e where "e = \<lparr>e_coin = tmp, e_dirty = False, e_fresh = coin_IsSpent tmp\<rparr>"
      let ?refs = "if in_mempool tmp then cacheCoinRefs c else (cacheCoinRefs c)(index_key tmp n \<mapsto> k)"
      have c': "c' = c\<lparr>cacheCoins := (cacheCoins c)(k \<mapsto> e), cacheCoinRefs := ?refs\<rparr>"
        "r = Some (k, if in_mempool tmp then None else Some (index_key tmp n))"
        using fetch None b k by (auto simp: fetch_base_def e_def empty_entry_def Let_def)
      have bc: "base_coins base k = unspent (Some tmp)" using b by (simp add: base_coins_def)
      then have "entry_ok base k e" using assms(3) by (simp add: entry_ok_def e_def)
      then have "cache_inv base c'" unfolding c' using assms(2) by (intro cache_inv_update) (auto split: if_splits)
      moreover have "coins base c' = coins base c"
        using bc None assms(3) by (auto simp: c' coins_update e_def coins_def fun_eq_iff)
      ultimately show ?thesis using c' by simp
    qed
  qed
qed

lemma FetchCoin_total:
  assumes "base_ok base" "cache_inv base c" "is_HashOut k"
  shows "FetchCoin base False k c = Inl e \<Longrightarrow> False" "FetchCoin base True k c = Inl e \<Longrightarrow> e = AssertFail"
  using assms by (auto simp: FetchCoin_def fetch_base_def base_ok_def Let_def split: okey.splits option.splits if_splits)

end
