(* ===== verification/Coins_Refine.thy ===== *)
theory Coins_Refine
  imports Coins
begin

text \<open>
  The coin cache refines a map from outpoints to coins: every sequence of additions, spends and lookups
  by hash-based outpoints behaves as on the map, and writing a cache to its parent makes the parent stand
  for what the cache stood for.
\<close>

section \<open>Sequences of operations\<close>

text \<open>A simulation of an abstract machine by a concrete one whose steps may fail: one step carries over to
  every sequence of steps.\<close>

fun run_steps :: "('o \<Rightarrow> 'c \<Rightarrow> 'e + 'c \<times> 'r) \<Rightarrow> 'o list \<Rightarrow> 'c \<Rightarrow> 'e + 'c \<times> 'r list" where
  "run_steps step [] c = Inr (c, [])"
| "run_steps step (x # xs) c =
     bind_e (step x c) (\<lambda>(c, r). bind_e (run_steps step xs c) (\<lambda>(c, rs). Inr (c, r # rs)))"

fun spec_steps :: "('o \<Rightarrow> 'm \<Rightarrow> 'm \<times> 'r) \<Rightarrow> 'o list \<Rightarrow> 'm \<Rightarrow> 'm \<times> 'r list" where
  "spec_steps spec [] m = (m, [])"
| "spec_steps spec (x # xs) m =
     (let (m, r) = spec x m; (m, rs) = spec_steps spec xs m in (m, r # rs))"

fun all_allowed :: "('o \<Rightarrow> 'm \<Rightarrow> 'm \<times> 'r) \<Rightarrow> ('o \<Rightarrow> 'm \<Rightarrow> bool) \<Rightarrow> 'o list \<Rightarrow> 'm \<Rightarrow> bool" where
  "all_allowed spec allowed [] m \<longleftrightarrow> True"
| "all_allowed spec allowed (x # xs) m \<longleftrightarrow> allowed x m \<and> all_allowed spec allowed xs (fst (spec x m))"

locale simulation =
  fixes abs :: "'c \<Rightarrow> 'm" and inv :: "'c \<Rightarrow> bool" and step :: "'o \<Rightarrow> 'c \<Rightarrow> 'e + 'c \<times> 'r"
    and spec :: "'o \<Rightarrow> 'm \<Rightarrow> 'm \<times> 'r" and allowed :: "'o \<Rightarrow> 'm \<Rightarrow> bool" and may_fail :: "'e \<Rightarrow> bool"
  assumes step_ok: "inv c \<Longrightarrow> allowed x (abs c) \<Longrightarrow> step x c = Inr (c', r) \<Longrightarrow> inv c' \<and> spec x (abs c) = (abs c', r)"
    and step_fails: "inv c \<Longrightarrow> allowed x (abs c) \<Longrightarrow> step x c = Inl e \<Longrightarrow> may_fail e"
begin

lemma run_ok:
  "inv c \<Longrightarrow> all_allowed spec allowed xs (abs c) \<Longrightarrow> run_steps step xs c = Inr (c', rs) \<Longrightarrow>
   inv c' \<and> spec_steps spec xs (abs c) = (abs c', rs)"
proof (induction xs arbitrary: c rs)
  case (Cons x xs)
  then obtain c1 r rs1 where 1: "step x c = Inr (c1, r)" "run_steps step xs c1 = Inr (c', rs1)" "rs = r # rs1"
    by (auto simp: exn_simps)
  then have "inv c1 \<and> spec x (abs c) = (abs c1, r)" using step_ok [of c x c1 r] Cons.prems by simp
  then show ?case using Cons.IH [of c1 rs1] Cons.prems 1 by simp
qed simp

lemma run_fails:
  "inv c \<Longrightarrow> all_allowed spec allowed xs (abs c) \<Longrightarrow> run_steps step xs c = Inl e \<Longrightarrow> may_fail e"
proof (induction xs arbitrary: c)
  case (Cons x xs)
  show ?case
  proof (cases "step x c")
    case (Inl e')
    then show ?thesis using Cons.prems step_fails [of c x e'] by simp
  next
    case (Inr p)
    then obtain c1 r where 1: "step x c = Inr (c1, r)" by (cases p) auto
    then have "inv c1 \<and> spec x (abs c) = (abs c1, r)" using step_ok [of c x c1 r] Cons.prems by simp
    then show ?thesis using Cons.IH [of c1] Cons.prems 1 by (auto simp: exn_simps)
  qed
qed simp

end

section \<open>The operations of a cache\<close>

datatype coin_op = AddOp okey Coin bool | SpendOp okey bool | AccessOp okey

fun cache_step :: "coins_view \<Rightarrow> coin_op \<Rightarrow> coins_cache \<Rightarrow> cpp_exn + coins_cache \<times> Coin option" where
  "cache_step base (AddOp k coin ov) c = bind_e (AddCoin k coin ov c) (\<lambda>c. Inr (c, None))"
| "cache_step base (SpendOp k keep) c =
     bind_e (SpendCoin base k keep c) (\<lambda>(c, r). Inr (c, unspent (map_option fst r)))"
| "cache_step base (AccessOp k) c = bind_e (AccessCoin base k c) (\<lambda>(c, coin). Inr (c, unspent (Some coin)))"

text \<open>The same operations on a map of unspent coins, with what they return.\<close>

fun map_step :: "coin_op \<Rightarrow> (okey \<Rightarrow> Coin option) \<Rightarrow> (okey \<Rightarrow> Coin option) \<times> Coin option" where
  "map_step (AddOp k coin ov) m = ((if txout_IsUnspendable (coin_out coin) then m else m(k \<mapsto> coin)), None)"
| "map_step (SpendOp k keep) m = (m(k := None), m k)"
| "map_step (AccessOp k) m = (m, m k)"

text \<open>The callers' obligations: hash-based outpoints, and an unspent coin may be replaced only when the
  caller says so.\<close>

fun op_allowed :: "coin_op \<Rightarrow> (okey \<Rightarrow> Coin option) \<Rightarrow> bool" where
  "op_allowed (AddOp k coin ov) m \<longleftrightarrow> is_HashOut k \<and> \<not> coin_IsSpent coin \<and> (ov \<or> m k = None)"
| "op_allowed (SpendOp k keep) m \<longleftrightarrow> is_HashOut k"
| "op_allowed (AccessOp k) m \<longleftrightarrow> is_HashOut k"

lemma AccessCoin_sim:
  assumes "base_ok base" "cache_inv base c" "is_HashOut k" "AccessCoin base k c = Inr (c', coin)"
  shows "cache_inv base c' \<and> coins base c' = coins base c \<and> unspent (Some coin) = coins base c k"
proof -
  obtain r where r: "FetchCoin base False k c = Inr (c', r)"
    "coin = (case r of None \<Rightarrow> coinEmpty | Some (k, _) \<Rightarrow> cached_coin c' k)"
    using assms(4) by (auto simp: AccessCoin_def exn_simps)
  note f = FetchCoin_hash [OF assms(1-3) r(1)]
  show ?thesis
  proof (cases r)
    case None
    then show ?thesis using f r(2) by simp
  next
    case (Some p)
    then obtain e ref where "p = (k, ref)" "cacheCoins c' k = Some e" using f by (cases p) auto
    then show ?thesis using f r(2) Some coins_cached [of base c' k e] by (auto simp: cached_coin_def)
  qed
qed

lemma drop_own_ref_sub:
  "drop_own_ref k c = Inr refs \<Longrightarrow> refs i = Some r \<Longrightarrow> cacheCoinRefs c i = Some r"
  by (auto simp: drop_own_ref_def Let_def exn_simps split: option.splits if_splits)

lemma drop_own_ref_total: "cache_inv base c \<Longrightarrow> is_HashOut k \<Longrightarrow> \<exists>refs. drop_own_ref k c = Inr refs"
proof -
  assume a: "cache_inv base c" "is_HashOut k"
  have hash: "is_HashOut k \<Longrightarrow> \<exists>h. okey_hash k = Inr h" for k by (cases k) auto
  show ?thesis
  proof (cases "cacheCoins c k")
    case (Some e)
    show ?thesis
    proof (cases "cacheCoinRefs c (index_key (e_coin e) (okey_n k))")
      case (Some r)
      then show ?thesis using hash [of r] hash [of k] cache_invD(2) [OF a(1) Some] a(2) \<open>cacheCoins c k = Some e\<close>
        by (auto simp: drop_own_ref_def Let_def)
    qed (use Some in \<open>simp add: drop_own_ref_def\<close>)
  qed (simp add: drop_own_ref_def)
qed

lemma AddCoin_sim:
  assumes "cache_inv base c" "is_HashOut k" "\<not> coin_IsSpent coin" "ov \<or> coins base c k = None"
  shows "\<exists>c'. AddCoin k coin ov c = Inr c' \<and> cache_inv base c' \<and>
    coins base c' = (if txout_IsUnspendable (coin_out coin) then coins base c else (coins base c)(k \<mapsto> coin))"
proof (cases "txout_IsUnspendable (coin_out coin)")
  case True
  then show ?thesis using assms by (simp add: AddCoin_def)
next
  case False
  obtain refs where refs: "drop_own_ref k c = Inr refs" using drop_own_ref_total [OF assms(1,2)] by blast
  define old where "old = (case cacheCoins c k of None \<Rightarrow> empty_entry | Some e \<Rightarrow> e)"
  define e where "e = \<lparr>e_coin = coin, e_dirty = True, e_fresh = e_fresh old \<or> (\<not> ov \<and> \<not> e_dirty old)\<rparr>"
  let ?refs = "if in_mempool coin then refs else refs(index_key coin (okey_n k) \<mapsto> k)"
  have spent: "ov \<or> coin_IsSpent (e_coin old)"
    using assms(2,4) by (auto simp: old_def empty_entry_def coins_def split: option.splits if_splits)
  have "entry_ok base k e"
  proof (cases "cacheCoins c k")
    case None
    then show ?thesis using assms by (auto simp: entry_ok_def e_def old_def empty_entry_def coins_def)
  next
    case (Some e')
    then show ?thesis using cache_invD(1) [OF assms(1) Some] spent by (auto simp: entry_ok_def e_def old_def)
  qed
  moreover have "AddCoin k coin ov c = Inr (c\<lparr>cacheCoins := (cacheCoins c)(k \<mapsto> e), cacheCoinRefs := ?refs\<rparr>)"
    using assms(2,3) False refs spent by (auto simp: AddCoin_def old_def e_def Let_def)
  moreover have "r = k \<or> (\<exists>j. cacheCoinRefs c j = Some r)" if "?refs i = Some r" for i r
    using that drop_own_ref_sub [OF refs, of i r] by (auto split: if_splits)
  then have "cache_inv base (c\<lparr>cacheCoins := (cacheCoins c)(k \<mapsto> e), cacheCoinRefs := ?refs\<rparr>)"
    using cache_inv_update [OF assms(1) \<open>entry_ok base k e\<close>, of ?refs] by blast
  ultimately show ?thesis
    using assms(2,3) False by (auto simp: coins_update e_def)
qed

lemma SpendCoin_sim:
  assumes "base_ok base" "cache_inv base c" "is_HashOut k" "SpendCoin base k keep c = Inr (c', r)"
  shows "cache_inv base c' \<and> coins base c' = (coins base c)(k := None) \<and> unspent (map_option fst r) = coins base c k"
proof -
  obtain c1 q where f: "FetchCoin base True k c = Inr (c1, q)"
    using assms(4) by (auto simp: SpendCoin_def exn_simps)
  note inv = FetchCoin_hash [OF assms(1-3) f]
  show ?thesis
  proof (cases q)
    case None
    then show ?thesis using assms(4) f inv by (auto simp: SpendCoin_def fun_eq_iff)
  next
    case (Some p)
    then obtain ref e where p: "p = (k, ref)" "cacheCoins c1 k = Some e" using inv by (cases p) auto
    have e: "entry_ok base k e" using cache_invD(1) p(2) inv by blast
    have r: "r = Some (e_coin e, case k of HashOut h n \<Rightarrow> h)"
      using assms(3,4) f Some p by (cases k) (auto simp: SpendCoin_def Let_def split: if_splits)
    have "unspent (map_option fst r) = coins base c k"
      using coins_cached [of base c1 k e] inv p(2) r by simp
    moreover have "cache_inv base c' \<and> coins base c' = (coins base c)(k := None)"
    proof (cases "\<not> keep \<and> e_fresh e")
      case True
      define refs where "refs = (case ref of None \<Rightarrow> cacheCoinRefs c1
        | Some i \<Rightarrow> if cacheCoinRefs c1 i = Some k then (cacheCoinRefs c1)(i := None) else cacheCoinRefs c1)"
      have c': "c' = c1\<lparr>cacheCoins := (cacheCoins c1)(k := None), cacheCoinRefs := refs\<rparr>"
        using assms(3,4) f Some p True
        by (cases k) (auto simp: SpendCoin_def refs_def Let_def split: if_splits option.splits)
      have "refs i = Some s \<Longrightarrow> cacheCoinRefs c1 i = Some s" for i s by (auto simp: refs_def split: option.splits if_splits)
      then show ?thesis using True e inv assms(3) unfolding c'
        by (auto intro!: cache_inv_erase simp: coins_erase entry_ok_def)
    next
      case False
      then have c': "c' = c1\<lparr>cacheCoins := (cacheCoins c1)(k \<mapsto> \<lparr>e_coin = coin_Spend (e_coin e), e_dirty = True, e_fresh = e_fresh e\<rparr>),
          cacheCoinRefs := cacheCoinRefs c1\<rparr>"
        using assms(3,4) f Some p by (cases k) (auto simp: SpendCoin_def Let_def split: if_splits)
      let ?e = "\<lparr>e_coin = coin_Spend (e_coin e), e_dirty = True, e_fresh = e_fresh e\<rparr>"
      have "entry_ok base k ?e" using e by (simp add: entry_ok_def)
      then have "cache_inv base c'" unfolding c' using inv by (intro cache_inv_update) auto
      then show ?thesis using inv assms(3) by (simp only: c' coins_update) simp
    qed
    ultimately show ?thesis by simp
  qed
qed

lemma SpendCoin_fails:
  assumes "base_ok base" "cache_inv base c" "is_HashOut k" "SpendCoin base k keep c = Inl e"
  shows "e = AssertFail"
proof (cases "FetchCoin base True k c")
  case (Inl e')
  then show ?thesis using FetchCoin_total(2) [OF assms(1-3)] assms(4) by (simp add: SpendCoin_def)
next
  case (Inr p)
  then obtain c1 r where "FetchCoin base True k c = Inr (c1, r)" by (cases p) auto
  then show ?thesis using FetchCoin_hash [OF assms(1-3), of True c1 r] assms(3,4)
    by (cases k) (auto simp: SpendCoin_def Let_def split: option.splits if_splits)
qed

text \<open>Over any base view the cache simulates the map; only the assertion on the index of a spent coin can
  fail.\<close>

interpretation cache_sim: simulation "coins base" "\<lambda>c. base_ok base \<and> cache_inv base c" "cache_step base" map_step op_allowed
    "\<lambda>e. e = AssertFail"
  for base
proof
  fix c c' :: coins_cache and x r
  assume a: "base_ok base \<and> cache_inv base c" "op_allowed x (coins base c)" "cache_step base x c = Inr (c', r)"
  show "(base_ok base \<and> cache_inv base c') \<and> map_step x (coins base c) = (coins base c', r)"
  proof (cases x)
    case (AddOp k coin ov)
    then show ?thesis using a AddCoin_sim [of base c k coin ov] by auto
  next
    case (SpendOp k keep)
    then show ?thesis using a SpendCoin_sim [of base c k keep] by (auto simp: exn_simps)
  next
    case (AccessOp k)
    then show ?thesis using a AccessCoin_sim [of base c k] by (auto simp: exn_simps)
  qed
next
  fix c :: coins_cache and x e
  assume a: "base_ok base \<and> cache_inv base c" "op_allowed x (coins base c)" "cache_step base x c = Inl e"
  show "e = AssertFail"
  proof (cases x)
    case (AddOp k coin ov)
    then show ?thesis using a AddCoin_sim [of base c k coin ov] by auto
  next
    case (SpendOp k keep)
    then show ?thesis using a SpendCoin_fails [of base c k keep e] by (auto simp: exn_simps)
  next
    case (AccessOp k)
    then show ?thesis using a FetchCoin_total(1) [of base c k e] by (auto simp: exn_simps AccessCoin_def)
  qed
qed

section \<open>No assertion fails\<close>

text \<open>A base view such as the database holds no spent coins. Then, as long as no two unspent coins have the
  same position and only unspent coins are spent, the assertions on the index hold.\<close>

definition base_unspent :: "coins_view \<Rightarrow> bool" where
  "base_unspent base \<longleftrightarrow> (\<forall>k coin ins. base k = Some (coin, ins) \<longrightarrow> \<not> coin_IsSpent coin)"

fun op_strict :: "coin_op \<Rightarrow> (okey \<Rightarrow> Coin option) \<Rightarrow> bool" where
  "op_strict (SpendOp k keep) m \<longleftrightarrow> op_allowed (SpendOp k keep) m \<and> positions_unique m \<and> m k \<noteq> None"
| "op_strict x m \<longleftrightarrow> op_allowed x m \<and> positions_unique m \<and> positions_unique (fst (map_step x m))"

lemma refs_okD: "refs_ok c \<Longrightarrow> cacheCoins c k = Some e \<Longrightarrow> \<not> coin_IsSpent (e_coin e) \<Longrightarrow> \<not> in_mempool (e_coin e) \<Longrightarrow>
    cacheCoinRefs c (index_key (e_coin e) (okey_n k)) = Some k"
  by (simp add: refs_ok_def)

lemma index_key_n: "index_key coin n = index_key coin' n' \<Longrightarrow> n = n'"
  by (simp add: index_key_def)

lemma refs_ok_add:
  assumes "cache_inv base c"
    "positions_unique ((coins base c)(k \<mapsto> e_coin e))"
    "\<And>k' e'. cacheCoins c k' = Some e' \<Longrightarrow> \<not> coin_IsSpent (e_coin e') \<Longrightarrow> \<not> in_mempool (e_coin e') \<Longrightarrow> k' \<noteq> k \<Longrightarrow>
       refs (index_key (e_coin e') (okey_n k')) = Some k'"
    "refs' = (if in_mempool (e_coin e) then refs else refs(index_key (e_coin e) (okey_n k) \<mapsto> k))"
  shows "refs_ok (c\<lparr>cacheCoins := (cacheCoins c)(k \<mapsto> e), cacheCoinRefs := refs'\<rparr>)"
  unfolding refs_ok_def
proof (intro allI impI)
  fix k' e' assume a: "cacheCoins (c\<lparr>cacheCoins := (cacheCoins c)(k \<mapsto> e), cacheCoinRefs := refs'\<rparr>) k' = Some e' \<and>
    \<not> coin_IsSpent (e_coin e') \<and> \<not> in_mempool (e_coin e')"
  show "cacheCoinRefs (c\<lparr>cacheCoins := (cacheCoins c)(k \<mapsto> e), cacheCoinRefs := refs'\<rparr>) (index_key (e_coin e') (okey_n k')) = Some k'"
  proof (cases "k' = k")
    case True
    then show ?thesis using a assms(4) by auto
  next
    case False
    let ?i = "index_key (e_coin e') (okey_n k')"
    have e': "cacheCoins c k' = Some e'" using a False by simp
    then have "refs ?i = Some k'" using assms(3) a False by blast
    moreover have "?i \<noteq> index_key (e_coin e) (okey_n k)"
      using assms(2) a e' False coins_cached [OF assms(1) e'] unfolding positions_unique_def by (metis fun_upd_apply unspent_simps(2))
    ultimately show ?thesis using assms(4) by simp
  qed
qed

lemma drop_own_ref_own:
  assumes "is_HashOut k" "refs_ok c" "cache_inv base c" "drop_own_ref k c = Inr refs"
    "cacheCoins c k' = Some e'" "\<not> coin_IsSpent (e_coin e')" "\<not> in_mempool (e_coin e')" "k' \<noteq> k"
  shows "refs (index_key (e_coin e') (okey_n k')) = Some k'"
proof -
  let ?i = "index_key (e_coin e') (okey_n k')"
  have ref: "cacheCoinRefs c ?i = Some k'" using assms(2,5-7) by (simp add: refs_ok_def)
  obtain h n h' n' where k: "k = HashOut h n" "k' = HashOut h' n'"
    using assms(1) cache_invD(2) [OF assms(3) ref] by (cases k; cases k') auto
  show ?thesis
    using assms(4,8) ref k
    by (auto dest: index_key_n simp: drop_own_ref_def Let_def exn_simps split: option.splits if_splits)
qed

lemma FetchCoin_refs:
  assumes "base_ok base" "base_unspent base" "cache_inv base c" "refs_ok c" "positions_unique (coins base c)" "is_HashOut k"
    "want \<longrightarrow> coins base c k \<noteq> None"
  shows "\<exists>c' r. FetchCoin base want k c = Inr (c', r) \<and> refs_ok c' \<and>
    (want \<longrightarrow> (\<exists>ref e. r = Some (k, ref) \<and> cacheCoins c' k = Some e \<and> (in_mempool (e_coin e) \<or> ref \<noteq> None)))"
proof -
  obtain h n where k: "k = HashOut h n" using assms(6) by (cases k) auto
  show ?thesis
  proof (cases "cacheCoins c k")
    case (Some e)
    then have "want \<Longrightarrow> \<not> in_mempool (e_coin e) \<Longrightarrow> cacheCoinRefs c (index_key (e_coin e) n) = Some k"
      using assms(4,7) coins_cached [OF assms(3) Some] k refs_okD [OF assms(4) Some] by (auto split: if_splits)
    then show ?thesis using Some k assms(4) by (auto simp: FetchCoin_def)
  next
    case None
    show ?thesis
    proof (cases "base k")
      case None
      then show ?thesis using \<open>cacheCoins c k = None\<close> k assms(4,6,7)
        by (auto simp: FetchCoin_def fetch_base_def coins_def base_coins_def)
    next
      case (Some p)
      then obtain tmp where b: "base k = Some (tmp, k)" using assms(1,6) unfolding base_ok_def by (metis surj_pair)
      then have tmp: "\<not> coin_IsSpent tmp" using assms(2) unfolding base_unspent_def by blast
      let ?e = "\<lparr>e_coin = tmp, e_dirty = False, e_fresh = False\<rparr>"
      have "coins base c k = Some tmp" using None b tmp k by (simp add: coins_def base_coins_def)
      then have "(coins base c)(k \<mapsto> tmp) = coins base c" by auto
      then have "refs_ok (c\<lparr>cacheCoins := (cacheCoins c)(k \<mapsto> ?e),
          cacheCoinRefs := if in_mempool tmp then cacheCoinRefs c else (cacheCoinRefs c)(index_key tmp n \<mapsto> k)\<rparr>)"
        using refs_ok_add [OF assms(3), of k ?e "cacheCoinRefs c"] assms(5) refs_okD [OF assms(4)] k
        by (cases "in_mempool tmp") simp_all
      then show ?thesis using None b tmp k by (auto simp: FetchCoin_def fetch_base_def empty_entry_def Let_def)
    qed
  qed
qed

lemma AddCoin_refs:
  assumes "cache_inv base c" "refs_ok c" "is_HashOut k" "AddCoin k coin ov c = Inr c'" "\<not> txout_IsUnspendable (coin_out coin)"
    "positions_unique ((coins base c)(k \<mapsto> coin))"
  shows "refs_ok c'"
proof -
  obtain refs where refs: "drop_own_ref k c = Inr refs" using drop_own_ref_total [OF assms(1,3)] by blast
  define old where "old = (case cacheCoins c k of None \<Rightarrow> empty_entry | Some e \<Rightarrow> e)"
  define e where "e = \<lparr>e_coin = coin, e_dirty = True, e_fresh = e_fresh old \<or> (\<not> ov \<and> \<not> e_dirty old)\<rparr>"
  have "c' = c\<lparr>cacheCoins := (cacheCoins c)(k \<mapsto> e),
      cacheCoinRefs := if in_mempool coin then refs else refs(index_key coin (okey_n k) \<mapsto> k)\<rparr>"
    using assms(3-5) refs by (auto simp: AddCoin_def Let_def e_def old_def split: if_splits)
  moreover have "e_coin e = coin" by (simp add: e_def)
  ultimately show ?thesis
    using refs_ok_add [OF assms(1), of k e refs] assms(6) drop_own_ref_own [OF assms(3,2,1) refs] by auto
qed

lemma SpendCoin_refs:
  assumes "base_ok base" "base_unspent base" "cache_inv base c" "refs_ok c" "positions_unique (coins base c)" "is_HashOut k"
    "coins base c k \<noteq> None"
  shows "\<exists>c' r. SpendCoin base k keep c = Inr (c', r) \<and> refs_ok c'"
proof -
  obtain c1 ref e where f: "FetchCoin base True k c = Inr (c1, Some (k, ref))" "refs_ok c1" "cacheCoins c1 k = Some e"
    "in_mempool (e_coin e) \<or> ref \<noteq> None"
    using FetchCoin_refs [OF assms(1-6), of True] assms(7) by auto
  obtain h where h: "okey_hash k = Inr h" using assms(6) by (cases k) auto
  have "refs_ok (c1\<lparr>cacheCoins := (cacheCoins c1)(k := None), cacheCoinRefs := (case ref of None \<Rightarrow> cacheCoinRefs c1
        | Some i \<Rightarrow> if \<not> is_HashOut k \<or> cacheCoinRefs c1 i = Some k then (cacheCoinRefs c1)(i := None) else cacheCoinRefs c1)\<rparr>)"
    using f(2) assms(6) unfolding refs_ok_def by (auto split: option.splits if_splits) (metis option.inject)
  moreover have "refs_ok (c1\<lparr>cacheCoins := (cacheCoins c1)(k \<mapsto> \<lparr>e_coin = coin_Spend (e_coin e), e_dirty = True, e_fresh = e_fresh e\<rparr>)\<rparr>)"
    using f(2) unfolding refs_ok_def by auto
  ultimately show ?thesis using f h by (auto simp: SpendCoin_def Let_def)
qed

interpretation strict_sim: simulation "coins base"
    "\<lambda>c. base_ok base \<and> base_unspent base \<and> cache_inv base c \<and> refs_ok c" "cache_step base" map_step op_strict "\<lambda>e. False"
  for base
proof
  fix c c' :: coins_cache and x r
  assume a: "base_ok base \<and> base_unspent base \<and> cache_inv base c \<and> refs_ok c" "op_strict x (coins base c)"
    "cache_step base x c = Inr (c', r)"
  then have sim: "(base_ok base \<and> cache_inv base c') \<and> map_step x (coins base c) = (coins base c', r)"
    using cache_sim.step_ok [of base c x c' r] by (cases x) auto
  moreover have "refs_ok c'"
  proof (cases x)
    case (AddOp k coin ov)
    then show ?thesis using a AddCoin_refs [of base c k coin ov c']
      by (cases "txout_IsUnspendable (coin_out coin)") (auto simp: exn_simps AddCoin_def)
  next
    case (SpendOp k keep)
    then show ?thesis using a SpendCoin_refs [of base c k keep] by (auto simp: exn_simps)
  next
    case (AccessOp k)
    then show ?thesis using a FetchCoin_refs [of base c k False] by (auto simp: exn_simps AccessCoin_def)
  qed
  ultimately show "(base_ok base \<and> base_unspent base \<and> cache_inv base c' \<and> refs_ok c') \<and> map_step x (coins base c) = (coins base c', r)"
    using a by simp
next
  fix c :: coins_cache and x e
  assume a: "base_ok base \<and> base_unspent base \<and> cache_inv base c \<and> refs_ok c" "op_strict x (coins base c)"
    "cache_step base x c = Inl e"
  show False
  proof (cases x)
    case (AddOp k coin ov)
    then show ?thesis using a AddCoin_sim [of base c k coin ov] by auto
  next
    case (SpendOp k keep)
    then show ?thesis using a SpendCoin_refs [of base c k keep] by (auto simp: exn_simps)
  next
    case (AccessOp k)
    then show ?thesis using a FetchCoin_total(1) [of base c k e] by (auto simp: exn_simps AccessCoin_def)
  qed
qed

section \<open>Flushing\<close>

text \<open>The view a cache gives to a cache built on it.\<close>

definition cache_view :: "coins_view \<Rightarrow> coins_cache \<Rightarrow> coins_view" where
  "cache_view base c k = (case GetCoin base k c of Inr (_, r) \<Rightarrow> r | Inl _ \<Rightarrow> None)"

lemma cache_view_coins:
  assumes "base_ok base" "cache_inv base c" "is_HashOut k"
  shows "base_coins (cache_view base c) k = coins base c k"
proof -
  obtain c' r where f: "FetchCoin base False k c = Inr (c', r)"
    using FetchCoin_total(1) [OF assms] by (cases "FetchCoin base False k c") auto
  note i = FetchCoin_hash [OF assms f]
  have view: "base_coins (cache_view base c) k = unspent (map_option (\<lambda>x. cached_coin c' (fst x)) r)"
    using f by (simp add: base_coins_def cache_view_def GetCoin_def option.map_comp comp_def case_prod_beta)
  show ?thesis
  proof (cases r)
    case None
    then show ?thesis using i view by simp
  next
    case (Some q)
    then obtain ref e where "q = (k, ref)" "cacheCoins c' k = Some e" using i by (cases q) auto
    then show ?thesis using i view Some coins_cached [of base c' k e] by (auto simp: cached_coin_def)
  qed
qed

lemma batch_entry_sim:
  assumes "base_ok g" "cache_inv g p" "is_HashOut k" "e_fresh e \<longrightarrow> coins g p k = None"
  shows "\<exists>p' mods. batch_entry k e p = Inr (p', mods) \<and> cache_inv g p' \<and>
    coins g p' = (if e_dirty e then (coins g p)(k := unspent (Some (e_coin e))) else coins g p)"
proof (cases "e_dirty e")
  case False
  then show ?thesis using assms by (simp add: batch_entry_def)
next
  case True
  show ?thesis
  proof (cases "cacheCoins p k")
    case None
    then have base: "coins g p k = base_coins g k" using assms(3) by (simp add: coins_def)
    let ?e = "\<lparr>e_coin = e_coin e, e_dirty = True, e_fresh = e_fresh e\<rparr>"
    have "cache_inv g (p\<lparr>cacheCoins := (cacheCoins p)(k \<mapsto> ?e), cacheCoinRefs := cacheCoinRefs p\<rparr>)"
      using assms base by (intro cache_inv_update) (auto simp: entry_ok_def)
    then show ?thesis
      using True None assms(2-4) coins_update [where base = g and c = p and k = k and e = ?e and refs = "cacheCoinRefs p"]
      by (auto simp: batch_entry_def fun_eq_iff)
  next
    case (Some us)
    have us: "entry_ok g k us" using cache_invD(1) [OF assms(2) Some] .
    have c: "coins g p k = unspent (Some (e_coin us))" by (rule coins_cached [OF assms(2) Some])
    then have ok: "\<not> (e_fresh e \<and> \<not> coin_IsSpent (e_coin us))" using assms(4) by (auto split: if_splits)
    let ?i = "index_key (e_coin us) (okey_n k)"
    show ?thesis
    proof (cases "e_fresh us \<and> coin_IsSpent (e_coin e)")
      case del: True
      define refs where "refs = (if \<not> in_mempool (e_coin us) \<and> coin_nHeight (e_coin us) = coin_nHeight (e_coin e) \<and>
          nTxIndex (e_coin us) = nTxIndex (e_coin e) then (cacheCoinRefs p)(?i := None) else cacheCoinRefs p)"
      have "refs i = Some r \<Longrightarrow> cacheCoinRefs p i = Some r" for i r by (auto simp: refs_def split: if_splits)
      then have "cache_inv g (p\<lparr>cacheCoins := (cacheCoins p)(k := None), cacheCoinRefs := refs\<rparr>)"
        using assms(2) us del by (intro cache_inv_erase) (auto simp: entry_ok_def)
      moreover have "batch_entry k e p = Inr (p\<lparr>cacheCoins := (cacheCoins p)(k := None), cacheCoinRefs := refs\<rparr>, [])"
        using True Some ok del by (auto simp: batch_entry_def refs_def Let_def)
      ultimately show ?thesis using us del True assms(3) by (auto simp: coins_erase entry_ok_def)
    next
      case keep: False
      define ref where "ref = (case cacheCoinRefs p ?i of None \<Rightarrow> null_okey | Some r \<Rightarrow> r)"
      have "is_HashOut ref" using cache_invD(2) [OF assms(2)] by (auto simp: ref_def null_okey_def split: option.split)
      then obtain h1 h2 where h: "okey_hash ref = Inr h1" "okey_hash k = Inr h2"
        using assms(3) by (cases ref; cases k) auto
      define refs where "refs = (if h1 = h2 then (cacheCoinRefs p)(?i := None) else (cacheCoinRefs p)(?i \<mapsto> ref))"
      let ?e = "us\<lparr>e_coin := e_coin e, e_dirty := True\<rparr>"
      have "base_coins g null_okey = None" using assms(1) by (simp add: base_ok_def)
      then have "r = k \<or> (\<exists>j. cacheCoinRefs p j = Some r) \<or> (is_HashOut r \<and> base_coins g r = None)" if "refs i = Some r" for i r
        using that by (auto simp: refs_def ref_def null_okey_def split: if_splits option.splits)
      then have "cache_inv g (p\<lparr>cacheCoins := (cacheCoins p)(k \<mapsto> ?e), cacheCoinRefs := refs\<rparr>)"
        using cache_inv_update [OF assms(2), of k ?e refs] us by (simp add: entry_ok_def)
      moreover have "batch_entry k e p = Inr (p\<lparr>cacheCoins := (cacheCoins p)(k \<mapsto> ?e), cacheCoinRefs := refs\<rparr>, [k])"
        using True Some ok keep h by (auto simp: batch_entry_def refs_def ref_def [symmetric] Let_def)
      ultimately show ?thesis using True assms(3) by (auto simp: coins_update)
    qed
  qed
qed

lemma batch_entries_sim:
  assumes "base_ok g" "cache_inv g p" "distinct (map fst xs)"
    "\<And>k e. (k, e) \<in> set xs \<Longrightarrow> is_HashOut k \<and> (e_fresh e \<longrightarrow> coins g p k = None)"
  shows "\<exists>p' mods. batch_entries xs p = Inr (p', mods) \<and> cache_inv g p' \<and>
    (\<forall>k. coins g p' k = (case map_of xs k of Some e \<Rightarrow> if e_dirty e then unspent (Some (e_coin e)) else coins g p k | None \<Rightarrow> coins g p k))"
  using assms(2-4)
proof (induction xs arbitrary: p)
  case (Cons x xs)
  obtain k e where x: "x = (k, e)" by (cases x)
  obtain p1 m1 where 1: "batch_entry k e p = Inr (p1, m1)" "cache_inv g p1"
    "coins g p1 = (if e_dirty e then (coins g p)(k := unspent (Some (e_coin e))) else coins g p)"
    using batch_entry_sim [OF assms(1) Cons.prems(1), of k e] Cons.prems(3) [of k e] x by auto
  have new: "k \<notin> fst ` set xs" using Cons.prems(2) x by auto
  have "is_HashOut k' \<and> (e_fresh e' \<longrightarrow> coins g p1 k' = None)" if "(k', e') \<in> set xs" for k' e'
    using that Cons.prems(3) [of k' e'] 1(3) new by (auto simp: image_iff)
  then obtain p2 m2 where 2: "batch_entries xs p1 = Inr (p2, m2)" "cache_inv g p2"
    "\<forall>k. coins g p2 k = (case map_of xs k of Some e \<Rightarrow> if e_dirty e then unspent (Some (e_coin e)) else coins g p1 k | None \<Rightarrow> coins g p1 k)"
    using Cons.IH [OF 1(2)] Cons.prems(2) by auto
  have "map_of xs k = None" using new by (simp add: map_of_eq_None_iff)
  then show ?case using 1 2 x by (auto split: option.split)
qed simp

lemma set_refs_sim:
  assumes "cache_inv g p" "\<And>i r. refs i = Some r \<Longrightarrow> (\<exists>j. cacheCoinRefs p j = Some r) \<or> cacheCoins p r \<noteq> None"
  shows "cache_inv g (p\<lparr>cacheCoinRefs := refs\<rparr>) \<and> coins g (p\<lparr>cacheCoinRefs := refs\<rparr>) = coins g p"
proof
  show "cache_inv g (p\<lparr>cacheCoinRefs := refs\<rparr>)"
    unfolding cache_inv_def
  proof (intro conjI allI impI)
    fix i r assume "cacheCoinRefs (p\<lparr>cacheCoinRefs := refs\<rparr>) i = Some r"
    then consider j where "cacheCoinRefs p j = Some r" | e where "cacheCoins p r = Some e" using assms(2) [of i r] by auto
    then show "is_HashOut r" "cacheCoins (p\<lparr>cacheCoinRefs := refs\<rparr>) r = None \<Longrightarrow> base_coins g r = None"
      using cache_invD [OF assms(1)] by (cases; auto simp: entry_ok_def)+
  qed (use cache_invD(1) [OF assms(1)] in simp)
qed (simp add: coins_def fun_eq_iff)

lemma set_ref_sim:
  assumes "cache_inv g p" "cacheCoins p k = Some e"
  shows "cache_inv g (p\<lparr>cacheCoinRefs := (cacheCoinRefs p)(i \<mapsto> k)\<rparr>) \<and>
    coins g (p\<lparr>cacheCoinRefs := (cacheCoinRefs p)(i \<mapsto> k)\<rparr>) = coins g p"
  using assms by (intro set_refs_sim) (auto split: if_splits)

lemma empty_entry_sim:
  assumes "cache_inv g p" "cacheCoinRefs p i = Some r" "cacheCoins p r = None"
  shows "cache_inv g (p\<lparr>cacheCoins := (cacheCoins p)(r \<mapsto> empty_entry)\<rparr>) \<and>
    coins g (p\<lparr>cacheCoins := (cacheCoins p)(r \<mapsto> empty_entry)\<rparr>) = coins g p"
proof -
  have r: "is_HashOut r" "base_coins g r = None" using cache_invD(2,3) [OF assms(1,2)] assms(3) by blast+
  have "cache_inv g (p\<lparr>cacheCoins := (cacheCoins p)(r \<mapsto> empty_entry), cacheCoinRefs := cacheCoinRefs p\<rparr>)"
    using r by (intro cache_inv_update [OF assms(1)]) (auto simp: entry_ok_def empty_entry_def)
  moreover have "coins g p r = None" using r assms(3) by (simp add: coins_def)
  ultimately show ?thesis
    using coins_update [where base = g and c = p and k = r and e = empty_entry and refs = "cacheCoinRefs p"] by (simp add: empty_entry_def fun_upd_idem_iff)
qed

lemma reindex_unspent_sim:
  "cache_inv g p \<Longrightarrow> cache_inv g (reindex_unspent ks p) \<and> coins g (reindex_unspent ks p) = coins g p"
proof (induction ks arbitrary: p)
  case (Cons k ks)
  let ?p = "case cacheCoins p k of None \<Rightarrow> p | Some e \<Rightarrow> if \<not> coin_IsSpent (e_coin e)
    then p\<lparr>cacheCoinRefs := (cacheCoinRefs p)(index_key (e_coin e) (okey_n k) \<mapsto> k)\<rparr> else p"
  have "cache_inv g ?p \<and> coins g ?p = coins g p"
    using set_ref_sim [OF Cons.prems] Cons.prems by (cases "cacheCoins p k") auto
  then show ?case using Cons.IH [of ?p] by simp
qed simp

definition respent :: "okey \<Rightarrow> coins_cache \<Rightarrow> coins_cache" where
  "respent k c = reindex_spent [k] c"

lemma respent_sim:
  assumes "cache_inv g p"
  shows "cache_inv g (respent k p) \<and> coins g (respent k p) = coins g p"
proof (cases "\<exists>e. cacheCoins p k = Some e \<and> coin_IsSpent (e_coin e)")
  case False
  then have "respent k p = p" by (auto simp: respent_def split: option.split)
  then show ?thesis using assms by simp
next
  case True
  then obtain e where e: "cacheCoins p k = Some e" "coin_IsSpent (e_coin e)" by blast
  let ?i = "index_key (e_coin e) (okey_n k)"
  show ?thesis
  proof (cases "cacheCoinRefs p ?i")
    case None
    then show ?thesis using e set_ref_sim [OF assms e(1)] by (simp add: respent_def Let_def)
  next
    case (Some r)
    show ?thesis
    proof (cases "cacheCoins p r")
      case None
      let ?q = "p\<lparr>cacheCoins := (cacheCoins p)(r \<mapsto> empty_entry)\<rparr>"
      have "r \<noteq> k" using None e(1) by auto
      then have "cacheCoins ?q k = Some e" using e(1) by simp
      then show ?thesis using e Some None empty_entry_sim [OF assms Some None] set_ref_sim [of g ?q k e] by (simp add: respent_def Let_def)
    next
      case (Some e')
      then show ?thesis using e \<open>cacheCoinRefs p ?i = Some r\<close> set_ref_sim [OF assms e(1)] assms by (simp add: respent_def Let_def)
    qed
  qed
qed

lemma reindex_spent_Cons: "reindex_spent (k # ks) p = reindex_spent ks (respent k p)"
  by (simp add: respent_def)

lemma reindex_spent_sim:
  "cache_inv g p \<Longrightarrow> cache_inv g (reindex_spent ks p) \<and> coins g (reindex_spent ks p) = coins g p"
proof (induction ks arbitrary: p)
  case (Cons k ks)
  then show ?case using respent_sim [OF Cons.prems, of k] Cons.IH [of "respent k p"] by (simp only: reindex_spent_Cons)
qed simp

lemma Flush_sim:
  assumes "base_ok g" "cache_inv g parent" "cache_inv (cache_view g parent) child" "lists_map order (cacheCoins child)"
  shows "\<exists>child' parent'. Flush order child parent = Inr (child', parent') \<and> cache_inv g parent' \<and>
    coins g parent' = coins (cache_view g parent) child \<and>
    cacheCoins child' = Map.empty \<and> cacheCoinRefs child' = Map.empty \<and> cc_hashBlock parent' = cc_hashBlock child"
proof -
  have view: "is_HashOut k \<Longrightarrow> base_coins (cache_view g parent) k = coins g parent k" for k
    by (rule cache_view_coins [OF assms(1,2)])
  have entry: "is_HashOut k \<and> (e_fresh e \<longrightarrow> coins g parent k = None)" if "(k, e) \<in> set order" for k e
  proof -
    have "cacheCoins child k = Some e" using that assms(4) by (auto simp: lists_map_def dest: map_of_is_SomeI)
    then show ?thesis using cache_invD(1) [OF assms(3), of k e] view by (auto simp: entry_ok_def)
  qed
  obtain p mods where p: "batch_entries order parent = Inr (p, mods)" "cache_inv g p"
    "\<forall>k. coins g p k = (case map_of order k of Some e \<Rightarrow> if e_dirty e then unspent (Some (e_coin e)) else coins g parent k
       | None \<Rightarrow> coins g parent k)"
    using batch_entries_sim [OF assms(1,2), of order] entry assms(4) unfolding lists_map_def by blast
  have "coins g p k = coins (cache_view g parent) child k" for k
  proof (cases "cacheCoins child k")
    case None
    then have "coins (cache_view g parent) child k = coins g parent k" using view [of k] by (auto simp: coins_def)
    then show ?thesis using p(3) [rule_format, of k] assms(4) None by (simp add: lists_map_def)
  next
    case (Some e)
    then have "\<not> e_dirty e \<Longrightarrow> unspent (Some (e_coin e)) = coins g parent k"
      using view [of k] cache_invD(1) [OF assms(3) Some] by (auto simp: entry_ok_def)
    then show ?thesis
      using p(3) [rule_format, of k] assms(4) Some coins_cached [OF assms(3) Some]
      by (cases "e_dirty e") (simp_all add: lists_map_def)
  qed
  then have "coins g p = coins (cache_view g parent) child" by blast
  moreover define q where "q = reindex_unspent mods (reindex_spent mods p)"
  moreover have "cache_inv g q \<and> coins g q = coins g p"
    using reindex_spent_sim [OF p(2)] reindex_unspent_sim by (simp add: q_def)
  moreover have "cache_inv g (q\<lparr>cc_hashBlock := h\<rparr>) = cache_inv g q" "coins g (q\<lparr>cc_hashBlock := h\<rparr>) = coins g q" for h
    by (simp_all add: cache_inv_def coins_def fun_eq_iff)
  ultimately show ?thesis using p(1) by (simp add: Flush_def BatchWrite_def)
qed

section \<open>Properties\<close>

text \<open>
  C6. Over a base view of unspent coins, every sequence of additions, spends and lookups whose callers keep
  their obligations runs without an exception or a failed assertion, and returns what the same sequence on a
  map of unspent coins returns; the cache then stands for the resulting map.
\<close>

theorem coin_cache_refines:
  assumes "base_ok base" "base_unspent base" "cache_inv base c" "refs_ok c"
    "all_allowed map_step op_strict ops (coins base c)"
  shows "\<exists>c' rs. run_steps (cache_step base) ops c = Inr (c', rs) \<and> cache_inv base c' \<and> refs_ok c' \<and>
    spec_steps map_step ops (coins base c) = (coins base c', rs)"
proof (cases "run_steps (cache_step base) ops c")
  case (Inl e)
  then show ?thesis using strict_sim.run_fails [of base c ops e] assms by blast
next
  case (Inr p)
  then obtain c' rs where "run_steps (cache_step base) ops c = Inr (c', rs)" by (cases p) auto
  then show ?thesis using strict_sim.run_ok [of base c ops c' rs] assms by blast
qed

definition example_utxo :: "u32 \<Rightarrow> Coin" where
  "example_utxo height = Coin_new \<lparr>nValue = 5, txout = ScriptLegacyOutput []\<rparr> height 1 False False"

definition example_ops :: "coin_op list" where
  "example_ops = [AddOp (HashOut 7 0) (example_utxo 10) False, AccessOp (HashOut 7 0), SpendOp (HashOut 7 0) False,
                  AccessOp (HashOut 7 0)]"

lemma example_utxo_simps:
  "coin_IsSpent (example_utxo h) = False" "txout_IsUnspendable (coin_out (example_utxo h)) = False"
  by (simp_all add: example_utxo_def Coin_new_def coin_IsSpent_def txout_IsNull_def txout_IsUnspendable_def IsUnspendable_def)

lemma empty_cache_inv: "cache_inv base CCoinsViewCache" "refs_ok CCoinsViewCache"
  by (simp_all add: cache_inv_def refs_ok_def CCoinsViewCache_def)

theorem coin_cache_refines_witness:
  "\<exists>c' rs. run_steps (cache_step (\<lambda>_. None)) example_ops CCoinsViewCache = Inr (c', rs) \<and>
    cache_inv (\<lambda>_. None) c' \<and> refs_ok c' \<and>
    spec_steps map_step example_ops (coins (\<lambda>_. None) CCoinsViewCache) = (coins (\<lambda>_. None) c', rs)"
  by (rule coin_cache_refines [OF _ _ empty_cache_inv])
    (auto simp: base_ok_def base_coins_def base_unspent_def example_ops_def example_utxo_simps coins_def
       CCoinsViewCache_def positions_unique_def split: if_splits)

text \<open>
  C7. Writing a cache to the cache below it never fails and makes the lower cache stand for exactly the coins
  the upper one stood for, whatever the order in which the entries come; the upper cache is left empty and in
  agreement with the lower one.
\<close>

theorem Flush_refines:
  assumes "base_ok g" "cache_inv g parent" "cache_inv (cache_view g parent) child" "lists_map order (cacheCoins child)"
  shows "\<exists>child' parent'. Flush order child parent = Inr (child', parent') \<and> cache_inv g parent' \<and>
    coins g parent' = coins (cache_view g parent) child \<and>
    cache_inv (cache_view g parent') child' \<and> coins (cache_view g parent') child' = coins g parent'"
proof -
  obtain child' parent' where f: "Flush order child parent = Inr (child', parent')" "cache_inv g parent'"
    "coins g parent' = coins (cache_view g parent) child" "cacheCoins child' = Map.empty" "cacheCoinRefs child' = Map.empty"
    using Flush_sim [OF assms] by blast
  have "coins (cache_view g parent') child' k = coins g parent' k" for k
    using cache_view_coins [OF assms(1) f(2), of k] f(4) by (simp add: coins_def)
  then show ?thesis using f by (auto simp: cache_inv_def)
qed

definition example_child :: coins_cache where
  "example_child = CCoinsViewCache\<lparr>cacheCoins := [HashOut 7 0 \<mapsto> \<lparr>e_coin = example_utxo 10, e_dirty = True, e_fresh = True\<rparr>]\<rparr>"

theorem Flush_refines_witness:
  "\<exists>child' parent'. Flush [(HashOut 7 0, \<lparr>e_coin = example_utxo 10, e_dirty = True, e_fresh = True\<rparr>)] example_child CCoinsViewCache =
      Inr (child', parent') \<and> cache_inv (\<lambda>_. None) parent' \<and>
    coins (\<lambda>_. None) parent' = coins (cache_view (\<lambda>_. None) CCoinsViewCache) example_child \<and>
    cache_inv (cache_view (\<lambda>_. None) parent') child' \<and> coins (cache_view (\<lambda>_. None) parent') child' = coins (\<lambda>_. None) parent'"
proof (rule Flush_refines)
  show "base_ok (\<lambda>_. None)" by (simp add: base_ok_def base_coins_def)
  then have "base_coins (cache_view (\<lambda>_. None) CCoinsViewCache) (HashOut 7 0) = None"
    using cache_view_coins [OF _ empty_cache_inv(1), of "\<lambda>_. None" "HashOut 7 0"]
    by (simp add: coins_def base_coins_def CCoinsViewCache_def)
  then show "cache_inv (cache_view (\<lambda>_. None) CCoinsViewCache) example_child"
    by (simp add: cache_inv_def example_child_def CCoinsViewCache_def entry_ok_def)
qed (simp_all add: empty_cache_inv lists_map_def example_child_def)

lemma index_pos_inj:
  "ucast (a :: 30 word) = (ucast b :: u64) \<longleftrightarrow> a = b" "ucast (x :: u32) = (ucast y :: u64) \<longleftrightarrow> x = y"
proof -
  have "ucast (ucast (a :: 30 word) :: u64) = a" "ucast (ucast (x :: u32) :: u64) = x" for a x
    by (rule bit_word_eqI; auto simp: bit_simps)+
  then show "ucast (a :: 30 word) = (ucast b :: u64) \<longleftrightarrow> a = b" "ucast (x :: u32) = (ucast y :: u64) \<longleftrightarrow> x = y"
    by metis+
qed

lemma index_key_mempool:
  "index_key coin n = IndexOut b t m \<Longrightarrow> b = ucast MEMPOOL_HEIGHT \<and> t = ucast MEMPOOL_INDEX \<longleftrightarrow> in_mempool coin"
  by (auto simp: index_key_def in_mempool_def index_pos_inj)

text \<open>
  C24. A lookup by position can lose a spend. The base view holds a coin; it is spent through the cache, a coin
  of another transaction with the same position is added and spent again, and then the position is looked
  up. The cached entry of the first coin is no longer dirty, so writing the cache to its parent changes
  nothing there: the spent coin is available again.
\<close>

theorem index_lookup_forgets_spend:
  assumes "hA = HashOut h n" "hB = HashOut h' n" "h \<noteq> h'"
    "base hA = Some (coin, hA)" "base (index_key coin n) = Some (coin, hA)" "base hB = None"
    "\<not> coin_IsSpent coin" "\<not> in_mempool coin"
    "\<not> coin_IsSpent coinB" "\<not> txout_IsUnspendable (coin_out coinB)" "index_key coinB n = index_key coin n"
  shows "\<exists>c' rs e. run_steps (cache_step base) [SpendOp hA False, AddOp hB coinB False, SpendOp hB False, AccessOp (index_key coin n)]
      CCoinsViewCache = Inr (c', rs) \<and>
    coins base c' hA = None \<and> lists_map [(hA, e)] (cacheCoins c') \<and>
    (\<exists>child'. Flush [(hA, e)] c' parent = Inr (child', parent\<lparr>cc_hashBlock := cc_hashBlock c'\<rparr>))"
proof -
  obtain b t where i: "index_key coin n = IndexOut b t n" by (simp add: index_key_def)
  have notin: "\<not> in_mempool coinB" "\<not> (b = ucast MEMPOOL_HEIGHT \<and> t = ucast MEMPOOL_INDEX)"
    using index_key_mempool [of coin n b t n] index_key_mempool [of coinB n b t n] assms(8,11) i by auto
  define e where "e = \<lparr>e_coin = coin_Spend coin, e_dirty = False, e_fresh = True\<rparr>"
  let ?refs = "[IndexOut b t n \<mapsto> hA]"
  let ?c1 = "CCoinsViewCache\<lparr>cacheCoins := [hA \<mapsto> \<lparr>e_coin = coin_Spend coin, e_dirty = True, e_fresh = False\<rparr>], cacheCoinRefs := ?refs\<rparr>"
  let ?c2 = "?c1\<lparr>cacheCoins := (cacheCoins ?c1)(hB \<mapsto> \<lparr>e_coin = coinB, e_dirty = True, e_fresh = True\<rparr>), cacheCoinRefs := [IndexOut b t n \<mapsto> hB]\<rparr>"
  let ?c3 = "?c1\<lparr>cacheCoinRefs := Map.empty\<rparr>"
  let ?c4 = "?c1\<lparr>cacheCoins := [hA \<mapsto> e]\<rparr>"
  have 1: "cache_step base (SpendOp hA False) CCoinsViewCache = Inr (?c1, Some coin)"
    using assms(1,4,7,8) i by (simp add: SpendCoin_def FetchCoin_def fetch_base_def CCoinsViewCache_def empty_entry_def Let_def)
  have 2: "cache_step base (AddOp hB coinB False) ?c1 = Inr (?c2, None)"
    using assms(1-3,9-11) i notin by (simp add: AddCoin_def drop_own_ref_def empty_entry_def CCoinsViewCache_def Let_def)
  have 3: "cache_step base (SpendOp hB False) ?c2 = Inr (?c3, Some coinB)"
    using assms(1-3,9-11) i notin by (simp add: SpendCoin_def FetchCoin_def CCoinsViewCache_def Let_def)
  have 4: "cache_step base (AccessOp (index_key coin n)) ?c3 = Inr (?c4, None)"
    using assms(1,5,8) i notin by (simp add: AccessCoin_def FetchCoin_def fetch_base_def cached_coin_def e_def CCoinsViewCache_def Let_def)
  have "run_steps (cache_step base) [SpendOp hA False, AddOp hB coinB False, SpendOp hB False, AccessOp (index_key coin n)]
      CCoinsViewCache = Inr (?c4, [Some coin, None, Some coinB, None])"
    by (simp only: run_steps.simps 1 2 3 4 bind_e_Inr prod.case)
  moreover have "coins base ?c4 hA = None" "lists_map [(hA, e)] (cacheCoins ?c4)"
    using assms(1) by (simp_all add: coins_def e_def lists_map_def)
  moreover have "\<exists>child'. Flush [(hA, e)] ?c4 parent = Inr (child', parent\<lparr>cc_hashBlock := cc_hashBlock ?c4\<rparr>)"
    by (simp add: Flush_def BatchWrite_def batch_entry_def e_def)
  ultimately show ?thesis by blast
qed

definition example_base :: coins_view where
  "example_base = [HashOut 7 0 \<mapsto> (example_utxo 10, HashOut 7 0), index_key (example_utxo 10) 0 \<mapsto> (example_utxo 10, HashOut 7 0)]"

theorem index_lookup_forgets_spend_witness:
  "\<exists>c' rs e. run_steps (cache_step example_base) [SpendOp (HashOut 7 0) False, AddOp (HashOut 8 0) (example_utxo 10) False,
      SpendOp (HashOut 8 0) False, AccessOp (index_key (example_utxo 10) 0)] CCoinsViewCache = Inr (c', rs) \<and>
    coins example_base c' (HashOut 7 0) = None \<and> lists_map [(HashOut 7 0, e)] (cacheCoins c') \<and>
    (\<exists>child'. Flush [(HashOut 7 0, e)] c' CCoinsViewCache = Inr (child', CCoinsViewCache\<lparr>cc_hashBlock := cc_hashBlock c'\<rparr>))"
  by (rule index_lookup_forgets_spend [OF refl refl])
    (simp_all add: example_base_def index_key_def example_utxo_simps in_mempool_def MEMPOOL_INDEX_def,
     simp_all add: example_utxo_def Coin_new_def)

end
