(* ===== verification/Tx_Verify.thy ===== *)
theory Tx_Verify
  imports Witness_Bundles Coins Chain_Index
begin

text \<open>
  The transaction checks of \<^verbatim>\<open>src/src/consensus/tx_verify.cpp\<close> that do not concern witness
  bundles: finality and relative lock times, the count of signature operations, the checks without
  context, and \<^verbatim>\<open>Consensus::CheckTxInputs\<close>. Checks that read coins return the cache, which
  lookups fill, along with their result.
\<close>

section \<open>Finality\<close>

definition IsFinalTx :: "CTransaction \<Rightarrow> int \<Rightarrow> int \<Rightarrow> bool" where
  "IsFinalTx tx nBlockHeight nBlockTime \<longleftrightarrow>
     nLockTime tx = 0 \<or>
     uint (nLockTime tx) < (if uint (nLockTime tx) < LOCKTIME_THRESHOLD then nBlockHeight else nBlockTime) \<or>
     (if IsOldTransactionVersion (nVersion tx)
      then list_all (\<lambda>txin. GetSequence txin (nVersion tx) = SEQUENCE_FINAL) (vin tx)
      else list_all (\<lambda>txin. \<not> (FlagIsSet txin OptInRBF \<or> FlagIsSet txin HasLock)) (vin tx))"

abbreviation (input) LOCKTIME_VERIFY_SEQUENCE :: u32 where "LOCKTIME_VERIFY_SEQUENCE \<equiv> 1"

text \<open>The lower bounds one input gives; \<^const>\<open>None\<close> when its height is not relevant.\<close>

definition input_lock ::
  "chain_params \<Rightarrow> block_store \<Rightarrow> nat \<Rightarrow> u32 \<Rightarrow> CTxIn \<Rightarrow> int \<Rightarrow> int \<Rightarrow> int \<Rightarrow> cpp_exn + (int \<times> int) option" where
  "input_lock params st block version txin nCoinHeight nMinHeight nMinTime =
     (let old = IsOldTransactionVersion version;
          sq = GetSequence txin version in
      if (old \<and> sq AND SEQUENCE_LOCKTIME_DISABLE_FLAG \<noteq> 0) \<or> (\<not> old \<and> \<not> FlagIsSet txin HasRelativeLock) then Inr None
      else if (old \<and> sq AND SEQUENCE_LOCKTIME_TYPE_FLAG \<noteq> 0) \<or> (\<not> old \<and> FlagIsSet txin HasTimeBasedRelativeLock) then
        bind_e (GetAncestor st block (max (nCoinHeight - 1) 0)) (\<lambda>p.
        bind_e (case p of None \<Rightarrow> Inl UndefinedBehaviour | Some p \<Rightarrow> GetMedianTimePast params st p) (\<lambda>nCoinTime.
        let span = (if old then push_bit SEQUENCE_LOCKTIME_GRANULARITY (sq AND SEQUENCE_LOCKTIME_MASK)
                    else push_bit SEQUENCE_LOCKTIME_GRANULARITY sq) in
        Inr (Some (nMinHeight, max nMinTime (i64 (nCoinTime + uint span - 1))))))
      else
        let n = (if old then sint (sq AND SEQUENCE_LOCKTIME_MASK) else sint sq) in
        Inr (Some (max nMinHeight (i32 (nCoinHeight + n - 1)), nMinTime)))"

fun sequence_locks ::
  "chain_params \<Rightarrow> block_store \<Rightarrow> nat \<Rightarrow> u32 \<Rightarrow> CTxIn list \<Rightarrow> int list \<Rightarrow> int \<Rightarrow> int \<Rightarrow> cpp_exn + int list \<times> int \<times> int" where
  "sequence_locks params st block version (txin # ins) (h # hs) nMinHeight nMinTime =
     bind_e (input_lock params st block version txin h nMinHeight nMinTime) (\<lambda>r.
     case r of
       None \<Rightarrow> bind_e (sequence_locks params st block version ins hs nMinHeight nMinTime) (\<lambda>(hs', r). Inr (0 # hs', r))
     | Some (mh, mt) \<Rightarrow> bind_e (sequence_locks params st block version ins hs mh mt) (\<lambda>(hs', r). Inr (h # hs', r)))"
| "sequence_locks params st block version _ hs nMinHeight nMinTime = Inr (hs, nMinHeight, nMinTime)"

text \<open>\<^verbatim>\<open>CalculateSequenceLocks\<close> returns the heights, which it overwrites, and the pair.\<close>

definition CalculateSequenceLocks ::
  "chain_params \<Rightarrow> block_store \<Rightarrow> CTransaction \<Rightarrow> u32 \<Rightarrow> int list \<Rightarrow> nat \<Rightarrow> cpp_exn + int list \<times> int \<times> int" where
  "CalculateSequenceLocks params st tx flags prevHeights block =
     (if length prevHeights \<noteq> length (vin tx) then Inl AssertFail
      else if \<not> (nVersion tx \<ge> 2 \<and> flags AND LOCKTIME_VERIFY_SEQUENCE \<noteq> 0) then Inr (prevHeights, - 1, - 1)
      else sequence_locks params st block (nVersion tx) (vin tx) prevHeights (- 1) (- 1))"

definition EvaluateSequenceLocks :: "chain_params \<Rightarrow> block_store \<Rightarrow> nat \<Rightarrow> int \<times> int \<Rightarrow> cpp_exn + bool" where
  "EvaluateSequenceLocks params st block lockPair =
     bind_e (deref st block) (\<lambda>b.
     case pprev b of
       None \<Rightarrow> Inl AssertFail
     | Some prev \<Rightarrow>
         bind_e (GetMedianTimePast params st prev) (\<lambda>nBlockTime.
         Inr (\<not> (fst lockPair \<ge> bi_nHeight b \<or> snd lockPair \<ge> nBlockTime))))"

definition SequenceLocks ::
  "chain_params \<Rightarrow> block_store \<Rightarrow> CTransaction \<Rightarrow> u32 \<Rightarrow> int list \<Rightarrow> nat \<Rightarrow> cpp_exn + int list \<times> bool" where
  "SequenceLocks params st tx flags prevHeights block =
     bind_e (CalculateSequenceLocks params st tx flags prevHeights block) (\<lambda>(hs, lockPair).
     bind_e (EvaluateSequenceLocks params st block lockPair) (\<lambda>r. Inr (hs, r)))"

section \<open>Signature operations\<close>

definition output_sigops :: "CTxOut \<Rightarrow> nat" where
  "output_sigops out =
     (case txout out of
        ScriptLegacyOutput s \<Rightarrow> GetSigOpCount s False
      | _ \<Rightarrow> if txout_GetType out = 30 \<or> txout_GetType out = 31 then 1 else 0)"

definition GetLegacySigOpCount :: "CTransaction \<Rightarrow> nat" where
  "GetLegacySigOpCount tx =
     ((\<Sum>txin \<leftarrow> vin tx. GetSigOpCount (scriptSig txin) False) + (\<Sum>out \<leftarrow> vout tx. output_sigops out)) mod 2 ^ 32"

fun p2sh_sigops :: "coins_view \<Rightarrow> CTxIn list \<Rightarrow> nat \<Rightarrow> coins_cache \<Rightarrow> cpp_exn + coins_cache \<times> nat" where
  "p2sh_sigops base [] n c = Inr (c, n)"
| "p2sh_sigops base (i # ins) n c =
     bind_e (AccessCoin base (okey_of (prevout i)) c) (\<lambda>(c, coin).
     p2sh_sigops base ins
       (case txout (coin_out coin) of
          ScriptLegacyOutput s \<Rightarrow> if IsPayToScriptHash s then (n + GetSigOpCount_p2sh s (scriptSig i)) mod 2 ^ 32 else n
        | _ \<Rightarrow> n) c)"

definition GetP2SHSigOpCount :: "coins_view \<Rightarrow> CTransaction \<Rightarrow> coins_cache \<Rightarrow> cpp_exn + coins_cache \<times> nat" where
  "GetP2SHSigOpCount base tx c = (if IsCoinBase tx then Inr (c, 0) else p2sh_sigops base (vin tx) 0 c)"

fun input_sigops :: "coins_view \<Rightarrow> CTxIn list \<Rightarrow> nat \<Rightarrow> coins_cache \<Rightarrow> cpp_exn + coins_cache \<times> nat" where
  "input_sigops base [] n c = Inr (c, n)"
| "input_sigops base (i # ins) n c =
     bind_e (AccessCoin base (okey_of (prevout i)) c) (\<lambda>(c, coin).
     input_sigops base ins
       (if txout_GetType (coin_out coin) = 30 \<or> txout_GetType (coin_out coin) = 31 then n + 1 else n) c)"

definition GetTransactionSigOpCost :: "coins_view \<Rightarrow> CTransaction \<Rightarrow> bool \<Rightarrow> coins_cache \<Rightarrow> cpp_exn + coins_cache \<times> nat" where
  "GetTransactionSigOpCost base tx p2sh c =
     (if IsCoinBase tx then Inr (c, GetLegacySigOpCount tx)
      else bind_e (if p2sh then GetP2SHSigOpCount base tx c else Inr (c, 0)) (\<lambda>(c, n).
           input_sigops base (vin tx) (GetLegacySigOpCount tx + n) c))"

section \<open>Checks without context\<close>

definition MAX_BLOCK_BASE_SIZE :: nat where
  "MAX_BLOCK_BASE_SIZE = 1000000"

fun check_values :: "CAmount \<Rightarrow> CTxOut list \<Rightarrow> tx_failure + unit" where
  "check_values nValueOut [] = Inr ()"
| "check_values nValueOut (out # outs) =
     (if nValue out < 0 then Inl (DoS 100 REJECT_INVALID BadTxnsVoutNegative)
      else if nValue out > MAX_MONEY then Inl (DoS 100 REJECT_INVALID BadTxnsVoutToolarge)
      else let nValueOut = i64 (nValueOut + nValue out) in
           if \<not> MoneyRange nValueOut then Inl (DoS 100 REJECT_INVALID BadTxnsTxouttotalToolarge)
           else check_values nValueOut outs)"

text \<open>Insertion into \<^verbatim>\<open>std::set<COutPoint>\<close> fails when the set has an element that is neither
  smaller nor greater.\<close>

fun check_duplicates :: "COutPoint list \<Rightarrow> CTxIn list \<Rightarrow> tx_failure + unit" where
  "check_duplicates seen [] = Inr ()"
| "check_duplicates seen (i # ins) =
     (if list_ex (\<lambda>x. \<not> outpoint_less x (prevout i) \<and> \<not> outpoint_less (prevout i) x) seen
      then Inl (DoS 100 REJECT_INVALID BadTxnsInputsDuplicate)
      else check_duplicates (prevout i # seen) ins)"

definition CheckTransaction :: "CTransaction \<Rightarrow> bool \<Rightarrow> tx_failure + unit" where
  "CheckTransaction tx fCheckDuplicateInputs =
     bind_e (tx_require (vin tx \<noteq> []) (DoS 10 REJECT_INVALID BadTxnsVinEmpty)) (\<lambda>_.
     bind_e (tx_require (vout tx \<noteq> []) (DoS 10 REJECT_INVALID BadTxnsVoutEmpty)) (\<lambda>_.
     bind_e (tx_throws (SerializeTransaction False tx)) (\<lambda>bytes.
     bind_e (tx_require (\<not> length bytes > MAX_BLOCK_BASE_SIZE) (DoS 100 REJECT_INVALID BadTxnsOversize)) (\<lambda>_.
     bind_e (check_values 0 (vout tx)) (\<lambda>_.
     bind_e (if fCheckDuplicateInputs then check_duplicates [] (vin tx) else Inr ()) (\<lambda>_.
     if IsCoinBase tx then
       let in0 = vin tx ! 0 in
       if IsOldTransactionVersion (nVersion tx)
       then tx_require (\<not> (length (scriptSig in0) < 2 \<or> length (scriptSig in0) > 100)) (DoS 100 REJECT_INVALID BadCbLength)
       else bind_e (tx_require (length (scriptSig in0) = 0) (DoS 100 REJECT_INVALID BadCbLength)) (\<lambda>_.
            tx_require (length (segregatedSignatureData in0) = 2) (DoS 100 REJECT_INVALID BadCbSegdata))
     else tx_require (list_all (\<lambda>i. \<not> outpoint_IsNull (prevout i)) (vin tx)) (DoS 10 REJECT_INVALID BadTxnsPrevoutNull)))))))"

fun contextual_outputs :: "chain_params \<Rightarrow> u64 \<Rightarrow> CTxOut list \<Rightarrow> tx_failure + unit" where
  "contextual_outputs params checkHeight [] = Inr ()"
| "contextual_outputs params checkHeight (out # outs) =
     bind_e (case GetPow2WitnessOutput out of None \<Rightarrow> Inr () | Some w \<Rightarrow> witness_output_checks params checkHeight out w) (\<lambda>_.
     contextual_outputs params checkHeight outs)"

definition CheckTransactionContextual :: "chain_params \<Rightarrow> CTransaction \<Rightarrow> int \<Rightarrow> tx_failure + unit" where
  "CheckTransactionContextual params tx checkHeight = contextual_outputs params (word_of_int checkHeight) (vout tx)"

section \<open>The inputs\<close>

definition COINBASE_MATURITY :: "chain_params \<Rightarrow> int" where
  "COINBASE_MATURITY params = (if fIsTestnet params then 10 else 100)"

text \<open>A witness coinbase needs the coins of its inputs that are not null.\<close>

fun witness_inputs :: "coins_view \<Rightarrow> CTxIn list \<Rightarrow> coins_cache \<Rightarrow> cpp_exn + coins_cache \<times> bool" where
  "witness_inputs base [] c = Inr (c, True)"
| "witness_inputs base (i # ins) c =
     (if outpoint_IsNull (prevout i) then witness_inputs base ins c
      else bind_e (HaveCoin base (okey_of (prevout i)) c) (\<lambda>(c, have).
           if \<not> have then Inr (c, False) else witness_inputs base ins c))"

text \<open>The loop over the inputs: maturity and the sum of the values.\<close>

fun input_values ::
  "chain_params \<Rightarrow> coins_view \<Rightarrow> bool \<Rightarrow> int \<Rightarrow> CAmount \<Rightarrow> CTxIn list \<Rightarrow> coins_cache \<Rightarrow> tx_failure + coins_cache \<times> CAmount" where
  "input_values params base witnessCoinBase nSpendHeight nValueIn [] c = Inr (c, nValueIn)"
| "input_values params base witnessCoinBase nSpendHeight nValueIn (i # ins) c =
     (if outpoint_IsNull (prevout i) \<and> witnessCoinBase
      then input_values params base witnessCoinBase nSpendHeight nValueIn ins c
      else
        bind_e (tx_throws (AccessCoin base (okey_of (prevout i)) c)) (\<lambda>(c, coin).
        bind_e (tx_require (\<not> coin_IsSpent coin) (TxExn AssertFail)) (\<lambda>_.
        bind_e (if \<not> isHash (prevout i)
                then tx_require (\<not> i32 (nSpendHeight - uint (coin_nHeight coin)) < COINBASE_MATURITY params)
                       (Invalid REJECT_INVALID BadTxnsInsufficientDepthIndexInput)
                else if fCoinBase coin
                then tx_require (\<not> i32 (nSpendHeight - uint (coin_nHeight coin)) < COINBASE_MATURITY params)
                       (Invalid REJECT_INVALID BadTxnsPrematureSpendOfCoinbase)
                else Inr ()) (\<lambda>_.
        let nValueIn = i64 (nValueIn + nValue (coin_out coin)) in
        bind_e (tx_require (MoneyRange (nValue (coin_out coin)) \<and> MoneyRange nValueIn)
                  (DoS 100 REJECT_INVALID BadTxnsInputvaluesOutofrange)) (\<lambda>_.
        input_values params base witnessCoinBase nSpendHeight nValueIn ins c)))))"

fun penalty_fee :: "CAmount \<Rightarrow> CWitnessTxBundle list \<Rightarrow> cpp_exn + CAmount" where
  "penalty_fee fee [] = Inr fee"
| "penalty_fee fee (b # bs) =
     (if bundleType b = RenewType
      then bind_e (vec_index (b_outputs b) 0) (\<lambda>out. penalty_fee (i64 (fee + CalculateWitnessPenaltyFee (fst out))) bs)
      else penalty_fee fee bs)"

text \<open>\<^verbatim>\<open>Consensus::CheckTxInputs\<close>; it returns the cache and the fee it tallied.\<close>

definition CheckTxInputs ::
  "chain_params \<Rightarrow> coins_view \<Rightarrow> CTransaction \<Rightarrow> int \<Rightarrow> CWitnessTxBundle list option \<Rightarrow> coins_cache \<Rightarrow> tx_failure + coins_cache \<times> CAmount" where
  "CheckTxInputs params base tx nSpendHeight pWitnessBundles c =
     bind_e (tx_throws (if IsPoW2WitnessCoinBase tx then witness_inputs base (vin tx) c else HaveInputs base tx c)) (\<lambda>(c, have).
     bind_e (tx_require have (Invalid 0 NoReason)) (\<lambda>_.
     bind_e (input_values params base (IsPoW2WitnessCoinBase tx) nSpendHeight 0 (vin tx) c) (\<lambda>(c, nValueIn).
     bind_e (tx_throws (penalty_fee 0 (case pWitnessBundles of None \<Rightarrow> [] | Some bs \<Rightarrow> bs))) (\<lambda>witnessPenaltyFee.
     bind_e (tx_throws (GetValueOut tx)) (\<lambda>valueOut.
     bind_e (tx_require (\<not> nValueIn < valueOut) (DoS 100 REJECT_INVALID BadTxnsInBelowout)) (\<lambda>_.
     let nTxFee = i64 (nValueIn - valueOut) in
     bind_e (tx_require (\<not> nTxFee < 0) (DoS 100 REJECT_INVALID BadTxnsFeeNegative)) (\<lambda>_.
     bind_e (tx_require (\<not> nTxFee < witnessPenaltyFee) (DoS 100 REJECT_INVALID BadTxnsFeeMissingWitnessRenewalPenaltyFee)) (\<lambda>_.
     bind_e (tx_require (MoneyRange nTxFee) (DoS 100 REJECT_INVALID BadTxnsFeeOutofrange)) (\<lambda>_.
     Inr (c, nTxFee))))))))))"

end
