(* ===== verification/Tx_Coins.thy ===== *)
theory Tx_Coins
  imports Coins_Refine Tx_Verify
begin

text \<open>
  Transactions on the set of coins: \<^verbatim>\<open>UpdateCoins\<close> of
  \<^verbatim>\<open>src/src/validation/validation.cpp\<close> removes the coins a transaction spends and adds its outputs,
  and the matching part of \<^verbatim>\<open>DisconnectBlock\<close> takes it back. Both are sequences of cache
  operations, so the refinement of the cache carries over to them.
\<close>

section \<open>Taking a transaction back\<close>

datatype DisconnectResult = DISCONNECT_OK | DISCONNECT_UNCLEAN | DISCONNECT_FAILED

definition MAX_OUTPUTS_PER_BLOCK :: nat where
  "MAX_OUTPUTS_PER_BLOCK = 1000000 div 22"

function AccessByTxid_from :: "coins_view \<Rightarrow> uint256 \<Rightarrow> nat \<Rightarrow> coins_cache \<Rightarrow> cpp_exn + coins_cache \<times> Coin" where
  "AccessByTxid_from base txid n c =
     (if n < MAX_OUTPUTS_PER_BLOCK then
        bind_e (AccessCoin base (HashOut txid (word_of_nat n)) c) (\<lambda>(c, alternate).
        if \<not> coin_IsSpent alternate then Inr (c, alternate) else AccessByTxid_from base txid (n + 1) c)
      else Inr (c, coinEmpty))"
  by pat_completeness auto
termination
  by (relation "measure (\<lambda>(base, txid, n, c). MAX_OUTPUTS_PER_BLOCK - n)") auto

declare AccessByTxid_from.simps [simp del]

definition AccessByTxid :: "coins_view \<Rightarrow> uint256 \<Rightarrow> coins_cache \<Rightarrow> cpp_exn + coins_cache \<times> Coin" where
  "AccessByTxid base txid = AccessByTxid_from base txid 0"

text \<open>An undo record is a coin with the hash of its transaction. After an outpoint by position has been
  replaced, the lookup of the transaction hash is the hash of the outpoint.\<close>

fun undo_outpoint :: "okey \<Rightarrow> uint256 \<Rightarrow> okey" where
  "undo_outpoint (HashOut h n) prevhash = HashOut h n"
| "undo_outpoint (IndexOut b t n) prevhash = HashOut prevhash n"

definition ApplyTxInUndo :: "coins_view \<Rightarrow> Coin \<times> uint256 \<Rightarrow> okey \<Rightarrow> coins_cache \<Rightarrow> cpp_exn + coins_cache \<times> DisconnectResult" where
  "ApplyTxInUndo base undo out c =
     (let out = undo_outpoint out (snd undo); coin = fst undo in
      bind_e (HaveCoin base out c) (\<lambda>(c, have).
      bind_e (if coin_nHeight coin = 0 then
                bind_e (okey_hash out) (\<lambda>txHash.
                bind_e (AccessByTxid base txHash c) (\<lambda>(c, alternate).
                Inr (c, if coin_IsSpent alternate then None
                        else Some (coin\<lparr>coin_nHeight := coin_nHeight alternate, fCoinBase := fCoinBase alternate\<rparr>))))
              else Inr (c, Some coin)) (\<lambda>(c, r).
      case r of
        None \<Rightarrow> Inr (c, DISCONNECT_FAILED)
      | Some coin \<Rightarrow>
          bind_e (AddCoin out coin (fCoinBase coin) c) (\<lambda>c.
          Inr (c, if have then DISCONNECT_UNCLEAN else DISCONNECT_OK)))))"

text \<open>The loop of \<^verbatim>\<open>DisconnectBlock\<close> over the outputs: each is spent and compared.\<close>

fun undo_outputs :: "coins_view \<Rightarrow> uint256 \<Rightarrow> nat \<Rightarrow> CTxOut list \<Rightarrow> bool \<Rightarrow> coins_cache \<Rightarrow> cpp_exn + coins_cache \<times> bool" where
  "undo_outputs base txid i [] fClean c = Inr (c, fClean)"
| "undo_outputs base txid i (out # outs) fClean c =
     (if txout_IsUnspendable out then undo_outputs base txid (i + 1) outs fClean c
      else bind_e (SpendCoin base (HashOut txid (word_of_nat i)) False c) (\<lambda>(c, coin).
           let coin = (case coin of Some (coin, _) \<Rightarrow> coin | None \<Rightarrow> coinEmpty) in
           undo_outputs base txid (i + 1) outs (fClean \<and> txout_eq out (coin_out coin)) c))"

text \<open>The loop over the inputs, given in the order in which they are restored; \<^const>\<open>None\<close> is the
  early return of a failure.\<close>

fun undo_inputs :: "coins_view \<Rightarrow> (CTxIn \<times> Coin \<times> uint256) list \<Rightarrow> bool \<Rightarrow> coins_cache \<Rightarrow> cpp_exn + coins_cache \<times> bool option" where
  "undo_inputs base [] fClean c = Inr (c, Some fClean)"
| "undo_inputs base ((i, undo) # rest) fClean c =
     bind_e (ApplyTxInUndo base undo (okey_of (prevout i)) c) (\<lambda>(c, res).
     if res = DISCONNECT_FAILED then Inr (c, None)
     else undo_inputs base rest (fClean \<and> res \<noteq> DISCONNECT_UNCLEAN) c)"

text \<open>One round of the loop over the transactions; the first transaction of a block has no undo record.\<close>

definition DisconnectTx ::
  "coins_view \<Rightarrow> CTransaction \<Rightarrow> (Coin \<times> uint256) list option \<Rightarrow> bool \<Rightarrow> coins_cache \<Rightarrow> cpp_exn + coins_cache \<times> bool option" where
  "DisconnectTx base tx txundo fClean c =
     bind_e (ComputeHash tx) (\<lambda>h.
     bind_e (undo_outputs base (word_of_nat (le_nat h)) 0 (vout tx) fClean c) (\<lambda>(c, fClean).
     case txundo of
       None \<Rightarrow> Inr (c, Some fClean)
     | Some vprevout \<Rightarrow>
         if IsPoW2WitnessCoinBase tx then
           (case vprevout of
              [undo] \<Rightarrow> undo_inputs base (map (\<lambda>i. (i, undo)) (rev (filter (\<lambda>i. \<not> outpoint_IsNull (prevout i)) (vin tx)))) fClean c
            | _ \<Rightarrow> Inr (c, None))
         else if length vprevout \<noteq> length (vin tx) then Inr (c, None)
         else undo_inputs base (rev (zip (vin tx) vprevout)) fClean c))"

text \<open>The transactions of a block in reverse order, with the undo records of all but the first.\<close>

fun disconnect_txs ::
  "coins_view \<Rightarrow> (CTransaction \<times> (Coin \<times> uint256) list option) list \<Rightarrow> bool \<Rightarrow> coins_cache \<Rightarrow> cpp_exn + coins_cache \<times> bool option" where
  "disconnect_txs base [] fClean c = Inr (c, Some fClean)"
| "disconnect_txs base ((tx, undo) # rest) fClean c =
     bind_e (DisconnectTx base tx undo fClean c) (\<lambda>(c, r).
     case r of None \<Rightarrow> Inr (c, None) | Some fClean \<Rightarrow> disconnect_txs base rest fClean c)"

text \<open>The undo records come from the block files; \<^const>\<open>None\<close> stands for a missing position and
  for a read that fails. The best block of the view is that of its base while it has none itself.\<close>

definition DisconnectBlock ::
  "coins_view \<Rightarrow> uint256 \<Rightarrow> uint256 \<Rightarrow> uint256 \<Rightarrow> CTransaction list \<Rightarrow> (Coin \<times> uint256) list list option \<Rightarrow> coins_cache \<Rightarrow>
   cpp_exn + coins_cache \<times> DisconnectResult" where
  "DisconnectBlock base baseBest hash prevHash vtx blockUndo c =
     (let (c, best) = cache_GetBestBlock baseBest c in
      if hash \<noteq> best then Inl AssertFail
      else case blockUndo of
        None \<Rightarrow> Inr (c, DISCONNECT_FAILED)
      | Some vtxundo \<Rightarrow>
          if length vtxundo + 1 \<noteq> length vtx then Inr (c, DISCONNECT_FAILED)
          else bind_e (disconnect_txs base (rev (zip vtx (None # map Some vtxundo))) True c) (\<lambda>(c, r).
               case r of
                 None \<Rightarrow> Inr (c, DISCONNECT_FAILED)
               | Some fClean \<Rightarrow> Inr (cache_SetBestBlock prevHash c, if fClean then DISCONNECT_OK else DISCONNECT_UNCLEAN)))"

text \<open>The updates of the coins when a block is connected: each transaction in order, and the undo records of
  all but the first.\<close>

fun connect_txs :: "coins_view \<Rightarrow> u32 \<Rightarrow> nat \<Rightarrow> CTransaction list \<Rightarrow> coins_cache \<Rightarrow> cpp_exn + coins_cache \<times> (Coin \<times> uint256) list list" where
  "connect_txs base nHeight txIndex [] c = Inr (c, [])"
| "connect_txs base nHeight txIndex (tx # txs) c =
     bind_e (UpdateCoins base tx nHeight (word_of_nat txIndex) c) (\<lambda>(c, undo).
     bind_e (connect_txs base nHeight (txIndex + 1) txs c) (\<lambda>(c, undos).
     Inr (c, if txIndex = 0 then undos else undo # undos)))"

end
