(* ===== verification/Tx_Undo.thy ===== *)
theory Tx_Undo
  imports Tx_Coins
begin

text \<open>
  Connecting and disconnecting on the set of coins: \<^verbatim>\<open>UpdateCoins\<close> is a sequence of cache
  operations, \<^verbatim>\<open>DisconnectBlock\<close> takes it back, and disconnecting a block that was just
  connected restores the coins.
\<close>

section \<open>Sequences of cache operations\<close>

lemma run_steps_append:
  "run_steps step (xs @ ys) c = bind_e (run_steps step xs c) (\<lambda>(c, rs). bind_e (run_steps step ys c) (\<lambda>(c, rs'). Inr (c, rs @ rs')))"
proof (induction xs arbitrary: c)
  case Nil
  then show ?case by (cases "run_steps step ys c") (auto simp: bind_e_def split: sum.splits)
next
  case (Cons x xs)
  then show ?case by (auto simp: bind_e_def split: sum.splits)
qed

lemma spec_steps_append:
  "spec_steps spec (xs @ ys) m = (let (m, rs) = spec_steps spec xs m; (m, rs') = spec_steps spec ys m in (m, rs @ rs'))"
  by (induction xs arbitrary: m) (simp_all add: Let_def split: prod.splits)

lemma all_allowed_append:
  "all_allowed spec P (xs @ ys) m \<longleftrightarrow> all_allowed spec P xs m \<and> all_allowed spec P ys (fst (spec_steps spec xs m))"
  by (induction xs arbitrary: m) (simp_all add: Let_def case_prod_beta)

abbreviation cache_good :: "coins_view \<Rightarrow> coins_cache \<Rightarrow> bool" where
  "cache_good base c \<equiv> base_ok base \<and> base_unspent base \<and> cache_inv base c \<and> refs_ok c"

lemma strict_run:
  assumes "cache_good base c" "all_allowed map_step op_strict ops (coins base c)"
  obtains c' rs where "run_steps (cache_step base) ops c = Inr (c', rs)" "cache_good base c'"
    "spec_steps map_step ops (coins base c) = (coins base c', rs)"
proof (cases "run_steps (cache_step base) ops c")
  case (Inl e)
  then show ?thesis using strict_sim.run_fails [of base c ops e] assms by blast
next
  case (Inr p)
  then obtain c' rs where r: "run_steps (cache_step base) ops c = Inr (c', rs)" by (cases p) auto
  then show ?thesis using strict_sim.run_ok [of base c ops c' rs] assms that by blast
qed

section \<open>Spending and adding on the map\<close>

lemma positions_unique_mono: "positions_unique m \<Longrightarrow> m' \<subseteq>\<^sub>m m \<Longrightarrow> positions_unique m'"
  unfolding positions_unique_def map_le_def by (metis domI)

abbreviation spends :: "okey list \<Rightarrow> coin_op list" where
  "spends ks \<equiv> map (\<lambda>k. SpendOp k False) ks"

lemma spends_spec: "distinct ks \<Longrightarrow> spec_steps map_step (spends ks) m = (m |` (- set ks), map m ks)"
proof (induction ks arbitrary: m)
  case (Cons k ks)
  have "m(k := None) |` (- set ks) = m |` (- set (k # ks))" by (auto simp: restrict_map_def fun_eq_iff)
  moreover have "map (m(k := None)) ks = map m ks" using Cons.prems by auto
  ultimately show ?case using Cons by simp
qed (simp add: restrict_map_def)

lemma spends_allowed:
  "distinct ks \<Longrightarrow> positions_unique m \<Longrightarrow> \<forall>k \<in> set ks. is_HashOut k \<and> m k \<noteq> None \<Longrightarrow> all_allowed map_step op_strict (spends ks) m"
proof (induction ks arbitrary: m)
  case (Cons k ks)
  moreover have "m(k := None) \<subseteq>\<^sub>m m" by (auto simp: map_le_def)
  then have "positions_unique (m(k := None))" using positions_unique_mono Cons.prems(2) by blast
  moreover have "\<forall>k' \<in> set ks. is_HashOut k' \<and> (m(k := None)) k' \<noteq> None" using Cons.prems by auto
  ultimately show ?case by simp
qed simp

definition spendable :: "okey \<times> Coin \<times> bool \<Rightarrow> bool" where
  "spendable x \<longleftrightarrow> \<not> txout_IsUnspendable (coin_out (fst (snd x)))"

abbreviation adds :: "(okey \<times> Coin \<times> bool) list \<Rightarrow> coin_op list" where
  "adds xs \<equiv> map (\<lambda>(k, coin, ov). AddOp k coin ov) xs"

definition added :: "(okey \<times> Coin \<times> bool) list \<Rightarrow> okey \<rightharpoonup> Coin" where
  "added xs = map_of (map (\<lambda>(k, coin, _). (k, coin)) (filter spendable xs))"

lemma added_Nil [simp]: "added [] = Map.empty"
  by (simp add: added_def)

lemma added_Cons: "added ((k, coin, ov) # xs) = (if txout_IsUnspendable (coin_out coin) then added xs else (added xs)(k \<mapsto> coin))"
  by (simp add: added_def spendable_def)

lemma dom_added: "dom (added xs) \<subseteq> fst ` set xs"
  unfolding added_def by (auto simp: dom_map_of_conv_image_fst intro: rev_image_eqI)

lemma adds_spec: "distinct (map fst xs) \<Longrightarrow> spec_steps map_step (adds xs) m = (m ++ added xs, replicate (length xs) None)"
proof (induction xs arbitrary: m)
  case (Cons x xs)
  obtain k coin ov where x: "x = (k, coin, ov)" by (cases x)
  have "k \<notin> dom (added xs)" using dom_added [of xs] Cons.prems x by auto
  then have "m(k \<mapsto> coin) ++ added xs = m ++ (added xs)(k \<mapsto> coin)" by (simp add: map_add_upd_left)
  then show ?case using Cons x by (simp add: added_Cons)
qed simp

lemma adds_allowed:
  "distinct (map fst xs) \<Longrightarrow> positions_unique (m ++ added xs) \<Longrightarrow>
   \<forall>(k, coin, ov) \<in> set xs. is_HashOut k \<and> \<not> coin_IsSpent coin \<and> m k = None \<Longrightarrow> all_allowed map_step op_strict (adds xs) m"
proof (induction xs arbitrary: m)
  case (Cons x xs)
  obtain k coin ov where x: "x = (k, coin, ov)" by (cases x)
  let ?m = "if txout_IsUnspendable (coin_out coin) then m else m(k \<mapsto> coin)"
  have k: "k \<notin> dom (added xs)" "m k = None" using dom_added [of xs] Cons.prems(1,3) x by auto
  have eq: "?m ++ added xs = m ++ added (x # xs)" using k(1) by (simp add: x added_Cons map_add_upd_left)
  have dis: "dom m \<inter> dom (added (x # xs)) = {}" using dom_added [of "x # xs"] Cons.prems(3) by fastforce
  have "?m \<subseteq>\<^sub>m ?m ++ added xs"
    using dis k by (auto simp: map_le_def map_add_def x added_Cons split: option.splits if_splits)
  moreover have "m \<subseteq>\<^sub>m ?m" using k(2) by (auto simp: map_le_def)
  ultimately have pos: "positions_unique ?m" "positions_unique m"
    using positions_unique_mono [OF Cons.prems(2)] eq map_le_trans by metis+
  have "is_HashOut k' \<and> \<not> coin_IsSpent coin' \<and> ?m k' = None" if y: "(k', coin', ov') \<in> set xs" for k' coin' ov'
  proof -
    have "k' \<noteq> k" using Cons.prems(1) x rev_image_eqI [OF y, of k' fst] by auto
    then show ?thesis using bspec [OF Cons.prems(3), of "(k', coin', ov')"] y by auto
  qed
  then have "\<forall>(k', coin', ov') \<in> set xs. is_HashOut k' \<and> \<not> coin_IsSpent coin' \<and> ?m k' = None" by blast
  then have "all_allowed map_step op_strict (adds xs) ?m" using Cons.IH [of ?m] Cons.prems(1,2) eq by simp
  then show ?case using pos Cons.prems(3) x k by simp
qed simp

section \<open>Connecting a transaction\<close>

definition spent_inputs :: "CTransaction \<Rightarrow> CTxIn list" where
  "spent_inputs tx =
     (if \<not> IsCoinBase tx \<or> IsPoW2WitnessCoinBase tx then filter (\<lambda>i. \<not> outpoint_IsNull (prevout i)) (vin tx) else [])"

definition in_keys :: "CTransaction \<Rightarrow> okey list" where
  "in_keys tx = map (\<lambda>i. okey_of (prevout i)) (spent_inputs tx)"

fun out_items :: "uint256 \<Rightarrow> CTransaction \<Rightarrow> u32 \<Rightarrow> u32 \<Rightarrow> nat \<Rightarrow> CTxOut list \<Rightarrow> (okey \<times> Coin \<times> bool) list" where
  "out_items txid tx h idx i [] = []"
| "out_items txid tx h idx i (out # outs) =
     (HashOut txid (word_of_nat i), Coin_new out h idx (IsCoinBase tx) (\<not> IsOldTransactionVersion (nVersion tx)), IsCoinBase tx) #
     out_items txid tx h idx (i + 1) outs"

lemma spend_inputs_run:
  assumes "run_steps (cache_step base) (spends (map (\<lambda>i. okey_of (prevout i)) (filter (\<lambda>i. \<not> outpoint_IsNull (prevout i)) ins))) c = Inr (c', rs)"
  shows "\<exists>undos. spend_inputs base ins c = Inr (c', undos) \<and> rs = map (\<lambda>u. unspent (Some (fst u))) undos"
  using assms
proof (induction ins arbitrary: c rs)
  case (Cons i ins)
  show ?case
  proof (cases "outpoint_IsNull (prevout i)")
    case True
    then show ?thesis using Cons by simp
  next
    case False
    then obtain c1 r rs1 where 1: "SpendCoin base (okey_of (prevout i)) False c = Inr (c1, r)"
      "run_steps (cache_step base) (spends (map (\<lambda>i. okey_of (prevout i)) (filter (\<lambda>i. \<not> outpoint_IsNull (prevout i)) ins))) c1 = Inr (c', rs1)"
      "rs = unspent (map_option fst r) # rs1"
      using Cons.prems by (auto simp: exn_simps)
    obtain undos where 2: "spend_inputs base ins c1 = Inr (c', undos)" "rs1 = map (\<lambda>u. unspent (Some (fst u))) undos"
      using Cons.IH [OF 1(2)] by blast
    have "unspent (map_option fst r) = unspent (Some (fst (case r of Some u \<Rightarrow> u | None \<Rightarrow> (coinEmpty, 0))))"
      by (cases r) simp_all
    then show ?thesis using False 1 2 by simp
  qed
qed simp

lemma add_outputs_run:
  "run_steps (cache_step base) (adds (out_items txid tx h idx i outs)) c = Inr (c', rs) \<Longrightarrow> add_outputs txid tx h idx i outs c = Inr c'"
  by (induction txid tx h idx i outs arbitrary: c rs rule: out_items.induct) (auto simp: exn_simps)

text \<open>When a transaction can be applied to a map of coins: it spends distinct coins of the map by
  hash-based outpoints, none of its outputs is null, and neither its hash nor its position is in use by
  another coin.\<close>

definition tx_fits :: "(okey \<rightharpoonup> Coin) \<Rightarrow> CTransaction \<Rightarrow> uint256 \<Rightarrow> u32 \<Rightarrow> u32 \<Rightarrow> bool" where
  "tx_fits m tx txid h idx \<longleftrightarrow>
     positions_unique m \<and> distinct (in_keys tx) \<and> (\<forall>k \<in> set (in_keys tx). is_HashOut k \<and> m k \<noteq> None) \<and>
     (\<forall>out \<in> set (vout tx). \<not> txout_IsNull out) \<and> length (vout tx) \<le> 2 ^ 31 \<and> 
     (\<forall>n. HashOut txid n \<notin> set (in_keys tx) \<longrightarrow> m (HashOut txid n) = None) \<and>
     (\<forall>k coin. m k = Some coin \<longrightarrow> coin_nHeight coin \<noteq> ucast h \<or> nTxIndex coin \<noteq> idx)"

definition tx_map :: "CTransaction \<Rightarrow> uint256 \<Rightarrow> u32 \<Rightarrow> u32 \<Rightarrow> (okey \<rightharpoonup> Coin) \<Rightarrow> (okey \<rightharpoonup> Coin)" where
  "tx_map tx txid h idx m = (m |` (- set (in_keys tx))) ++ added (out_items txid tx h idx 0 (vout tx))"

lemma out_items_keys: "map fst (out_items txid tx h idx i outs) = map (\<lambda>j. HashOut txid (word_of_nat j)) [i..<i + length outs]"
  by (induction txid tx h idx i outs rule: out_items.induct) (simp_all add: upt_conv_Cons del: upt_Suc)

lemma out_items_distinct: "i + length outs \<le> 2 ^ 31 \<Longrightarrow> distinct (map fst (out_items txid tx h idx i outs))"
proof -
  assume le: "i + length outs \<le> 2 ^ 31"
  have "inj_on (\<lambda>j. HashOut txid (word_of_nat j)) (set [i..<i + length outs])"
  proof (rule inj_onI)
    fix a b assume "a \<in> set [i..<i + length outs]" "b \<in> set [i..<i + length outs]"
      "HashOut txid (word_of_nat a) = HashOut txid (word_of_nat b)"
    then show "a = b" using le by (simp add: word_of_nat_eq_iff take_bit_eq_mod)
  qed
  then show ?thesis unfolding out_items_keys distinct_map by simp
qed

lemma out_items_mem:
  "(k, coin, ov) \<in> set (out_items txid tx h idx i outs) \<Longrightarrow>
   \<exists>n out. k = HashOut txid n \<and> out \<in> set outs \<and> coin_out coin = out \<and> coin_nHeight coin = ucast h \<and> nTxIndex coin = idx"
  by (induction txid tx h idx i outs rule: out_items.induct) (auto simp: Coin_new_def)

lemma added_mem: "added xs k = Some coin \<Longrightarrow> \<exists>ov. (k, coin, ov) \<in> set xs \<and> spendable (k, coin, ov)"
  unfolding added_def by (drule map_of_SomeD) auto

lemma positions_added:
  assumes "tx_fits m tx txid h idx"
  shows "positions_unique (tx_map tx txid h idx m)"
  unfolding positions_unique_def
proof (intro allI impI)
  let ?new = "added (out_items txid tx h idx 0 (vout tx))"
  have new: "\<exists>n. k = HashOut txid n \<and> coin_nHeight coin = ucast h \<and> nTxIndex coin = idx" if "?new k = Some coin" for k coin
    using added_mem [OF that] out_items_mem by blast
  have old: "m k = Some coin \<and> \<not> (coin_nHeight coin = ucast h \<and> nTxIndex coin = idx)"
    if "(m |` (- set (in_keys tx))) k = Some coin" for k coin
    using that assms by (auto simp: tx_fits_def restrict_map_def split: if_splits)
  have inj: "ucast (a :: 30 word) = (ucast b :: u64) \<Longrightarrow> a = b" "ucast (x :: u32) = (ucast y :: u64) \<Longrightarrow> x = y" for a b x y
    by (simp_all add: index_pos_inj)
  fix k k' coin coin'
  assume a: "tx_map tx txid h idx m k = Some coin \<and> tx_map tx txid h idx m k' = Some coin' \<and> \<not> in_mempool coin \<and>
    index_key coin (okey_n k) = index_key coin' (okey_n k')"
  then have pos: "coin_nHeight coin = coin_nHeight coin'" "nTxIndex coin = nTxIndex coin'" "okey_n k = okey_n k'"
    using inj by (auto simp: index_key_def)
  show "k = k'"
  proof (cases "?new k = None"; cases "?new k' = None")
    assume "?new k = None" "?new k' = None"
    then have "m k = Some coin" "m k' = Some coin'" using a old by (auto simp: tx_map_def map_add_def split: option.splits)
    then show ?thesis using a assms unfolding tx_fits_def positions_unique_def by blast
  qed (use a pos new [of k coin] new [of k' coin'] old [of k coin] old [of k' coin'] in
      \<open>auto simp: tx_map_def map_add_def split: option.splits\<close>)
qed

lemma run_steps_length: "run_steps step xs c = Inr (c', rs) \<Longrightarrow> length rs = length xs"
  by (induction xs arbitrary: c rs) (auto simp: exn_simps)

lemma map_unspent:
  assumes "map (\<lambda>u. unspent (Some (fst u))) undos = map m ks" "\<forall>k \<in> set ks. m k \<noteq> None"
  shows "map (\<lambda>u. Some (fst u)) undos = map m ks"
  using assms
proof (induction undos arbitrary: ks)
  case (Cons u undos)
  then obtain k ks' where ks: "ks = k # ks'" by (cases ks) auto
  then have "unspent (Some (fst u)) = m k" "m k \<noteq> None" using Cons.prems by auto
  then have "Some (fst u) = m k" by (auto split: if_splits)
  then show ?case using Cons ks by simp
qed simp

abbreviation txid_of :: "byte list \<Rightarrow> uint256" where
  "txid_of h \<equiv> word_of_nat (le_nat h)"

abbreviation tx_ops :: "CTransaction \<Rightarrow> uint256 \<Rightarrow> u32 \<Rightarrow> u32 \<Rightarrow> coin_op list" where
  "tx_ops tx txid h idx \<equiv> spends (in_keys tx) @ adds (out_items txid tx h idx 0 (vout tx))"

lemma tx_ops_fit:
  assumes "tx_fits m tx txid h idx"
  shows "all_allowed map_step op_strict (tx_ops tx txid h idx) m"
    "spec_steps map_step (tx_ops tx txid h idx) m =
      (tx_map tx txid h idx m, map m (in_keys tx) @ replicate (length (vout tx)) None)"
proof -
  let ?m = "m |` (- set (in_keys tx))" and ?items = "out_items txid tx h idx 0 (vout tx)"
  have dist: "distinct (in_keys tx)" "distinct (map fst ?items)"
    using assms out_items_distinct [of 0 "vout tx"] by (simp_all add: tx_fits_def)
  have "is_HashOut k \<and> \<not> coin_IsSpent coin \<and> ?m k = None" if "(k, coin, ov) \<in> set ?items" for k coin ov
    using out_items_mem [OF that] assms by (auto simp: tx_fits_def coin_IsSpent_def restrict_map_def)
  then have items: "\<forall>(k, coin, ov) \<in> set ?items. is_HashOut k \<and> \<not> coin_IsSpent coin \<and> ?m k = None" by blast
  have len: "length ?items = length (vout tx)" using out_items_keys [of txid tx h idx 0 "vout tx"] by (metis length_map length_upt diff_zero add_0)
  show "all_allowed map_step op_strict (tx_ops tx txid h idx) m"
    unfolding all_allowed_append spends_spec [OF dist(1)] fst_conv
    using spends_allowed [OF dist(1)] adds_allowed [OF dist(2) _ items] positions_added [OF assms] assms
    by (simp add: tx_fits_def tx_map_def)
  show "spec_steps map_step (tx_ops tx txid h idx) m =
      (tx_map tx txid h idx m, map m (in_keys tx) @ replicate (length (vout tx)) None)"
    unfolding spec_steps_append spends_spec [OF dist(1)] using adds_spec [OF dist(2)] len by (simp add: tx_map_def)
qed

lemma UpdateCoins_sim:
  assumes "cache_good base c" "ComputeHash tx = Inr hb" "tx_fits (coins base c) tx (txid_of hb) h idx"
  obtains c' undos where "UpdateCoins base tx h idx c = Inr (c', undos)" "cache_good base c'"
    "coins base c' = tx_map tx (txid_of hb) h idx (coins base c)"
    "map (\<lambda>u. Some (fst u)) undos = map (coins base c) (in_keys tx)"
proof -
  obtain c' rs where r: "run_steps (cache_step base) (tx_ops tx (txid_of hb) h idx) c = Inr (c', rs)" "cache_good base c'"
    "coins base c' = tx_map tx (txid_of hb) h idx (coins base c)"
    "rs = map (coins base c) (in_keys tx) @ replicate (length (vout tx)) None"
    using strict_run [OF assms(1) tx_ops_fit(1) [OF assms(3)]] tx_ops_fit(2) [OF assms(3)] by (metis prod.inject)
  obtain c1 rs1 rs2 where s: "run_steps (cache_step base) (spends (in_keys tx)) c = Inr (c1, rs1)"
    "run_steps (cache_step base) (adds (out_items (txid_of hb) tx h idx 0 (vout tx))) c1 = Inr (c', rs2)" "rs = rs1 @ rs2"
    using r(1) unfolding run_steps_append by (auto simp: exn_simps)
  have len: "length rs1 = length (in_keys tx)"
    using run_steps_length [OF s(1)] by simp
  then have rs1: "rs1 = map (coins base c) (in_keys tx)" using r(4) s(3) by (metis append_eq_append_conv length_map)
  obtain undos where u: "(if \<not> IsCoinBase tx \<or> IsPoW2WitnessCoinBase tx then spend_inputs base (vin tx) c else Inr (c, [])) = Inr (c1, undos)"
    "rs1 = map (\<lambda>u. unspent (Some (fst u))) undos"
  proof (cases "\<not> IsCoinBase tx \<or> IsPoW2WitnessCoinBase tx")
    case True
    then show thesis using that spend_inputs_run [of base "vin tx" c c1 rs1] s(1) by (auto simp: in_keys_def spent_inputs_def)
  next
    case False
    then show thesis using that s(1) by (auto simp: in_keys_def spent_inputs_def)
  qed
  have "UpdateCoins base tx h idx c = Inr (c', undos)"
    using u(1) assms(2) add_outputs_run [OF s(2)] unfolding UpdateCoins_def AddCoins_def by simp
  moreover have "map (\<lambda>u. Some (fst u)) undos = map (coins base c) (in_keys tx)"
    using rs1 u(2) assms(3) by (intro map_unspent) (auto simp: tx_fits_def)
  ultimately show thesis using that r by blast
qed

section \<open>Disconnecting a transaction\<close>

definition known_output :: "CTxOut \<Rightarrow> bool" where
  "known_output out \<longleftrightarrow> (case txout out of UnknownOutput _ \<Rightarrow> False | _ \<Rightarrow> True)"

lemma txout_eq_refl [simp]: "known_output out \<Longrightarrow> txout_eq out out"
  by (cases "txout out") (simp_all add: txout_eq_def known_output_def)

lemma undo_outputs_run:
  assumes "run_steps (cache_step base) (spends (map fst (filter spendable (out_items txid tx h idx i outs)))) c = Inr (c', rs)"
    "rs = map (\<lambda>x. Some (fst (snd x))) (filter spendable (out_items txid tx h idx i outs))" "\<forall>out \<in> set outs. known_output out"
  shows "undo_outputs base txid i outs fClean c = Inr (c', fClean)"
  using assms
proof (induction txid tx h idx i outs arbitrary: c rs rule: out_items.induct)
  case (2 txid tx h idx i out outs)
  show ?case
  proof (cases "txout_IsUnspendable out")
    case True
    then show ?thesis using 2 by (simp add: spendable_def Coin_new_def)
  next
    case False
    let ?coin = "Coin_new out h idx (IsCoinBase tx) (\<not> IsOldTransactionVersion (nVersion tx))"
    have "spendable (HashOut txid (word_of_nat i), ?coin, IsCoinBase tx)" using False by (simp add: spendable_def Coin_new_def)
    then obtain c1 r where 1: "SpendCoin base (HashOut txid (word_of_nat i)) False c = Inr (c1, r)" "unspent (map_option fst r) = Some ?coin"
      "run_steps (cache_step base) (spends (map fst (filter spendable (out_items txid tx h idx (i + 1) outs)))) c1 =
         Inr (c', map (\<lambda>x. Some (fst (snd x))) (filter spendable (out_items txid tx h idx (i + 1) outs)))"
      using "2.prems" by (auto simp: exn_simps)
    obtain u where u: "r = Some u" "fst u = ?coin" using 1(2) by (cases r) (auto split: if_splits)
    have "coin_out (fst u) = out" using u(2) by (simp add: Coin_new_def)
    then show ?thesis using False 1(1) u(1) "2.IH" [OF 1(3) refl] "2.prems"(3) by (simp add: case_prod_beta)
  qed
qed simp

lemma added_at:
  assumes "distinct (map fst xs)" "x \<in> set xs" "spendable x"
  shows "added xs (fst x) = Some (fst (snd x))"
proof -
  have "distinct (map fst (filter spendable xs))" using assms(1) by (rule distinct_map_filter)
  then have "distinct (map fst (map (\<lambda>(k, coin, _). (k, coin)) (filter spendable xs)))" by (simp add: comp_def case_prod_beta)
  moreover have "(fst x, fst (snd x)) \<in> set (map (\<lambda>(k, coin, _). (k, coin)) (filter spendable xs))"
    using assms(2,3) rev_image_eqI [of x "set (filter spendable xs)" "(fst x, fst (snd x))" "\<lambda>(k, coin, _). (k, coin)"]
    by (simp add: case_prod_beta)
  ultimately show ?thesis unfolding added_def by (rule map_of_is_SomeI)
qed

lemma remove_added:
  assumes "distinct (map fst xs)" "\<forall>x \<in> set xs. m (fst x) = None"
  shows "map (m ++ added xs) (map fst (filter spendable xs)) = map (\<lambda>x. Some (fst (snd x))) (filter spendable xs)"
    "(m ++ added xs) |` (- set (map fst (filter spendable xs))) = m"
proof -
  show "map (m ++ added xs) (map fst (filter spendable xs)) = map (\<lambda>x. Some (fst (snd x))) (filter spendable xs)"
    using added_at [OF assms(1)] by (auto simp: map_add_def)
  have "added xs k = None" if "k \<notin> set (map fst (filter spendable xs))" for k
  proof (rule ccontr)
    assume "added xs k \<noteq> None"
    then obtain coin ov where "(k, coin, ov) \<in> set xs" "spendable (k, coin, ov)" using added_mem by fastforce
    then show False using that rev_image_eqI [of "(k, coin, ov)" "set (filter spendable xs)" k fst] by simp
  qed
  then show "(m ++ added xs) |` (- set (map fst (filter spendable xs))) = m"
    using assms(2) by (auto simp: restrict_map_def map_add_def fun_eq_iff)
qed

lemma HaveCoin_sim:
  assumes "cache_good base c" "positions_unique (coins base c)" "is_HashOut k"
  obtains c' where "HaveCoin base k c = Inr (c', coins base c k \<noteq> None)" "cache_good base c'" "coins base c' = coins base c"
proof -
  obtain c' r where f: "FetchCoin base False k c = Inr (c', r)" "refs_ok c'"
    using FetchCoin_refs [of base c k False] assms by auto
  note i = FetchCoin_hash [OF _ _ assms(3) f(1)]
  have "HaveCoin base k c = Inr (c', coins base c k \<noteq> None)"
  proof (cases r)
    case None
    then show ?thesis using f(1) i assms(1) by (simp add: HaveCoin_def)
  next
    case (Some q)
    then obtain ref e where "q = (k, ref)" "cacheCoins c' k = Some e" using i assms(1) by (cases q) auto
    then show ?thesis using f(1) i assms(1) Some coins_cached [of base c' k e]
      by (auto simp: HaveCoin_def cached_coin_def)
  qed
  then show thesis using that i f(2) assms(1) by blast
qed

lemma ApplyTxInUndo_sim:
  assumes "cache_good base c" "op_strict (AddOp k (fst u) (fCoinBase (fst u))) (coins base c)" "coins base c k = None"
    "coin_nHeight (fst u) \<noteq> 0" "\<not> txout_IsUnspendable (coin_out (fst u))"
  obtains c' where "ApplyTxInUndo base u k c = Inr (c', DISCONNECT_OK)" "cache_good base c'" "coins base c' = (coins base c)(k \<mapsto> fst u)"
proof -
  have k: "is_HashOut k" "positions_unique (coins base c)" using assms(2) by auto
  obtain c1 where c1: "HaveCoin base k c = Inr (c1, False)" "cache_good base c1" "coins base c1 = coins base c"
    using HaveCoin_sim [OF assms(1) k(2,1)] assms(3) by auto
  obtain c2 rs where c2: "run_steps (cache_step base) [AddOp k (fst u) (fCoinBase (fst u))] c1 = Inr (c2, rs)" "cache_good base c2"
    "spec_steps map_step [AddOp k (fst u) (fCoinBase (fst u))] (coins base c1) = (coins base c2, rs)"
    using strict_run [OF c1(2), of "[AddOp k (fst u) (fCoinBase (fst u))]"] assms(2) c1(3) by (metis all_allowed.simps)
  have "undo_outpoint k (snd u) = k" using k(1) by (cases k) simp_all
  moreover have "AddCoin k (fst u) (fCoinBase (fst u)) c1 = Inr c2" using c2(1) by (auto simp: exn_simps)
  ultimately have "ApplyTxInUndo base u k c = Inr (c2, DISCONNECT_OK)"
    using c1(1) assms(4) by (simp add: ApplyTxInUndo_def Let_def)
  then show thesis using that c2(2,3) c1(3) assms(5) by simp
qed

definition undo_items :: "(CTxIn \<times> Coin \<times> uint256) list \<Rightarrow> (okey \<times> Coin \<times> bool) list" where
  "undo_items L = map (\<lambda>(i, u). (okey_of (prevout i), fst u, fCoinBase (fst u))) L"

lemma undo_inputs_sim:
  assumes "cache_good base c"
    "all_allowed map_step op_strict (adds (undo_items L)) (coins base c)"
    "distinct (map (\<lambda>(i, u). okey_of (prevout i)) L)"
    "\<forall>(i, u) \<in> set L. coins base c (okey_of (prevout i)) = None \<and> coin_nHeight (fst u) \<noteq> 0 \<and> \<not> txout_IsUnspendable (coin_out (fst u))"
  shows "\<exists>c'. undo_inputs base L fClean c = Inr (c', Some fClean) \<and> cache_good base c' \<and>
    coins base c' = fst (spec_steps map_step (adds (undo_items L)) (coins base c))"
  using assms
proof (induction L arbitrary: c)
  case (Cons x L)
  obtain i u where x: "x = (i, u)" by (cases x)
  let ?k = "okey_of (prevout i)"
  have head: "coins base c ?k = None" "coin_nHeight (fst u) \<noteq> 0" "\<not> txout_IsUnspendable (coin_out (fst u))"
    using Cons.prems(4) x by auto
  obtain c1 where c1: "ApplyTxInUndo base u ?k c = Inr (c1, DISCONNECT_OK)" "cache_good base c1" "coins base c1 = (coins base c)(?k \<mapsto> fst u)"
    using ApplyTxInUndo_sim [OF Cons.prems(1) _ head] Cons.prems(2) x by (auto simp: undo_items_def)
  have "coins base c1 (okey_of (prevout j)) = None \<and> coin_nHeight (fst v) \<noteq> 0 \<and> \<not> txout_IsUnspendable (coin_out (fst v))"
    if "(j, v) \<in> set L" for j v
  proof -
    have "okey_of (prevout j) \<noteq> ?k" using Cons.prems(3) x rev_image_eqI [OF that, of "okey_of (prevout j)" "\<lambda>(i, u). okey_of (prevout i)"] by auto
    then show ?thesis using bspec [OF Cons.prems(4), of "(j, v)"] that c1(3) by simp
  qed
  then have rest: "\<forall>(j, v) \<in> set L. coins base c1 (okey_of (prevout j)) = None \<and> coin_nHeight (fst v) \<noteq> 0 \<and> \<not> txout_IsUnspendable (coin_out (fst v))"
    by blast
  have allowed: "all_allowed map_step op_strict (adds (undo_items L)) (coins base c1)"
    using Cons.prems(2) c1(3) x head(3) by (simp add: undo_items_def)
  have dist: "distinct (map (\<lambda>(i, u). okey_of (prevout i)) L)" using Cons.prems(3) by simp
  obtain c' where c': "undo_inputs base L fClean c1 = Inr (c', Some fClean)" "cache_good base c'"
    "coins base c' = fst (spec_steps map_step (adds (undo_items L)) (coins base c1))"
    using Cons.IH [OF c1(2) allowed dist rest] by blast
  have "spec_steps map_step (adds (undo_items (x # L))) (coins base c) =
      (let (m, rs) = spec_steps map_step (adds (undo_items L)) (coins base c1) in (m, None # rs))"
    using x head(3) c1(3) by (simp add: undo_items_def)
  moreover have "undo_inputs base (x # L) fClean c = Inr (c', Some fClean)" using x c1(1) c'(1) by simp
  ultimately show ?case using c'(2,3) by (cases "spec_steps map_step (adds (undo_items L)) (coins base c1)") simp
qed (simp add: undo_items_def)

text \<open>What the undo record of a transaction needs: the first transaction of a block spends nothing, the
  others have no null input but the first of a witness coinbase; the coins spent are not of height zero
  and can be spent, and the types of the outputs are known.\<close>

definition tx_undoable :: "(okey \<rightharpoonup> Coin) \<Rightarrow> bool \<Rightarrow> CTransaction \<Rightarrow> bool" where
  "tx_undoable m first tx \<longleftrightarrow>
     (if first then in_keys tx = []
      else if IsPoW2WitnessCoinBase tx then \<not> outpoint_IsNull (prevout (vin tx ! 1))
      else \<not> IsCoinBase tx \<and> list_all (\<lambda>i. \<not> outpoint_IsNull (prevout i)) (vin tx)) \<and>
     (\<forall>out \<in> set (vout tx). known_output out) \<and>
     (\<forall>k \<in> set (in_keys tx). \<forall>coin. m k = Some coin \<longrightarrow>
        coin_nHeight coin \<noteq> 0 \<and> \<not> txout_IsUnspendable (coin_out coin) \<and> \<not> coin_IsSpent coin)"

lemma DisconnectTx_inputs:
  assumes "tx_undoable m False tx" "length undos = length (spent_inputs tx)"
  shows "DisconnectTx base tx (Some undos) fClean c =
     bind_e (ComputeHash tx) (\<lambda>h.
     bind_e (undo_outputs base (txid_of h) 0 (vout tx) fClean c) (\<lambda>(c, fClean).
     undo_inputs base (rev (zip (spent_inputs tx) undos)) fClean c))"
proof (cases "IsPoW2WitnessCoinBase tx")
  case True
  then obtain i0 i1 where v: "vin tx = [i0, i1]" "outpoint_IsNull (prevout i0)"
    by (auto simp: IsPoW2WitnessCoinBase_def length_Suc_conv numeral_2_eq_2)
  then have "spent_inputs tx = [i1]" using True assms(1) by (simp add: spent_inputs_def tx_undoable_def)
  moreover from this assms(2) obtain u where "undos = [u]" by (auto simp: length_Suc_conv)
  ultimately show ?thesis using True v assms(1) by (simp add: DisconnectTx_def tx_undoable_def)
next
  case False
  then have "spent_inputs tx = vin tx" using assms(1) by (auto simp: spent_inputs_def tx_undoable_def list_all_iff)
  then show ?thesis using False assms(2) by (simp add: DisconnectTx_def)
qed

lemma DisconnectTx_outputs:
  assumes "cache_good base c" "tx_fits m tx txid h idx" "coins base c = tx_map tx txid h idx m" "\<forall>out \<in> set (vout tx). known_output out"
  obtains c' where "undo_outputs base txid 0 (vout tx) fClean c = Inr (c', fClean)" "cache_good base c'"
    "coins base c' = m |` (- set (in_keys tx))"
proof -
  let ?items = "out_items txid tx h idx 0 (vout tx)" and ?m = "m |` (- set (in_keys tx))"
  let ?ks = "map fst (filter spendable ?items)"
  have dist: "distinct (map fst ?items)" using assms(2) out_items_distinct [of 0 "vout tx"] by (simp add: tx_fits_def)
  have none: "\<forall>x \<in> set ?items. ?m (fst x) = None"
  proof
    fix x assume "x \<in> set ?items"
    moreover obtain k coin ov where "x = (k, coin, ov)" by (cases x)
    ultimately obtain n where "fst x = HashOut txid n" using out_items_mem [of k coin ov txid tx h idx 0 "vout tx"] by auto
    then show "?m (fst x) = None" using assms(2) by (simp add: tx_fits_def restrict_map_def)
  qed
  have dk: "distinct ?ks" using dist by (rule distinct_map_filter)
  have hash: "\<forall>k \<in> set ?ks. is_HashOut k \<and> coins base c k \<noteq> None"
  proof
    fix k assume "k \<in> set ?ks"
    then obtain x where x: "x \<in> set ?items" "spendable x" "k = fst x" by auto
    then have "added ?items k = Some (fst (snd x))" using added_at [OF dist] by simp
    moreover obtain coin ov where "x = (k, coin, ov)" using x(3) by (cases x) simp
    ultimately show "is_HashOut k \<and> coins base c k \<noteq> None"
      using x(1) out_items_mem [of k coin ov txid tx h idx 0 "vout tx"] assms(3) by (auto simp: tx_map_def map_add_def)
  qed
  have spec: "spec_steps map_step (spends ?ks) (coins base c) = (?m, map (\<lambda>x. Some (fst (snd x))) (filter spendable ?items))"
    unfolding spends_spec [OF dk] assms(3) tx_map_def using remove_added [OF dist none] by simp
  obtain c' rs where r: "run_steps (cache_step base) (spends ?ks) c = Inr (c', rs)" "cache_good base c'"
    "spec_steps map_step (spends ?ks) (coins base c) = (coins base c', rs)"
    using strict_run [OF assms(1) spends_allowed [OF dk _ hash]] positions_added [OF assms(2)] assms(3) by metis
  then show thesis using that spec undo_outputs_run [OF r(1) _ assms(4)] by simp
qed

lemma restore_inputs:
  assumes "tx_fits m tx txid h idx" "map (\<lambda>u. Some (fst u)) undos = map m (in_keys tx)"
    "\<forall>k \<in> set (in_keys tx). \<forall>coin. m k = Some coin \<longrightarrow>
        coin_nHeight coin \<noteq> 0 \<and> \<not> txout_IsUnspendable (coin_out coin) \<and> \<not> coin_IsSpent coin"
  defines "L \<equiv> rev (zip (spent_inputs tx) undos)"
  shows "m |` (- set (in_keys tx)) ++ added (undo_items L) = m" "distinct (map fst (undo_items L))"
    "\<And>i u. (i, u) \<in> set L \<Longrightarrow> okey_of (prevout i) \<in> set (in_keys tx) \<and> m (okey_of (prevout i)) = Some (fst u)"
proof -
  have len: "length undos = length (spent_inputs tx)" using arg_cong [OF assms(2), of length] by (simp add: in_keys_def)
  show mem: "okey_of (prevout i) \<in> set (in_keys tx) \<and> m (okey_of (prevout i)) = Some (fst u)" if iu: "(i, u) \<in> set L" for i u
  proof -
    obtain n where n: "n < length undos" "spent_inputs tx ! n = i" "undos ! n = u"
      using iu unfolding L_def set_rev in_set_zip fst_conv snd_conv by blast
    then have "in_keys tx ! n = okey_of (prevout i)" "n < length (in_keys tx)" using len by (simp_all add: in_keys_def)
    then show ?thesis using arg_cong [OF assms(2), of "\<lambda>xs. xs ! n"] n by (metis nth_map nth_mem)
  qed
  have keys: "map fst (undo_items L) = rev (in_keys tx)"
  proof -
    have "map fst (undo_items L) = map (\<lambda>i. okey_of (prevout i)) (map fst L)"
      unfolding undo_items_def map_map comp_def by (simp add: case_prod_beta)
    also have "map fst L = rev (spent_inputs tx)" using len by (simp add: L_def rev_map [symmetric])
    finally show ?thesis by (simp add: in_keys_def rev_map)
  qed
  then show dist: "distinct (map fst (undo_items L))" using assms(1) by (simp add: tx_fits_def)
  show "m |` (- set (in_keys tx)) ++ added (undo_items L) = m"
  proof (rule ext)
    fix k
    show "(m |` (- set (in_keys tx)) ++ added (undo_items L)) k = m k"
    proof (cases "k \<in> set (in_keys tx)")
      case True
      then obtain x where x: "x \<in> set (undo_items L)" "fst x = k" using keys by (metis imageE list.set_map set_rev)
      then obtain i u where iu: "(i, u) \<in> set L" "x = (okey_of (prevout i), fst u, fCoinBase (fst u))"
        by (auto simp: undo_items_def)
      then have "m k = Some (fst u)" using mem [OF iu(1)] x(2) by simp
      moreover from this have "spendable x" using assms(3) True iu(2) by (auto simp: spendable_def)
      ultimately show ?thesis using added_at [OF dist x(1)] x(2) iu(2) by (simp add: map_add_def)
    next
      case False
      then have "added (undo_items L) k = None" using dom_added [of "undo_items L"] keys by (metis domIff in_mono list.set_map set_rev)
      then show ?thesis using False by (simp add: map_add_def restrict_map_def)
    qed
  qed
qed

lemma undo_inputs_restore:
  assumes "cache_good base c" "tx_fits m tx txid h idx" "coins base c = m |` (- set (in_keys tx))"
    "map (\<lambda>u. Some (fst u)) undos = map m (in_keys tx)" "tx_undoable m first tx"
  shows "\<exists>c'. undo_inputs base (rev (zip (spent_inputs tx) undos)) fClean c = Inr (c', Some fClean) \<and> cache_good base c' \<and> coins base c' = m"
proof -
  let ?L = "rev (zip (spent_inputs tx) undos)"
  have good: "\<forall>k \<in> set (in_keys tx). \<forall>coin. m k = Some coin \<longrightarrow>
      coin_nHeight coin \<noteq> 0 \<and> \<not> txout_IsUnspendable (coin_out coin) \<and> \<not> coin_IsSpent coin"
    using assms(5) by (simp add: tx_undoable_def)
  note R = restore_inputs [OF assms(2,4) good]
  have each: "is_HashOut (okey_of (prevout i)) \<and> coins base c (okey_of (prevout i)) = None \<and> coin_nHeight (fst u) \<noteq> 0 \<and>
      \<not> txout_IsUnspendable (coin_out (fst u)) \<and> \<not> coin_IsSpent (fst u)" if "(i, u) \<in> set ?L" for i u
    using R(3) [OF that] bspec [OF good, of "okey_of (prevout i)"] assms(2,3) by (auto simp: tx_fits_def restrict_map_def)
  have items: "is_HashOut k \<and> \<not> coin_IsSpent coin \<and> coins base c k = None" if kc: "(k, coin, ov) \<in> set (undo_items ?L)" for k coin ov
  proof -
    obtain i u where "(i, u) \<in> set ?L" "(k, coin, ov) = (okey_of (prevout i), fst u, fCoinBase (fst u))"
      using kc unfolding undo_items_def by (auto simp del: set_rev)
    then show ?thesis using each by auto
  qed
  have "positions_unique (coins base c ++ added (undo_items ?L))" using R(1) assms(2,3) by (simp add: tx_fits_def)
  then have allowed: "all_allowed map_step op_strict (adds (undo_items ?L)) (coins base c)"
    using items by (intro adds_allowed [OF R(2)]) blast+
  have "map (\<lambda>(i, u). okey_of (prevout i)) ?L = map fst (undo_items ?L)"
    unfolding undo_items_def map_map comp_def by (simp add: case_prod_beta)
  then have dist: "distinct (map (\<lambda>(i, u). okey_of (prevout i)) ?L)" using R(2) by simp
  have "\<forall>(i, u) \<in> set ?L. coins base c (okey_of (prevout i)) = None \<and> coin_nHeight (fst u) \<noteq> 0 \<and>
      \<not> txout_IsUnspendable (coin_out (fst u))" using each by blast
  from undo_inputs_sim [OF assms(1) allowed dist this, of fClean]
  obtain c' where c': "undo_inputs base ?L fClean c = Inr (c', Some fClean)" "cache_good base c'"
    "coins base c' = fst (spec_steps map_step (adds (undo_items ?L)) (coins base c))" by blast
  have "coins base c' = m" unfolding c'(3) adds_spec [OF R(2)] using R(1) assms(3) by simp
  then show ?thesis using c'(1,2) by blast
qed

lemma DisconnectTx_sim:
  assumes "cache_good base c" "ComputeHash tx = Inr hb" "tx_fits m tx (txid_of hb) h idx" "coins base c = tx_map tx (txid_of hb) h idx m"
    "tx_undoable m first tx" "map (\<lambda>u. Some (fst u)) undos = map m (in_keys tx)"
  obtains c' where "DisconnectTx base tx (if first then None else Some undos) fClean c = Inr (c', Some fClean)"
    "cache_good base c'" "coins base c' = m"
proof -
  have known: "\<forall>out \<in> set (vout tx). known_output out" using assms(5) by (simp add: tx_undoable_def)
  obtain c1 where c1: "undo_outputs base (txid_of hb) 0 (vout tx) fClean c = Inr (c1, fClean)" "cache_good base c1"
    "coins base c1 = m |` (- set (in_keys tx))"
    by (rule DisconnectTx_outputs [OF assms(1,3,4) known])
  show thesis
  proof (cases first)
    case True
    then have "in_keys tx = []" using assms(5) by (simp add: tx_undoable_def)
    then have "coins base c1 = m" using c1(3) by (simp add: restrict_map_def)
    then show ?thesis using that True c1(1,2) assms(2) by (simp add: DisconnectTx_def)
  next
    case False
    have len: "length undos = length (spent_inputs tx)" using arg_cong [OF assms(6), of length] by (simp add: in_keys_def)
    obtain c2 where c2: "undo_inputs base (rev (zip (spent_inputs tx) undos)) fClean c1 = Inr (c2, Some fClean)" "cache_good base c2" "coins base c2 = m"
      using undo_inputs_restore [OF c1(2) assms(3) c1(3) assms(6,5), of fClean] by blast
    have "DisconnectTx base tx (Some undos) fClean c = Inr (c2, Some fClean)"
      using DisconnectTx_inputs [OF _ len, of m base fClean c] False assms(2,5) c1(1) c2(1) by simp
    then show ?thesis using that False c2 by simp
  qed
qed

section \<open>Connecting and disconnecting a block\<close>

fun block_fits :: "(okey \<rightharpoonup> Coin) \<Rightarrow> u32 \<Rightarrow> nat \<Rightarrow> CTransaction list \<Rightarrow> bool" where
  "block_fits m h i [] = True"
| "block_fits m h i (tx # txs) =
     (case ComputeHash tx of
        Inl e \<Rightarrow> False
      | Inr hb \<Rightarrow> tx_fits m tx (txid_of hb) h (word_of_nat i) \<and> tx_undoable m (i = 0) tx \<and>
                 block_fits (tx_map tx (txid_of hb) h (word_of_nat i) m) h (i + 1) txs)"

lemma disconnect_txs_append:
  "disconnect_txs base (xs @ ys) fClean c =
     bind_e (disconnect_txs base xs fClean c) (\<lambda>(c, r). case r of None \<Rightarrow> Inr (c, None) | Some fClean \<Rightarrow> disconnect_txs base ys fClean c)"
proof (induction base xs fClean c rule: disconnect_txs.induct)
  case (2 base tx undo rest fClean c)
  show ?case
  proof (cases "DisconnectTx base tx undo fClean c")
    case (Inr p)
    then show ?thesis using "2.IH" by (cases p; cases "snd p") auto
  qed simp
qed simp

text \<open>Taking back, from any cache with the coins of \<open>m'\<close>, the transactions with their undo records.\<close>

definition takes_back ::
  "coins_view \<Rightarrow> (CTransaction \<times> (Coin \<times> uint256) list option) list \<Rightarrow> (okey \<rightharpoonup> Coin) \<Rightarrow> (okey \<rightharpoonup> Coin) \<Rightarrow> bool" where
  "takes_back base txs m' m \<longleftrightarrow> (\<forall>c fClean. cache_good base c \<and> coins base c = m' \<longrightarrow>
     (\<exists>c'. disconnect_txs base txs fClean c = Inr (c', Some fClean) \<and> cache_good base c' \<and> coins base c' = m))"

lemma takes_back_append:
  assumes "takes_back base xs m1 m2" "takes_back base ys m2 m3"
  shows "takes_back base (xs @ ys) m1 m3"
  unfolding takes_back_def
proof (intro allI impI)
  fix c fClean assume "cache_good base c \<and> coins base c = m1"
  then obtain c1 where 1: "disconnect_txs base xs fClean c = Inr (c1, Some fClean)" "cache_good base c1 \<and> coins base c1 = m2"
    using assms(1) unfolding takes_back_def by blast
  then obtain c2 where "disconnect_txs base ys fClean c1 = Inr (c2, Some fClean)" "cache_good base c2 \<and> coins base c2 = m3"
    using assms(2) unfolding takes_back_def by blast
  then show "\<exists>c'. disconnect_txs base (xs @ ys) fClean c = Inr (c', Some fClean) \<and> cache_good base c' \<and> coins base c' = m3"
    using 1(1) by (simp add: disconnect_txs_append)
qed

lemma takes_back_one:
  assumes "ComputeHash tx = Inr hb" "tx_fits m tx (txid_of hb) h idx" "tx_undoable m first tx" "map (\<lambda>u. Some (fst u)) undos = map m (in_keys tx)"
  shows "takes_back base [(tx, if first then None else Some undos)] (tx_map tx (txid_of hb) h idx m) m"
  unfolding takes_back_def
proof (intro allI impI)
  fix c fClean assume c: "cache_good base c \<and> coins base c = tx_map tx (txid_of hb) h idx m"
  then have "cache_good base c" "coins base c = tx_map tx (txid_of hb) h idx m" by blast+
  from DisconnectTx_sim [OF this(1) assms(1,2) this(2) assms(3,4), of fClean]
  obtain c' where "DisconnectTx base tx (if first then None else Some undos) fClean c = Inr (c', Some fClean)"
    "cache_good base c'" "coins base c' = m" by blast
  then show "\<exists>c'. disconnect_txs base [(tx, if first then None else Some undos)] fClean c = Inr (c', Some fClean) \<and>
      cache_good base c' \<and> coins base c' = m" by simp
qed

definition undo_records :: "nat \<Rightarrow> (Coin \<times> uint256) list list \<Rightarrow> (Coin \<times> uint256) list option list" where
  "undo_records i undos = (if i = 0 then None # map Some undos else map Some undos)"

lemma connect_txs_sim:
  assumes "cache_good base c" "block_fits (coins base c) h i txs" "txs \<noteq> [] \<or> i \<noteq> 0"
  shows "\<exists>c' undos. connect_txs base h i txs c = Inr (c', undos) \<and> cache_good base c' \<and> length (undo_records i undos) = length txs \<and>
    takes_back base (rev (zip txs (undo_records i undos))) (coins base c') (coins base c)"
  using assms
proof (induction txs arbitrary: c i)
  case Nil
  then show ?case by (auto simp: takes_back_def undo_records_def)
next
  case (Cons tx txs)
  obtain hb where hb: "ComputeHash tx = Inr hb" "tx_fits (coins base c) tx (txid_of hb) h (word_of_nat i)" "tx_undoable (coins base c) (i = 0) tx"
    "block_fits (tx_map tx (txid_of hb) h (word_of_nat i) (coins base c)) h (i + 1) txs"
    using Cons.prems(2) by (auto split: sum.splits)
  obtain c1 undo where c1: "UpdateCoins base tx h (word_of_nat i) c = Inr (c1, undo)" "cache_good base c1"
    "coins base c1 = tx_map tx (txid_of hb) h (word_of_nat i) (coins base c)" "map (\<lambda>u. Some (fst u)) undo = map (coins base c) (in_keys tx)"
    by (rule UpdateCoins_sim [OF Cons.prems(1) hb(1,2)])
  obtain c' undos where c': "connect_txs base h (i + 1) txs c1 = Inr (c', undos)" "cache_good base c'"
    "length (undo_records (i + 1) undos) = length txs" "takes_back base (rev (zip txs (undo_records (i + 1) undos))) (coins base c') (coins base c1)"
    using Cons.IH [of c1 "i + 1"] c1(2,3) hb(4) by auto
  let ?undos = "if i = 0 then undos else undo # undos"
  have rec: "undo_records i ?undos = (if i = 0 then None else Some undo) # undo_records (i + 1) undos" by (simp add: undo_records_def)
  have "takes_back base (rev (zip (tx # txs) (undo_records i ?undos))) (coins base c') (coins base c)"
    unfolding rec zip_Cons_Cons rev.simps
    using takes_back_append [OF c'(4)] takes_back_one [OF hb(1-3) c1(4), of base] c1(3) by simp
  moreover have "connect_txs base h i (tx # txs) c = Inr (c', ?undos)" using c1(1) c'(1) by simp
  moreover have "length (undo_records i ?undos) = length (tx # txs)" unfolding rec using c'(3) by simp
  ultimately show ?case using c'(2) by blast
qed

lemma cache_SetBestBlock_good: "cache_good base (cache_SetBestBlock b c) = cache_good base c" "coins base (cache_SetBestBlock b c) = coins base c"
  by (simp_all add: cache_SetBestBlock_def cache_inv_def refs_ok_def coins_def fun_eq_iff)

section \<open>Properties\<close>


text \<open>A block whose second transaction spends the reward of the first.\<close>

definition tx_hash_of :: "CTransaction \<Rightarrow> uint256" where
  "tx_hash_of tx = (case ComputeHash tx of Inr b \<Rightarrow> txid_of b | Inl e \<Rightarrow> 0)"

definition reward_tx :: CTransaction where
  "reward_tx = (CTransaction_new 1)\<lparr>vin := [CTxIn_default], vout := [\<lparr>nValue = 50, txout = ScriptLegacyOutput [0x51]\<rparr>]\<rparr>"

definition spend_tx :: CTransaction where
  "spend_tx = (CTransaction_new 1)\<lparr>vin := [CTxIn_default\<lparr>prevout := COutPoint_hash (tx_hash_of reward_tx) 0\<rparr>],
     vout := [\<lparr>nValue = 49, txout = ScriptLegacyOutput []\<rparr>]\<rparr>"

lemma example_hashes:
  "\<exists>b. ComputeHash reward_tx = Inr b \<and> tx_hash_of reward_tx = txid_of b" "\<exists>b. ComputeHash spend_tx = Inr b"
  by (simp_all add: tx_hash_of_def ComputeHash_def SerializeTransaction_def SerializeTransactionOld_def reward_tx_def spend_tx_def
      CTransaction_new_def IsOldTransactionVersion_def txout_Write_def txout_GetType_def)

lemma example_block_simps:
  "IsCoinBase reward_tx" "\<not> IsPoW2WitnessCoinBase reward_tx" "\<not> IsCoinBase spend_tx" "\<not> IsPoW2WitnessCoinBase spend_tx"
  "in_keys reward_tx = []" "in_keys spend_tx = [HashOut (tx_hash_of reward_tx) 0]" "list_all (\<lambda>i. \<not> outpoint_IsNull (prevout i)) (vin spend_tx)"
  "vout reward_tx = [\<lparr>nValue = 50, txout = ScriptLegacyOutput [0x51]\<rparr>]" "vout spend_tx = [\<lparr>nValue = 49, txout = ScriptLegacyOutput []\<rparr>]"
  by (simp_all add: reward_tx_def spend_tx_def CTransaction_new_def IsCoinBase_def IsPoW2WitnessCoinBase_def CTxIn_default_def
      COutPoint_null_def COutPoint_hash_def outpoint_IsNull_def in_keys_def spent_inputs_def okey_of_def UINT31_MAX_def)

lemma example_block_fits: "block_fits Map.empty 10 0 [reward_tx, spend_tx]"
proof -
  obtain b b' where h: "ComputeHash reward_tx = Inr b" "tx_hash_of reward_tx = txid_of b" "ComputeHash spend_tx = Inr b'"
    using example_hashes by blast
  let ?coin = "Coin_new \<lparr>nValue = 50, txout = ScriptLegacyOutput [0x51]\<rparr> 10 0 True (\<not> IsOldTransactionVersion (nVersion reward_tx))"
  have m: "tx_map reward_tx (txid_of b) 10 0 Map.empty = [HashOut (txid_of b) 0 \<mapsto> ?coin]"
    by (simp add: tx_map_def example_block_simps added_Cons Coin_new_def txout_IsUnspendable_def IsUnspendable_def)
  have "tx_fits Map.empty reward_tx (txid_of b) 10 0" "tx_undoable Map.empty True reward_tx"
    by (simp_all add: tx_fits_def tx_undoable_def example_block_simps positions_unique_def txout_IsNull_def known_output_def)
  moreover have "tx_fits [HashOut (txid_of b) 0 \<mapsto> ?coin] spend_tx (txid_of b') 10 1"
    using h(2) by (auto simp: tx_fits_def example_block_simps positions_unique_def txout_IsNull_def Coin_new_def split: if_splits)
  moreover have "tx_undoable [HashOut (txid_of b) 0 \<mapsto> ?coin] False spend_tx"
    using h(2) by (auto simp: tx_undoable_def example_block_simps known_output_def Coin_new_def txout_IsUnspendable_def IsUnspendable_def
        coin_IsSpent_def txout_IsNull_def)
  ultimately show ?thesis using h m by simp
qed


end
