(* ===== verification/Tx_Value.thy ===== *)
theory Tx_Value
  imports Tx_Undo
begin

text \<open>
  What the transaction checks and the updates of the coins guarantee together: an accepted transaction
  spends existing, mature coins and creates no value, as long as its inputs name their coins by hash. A
  transaction that names one coin both by hash and by position passes the same checks.
\<close>

section \<open>Lookups\<close>

lemma AccessCoin_good:
  assumes "cache_good base c" "positions_unique (coins base c)" "is_HashOut k"
  shows "\<exists>c' coin. AccessCoin base k c = Inr (c', coin) \<and> cache_good base c' \<and> coins base c' = coins base c \<and>
    unspent (Some coin) = coins base c k"
proof -
  obtain c' r where f: "FetchCoin base False k c = Inr (c', r)" "refs_ok c'"
    using FetchCoin_refs [of base c k False] assms by auto
  then obtain coin where "AccessCoin base k c = Inr (c', coin)" by (simp add: AccessCoin_def)
  then show ?thesis using AccessCoin_sim [of base c k c' coin] assms f(2) by blast
qed

lemma okey_of_hash [simp]: "isHash out \<Longrightarrow> is_HashOut (okey_of out)"
  by (simp add: okey_of_def)

lemma have_inputs_good:
  assumes "cache_good base c" "positions_unique (coins base c)" "\<forall>i \<in> set ins. isHash (prevout i)"
  shows "\<exists>c' have. have_inputs base tx ins c = Inr (c', have) \<and> cache_good base c' \<and> coins base c' = coins base c"
  using assms
proof (induction ins arbitrary: c)
  case (Cons i ins)
  obtain c1 where c1: "HaveCoin base (okey_of (prevout i)) c = Inr (c1, coins base c (okey_of (prevout i)) \<noteq> None)"
    "cache_good base c1" "coins base c1 = coins base c"
    using HaveCoin_sim [OF Cons.prems(1,2), of "okey_of (prevout i)"] Cons.prems(3) by auto
  then show ?case using Cons.IH [OF c1(2)] Cons.prems(2,3) by (auto simp: c1 intro: exI [of Not False])
qed auto

lemma witness_inputs_good:
  assumes "cache_good base c" "positions_unique (coins base c)" "\<forall>i \<in> set ins. isHash (prevout i)"
  shows "\<exists>c' have. witness_inputs base ins c = Inr (c', have) \<and> cache_good base c' \<and> coins base c' = coins base c"
  using assms
proof (induction ins arbitrary: c)
  case (Cons i ins)
  obtain c1 where c1: "HaveCoin base (okey_of (prevout i)) c = Inr (c1, coins base c (okey_of (prevout i)) \<noteq> None)"
    "cache_good base c1" "coins base c1 = coins base c"
    using HaveCoin_sim [OF Cons.prems(1,2), of "okey_of (prevout i)"] Cons.prems(3) by auto
  then show ?case using Cons.IH [OF c1(2)] Cons.IH [OF Cons.prems(1)] Cons.prems(2,3) by (auto simp: c1 intro: exI [of Not False])
qed auto

section \<open>The values of the inputs\<close>

definition coin_value :: "(okey \<rightharpoonup> Coin) \<Rightarrow> okey \<Rightarrow> int" where
  "coin_value m k = (case m k of Some coin \<Rightarrow> nValue (coin_out coin) | None \<Rightarrow> 0)"

definition checked_inputs :: "bool \<Rightarrow> CTxIn list \<Rightarrow> CTxIn list" where
  "checked_inputs witnessCoinBase ins = filter (\<lambda>i. \<not> (outpoint_IsNull (prevout i) \<and> witnessCoinBase)) ins"

definition spendable_at :: "chain_params \<Rightarrow> int \<Rightarrow> Coin \<Rightarrow> bool" where
  "spendable_at params height coin \<longleftrightarrow>
     MoneyRange (nValue (coin_out coin)) \<and> (fCoinBase coin \<longrightarrow> uint (coin_nHeight coin) + COINBASE_MATURITY params \<le> height)"

lemma depth_exact:
  assumes "0 \<le> height" "height < 2 ^ 31"
  shows "i32 (height - uint (h :: 30 word)) = height - uint h"
proof (rule i32_id)
  obtain x where x: "x = uint h" "x < 2 ^ 30" "0 \<le> x" using uint_bounded [of h] by simp
  then show "in_i32 (height - uint h)" using assms unfolding in_i32_def x(1) [symmetric] by simp
qed

lemma tx_require_simps [simp]: "tx_require True f = Inr ()" "tx_require False f = Inl f"
  by (simp_all add: tx_require_def)

lemma input_values_sim:
  assumes "cache_good base c" "positions_unique (coins base c)" "\<forall>i \<in> set ins. isHash (prevout i)" "0 \<le> height" "height < 2 ^ 31"
    "MoneyRange acc" "input_values params base w height acc ins c = Inr (c', v)"
  shows "cache_good base c' \<and> coins base c' = coins base c \<and> MoneyRange v \<and>
    v = acc + (\<Sum>i \<leftarrow> checked_inputs w ins. coin_value (coins base c) (okey_of (prevout i))) \<and>
    (\<forall>i \<in> set (checked_inputs w ins). \<exists>coin. coins base c (okey_of (prevout i)) = Some coin \<and> spendable_at params height coin)"
  using assms
proof (induction ins arbitrary: c acc)
  case (Cons i ins)
  show ?case
  proof (cases "outpoint_IsNull (prevout i) \<and> w")
    case True
    then show ?thesis using Cons.IH [OF Cons.prems(1,2)] Cons.prems by (simp add: checked_inputs_def)
  next
    case False
    let ?k = "okey_of (prevout i)"
    obtain c1 coin where c1: "AccessCoin base ?k c = Inr (c1, coin)" "cache_good base c1" "coins base c1 = coins base c"
      "unspent (Some coin) = coins base c ?k"
      using AccessCoin_good [OF Cons.prems(1,2), of ?k] Cons.prems(3) by auto
    let ?v = "i64 (acc + nValue (coin_out coin))"
    have step: "\<not> coin_IsSpent coin" "fCoinBase coin \<longrightarrow> \<not> i32 (height - uint (coin_nHeight coin)) < COINBASE_MATURITY params"
      "MoneyRange (nValue (coin_out coin))" "MoneyRange ?v" "input_values params base w height ?v ins c1 = Inr (c', v)"
      using Cons.prems(3,7) False c1(1) by (auto simp: exn_simps Let_def split: if_splits)
    have m: "coins base c ?k = Some coin" using c1(4) step(1) by (simp split: if_splits)
    have v: "?v = acc + nValue (coin_out coin)" using MoneyRange_in_i64 [OF Cons.prems(6) step(3)] by simp
    have "spendable_at params height coin"
      using step(2,3) depth_exact [OF Cons.prems(4,5)] by (auto simp: spendable_at_def)
    then show ?thesis
      using Cons.IH [OF c1(2) _ _ Cons.prems(4,5) step(4,5)] Cons.prems(2,3) c1(3) False m v
      by (auto simp: checked_inputs_def coin_value_def)
  qed
qed (simp add: checked_inputs_def)

lemma CheckTxInputs_sim:
  assumes "cache_good base c" "positions_unique (coins base c)" "\<forall>i \<in> set (vin tx). isHash (prevout i)" "0 \<le> height" "height < 2 ^ 31"
    "CheckTxInputs params base tx height bundles c = Inr (c', fee)"
  shows "cache_good base c'" "coins base c' = coins base c" "0 \<le> fee" "MoneyRange fee"
    "\<forall>i \<in> set (checked_inputs (IsPoW2WitnessCoinBase tx) (vin tx)).
       \<exists>coin. coins base c (okey_of (prevout i)) = Some coin \<and> spendable_at params height coin"
    "fee = (\<Sum>i \<leftarrow> checked_inputs (IsPoW2WitnessCoinBase tx) (vin tx). coin_value (coins base c) (okey_of (prevout i))) - positive_value (vout tx)"
    "\<exists>penalty. penalty_fee 0 (case bundles of None \<Rightarrow> [] | Some bs \<Rightarrow> bs) = Inr penalty \<and> penalty \<le> fee"
proof -
  have m0: "MoneyRange 0" by (simp add: MoneyRange_def MAX_MONEY_def COIN_def)
  obtain c1 have' v where 1: "(if IsPoW2WitnessCoinBase tx then witness_inputs base (vin tx) c else HaveInputs base tx c) = Inr (c1, have')"
    "input_values params base (IsPoW2WitnessCoinBase tx) height 0 (vin tx) c1 = Inr (c', v)"
    "\<exists>penalty. penalty_fee 0 (case bundles of None \<Rightarrow> [] | Some bs \<Rightarrow> bs) = Inr penalty \<and> penalty \<le> fee"
    "value_out 0 (vout tx) = Inr (positive_value (vout tx))" "MoneyRange (positive_value (vout tx))"
    "fee = i64 (v - positive_value (vout tx))" "0 \<le> fee" "MoneyRange fee"
    using assms(6) m0
    by (auto simp: CheckTxInputs_def GetValueOut_def value_out_sum exn_simps Let_def not_less split: if_splits)
  have c1: "cache_good base c1" "coins base c1 = coins base c"
    using 1(1) witness_inputs_good [OF assms(1-3)] have_inputs_good [OF assms(1-3), of tx] assms(1)
    by (auto simp: HaveInputs_def split: if_splits)
  note I = input_values_sim [OF c1(1) _ assms(3-5) m0 1(2)]
  have v: "MoneyRange v" using I c1(2) assms(2) by metis
  then have "in_i64 (v - positive_value (vout tx))" using 1(5) by (simp add: MoneyRange_def in_i64_def MAX_MONEY_def COIN_def)
  then have "fee = v - positive_value (vout tx)" using 1(6) by simp
  then show "fee = (\<Sum>i \<leftarrow> checked_inputs (IsPoW2WitnessCoinBase tx) (vin tx). coin_value (coins base c) (okey_of (prevout i))) - positive_value (vout tx)"
    "cache_good base c'" "coins base c' = coins base c" "0 \<le> fee" "MoneyRange fee"
    "\<forall>i \<in> set (checked_inputs (IsPoW2WitnessCoinBase tx) (vin tx)).
       \<exists>coin. coins base c (okey_of (prevout i)) = Some coin \<and> spendable_at params height coin"
    "\<exists>penalty. penalty_fee 0 (case bundles of None \<Rightarrow> [] | Some bs \<Rightarrow> bs) = Inr penalty \<and> penalty \<le> fee"
    using I c1(2) assms(2) 1(3,7,8) by auto
qed

section \<open>The total value of a set of coins\<close>

definition utxo_value :: "(okey \<rightharpoonup> Coin) \<Rightarrow> int" where
  "utxo_value m = (\<Sum>k \<in> dom m. coin_value m k)"

lemma utxo_value_restrict:
  assumes "finite (dom m)" "distinct ks" "\<forall>k \<in> set ks. m k \<noteq> None"
  shows "utxo_value (m |` (- set ks)) = utxo_value m - (\<Sum>k \<leftarrow> ks. coin_value m k)"
proof -
  have sub: "set ks \<subseteq> dom m" using assms(3) by auto
  have "utxo_value (m |` (- set ks)) = (\<Sum>k \<in> dom m - set ks. coin_value m k)"
    unfolding utxo_value_def by (rule sum.cong) (auto simp: coin_value_def restrict_map_def split: if_splits)
  also have "\<dots> = utxo_value m - (\<Sum>k \<in> set ks. coin_value m k)"
    unfolding utxo_value_def using assms(1) sub by (simp add: sum_diff)
  also have "(\<Sum>k \<in> set ks. coin_value m k) = (\<Sum>k \<leftarrow> ks. coin_value m k)"
    using assms(2) by (simp add: sum_list_distinct_conv_sum_set)
  finally show ?thesis .
qed

lemma utxo_value_add:
  assumes "finite (dom m)" "finite (dom m')" "dom m \<inter> dom m' = {}"
  shows "utxo_value (m ++ m') = utxo_value m + utxo_value m'"
proof -
  have "utxo_value (m ++ m') = (\<Sum>k \<in> dom m. coin_value (m ++ m') k) + (\<Sum>k \<in> dom m'. coin_value (m ++ m') k)"
    unfolding utxo_value_def dom_map_add using assms by (subst sum.union_disjoint [symmetric]) (auto simp: Un_commute)
  also have "(\<Sum>k \<in> dom m. coin_value (m ++ m') k) = utxo_value m"
    unfolding utxo_value_def using assms(3) by (intro sum.cong) (auto simp: coin_value_def map_add_def split: option.splits)
  also have "(\<Sum>k \<in> dom m'. coin_value (m ++ m') k) = utxo_value m'"
    unfolding utxo_value_def by (rule sum.cong) (auto simp: coin_value_def map_add_def)
  finally show ?thesis .
qed

lemma finite_added: "finite (dom (added xs))"
  by (rule finite_subset [OF dom_added]) simp

lemma utxo_value_added:
  "distinct (map fst xs) \<Longrightarrow> utxo_value (added xs) = (\<Sum>x \<leftarrow> filter spendable xs. nValue (coin_out (fst (snd x))))"
proof (induction xs)
  case Nil
  then show ?case by (simp add: utxo_value_def)
next
  case (Cons x xs)
  obtain k coin ov where x: "x = (k, coin, ov)" by (cases x)
  show ?case
  proof (cases "txout_IsUnspendable (coin_out coin)")
    case True
    then show ?thesis using Cons x by (simp add: added_Cons spendable_def)
  next
    case False
    have k: "k \<notin> dom (added xs)" using dom_added [of xs] Cons.prems x by auto
    then have "(added xs)(k \<mapsto> coin) = added xs ++ [k \<mapsto> coin]" by simp
    then have "utxo_value (added (x # xs)) = utxo_value (added xs) + utxo_value [k \<mapsto> coin]"
      using utxo_value_add [OF finite_added [of xs], of "[k \<mapsto> coin]"] k False x by (simp add: added_Cons)
    then show ?thesis using Cons x False by (simp add: spendable_def utxo_value_def coin_value_def)
  qed
qed

definition burnt_value :: "CTxOut list \<Rightarrow> int" where
  "burnt_value outs = (\<Sum>out \<leftarrow> filter txout_IsUnspendable outs. nValue out)"

lemma out_items_value:
  "(\<Sum>x \<leftarrow> filter spendable (out_items txid tx h idx i outs). nValue (coin_out (fst (snd x)))) + burnt_value outs = (\<Sum>out \<leftarrow> outs. nValue out)"
  by (induction txid tx h idx i outs rule: out_items.induct) (auto simp: burnt_value_def spendable_def Coin_new_def)

lemma utxo_value_tx_map:
  assumes "tx_fits m tx txid h idx" "finite (dom m)"
  shows "utxo_value (tx_map tx txid h idx m) = utxo_value m - (\<Sum>k \<leftarrow> in_keys tx. coin_value m k) + (\<Sum>out \<leftarrow> vout tx. nValue out) - burnt_value (vout tx)"
proof -
  let ?m = "m |` (- set (in_keys tx))" and ?items = "out_items txid tx h idx 0 (vout tx)"
  have dist: "distinct (map fst ?items)" using assms(1) out_items_distinct [of 0 "vout tx"] by (simp add: tx_fits_def)
  have "k \<notin> dom (added ?items)" if "k \<in> dom ?m" for k
  proof
    assume "k \<in> dom (added ?items)"
    then obtain n where "k = HashOut txid n" using added_mem out_items_mem by blast
    then show False using assms(1) that by (auto simp: tx_fits_def restrict_map_def split: if_splits)
  qed
  then have "utxo_value (tx_map tx txid h idx m) = utxo_value ?m + utxo_value (added ?items)"
    unfolding tx_map_def using assms(2) finite_added by (intro utxo_value_add) auto
  moreover have "utxo_value ?m = utxo_value m - (\<Sum>k \<leftarrow> in_keys tx. coin_value m k)"
    using assms by (intro utxo_value_restrict) (auto simp: tx_fits_def)
  ultimately show ?thesis using utxo_value_added [OF dist] out_items_value [of txid tx h idx 0 "vout tx"] by simp
qed

section \<open>What the checks without context establish\<close>

lemma check_values_nonneg: "check_values acc outs = Inr () \<Longrightarrow> \<forall>out \<in> set outs. 0 \<le> nValue out"
  by (induction acc outs rule: check_values.induct) (auto simp: Let_def split: if_splits)

lemma positive_value_sum: "\<forall>out \<in> set outs. 0 \<le> nValue out \<Longrightarrow> positive_value outs = (\<Sum>out \<leftarrow> outs. nValue out)"
  by (induction outs) (simp_all add: positive_value_def)

lemma outpoint_less_same: "okey_of a = okey_of b \<Longrightarrow> \<not> outpoint_less a b"
  by (auto simp: okey_of_def outpoint_less_def split: if_splits)

lemma check_duplicates_distinct:
  "check_duplicates seen ins = Inr () \<Longrightarrow>
   distinct (map (\<lambda>i. okey_of (prevout i)) ins) \<and> okey_of ` set seen \<inter> (\<lambda>i. okey_of (prevout i)) ` set ins = {}"
proof (induction seen ins rule: check_duplicates.induct)
  case (2 seen i ins)
  then have rest: "check_duplicates (prevout i # seen) ins = Inr ()"
    and new: "\<And>x. x \<in> set seen \<Longrightarrow> outpoint_less x (prevout i) \<or> outpoint_less (prevout i) x"
    by (auto simp: list_ex_iff split: if_splits)
  have "okey_of x \<noteq> okey_of (prevout i)" if "x \<in> set seen" for x
    using new [OF that] outpoint_less_same [of x "prevout i"] outpoint_less_same [of "prevout i" x] by auto
  then have "okey_of (prevout i) \<notin> okey_of ` set seen" by (metis imageE)
  then show ?case using "2.IH" rest "2.prems" by (simp split: if_splits)
qed simp

lemma WriteLE64_nonempty: "WriteLE64 x \<noteq> []"
proof
  assume "WriteLE64 x = []"
  then have "length (WriteLE64 x) = 0" by simp
  then show False by simp
qed

lemma write_outputs_size: "write_outputs v outs = Inr b \<Longrightarrow> length outs \<le> length b"
proof (induction outs arbitrary: b)
  case (Cons out outs)
  then obtain b1 b2 where b: "txout_Write v out = Inr b1" "write_outputs v outs = Inr b2" "b = b1 @ b2" by (auto simp: exn_simps)
  have "0 < length b1" using b(1) by (auto simp: txout_Write_def Let_def ser_writedata64_def WriteLE64_nonempty split: if_splits)
  then show ?case using Cons.IH [OF b(2)] b(3) by (cases b1) simp_all
qed simp

lemma SerializeTransaction_outputs:
  assumes "SerializeTransaction segsig tx = Inr b"
  obtains outs where "write_outputs (nVersion tx) (vout tx) = Inr outs" "length outs \<le> length b"
proof (cases "write_outputs (nVersion tx) (vout tx)")
  case (Inl e)
  then show ?thesis
    using assms by (cases "IsOldTransactionVersion (nVersion tx)") (simp_all add: SerializeTransaction_def SerializeTransactionOld_def Let_def)
next
  case (Inr outs)
  then have "length outs \<le> length b"
    using assms by (cases "IsOldTransactionVersion (nVersion tx)") (auto simp: SerializeTransaction_def SerializeTransactionOld_def Let_def)
  then show ?thesis using that Inr by blast
qed

lemma SerializeTransaction_size: "SerializeTransaction segsig tx = Inr b \<Longrightarrow> length (vout tx) \<le> length b"
  by (metis SerializeTransaction_outputs write_outputs_size le_trans)

lemma ComputeHash_total: "SerializeTransaction segsig tx = Inr b \<Longrightarrow> \<exists>hb. ComputeHash tx = Inr hb \<and> tx_hash_of tx = txid_of hb"
  by (erule SerializeTransaction_outputs, cases "IsOldTransactionVersion (nVersion tx)")
    (simp_all add: tx_hash_of_def ComputeHash_def SerializeTransaction_def SerializeTransactionOld_def Let_def)

lemma CheckTransaction_facts:
  assumes "CheckTransaction tx True = Inr ()" "\<not> IsCoinBase tx"
  shows "\<forall>out \<in> set (vout tx). 0 \<le> nValue out" "distinct (map (\<lambda>i. okey_of (prevout i)) (vin tx))" "length (vout tx) \<le> 1000000"
    "\<exists>hb. ComputeHash tx = Inr hb \<and> tx_hash_of tx = txid_of hb" "\<forall>i \<in> set (vin tx). \<not> outpoint_IsNull (prevout i)"
proof -
  obtain b where b: "SerializeTransaction False tx = Inr b" "length b \<le> 1000000" "check_values 0 (vout tx) = Inr ()"
    "check_duplicates [] (vin tx) = Inr ()" "list_all (\<lambda>i. \<not> outpoint_IsNull (prevout i)) (vin tx)"
    using assms by (auto simp: CheckTransaction_def MAX_BLOCK_BASE_SIZE_def exn_simps)
  show "\<forall>out \<in> set (vout tx). 0 \<le> nValue out" using check_values_nonneg [OF b(3)] .
  show "distinct (map (\<lambda>i. okey_of (prevout i)) (vin tx))" using check_duplicates_distinct [OF b(4)] by simp
  show "length (vout tx) \<le> 1000000" using SerializeTransaction_size [OF b(1)] b(2) by simp
  show "\<exists>hb. ComputeHash tx = Inr hb \<and> tx_hash_of tx = txid_of hb" using ComputeHash_total [OF b(1)] .
  show "\<forall>i \<in> set (vin tx). \<not> outpoint_IsNull (prevout i)" using b(5) by (simp add: list_all_iff)
qed

section \<open>Example transactions\<close>

definition pay_tx :: CTransaction where
  "pay_tx = (CTransaction_new 5)\<lparr>vin := [CTxIn_default\<lparr>prevout := COutPoint_hash 7 0\<rparr>],
     vout := [\<lparr>nValue = 3, txout = StandardKeyHashOutput 9\<rparr>]\<rparr>"

definition double_tx :: CTransaction where
  "double_tx = (CTransaction_new 5)\<lparr>
     vin := [CTxIn_default\<lparr>prevout := COutPoint_hash 7 0\<rparr>, CTxIn_default\<lparr>nTypeAndFlags := 1, prevout := COutPoint_index 0 10 1 0\<rparr>],
     vout := [\<lparr>nValue = 10, txout = StandardKeyHashOutput 9\<rparr>]\<rparr>"

definition main_params :: chain_params where
  "main_params =
     \<lparr>fIsOfficialTestnetV1 = False, fIsTestnet = False, nPowTargetSpacing = 150, pow2Phase2FirstBlockHeight = 0,
      pow2Phase3FirstBlockHeight = 0, pow2Phase4FirstBlockHeight = 0, pow2Phase5FirstBlockHeight = 0,
      pow2WitnessSyncHeight = 0\<rparr>"

text \<open>The cache after the first lookup of the coin, which is then found by hash and by position.\<close>

definition fetched :: coins_cache where
  "fetched = CCoinsViewCache\<lparr>cacheCoins := [HashOut 7 0 \<mapsto> \<lparr>e_coin = example_utxo 10, e_dirty = False, e_fresh = False\<rparr>],
     cacheCoinRefs := [IndexOut 10 1 0 \<mapsto> HashOut 7 0]\<rparr>"

lemma example_utxo_fields [simp]:
  "coin_nHeight (example_utxo 10) = 10" "nTxIndex (example_utxo 10) = 1" "\<not> fCoinBase (example_utxo 10)" "nValue (coin_out (example_utxo 10)) = 5"
  "index_key (example_utxo 10) n = IndexOut 10 1 n" "\<not> in_mempool (example_utxo 10)" "\<not> coin_IsSpent (example_utxo 10)"
  by (simp_all add: example_utxo_def Coin_new_def index_key_def in_mempool_def MEMPOOL_INDEX_def coin_IsSpent_def txout_IsNull_def)

lemma fetched_cache [simp]:
  "cacheCoins fetched = [HashOut 7 0 \<mapsto> \<lparr>e_coin = example_utxo 10, e_dirty = False, e_fresh = False\<rparr>]"
  "cacheCoinRefs fetched = [IndexOut 10 1 0 \<mapsto> HashOut 7 0]"
  by (simp_all add: fetched_def)

lemma fetch_example [simp]:
  "FetchCoin example_base False (HashOut 7 0) CCoinsViewCache = Inr (fetched, Some (HashOut 7 0, Some (IndexOut 10 1 0)))"
  "FetchCoin example_base want (HashOut 7 0) fetched = Inr (fetched, Some (HashOut 7 0, if want then Some (IndexOut 10 1 0) else None))"
  "FetchCoin example_base want (IndexOut 10 1 0) fetched = Inr (fetched, Some (HashOut 7 0, Some (IndexOut 10 1 0)))"
  by (simp_all add: FetchCoin_def fetch_base_def example_base_def CCoinsViewCache_def fetched_def empty_entry_def Let_def MEMPOOL_HEIGHT_def MEMPOOL_INDEX_def)

lemma example_inputs [simp]:
  "vin pay_tx = [CTxIn_default\<lparr>prevout := COutPoint_hash 7 0\<rparr>]"
  "vin double_tx = [CTxIn_default\<lparr>prevout := COutPoint_hash 7 0\<rparr>, CTxIn_default\<lparr>nTypeAndFlags := 1, prevout := COutPoint_index 0 10 1 0\<rparr>]"
  "vout pay_tx = [\<lparr>nValue = 3, txout = StandardKeyHashOutput 9\<rparr>]" "vout double_tx = [\<lparr>nValue = 10, txout = StandardKeyHashOutput 9\<rparr>]"
  "okey_of (COutPoint_hash 7 0) = HashOut 7 0" "okey_of (COutPoint_index 0 10 1 0) = IndexOut 10 1 0"
  "\<not> outpoint_IsNull (COutPoint_hash 7 0)" "\<not> outpoint_IsNull (COutPoint_index 0 10 1 0)"
  "isHash (COutPoint_hash 7 0)" "\<not> isHash (COutPoint_index 0 10 1 0)"
  by (simp_all add: pay_tx_def double_tx_def okey_of_def COutPoint_hash_def COutPoint_index_def outpoint_IsNull_def UINT31_MAX_def
      prevBlock_blockNumber_def prevBlock_transactionIndex_def)

lemma example_not_coinbase [simp]:
  "\<not> IsCoinBase pay_tx" "\<not> IsPoW2WitnessCoinBase pay_tx" "\<not> IsCoinBase double_tx" "\<not> IsPoW2WitnessCoinBase double_tx"
  by (simp_all add: IsCoinBase_def IsPoW2WitnessCoinBase_def)

lemma example_sizes:
  "case SerializeTransaction False pay_tx of Inr b \<Rightarrow> length b = 58 | Inl e \<Rightarrow> False"
  "case SerializeTransaction False double_tx of Inr b \<Rightarrow> length b = 62 | Inl e \<Rightarrow> False"
  by code_simp+

lemma example_accepted: "CheckTransaction pay_tx True = Inr ()" "CheckTransaction double_tx True = Inr ()"
  using example_sizes
  by (auto simp: CheckTransaction_def MAX_BLOCK_BASE_SIZE_def MoneyRange_def MAX_MONEY_def COIN_def in_i64_def outpoint_less_def
      split: sum.splits)

lemma example_CheckTxInputs:
  "CheckTxInputs main_params example_base pay_tx 500 None CCoinsViewCache = Inr (fetched, 2)"
  "CheckTxInputs main_params example_base double_tx 500 None CCoinsViewCache = Inr (fetched, 0)"
  by (simp_all add: CheckTxInputs_def HaveInputs_def HaveCoin_def AccessCoin_def cached_coin_def GetValueOut_def COINBASE_MATURITY_def
      main_params_def MoneyRange_def MAX_MONEY_def COIN_def in_i64_def in_i32_def Let_def)

lemma example_base_good: "cache_good example_base CCoinsViewCache" "coins example_base CCoinsViewCache = [HashOut 7 0 \<mapsto> example_utxo 10]"
proof -
  have b: "base_coins example_base k = (if k = HashOut 7 0 \<or> k = IndexOut 10 1 0 then Some (example_utxo 10) else None)" for k
    by (simp add: base_coins_def example_base_def)
  show "cache_good example_base CCoinsViewCache" using empty_cache_inv b
    by (auto simp: base_ok_def base_unspent_def null_okey_def UINT31_MAX_def, auto simp: example_base_def split: if_splits)
  show "coins example_base CCoinsViewCache = [HashOut 7 0 \<mapsto> example_utxo 10]"
    by (rule ext) (auto simp: coins_def b CCoinsViewCache_def)
qed

lemma example_positions: "positions_unique [HashOut 7 0 \<mapsto> example_utxo 10]"
  by (auto simp: positions_unique_def split: if_splits)

section \<open>Properties\<close>

text \<open>
  C21. \<^verbatim>\<open>Consensus::CheckTxInputs\<close>, for inputs that name their coins by hash: the transaction it
  accepts spends coins that are there and unspent, each in the money range and, when it comes from a coinbase,
  as deep as \<^verbatim>\<open>COINBASE_MATURITY\<close>; the fee is the exact difference between the values of these
  coins and of the outputs, no overflow having been accepted, is in the money range and covers the penalty of
  the renewed witnesses. The coins are left as they were.
\<close>

theorem CheckTxInputs_sound:
  assumes "cache_good base c" "positions_unique (coins base c)" "\<forall>i \<in> set (vin tx). isHash (prevout i)" "0 \<le> height" "height < 2 ^ 31"
    "CheckTxInputs params base tx height bundles c = Inr (c', fee)"
  shows "coins base c' = coins base c \<and> MoneyRange fee \<and>
    fee = (\<Sum>i \<leftarrow> checked_inputs (IsPoW2WitnessCoinBase tx) (vin tx). coin_value (coins base c) (okey_of (prevout i))) -
          positive_value (vout tx) \<and>
    (\<forall>i \<in> set (checked_inputs (IsPoW2WitnessCoinBase tx) (vin tx)).
       \<exists>coin. coins base c (okey_of (prevout i)) = Some coin \<and> spendable_at params height coin) \<and>
    (\<exists>penalty. penalty_fee 0 (case bundles of None \<Rightarrow> [] | Some bs \<Rightarrow> bs) = Inr penalty \<and> penalty \<le> fee)"
  using CheckTxInputs_sim [OF assms] by blast

theorem CheckTxInputs_sound_witness:
  "CheckTxInputs main_params example_base pay_tx 500 None CCoinsViewCache = Inr (fetched, 2) \<and>
   coins example_base fetched = [HashOut 7 0 \<mapsto> example_utxo 10] \<and> spendable_at main_params 500 (example_utxo 10)"
  using CheckTxInputs_sound [OF example_base_good(1), of pay_tx 500 main_params None fetched 2] example_CheckTxInputs example_base_good(2)
    example_positions by (simp add: checked_inputs_def)

text \<open>
  C8. No transaction creates value. A transaction that is no coinbase, names its coins by hash and passes
  \<^verbatim>\<open>CheckTransaction\<close> and \<^verbatim>\<open>CheckTxInputs\<close>, and whose hash and position in the
  chain no other coin has, is applied by \<^verbatim>\<open>UpdateCoins\<close> without an exception, and the total value
  of the unspent coins then drops by exactly the fee and the outputs that cannot be spent.
\<close>

theorem accepted_transaction_conserves_value:
  assumes "cache_good base c" "positions_unique (coins base c)" "finite (dom (coins base c))"
    "\<forall>i \<in> set (vin tx). isHash (prevout i)" "\<not> IsCoinBase tx" "0 \<le> height" "height < 2 ^ 31"
    "CheckTransaction tx True = Inr ()" "CheckTxInputs params base tx height bundles c = Inr (c1, fee)"
    "\<forall>n. HashOut (tx_hash_of tx) n \<notin> set (in_keys tx) \<longrightarrow> coins base c (HashOut (tx_hash_of tx) n) = None"
    "\<forall>k coin. coins base c k = Some coin \<longrightarrow> coin_nHeight coin \<noteq> ucast h \<or> nTxIndex coin \<noteq> idx"
  shows "\<exists>c2 undos. UpdateCoins base tx h idx c1 = Inr (c2, undos) \<and> cache_good base c2 \<and> 0 \<le> fee \<and>
    utxo_value (coins base c2) + fee + burnt_value (vout tx) = utxo_value (coins base c)"
proof -
  note T = CheckTransaction_facts [OF assms(8,5)]
  note I = CheckTxInputs_sim [OF assms(1,2,4,6,7,9)]
  have w: "\<not> IsPoW2WitnessCoinBase tx" using assms(5) by (simp add: IsCoinBase_def)
  have ins: "spent_inputs tx = vin tx" "checked_inputs (IsPoW2WitnessCoinBase tx) (vin tx) = vin tx"
    using T(5) w assms(5) by (simp_all add: spent_inputs_def checked_inputs_def)
  obtain hb where hb: "ComputeHash tx = Inr hb" "tx_hash_of tx = txid_of hb" using T(4) by blast
  have "\<forall>k \<in> set (in_keys tx). is_HashOut k \<and> coins base c k \<noteq> None"
    using I(5) assms(4) ins by (fastforce simp: in_keys_def)
  moreover have "\<forall>out \<in> set (vout tx). \<not> txout_IsNull out" using T(1) by (force simp: txout_IsNull_def)
  ultimately have fits: "tx_fits (coins base c) tx (txid_of hb) h idx"
    using T(2,3) ins assms(2,10,11) hb(2) by (simp add: tx_fits_def in_keys_def)
  obtain c2 undos where c2: "UpdateCoins base tx h idx c1 = Inr (c2, undos)" "cache_good base c2"
    "coins base c2 = tx_map tx (txid_of hb) h idx (coins base c1)"
    using UpdateCoins_sim [OF I(1) hb(1)] fits I(2) by metis
  have "utxo_value (coins base c2) = utxo_value (coins base c) - (\<Sum>k \<leftarrow> in_keys tx. coin_value (coins base c) k) +
      (\<Sum>out \<leftarrow> vout tx. nValue out) - burnt_value (vout tx)"
    using utxo_value_tx_map [OF fits assms(3)] c2(3) I(2) by simp
  then show ?thesis using c2(1,2) I(3,6) ins positive_value_sum [OF T(1)] by (simp add: in_keys_def comp_def)
qed

theorem accepted_transaction_conserves_value_witness:
  "\<exists>c2 undos. UpdateCoins example_base pay_tx 500 3 fetched = Inr (c2, undos) \<and> utxo_value (coins example_base c2) + 2 = 5"
proof -
  have "utxo_value [HashOut 7 0 \<mapsto> example_utxo 10] = 5" by (simp add: utxo_value_def coin_value_def)
  moreover have "burnt_value (vout pay_tx) = 0" by (simp add: burnt_value_def txout_IsUnspendable_def)
  moreover have keys: "in_keys pay_tx = [HashOut 7 0]" by (simp add: in_keys_def spent_inputs_def)
  have "\<forall>n. HashOut (tx_hash_of pay_tx) n \<notin> set (in_keys pay_tx) \<longrightarrow> coins example_base CCoinsViewCache (HashOut (tx_hash_of pay_tx) n) = None"
    unfolding keys example_base_good(2) by simp
  moreover have "\<forall>k coin. coins example_base CCoinsViewCache k = Some coin \<longrightarrow> coin_nHeight coin \<noteq> ucast (500 :: u32) \<or> nTxIndex coin \<noteq> 3"
    unfolding example_base_good(2) by (auto split: if_splits)
  ultimately show ?thesis
    using accepted_transaction_conserves_value [OF example_base_good(1), of pay_tx 500 main_params None fetched 2 500 3]
      example_CheckTxInputs(1) example_base_good(2) example_positions example_accepted(1) by fastforce
qed

text \<open>
  C10. Value can be created with inputs by position. The duplicate check of \<^verbatim>\<open>CheckTransaction\<close>
  compares outpoints, and one coin has two of them, its hash and its position. A transaction that spends the
  only coin, worth 5, under both names and pays 10 passes \<^verbatim>\<open>CheckTransaction\<close> and
  \<^verbatim>\<open>CheckTxInputs\<close>, which counts the coin twice; \<^verbatim>\<open>UpdateCoins\<close> applies it, the
  second spend finding the entry that the first one emptied, and the coins are then worth 10.
\<close>

theorem double_reference_accepted:
  "utxo_value (coins example_base CCoinsViewCache) = 5 \<and> CheckTransaction double_tx True = Inr () \<and>
   CheckTxInputs main_params example_base double_tx 500 None CCoinsViewCache = Inr (fetched, 0) \<and>
   (\<exists>c2 undos. UpdateCoins example_base double_tx 500 3 fetched = Inr (c2, undos) \<and> utxo_value (coins example_base c2) = 10)"
proof -
  let ?e = "\<lparr>e_coin = coin_Spend (example_utxo 10), e_dirty = True, e_fresh = False\<rparr>"
  let ?k = "HashOut (tx_hash_of double_tx) 0" and ?coin = "Coin_new \<lparr>nValue = 10, txout = StandardKeyHashOutput 9\<rparr> 500 3 False True"
  define spent where "spent = fetched\<lparr>cacheCoins := [HashOut 7 0 \<mapsto> ?e]\<rparr>"
  have f: "\<not> coin_IsSpent ?coin" "\<not> txout_IsUnspendable (coin_out ?coin)" "\<not> in_mempool ?coin"
    by (simp_all add: Coin_new_def coin_IsSpent_def txout_IsNull_def txout_IsUnspendable_def in_mempool_def MEMPOOL_INDEX_def)
  have "SpendCoin example_base (HashOut 7 0) False fetched = Inr (spent, Some (example_utxo 10, 7))"
    by (simp add: SpendCoin_def spent_def Let_def)
  moreover have "FetchCoin example_base True (IndexOut 10 1 0) spent = Inr (spent, Some (HashOut 7 0, Some (IndexOut 10 1 0)))"
    by (simp add: FetchCoin_def spent_def MEMPOOL_HEIGHT_def MEMPOOL_INDEX_def)
  then obtain u where "SpendCoin example_base (IndexOut 10 1 0) False spent = Inr (spent, u)"
    by (simp add: SpendCoin_def spent_def Let_def coin_Spend_def txout_SetNull_def)
  ultimately obtain undos where u: "spend_inputs example_base (vin double_tx) fetched = Inr (spent, undos)" by simp
  obtain hb where hb: "ComputeHash double_tx = Inr hb" "tx_hash_of double_tx = txid_of hb"
    using ComputeHash_total example_sizes(2) by (fastforce split: sum.splits)
  have "index_key (coin_Spend (example_utxo 10)) 0 = IndexOut 10 1 0" by (simp add: index_key_def coin_Spend_def)
  then obtain rs where "drop_own_ref ?k spent = Inr rs"
    by (cases "?k = HashOut 7 0") (simp_all add: drop_own_ref_def spent_def Let_def)
  then obtain refs fl where a: "AddCoin ?k ?coin False spent = Inr (spent\<lparr>cacheCoins := (cacheCoins spent)(?k \<mapsto> \<lparr>e_coin = ?coin, e_dirty = True, e_fresh = fl\<rparr>), cacheCoinRefs := refs\<rparr>)"
    using f by (cases "?k = HashOut 7 0") (simp_all add: AddCoin_def spent_def empty_entry_def Let_def)
  define c2 where "c2 = spent\<lparr>cacheCoins := (cacheCoins spent)(?k \<mapsto> \<lparr>e_coin = ?coin, e_dirty = True, e_fresh = fl\<rparr>), cacheCoinRefs := refs\<rparr>"
  have version: "\<not> IsOldTransactionVersion (nVersion double_tx)"
    by (simp add: double_tx_def CTransaction_new_def IsOldTransactionVersion_def)
  have "UpdateCoins example_base double_tx 500 3 fetched = Inr (c2, undos)"
    using u hb a version by (simp add: UpdateCoins_def AddCoins_def c2_def)
  moreover have "coins example_base c2 = [?k \<mapsto> ?coin]"
    using f by (auto simp: c2_def spent_def coins_def base_coins_def example_base_def fun_eq_iff)
  then have "utxo_value (coins example_base c2) = 10" by (simp add: utxo_value_def coin_value_def Coin_new_def)
  moreover have "utxo_value (coins example_base CCoinsViewCache) = 5"
    using example_base_good(2) by (simp add: utxo_value_def coin_value_def)
  ultimately show ?thesis using example_accepted(2) example_CheckTxInputs(2) by blast
qed

end
