(* ===== verification/Merkle.thy ===== *)
theory Merkle
  imports Tx_Serialize
begin

text \<open>
  Merkle trees: the constant-space computation of roots and branches of
  \<^verbatim>\<open>src/src/consensus/merkle.cpp\<close>, and the partial trees of
  \<^verbatim>\<open>src/src/merkleblock.h\<close> and \<^verbatim>\<open>merkleblock.cpp\<close>. Counters are natural numbers
  with the reduction of their 32-bit type written out; a shift by the width of the type or more, which the
  language gives no meaning to, is \<^const>\<open>UndefinedBehaviour\<close>, and so every loop ends.
\<close>

section \<open>Roots and branches\<close>

definition Hash_pair :: "uint256 \<Rightarrow> uint256 \<Rightarrow> uint256" where
  "Hash_pair a b = word_of_nat (le_nat (CHash256_Finalize (CSHA256_Write (CSHA256_Write CSHA256 (blob_bytes a)) (blob_bytes b))))"

text \<open>What is recorded of the branch at one step: \<open>want\<close> says that a branch was asked for, and a
  match level of -1 is \<^const>\<open>None\<close>.\<close>

definition branch_step :: "bool \<Rightarrow> nat option \<Rightarrow> nat \<Rightarrow> uint256 \<Rightarrow> uint256 \<Rightarrow> bool \<Rightarrow> uint256 list \<Rightarrow> bool \<times> uint256 list" where
  "branch_step want matchlevel level sibling h matchh branch =
     (if \<not> want then (matchh, branch)
      else if matchh then (True, branch @ [sibling])
      else if matchlevel = Some level then (True, branch @ [h])
      else (False, branch))"

text \<open>The loop that combines a hash with the inner values on its left, in the order of the levels. It occurs
  twice in the code; the second time nothing is done with the flag.\<close>

function combine_loop ::
  "bool \<Rightarrow> nat \<Rightarrow> nat option \<Rightarrow> uint256 list \<Rightarrow> nat \<Rightarrow> uint256 \<Rightarrow> bool \<Rightarrow> uint256 list \<Rightarrow> bool \<Rightarrow>
   cpp_exn + nat \<times> uint256 \<times> bool \<times> uint256 list \<times> bool" where
  "combine_loop want count matchlevel inner level h matchh branch mutated =
     (if level \<ge> 32 then Inl UndefinedBehaviour
      else if bit count level then Inr (level, h, matchh, branch, mutated)
      else bind_e (vec_index inner level) (\<lambda>i.
           let (matchh, branch) = branch_step want matchlevel level i h matchh branch in
           combine_loop want count matchlevel inner (level + 1) (Hash_pair i h) matchh branch (mutated \<or> i = h)))"
  by pat_completeness auto
termination
  by (relation "measure (\<lambda>(want, count, matchlevel, inner, level, h, matchh, branch, mutated). 32 - level)") auto

declare combine_loop.simps [simp del]

text \<open>The leaves are processed one after the other.\<close>

fun leaves_loop ::
  "bool \<Rightarrow> nat \<Rightarrow> uint256 list \<Rightarrow> nat \<Rightarrow> uint256 list \<Rightarrow> nat option \<Rightarrow> uint256 list \<Rightarrow> bool \<Rightarrow>
   cpp_exn + nat \<times> uint256 list \<times> nat option \<times> uint256 list \<times> bool" where
  "leaves_loop want branchpos [] count inner matchlevel branch mutated = Inr (count, inner, matchlevel, branch, mutated)"
| "leaves_loop want branchpos (leaf # leaves) count inner matchlevel branch mutated =
     (let matchh = (count = branchpos); count = (count + 1) mod 2 ^ 32 in
      bind_e (combine_loop want count matchlevel inner 0 leaf matchh branch mutated) (\<lambda>(level, h, matchh, branch, mutated).
      leaves_loop want branchpos leaves count (inner[level := h]) (if matchh then Some level else matchlevel) branch mutated))"

function lowest_level :: "nat \<Rightarrow> nat \<Rightarrow> cpp_exn + nat" where
  "lowest_level count level =
     (if level \<ge> 32 then Inl UndefinedBehaviour else if bit count level then Inr level else lowest_level count (level + 1))"
  by pat_completeness auto
termination
  by (relation "measure (\<lambda>(count, level). 32 - level)") auto

declare lowest_level.simps [simp del]

lemma combine_loop_level:
  "combine_loop want count matchlevel inner level h matchh branch mutated = Inr (level', r) \<Longrightarrow> level \<le> level' \<and> level' < 32 \<and> bit count level'"
proof (induction want count matchlevel inner level h matchh branch mutated arbitrary: r rule: combine_loop.induct)
  case (1 want count matchlevel inner level h matchh branch mutated)
  show ?case
  proof (cases "level \<ge> 32 \<or> bit count level")
    case True
    then show ?thesis using "1.prems" by (auto simp: combine_loop.simps [of want count matchlevel inner level] split: if_splits)
  next
    case False
    obtain matchh' branch' where s: "branch_step want matchlevel level (inner ! level) h matchh branch = (matchh', branch')" by fastforce
    have i: "vec_index inner level = Inr (inner ! level)"
      "combine_loop want count matchlevel inner (level + 1) (Hash_pair (inner ! level) h) matchh' branch' (mutated \<or> inner ! level = h) = Inr (level', r)"
      using "1.prems" False s by (auto simp: combine_loop.simps [of want count matchlevel inner level] exn_simps vec_index_def split: if_splits)
    show ?thesis using "1.IH" [OF _ _ i(1) s [symmetric] refl i(2)] False by auto
  qed
qed

text \<open>The sweep over the right edge of the tree.\<close>

function sweep_loop ::
  "bool \<Rightarrow> nat option \<Rightarrow> uint256 list \<Rightarrow> nat \<Rightarrow> nat \<Rightarrow> uint256 \<Rightarrow> bool \<Rightarrow> uint256 list \<Rightarrow> cpp_exn + uint256 \<times> uint256 list" where
  "sweep_loop want matchlevel inner count level h matchh branch =
     (if level \<ge> 32 then Inl UndefinedBehaviour
      else if count = 2 ^ level then Inr (h, branch)
      else
        let branch = (if want \<and> matchh then branch @ [h] else branch); count = (count + 2 ^ level) mod 2 ^ 32 in
        bind_e (combine_loop want count matchlevel inner (level + 1) (Hash_pair h h) matchh branch False)
          (\<lambda>(level', h, matchh, branch, _). sweep_loop want matchlevel inner count level' h matchh branch))"
  by pat_completeness auto
termination
  by (relation "measure (\<lambda>(want, matchlevel, inner, count, level, h, matchh, branch). 32 - level)") (auto dest!: combine_loop_level)

declare sweep_loop.simps [simp del]

definition MerkleComputation :: "bool \<Rightarrow> nat \<Rightarrow> uint256 list \<Rightarrow> cpp_exn + uint256 \<times> bool \<times> uint256 list" where
  "MerkleComputation want branchpos leaves =
     (if leaves = [] then Inr (0, False, [])
      else
        bind_e (leaves_loop want branchpos leaves 0 (replicate 32 0) None [] False) (\<lambda>(count, inner, matchlevel, branch, mutated).
        bind_e (lowest_level count 0) (\<lambda>level.
        bind_e (vec_index inner level) (\<lambda>h.
        bind_e (sweep_loop want matchlevel inner count level h (matchlevel = Some level) branch) (\<lambda>(h, branch).
        Inr (h, mutated, branch))))))"

text \<open>\<^verbatim>\<open>ComputeMerkleRoot\<close> returns the root and the flag.\<close>

definition ComputeMerkleRoot :: "uint256 list \<Rightarrow> cpp_exn + uint256 \<times> bool" where
  "ComputeMerkleRoot leaves = bind_e (MerkleComputation False (2 ^ 32 - 1) leaves) (\<lambda>(root, mutated, _). Inr (root, mutated))"

definition ComputeMerkleBranch :: "uint256 list \<Rightarrow> nat \<Rightarrow> cpp_exn + uint256 list" where
  "ComputeMerkleBranch leaves position = bind_e (MerkleComputation True position leaves) (\<lambda>(_, _, branch). Inr branch)"

fun ComputeMerkleRootFromBranch :: "uint256 \<Rightarrow> uint256 list \<Rightarrow> nat \<Rightarrow> uint256" where
  "ComputeMerkleRootFromBranch hash [] nIndex = hash"
| "ComputeMerkleRootFromBranch hash (it # vMerkleBranch) nIndex =
     ComputeMerkleRootFromBranch (if nIndex AND 1 \<noteq> 0 then Hash_pair it hash else Hash_pair hash it) vMerkleBranch (nIndex div 2)"

fun tx_leaves :: "CTransaction list \<Rightarrow> cpp_exn + uint256 list" where
  "tx_leaves [] = Inr []"
| "tx_leaves (tx # txs) =
     bind_e (ComputeHash tx) (\<lambda>h. bind_e (tx_leaves txs) (\<lambda>leaves. Inr (word_of_nat (le_nat h) # leaves)))"

definition BlockMerkleRoot :: "CTransaction list \<Rightarrow> cpp_exn + uint256 \<times> bool" where
  "BlockMerkleRoot vtx = bind_e (tx_leaves vtx) ComputeMerkleRoot"

definition BlockMerkleBranch :: "CTransaction list \<Rightarrow> nat \<Rightarrow> cpp_exn + uint256 list" where
  "BlockMerkleBranch vtx position = bind_e (tx_leaves vtx) (\<lambda>leaves. ComputeMerkleBranch leaves position)"

section \<open>Partial trees\<close>

record CPartialMerkleTree =
  nTransactions :: nat
  vBits :: "bool list"
  vHash :: "uint256 list"
  fBad :: bool

text \<open>\<^verbatim>\<open>1 << height\<close> on a signed integer has no meaning from 31 on.\<close>

definition CalcTreeWidth :: "nat \<Rightarrow> nat \<Rightarrow> cpp_exn + nat" where
  "CalcTreeWidth n height =
     (if height \<ge> 31 then Inl UndefinedBehaviour else Inr (((n + 2 ^ height - 1) mod 2 ^ 32) div 2 ^ height))"

fun CalcHash :: "nat \<Rightarrow> nat \<Rightarrow> nat \<Rightarrow> uint256 list \<Rightarrow> cpp_exn + uint256" where
  "CalcHash n 0 pos vTxid = vec_index vTxid pos"
| "CalcHash n (Suc height) pos vTxid =
     bind_e (CalcHash n height (pos * 2) vTxid) (\<lambda>left.
     bind_e (CalcTreeWidth n height) (\<lambda>width.
     bind_e (if pos * 2 + 1 < width then CalcHash n height (pos * 2 + 1) vTxid else Inr left) (\<lambda>right.
     Inr (Hash_pair left right))))"

text \<open>The flags of the leaves below a node; the shifts are those of unsigned integers.\<close>

definition match_range :: "nat \<Rightarrow> nat \<Rightarrow> nat \<Rightarrow> nat list" where
  "match_range n height pos = [(pos * 2 ^ height) mod 2 ^ 32..<min (((pos + 1) * 2 ^ height) mod 2 ^ 32) n]"

fun any_match :: "bool list \<Rightarrow> nat list \<Rightarrow> cpp_exn + bool" where
  "any_match vMatch [] = Inr False"
| "any_match vMatch (p # ps) = bind_e (vec_index vMatch p) (\<lambda>b. bind_e (any_match vMatch ps) (\<lambda>r. Inr (b \<or> r)))"

fun TraverseAndBuild ::
  "nat \<Rightarrow> nat \<Rightarrow> uint256 list \<Rightarrow> bool list \<Rightarrow> CPartialMerkleTree \<Rightarrow> cpp_exn + CPartialMerkleTree" where
  "TraverseAndBuild 0 pos vTxid vMatch t =
     bind_e (any_match vMatch (match_range (nTransactions t) 0 pos)) (\<lambda>fParentOfMatch.
     bind_e (CalcHash (nTransactions t) 0 pos vTxid) (\<lambda>h.
     Inr (t\<lparr>vBits := vBits t @ [fParentOfMatch], vHash := vHash t @ [h]\<rparr>)))"
| "TraverseAndBuild (Suc height) pos vTxid vMatch t =
     bind_e (any_match vMatch (match_range (nTransactions t) (Suc height) pos)) (\<lambda>fParentOfMatch.
     let t = t\<lparr>vBits := vBits t @ [fParentOfMatch]\<rparr> in
     if \<not> fParentOfMatch then
       bind_e (CalcHash (nTransactions t) (Suc height) pos vTxid) (\<lambda>h. Inr (t\<lparr>vHash := vHash t @ [h]\<rparr>))
     else
       bind_e (TraverseAndBuild height (pos * 2) vTxid vMatch t) (\<lambda>t.
       bind_e (CalcTreeWidth (nTransactions t) height) (\<lambda>width.
       if pos * 2 + 1 < width then TraverseAndBuild height (pos * 2 + 1) vTxid vMatch t else Inr t)))"

text \<open>The state of the extraction: the bits and hashes consumed, the matches with their positions, and the
  flag for bad data.\<close>

record extraction =
  nBitsUsed :: nat
  nHashUsed :: nat
  ex_vMatch :: "uint256 list"
  ex_vnIndex :: "nat list"
  ex_fBad :: bool

fun TraverseAndExtract :: "CPartialMerkleTree \<Rightarrow> nat \<Rightarrow> nat \<Rightarrow> extraction \<Rightarrow> cpp_exn + extraction \<times> uint256" where
  "TraverseAndExtract t height pos s =
     (if nBitsUsed s \<ge> length (vBits t) then Inr (s\<lparr>ex_fBad := True\<rparr>, 0)
      else
        let fParentOfMatch = vBits t ! nBitsUsed s; s = s\<lparr>nBitsUsed := nBitsUsed s + 1\<rparr> in
        case height of
          0 \<Rightarrow>
            if nHashUsed s \<ge> length (vHash t) then Inr (s\<lparr>ex_fBad := True\<rparr>, 0)
            else
              let hash = vHash t ! nHashUsed s; s = s\<lparr>nHashUsed := nHashUsed s + 1\<rparr> in
              Inr (if fParentOfMatch then s\<lparr>ex_vMatch := ex_vMatch s @ [hash], ex_vnIndex := ex_vnIndex s @ [pos]\<rparr> else s, hash)
        | Suc height \<Rightarrow>
            if \<not> fParentOfMatch then
              if nHashUsed s \<ge> length (vHash t) then Inr (s\<lparr>ex_fBad := True\<rparr>, 0)
              else Inr (s\<lparr>nHashUsed := nHashUsed s + 1\<rparr>, vHash t ! nHashUsed s)
            else
              bind_e (TraverseAndExtract t height (pos * 2) s) (\<lambda>(s, left).
              bind_e (CalcTreeWidth (nTransactions t) height) (\<lambda>width.
              bind_e (if pos * 2 + 1 < width then
                        bind_e (TraverseAndExtract t height (pos * 2 + 1) s) (\<lambda>(s, right).
                        Inr (if right = left then s\<lparr>ex_fBad := True\<rparr> else s, right))
                      else Inr (s, left)) (\<lambda>(s, right).
              Inr (s, Hash_pair left right)))))"

declare TraverseAndExtract.simps [simp del]

function tree_height :: "nat \<Rightarrow> nat \<Rightarrow> cpp_exn + nat" where
  "tree_height n nHeight =
     (if nHeight \<ge> 31 then Inl UndefinedBehaviour
      else if ((n + 2 ^ nHeight - 1) mod 2 ^ 32) div 2 ^ nHeight > 1 then tree_height n (nHeight + 1) else Inr nHeight)"
  by pat_completeness auto
termination
  by (relation "measure (\<lambda>(n, nHeight). 31 - nHeight)") auto

declare tree_height.simps [simp del]

definition CPartialMerkleTree_new :: "uint256 list \<Rightarrow> bool list \<Rightarrow> cpp_exn + CPartialMerkleTree" where
  "CPartialMerkleTree_new vTxid vMatch =
     (let t = \<lparr>nTransactions = length vTxid mod 2 ^ 32, vBits = [], vHash = [], fBad = False\<rparr> in
      bind_e (tree_height (nTransactions t) 0) (\<lambda>nHeight. TraverseAndBuild nHeight 0 vTxid vMatch t))"

text \<open>The partial tree of a \<^verbatim>\<open>CMerkleBlock\<close>: the transactions of the block with their hash in
  a set are selected.\<close>

definition CMerkleBlock_txn :: "CTransaction list \<Rightarrow> uint256 set \<Rightarrow> cpp_exn + CPartialMerkleTree" where
  "CMerkleBlock_txn vtx txids =
     bind_e (tx_leaves vtx) (\<lambda>vHashes. CPartialMerkleTree_new vHashes (map (\<lambda>hash. hash \<in> txids) vHashes))"

text \<open>\<^verbatim>\<open>ExtractMatches\<close>: the tree with its flag, which is kept between calls, the hash it
  returns, zero for a tree that is not accepted, and the matches with their positions, which are returned also
  then; the bound on the transactions is \<^verbatim>\<open>MAX_BLOCK_BASE_SIZE / 60\<close>.\<close>

definition ExtractMatches :: "CPartialMerkleTree \<Rightarrow> nat list \<Rightarrow> cpp_exn + CPartialMerkleTree \<times> uint256 \<times> uint256 list \<times> nat list" where
  "ExtractMatches t vnIndex =
     (if nTransactions t = 0 \<or> nTransactions t > 1000000 div 60 \<or> length (vHash t) > nTransactions t \<or> length (vBits t) < length (vHash t)
      then Inr (t, 0, [], vnIndex)
      else
        bind_e (tree_height (nTransactions t) 0) (\<lambda>nHeight.
        bind_e (TraverseAndExtract t nHeight 0 \<lparr>nBitsUsed = 0, nHashUsed = 0, ex_vMatch = [], ex_vnIndex = vnIndex, ex_fBad = fBad t\<rparr>) (\<lambda>(s, hashMerkleRoot).
        Inr (t\<lparr>fBad := ex_fBad s\<rparr>,
             if ex_fBad s \<or> (nBitsUsed s + 7) div 8 \<noteq> (length (vBits t) + 7) div 8 \<or> nHashUsed s \<noteq> length (vHash t) then 0 else hashMerkleRoot,
             ex_vMatch s, ex_vnIndex s))))"

end
