(* ===== verification/Merkle_Root.thy ===== *)
theory Merkle_Root
  imports Merkle
begin

text \<open>
  The constant-space Merkle computation against the tree it stands for. A count of leaves is a binary
  counter: the inner values are the roots of the complete subtrees that its set bits stand for. The
  computation never leaves its arrays up to \<open>2 ^ 31\<close> leaves, its root is that of the tree, its branches
  verify, and together with its flag for mutations the root determines the leaves, up to collisions of the
  hash.
\<close>

section \<open>The tree\<close>

definition width :: "nat \<Rightarrow> nat \<Rightarrow> nat" where
  "width n l = (n + 2 ^ l - 1) div 2 ^ l"

lemma width_iff: "k < width n l \<longleftrightarrow> k * 2 ^ l < n"
proof -
  have p: "0 < (2 :: nat) ^ l" by simp
  have "k < width n l \<longleftrightarrow> Suc k * 2 ^ l \<le> n + 2 ^ l - 1"
    by (simp add: width_def less_eq_div_iff_mult_less_eq Suc_le_eq [symmetric] del: mult_Suc)
  also have "\<dots> \<longleftrightarrow> k * 2 ^ l < n" using p unfolding mult_Suc by arith
  finally show ?thesis .
qed

lemma width_pos: "0 < n \<Longrightarrow> 0 < width n l"
  by (simp add: width_iff)

text \<open>The node at a level and a position; an odd node at the right edge is combined with itself.\<close>

fun node :: "uint256 list \<Rightarrow> nat \<Rightarrow> nat \<Rightarrow> uint256" where
  "node xs 0 k = xs ! k"
| "node xs (Suc l) k =
     Hash_pair (node xs l (2 * k)) (if 2 * k + 1 < width (length xs) l then node xs l (2 * k + 1) else node xs l (2 * k))"

definition right_child :: "uint256 list \<Rightarrow> nat \<Rightarrow> nat \<Rightarrow> uint256" where
  "right_child xs l k = (if 2 * k + 1 < width (length xs) l then node xs l (2 * k + 1) else node xs l (2 * k))"

lemma node_Suc: "node xs (Suc l) k = Hash_pair (node xs l (2 * k)) (right_child xs l k)"
  by (simp add: right_child_def)

declare node.simps(2) [simp del]

text \<open>The height is the first level with one node only.\<close>

definition height :: "nat \<Rightarrow> nat" where
  "height n = (LEAST l. n \<le> 2 ^ l)"

lemma height_bounds:
  shows "n \<le> 2 ^ height n" "l < height n \<Longrightarrow> 2 ^ l < n" "n \<le> 2 ^ l \<Longrightarrow> height n \<le> l"
proof -
  have "n \<le> 2 ^ n" by (simp add: less_imp_le)
  then show "n \<le> 2 ^ height n" unfolding height_def by (rule LeastI)
  show "n \<le> 2 ^ l \<Longrightarrow> height n \<le> l" unfolding height_def by (rule Least_le)
  show "l < height n \<Longrightarrow> 2 ^ l < n" unfolding height_def using not_less_Least not_le_imp_less by blast
qed

definition tree_root :: "uint256 list \<Rightarrow> uint256" where
  "tree_root xs = node xs (height (length xs)) 0"

text \<open>Two complete siblings with the same hash.\<close>

definition tree_mutated :: "uint256 list \<Rightarrow> bool" where
  "tree_mutated xs \<longleftrightarrow> (\<exists>l k. (2 * k + 2) * 2 ^ l \<le> length xs \<and> node xs l (2 * k) = node xs l (2 * k + 1))"

section \<open>Counting in binary\<close>

lemma carry:
  fixes c c' :: nat
  assumes "c' = c + 2 ^ s" "2 ^ s dvd c" "s \<le> l" "2 ^ l dvd c'"
  shows "c' div 2 ^ l = c div 2 ^ l + 1" "bit c l \<longleftrightarrow> \<not> bit c' l"
proof -
  obtain q where q: "c' = 2 ^ l * q" using assms(4) by blast
  have "0 < c'" using assms(1) by simp
  then have "0 < q" using q by simp
  then obtain p where p: "q = p + 1" by (metis Suc_eq_plus1 gr0_implies_Suc)
  have le: "(2 :: nat) ^ s \<le> 2 ^ l" using assms(3) by (simp add: power_increasing)
  have "c = 2 ^ l * p + (2 ^ l - 2 ^ s)" using assms(1) q p le by (simp add: algebra_simps)
  then have "c div 2 ^ l = p" by (simp add: div_mult_self2 add.commute [of "2 ^ l * p"])
  moreover have "c' div 2 ^ l = p + 1" using q p by simp
  ultimately show "c' div 2 ^ l = c div 2 ^ l + 1" "bit c l \<longleftrightarrow> \<not> bit c' l" by (simp_all add: bit_iff_odd)
qed

lemma carry_above:
  fixes c c' :: nat
  assumes "c' = c + 2 ^ s" "2 ^ s dvd c" "s \<le> l" "2 ^ l dvd c'" "bit c' l" "l < m"
  shows "c' div 2 ^ m = c div 2 ^ m" "bit c' m \<longleftrightarrow> bit c m"
proof -
  have d: "c' div 2 ^ l = c div 2 ^ l + 1" using carry [OF assms(1-4)] by simp
  have odd: "even (c div 2 ^ l)" using assms(5) d by (simp add: bit_iff_odd)
  obtain j where j: "m = Suc l + j" using assms(6) less_iff_Suc_add by auto
  have "(2 :: nat) ^ m = 2 ^ l * 2 * 2 ^ j" by (simp add: j power_add)
  then have "x div 2 ^ m = x div 2 ^ l div 2 div 2 ^ j" for x :: nat by (simp only: div_mult2_eq)
  moreover have "c' div 2 ^ l div 2 = c div 2 ^ l div 2" using d odd by simp
  ultimately show "c' div 2 ^ m = c div 2 ^ m" by simp
  then show "bit c' m \<longleftrightarrow> bit c m" by (simp add: bit_iff_odd)
qed

lemma dvd_Suc_bit: "(2 :: nat) ^ l dvd c \<Longrightarrow> \<not> bit c l \<Longrightarrow> 2 ^ Suc l dvd c"
proof -
  assume a: "2 ^ l dvd c" "\<not> bit c l"
  then obtain q where "c = 2 ^ l * q" by blast
  moreover from this a(2) have "even q" by (simp add: bit_iff_odd)
  ultimately show ?thesis by (auto elim!: evenE)
qed

section \<open>Combining\<close>

text \<open>The inner values from a level on.\<close>

definition inner_from :: "uint256 list \<Rightarrow> nat \<Rightarrow> nat \<Rightarrow> uint256 list \<Rightarrow> bool" where
  "inner_from xs c l inner \<longleftrightarrow> length inner = 32 \<and> (\<forall>m < 32. l \<le> m \<and> bit c m \<longrightarrow> inner ! m = node xs m (c div 2 ^ m - 1))"

text \<open>The branch collected so far verifies the node that has the followed leaf below it.\<close>

definition tracks :: "uint256 list \<Rightarrow> nat \<Rightarrow> nat \<Rightarrow> uint256 list \<Rightarrow> bool" where
  "tracks xs pos l branch \<longleftrightarrow>
     length branch = l \<and> ComputeMerkleRootFromBranch (xs ! pos) branch pos = node xs l (pos div 2 ^ l)"

lemma RootFromBranch_append:
  "ComputeMerkleRootFromBranch h (branch @ [x]) i =
     (let r = ComputeMerkleRootFromBranch h branch i in if bit i (length branch) then Hash_pair x r else Hash_pair r x)"
  by (induction h branch i rule: ComputeMerkleRootFromBranch.induct) (auto simp: Let_def bit_Suc bit_0 and_one_eq odd_iff_mod_2_eq_one)

definition follows :: "uint256 list \<Rightarrow> nat \<Rightarrow> nat \<Rightarrow> nat \<Rightarrow> nat \<Rightarrow> bool \<Rightarrow> nat option \<Rightarrow> uint256 list \<Rightarrow> bool" where
  "follows xs pos c c' l matchh matchlevel branch \<longleftrightarrow>
     (if matchh then tracks xs pos l branch \<and> pos div 2 ^ l = c' div 2 ^ l - 1
      else \<exists>m \<ge> l. m < 32 \<and> matchlevel = Some m \<and> bit c m \<and> tracks xs pos m branch \<and> pos div 2 ^ m = c div 2 ^ m - 1)"

text \<open>One step: the left sibling is the inner value of the level.\<close>

lemma combine_step:
  assumes "inner_from xs c l inner" "c' = c + 2 ^ s" "2 ^ s dvd c" "s \<le> l" "2 ^ l dvd c'" "\<not> bit c' l" "l < 32"
    "(c' div 2 ^ l - 1) * 2 ^ l < length xs" "h = node xs l (c' div 2 ^ l - 1)"
  shows "inner ! l = node xs l (c' div 2 ^ l - 2)" "Hash_pair (inner ! l) h = node xs (Suc l) (c' div 2 ^ Suc l - 1)"
    "2 ^ Suc l dvd c'" "(c' div 2 ^ Suc l - 1) * 2 ^ Suc l < length xs" "c' div 2 ^ l = 2 * (c' div 2 ^ Suc l)" "0 < c' div 2 ^ Suc l"
proof -
  note C = carry [OF assms(2-5)]
  have "bit c l" using C(2) assms(6) by simp
  then show i: "inner ! l = node xs l (c' div 2 ^ l - 2)" using assms(1,7) C(1) by (simp add: inner_from_def)
  show dvd: "2 ^ Suc l dvd c'" using dvd_Suc_bit [OF assms(5,6)] .
  then obtain q where q: "c' = 2 ^ l * (2 * q)" by (auto simp: mult.assoc mult.commute elim!: dvdE)
  have "0 < c'" using assms(2) by simp
  then have "0 < q" using q by simp
  then obtain k where k: "q = k + 1" by (metis Suc_eq_plus1 gr0_implies_Suc)
  have d: "c' div 2 ^ l = 2 * k + 2" "c' div 2 ^ Suc l = k + 1" using q k by (simp_all add: div_mult2_eq mult.commute)
  then show "c' div 2 ^ l = 2 * (c' div 2 ^ Suc l)" "0 < c' div 2 ^ Suc l" by simp_all
  have lt: "(2 * k + 1) * 2 ^ l < length xs" using assms(8) d by simp
  then show "(c' div 2 ^ Suc l - 1) * 2 ^ Suc l < length xs" using d by (simp add: mult.assoc algebra_simps)
  show "Hash_pair (inner ! l) h = node xs (Suc l) (c' div 2 ^ Suc l - 1)"
    using i assms(9) d lt by (simp add: node_Suc right_child_def width_iff)
qed

lemma follows_step:
  assumes "inner_from xs c l inner" "c' = c + 2 ^ s" "2 ^ s dvd c" "s \<le> l" "2 ^ l dvd c'" "\<not> bit c' l" "l < 32"
    "(c' div 2 ^ l - 1) * 2 ^ l < length xs" "h = node xs l (c' div 2 ^ l - 1)" "follows xs pos c c' l matchh matchlevel branch"
    "branch_step True matchlevel l (inner ! l) h matchh branch = (matchh', branch')"
  shows "follows xs pos c c' (Suc l) matchh' matchlevel branch'"
proof -
  note S = combine_step [OF assms(1-9)] and C = carry [OF assms(2-5)]
  let ?q = "c' div 2 ^ Suc l"
  have pos: "pos div 2 ^ Suc l = pos div 2 ^ l div 2" by (simp only: power_Suc2 div_mult2_eq)
  show ?thesis
  proof (cases matchh)
    case True
    then have t: "tracks xs pos l branch" "pos div 2 ^ l = 2 * ?q - 1" using assms(10) S(5) by (simp_all add: follows_def)
    have b: "bit pos l" "pos div 2 ^ Suc l = ?q - 1" using t(2) S(6) pos by (auto simp: bit_iff_odd)
    have r: "matchh'" "branch' = branch @ [inner ! l]" using True assms(11) by (simp_all add: branch_step_def)
    have "tracks xs pos (Suc l) branch'"
      using t(1) b S(2) assms(9) t(2) S(5) r(2) by (simp add: tracks_def RootFromBranch_append)
    then show ?thesis using r(1) b(2) by (simp add: follows_def)
  next
    case False
    then obtain m where m: "l \<le> m" "m < 32" "matchlevel = Some m" "bit c m" "tracks xs pos m branch" "pos div 2 ^ m = c div 2 ^ m - 1"
      using assms(10) by (auto simp: follows_def)
    show ?thesis
    proof (cases "m = l")
      case True
      have p: "pos div 2 ^ l = 2 * ?q - 2" using m(6) True C(1) S(5) by simp
      have b: "\<not> bit pos l" "pos div 2 ^ Suc l = ?q - 1" using p S(6) pos by (auto simp: bit_iff_odd)
      have r: "matchh'" "branch' = branch @ [h]" using False True m(3) assms(11) by (simp_all add: branch_step_def)
      have "tracks xs pos (Suc l) branch'"
        using m(5) True b S(1,2) p S(5) r(2) by (simp add: tracks_def RootFromBranch_append)
      then show ?thesis using r(1) b(2) by (simp add: follows_def)
    next
      case neq: False
      then have "\<not> matchh'" "branch' = branch" using False m(3) assms(11) by (simp_all add: branch_step_def)
      then show ?thesis using m neq by (auto simp: follows_def)
    qed
  qed
qed

text \<open>The sibling pairs that are compared on the way.\<close>

definition equal_pairs :: "uint256 list \<Rightarrow> nat \<Rightarrow> nat \<Rightarrow> nat \<Rightarrow> bool" where
  "equal_pairs xs c' l l' \<longleftrightarrow> (\<exists>j. l \<le> j \<and> j < l' \<and> node xs j (c' div 2 ^ j - 2) = node xs j (c' div 2 ^ j - 1))"

lemma combine_loop_ok:
  assumes "inner_from xs c l inner" "c' = c + 2 ^ s" "2 ^ s dvd c" "s \<le> l" "2 ^ l dvd c'" "c' < 2 ^ 32"
    "(c' div 2 ^ l - 1) * 2 ^ l < length xs" "h = node xs l (c' div 2 ^ l - 1)" "want \<longrightarrow> follows xs pos c c' l matchh matchlevel branch"
  shows "\<exists>l' h' matchh' branch'. combine_loop want c' matchlevel inner l h matchh branch mutated =
      Inr (l', h', matchh', branch', mutated \<or> equal_pairs xs c' l l') \<and> l \<le> l' \<and> l' < 32 \<and> bit c' l' \<and> 2 ^ l' dvd c' \<and>
      h' = node xs l' (c' div 2 ^ l' - 1) \<and> (c' div 2 ^ l' - 1) * 2 ^ l' < length xs \<and>
      (want \<longrightarrow> follows xs pos c c' l' matchh' matchlevel branch')"
  using assms
proof (induction "32 - l" arbitrary: l h matchh branch mutated rule: less_induct)
  case less
  have "0 < c'" using less.prems(2) by simp
  then have "2 ^ l \<le> c'" using less.prems(5) by (auto intro: dvd_imp_le)
  then have "(2 :: nat) ^ l < 2 ^ 32" using less.prems(6) by (rule le_less_trans)
  then have l: "l < 32" by (rule power_less_imp_less_exp [rotated]) simp
  show ?case
  proof (cases "bit c' l")
    case True
    then have "combine_loop want c' matchlevel inner l h matchh branch mutated = Inr (l, h, matchh, branch, mutated \<or> equal_pairs xs c' l l)"
      using l by (auto simp: combine_loop.simps [of want c' matchlevel inner l] equal_pairs_def)
    then show ?thesis using less.prems(5,7-9) True l by blast
  next
    case False
    note S = combine_step [OF less.prems(1-5) False l less.prems(7,8)]
    obtain matchh' branch' where bs: "branch_step want matchlevel l (inner ! l) h matchh branch = (matchh', branch')" by fastforce
    have f: "want \<longrightarrow> follows xs pos c c' (Suc l) matchh' matchlevel branch'"
      using follows_step [OF less.prems(1-5) False l less.prems(7,8)] less.prems(9) bs by auto
    have inner: "inner_from xs c (Suc l) inner" using less.prems(1) by (simp add: inner_from_def)
    have v: "vec_index inner l = Inr (inner ! l)" using less.prems(1) l by (simp add: vec_index_def inner_from_def)
    have step: "combine_loop want c' matchlevel inner l h matchh branch mutated =
        combine_loop want c' matchlevel inner (Suc l) (Hash_pair (inner ! l) h) matchh' branch' (mutated \<or> inner ! l = h)"
      using False l v bs by (simp add: combine_loop.simps [of want c' matchlevel inner l])
    have flag: "(mutated \<or> inner ! l = h) \<or> equal_pairs xs c' (Suc l) l' \<longleftrightarrow> mutated \<or> equal_pairs xs c' l l'" if "Suc l \<le> l'" for l'
      using that S(1) less.prems(8) unfolding equal_pairs_def by (metis Suc_le_eq le_eq_less_or_eq less_or_eq_imp_le)
    have "s \<le> Suc l" "32 - Suc l < 32 - l" using less.prems(4) l by simp_all
    from less.hyps [OF this(2) inner less.prems(2,3) this(1) S(3) less.prems(6) S(4) S(2) f, of "mutated \<or> inner ! l = h"]
    obtain l' h' matchh'' branch'' where r:
      "combine_loop want c' matchlevel inner (Suc l) (Hash_pair (inner ! l) h) matchh' branch' (mutated \<or> inner ! l = h) =
        Inr (l', h', matchh'', branch'', (mutated \<or> inner ! l = h) \<or> equal_pairs xs c' (Suc l) l')" "Suc l \<le> l'"
      "l' < 32 \<and> bit c' l' \<and> 2 ^ l' dvd c' \<and> h' = node xs l' (c' div 2 ^ l' - 1) \<and> (c' div 2 ^ l' - 1) * 2 ^ l' < length xs \<and>
        (want \<longrightarrow> follows xs pos c c' l' matchh'' matchlevel branch'')" by blast
    show ?thesis unfolding step using r(1) [unfolded flag [OF r(2)]] r(2,3) Suc_leD by blast
  qed
qed

section \<open>Processing the leaves\<close>

lemma combine_loop_plain:
  "combine_loop want c' matchlevel inner l h False branch mutated = Inr (l', h', matchh', branch', mutated') \<Longrightarrow>
   \<not> want \<or> matchlevel = None \<Longrightarrow> \<not> matchh' \<and> branch' = branch"
proof (induction "32 - l" arbitrary: l h mutated rule: less_induct)
  case less
  show ?case
  proof (cases "32 \<le> l \<or> bit c' l")
    case True
    then show ?thesis using less.prems(1) by (auto simp: combine_loop.simps [of want c' matchlevel inner l] split: if_splits)
  next
    case False
    then have "combine_loop want c' matchlevel inner (Suc l) (Hash_pair (inner ! l) h) False branch (mutated \<or> inner ! l = h) =
        Inr (l', h', matchh', branch', mutated')"
      using less.prems
      by (auto simp: combine_loop.simps [of want c' matchlevel inner l] branch_step_def vec_index_def exn_simps split: if_splits)
    moreover have "32 - Suc l < 32 - l" using False by auto
    ultimately show ?thesis using less.hyps less.prems(2) by blast
  qed
qed

lemma combine_loop_unmatched:
  "combine_loop True c' None inner l h False branch mutated = combine_loop False c' None inner l h False branch mutated"
proof (induction "32 - l" arbitrary: l h mutated rule: less_induct)
  case less
  then show ?case
    by (cases "32 \<le> l \<or> bit c' l"; cases "vec_index inner l")
      (auto simp: combine_loop.simps [of True c' None inner l] combine_loop.simps [of False c' None inner l] branch_step_def)
qed

definition boundary :: "uint256 list \<Rightarrow> nat \<Rightarrow> nat \<Rightarrow> nat option \<Rightarrow> uint256 list \<Rightarrow> bool" where
  "boundary xs pos c matchlevel branch \<longleftrightarrow>
     (if pos < c then \<exists>m < 32. matchlevel = Some m \<and> bit c m \<and> tracks xs pos m branch \<and> pos div 2 ^ m = c div 2 ^ m - 1
      else matchlevel = None \<and> branch = [])"

definition mutated_upto :: "uint256 list \<Rightarrow> nat \<Rightarrow> nat \<Rightarrow> bool" where
  "mutated_upto xs a b \<longleftrightarrow>
     (\<exists>c j. a < c \<and> c \<le> b \<and> 2 ^ Suc j dvd c \<and> node xs j (c div 2 ^ j - 2) = node xs j (c div 2 ^ j - 1))"

lemma lowest_bit: "(2 :: nat) ^ l dvd c \<Longrightarrow> bit c l \<Longrightarrow> 2 ^ Suc j dvd c \<longleftrightarrow> j < l"
proof
  assume c: "2 ^ l dvd c" "bit c l" and j: "2 ^ Suc j dvd c"
  show "j < l"
  proof (rule ccontr)
    assume "\<not> j < l"
    then have "(2 :: nat) ^ Suc l dvd 2 ^ Suc j" by (simp add: le_imp_power_dvd)
    then have "2 ^ Suc l dvd c" using j dvd_trans by blast
    then obtain q where "c = 2 ^ l * (2 * q)" by (auto simp: mult.assoc mult.commute elim!: dvdE)
    then show False using c(2) by (simp add: bit_iff_odd)
  qed
qed (meson Suc_leI dvd_trans le_imp_power_dvd)

lemma low_bits: "(2 :: nat) ^ l dvd c \<Longrightarrow> m < l \<Longrightarrow> \<not> bit c m"
proof -
  assume a: "2 ^ l dvd c" "m < l"
  then have "2 ^ Suc m dvd c" using le_imp_power_dvd [of "Suc m" l 2] dvd_trans by (metis Suc_leI)
  then obtain q where "c = 2 ^ m * (2 * q)" by (auto simp: mult.assoc mult.commute elim!: dvdE)
  then show ?thesis by (simp add: bit_iff_odd)
qed

lemma inner_from_update:
  assumes "inner_from xs c 0 inner" "c' = c + 1" "l < 32" "bit c' l" "2 ^ l dvd c'" "h = node xs l (c' div 2 ^ l - 1)"
  shows "inner_from xs c' 0 (inner[l := h])"
  unfolding inner_from_def
proof (intro conjI allI impI)
  show "length (inner[l := h]) = 32" using assms(1) by (simp add: inner_from_def)
  fix m assume m: "m < 32" "0 \<le> m \<and> bit c' m"
  then have "l \<le> m" using low_bits [OF assms(5)] not_less by blast
  then consider "m = l" | "l < m" by fastforce
  then show "inner[l := h] ! m = node xs m (c' div 2 ^ m - 1)"
  proof cases
    case 1
    then show ?thesis using assms(1,3,6) by (simp add: inner_from_def)
  next
    case 2
    then have "c' div 2 ^ m = c div 2 ^ m" "bit c m" using carry_above [of c' c 0 l m] assms(2,4,5) m by simp_all
    then show ?thesis using 2 assms(1) m by (simp add: inner_from_def)
  qed
qed

lemma leaf_ok:
  assumes "inner_from xs c 0 inner" "c < length xs" "length xs < 2 ^ 32" "want \<longrightarrow> boundary xs pos c matchlevel branch"
  shows "\<exists>l h matchh branch'. combine_loop want (c + 1) matchlevel inner 0 (xs ! c) (c = pos) branch mutated =
      Inr (l, h, matchh, branch', mutated \<or> mutated_upto xs c (c + 1)) \<and> inner_from xs (c + 1) 0 (inner[l := h]) \<and>
      (want \<longrightarrow> boundary xs pos (c + 1) (if matchh then Some l else matchlevel) branch')"
proof -
  let ?c = "c + 1"
  define follow where "follow \<longleftrightarrow> want \<and> pos \<le> c"
  have start: "follow \<longrightarrow> follows xs pos c ?c 0 (c = pos) matchlevel branch"
    using assms(4) by (auto simp: follow_def follows_def boundary_def tracks_def split: if_splits)
  obtain l h matchh branch' where r: "combine_loop follow ?c matchlevel inner 0 (xs ! c) (c = pos) branch mutated =
      Inr (l, h, matchh, branch', mutated \<or> equal_pairs xs ?c 0 l)" "l < 32" "bit ?c l" "2 ^ l dvd ?c" "h = node xs l (?c div 2 ^ l - 1)"
      "follow \<longrightarrow> follows xs pos c ?c l matchh matchlevel branch'"
    using combine_loop_ok [OF assms(1), of ?c 0 "xs ! c" follow pos "c = pos" matchlevel branch mutated] assms(2,3) start by auto
  have flag: "equal_pairs xs ?c 0 l \<longleftrightarrow> mutated_upto xs c ?c"
  proof
    assume "equal_pairs xs ?c 0 l"
    then obtain j where "j < l" "node xs j (?c div 2 ^ j - 2) = node xs j (?c div 2 ^ j - 1)" unfolding equal_pairs_def by blast
    moreover from this have "2 ^ Suc j dvd ?c" using lowest_bit [OF r(4,3)] by blast
    ultimately show "mutated_upto xs c ?c" unfolding mutated_upto_def by (intro exI [of _ ?c] exI [of _ j]) simp
  next
    assume "mutated_upto xs c ?c"
    then obtain d j where d: "c < d" "d \<le> ?c" "2 ^ Suc j dvd d" "node xs j (d div 2 ^ j - 2) = node xs j (d div 2 ^ j - 1)"
      unfolding mutated_upto_def by blast
    then have "d = ?c" by simp
    then show "equal_pairs xs ?c 0 l" using d(3,4) lowest_bit [OF r(4,3)] unfolding equal_pairs_def by blast
  qed
  have inner: "inner_from xs ?c 0 (inner[l := h])" using inner_from_update [OF assms(1) refl r(2-5)] .
  show ?thesis
  proof (cases "want \<and> c < pos")
    case True
    then have none: "matchlevel = None" "branch = []" "\<not> follow" using assms(4) by (auto simp: boundary_def follow_def)
    have "\<not> matchh \<and> branch' = branch" using combine_loop_plain [of follow ?c matchlevel inner 0 "xs ! c" branch mutated] r(1) True none by auto
    moreover have "combine_loop want ?c matchlevel inner 0 (xs ! c) (c = pos) branch mutated =
        combine_loop follow ?c matchlevel inner 0 (xs ! c) (c = pos) branch mutated"
      using True none combine_loop_unmatched by simp
    ultimately show ?thesis using r(1) inner flag none True by (auto simp: boundary_def)
  next
    case False
    then have eq: "follow = want" by (auto simp: follow_def)
    have "boundary xs pos ?c (if matchh then Some l else matchlevel) branch'" if want
    proof -
      have pos: "pos < ?c" using that False by simp
      have f: "follows xs pos c ?c l matchh matchlevel branch'" using r(6) eq that by simp
      show ?thesis
      proof (cases matchh)
        case True
        then show ?thesis using f pos r(2,3) by (simp add: follows_def boundary_def)
      next
        case nm: False
        then obtain m where m: "l \<le> m" "m < 32" "matchlevel = Some m" "bit c m" "tracks xs pos m branch'" "pos div 2 ^ m = c div 2 ^ m - 1"
          using f by (auto simp: follows_def)
        have "\<not> bit c l" using carry(2) [of ?c c 0 l] r(3,4) by simp
        then have "l < m" using m(1,4) le_neq_implies_less by blast
        then have "?c div 2 ^ m = c div 2 ^ m" "bit ?c m" using carry_above [of ?c c 0 l m] r(3,4) m(4) by simp_all
        then show ?thesis using nm pos m by (auto simp: boundary_def)
      qed
    qed
    then show ?thesis using r(1) eq inner flag by auto
  qed
qed

lemma mutated_upto_join:
  assumes "a \<le> b" "b \<le> c"
  shows "mutated_upto xs a b \<or> mutated_upto xs b c \<longleftrightarrow> mutated_upto xs a c"
proof
  assume "mutated_upto xs a b \<or> mutated_upto xs b c"
  then show "mutated_upto xs a c" unfolding mutated_upto_def using assms le_trans le_less_trans by blast
next
  assume "mutated_upto xs a c"
  then obtain d j where d: "a < d" "d \<le> c" "2 ^ Suc j dvd d \<and> node xs j (d div 2 ^ j - 2) = node xs j (d div 2 ^ j - 1)"
    unfolding mutated_upto_def by blast
  show "mutated_upto xs a b \<or> mutated_upto xs b c"
  proof (cases "d \<le> b")
    case True
    then show ?thesis unfolding mutated_upto_def using d by blast
  next
    case False
    then have "b < d" by simp
    then show ?thesis unfolding mutated_upto_def using d by blast
  qed
qed

lemma leaves_loop_ok:
  assumes "inner_from xs c 0 inner" "ys = drop c xs" "c \<le> length xs" "length xs < 2 ^ 32" "want \<longrightarrow> boundary xs pos c matchlevel branch"
  shows "\<exists>inner' matchlevel' branch'. leaves_loop want pos ys c inner matchlevel branch mutated =
      Inr (length xs, inner', matchlevel', branch', mutated \<or> mutated_upto xs c (length xs)) \<and> inner_from xs (length xs) 0 inner' \<and>
      (want \<longrightarrow> boundary xs pos (length xs) matchlevel' branch')"
  using assms
proof (induction ys arbitrary: c inner matchlevel branch mutated)
  case Nil
  then show ?case by (auto simp: mutated_upto_def)
next
  case (Cons y ys)
  then have c: "c < length xs" "y = xs ! c" "ys = drop (c + 1) xs"
    by (metis drop_eq_Nil2 list.distinct(1) not_le, metis drop_eq_Nil2 list.distinct(1) not_le nth_via_drop, metis drop_Suc drop_tl list.sel(3) Suc_eq_plus1)
  obtain l h matchh branch' where s: "combine_loop want (c + 1) matchlevel inner 0 (xs ! c) (c = pos) branch mutated =
      Inr (l, h, matchh, branch', mutated \<or> mutated_upto xs c (c + 1))" "inner_from xs (c + 1) 0 (inner[l := h])"
      "want \<longrightarrow> boundary xs pos (c + 1) (if matchh then Some l else matchlevel) branch'"
    using leaf_ok [OF Cons.prems(1) c(1) Cons.prems(4,5), of mutated] by blast
  have "(c + 1) mod 2 ^ 32 = c + 1" using c(1) Cons.prems(4) by simp
  then have step: "leaves_loop want pos (y # ys) c inner matchlevel branch mutated =
      leaves_loop want pos ys (c + 1) (inner[l := h]) (if matchh then Some l else matchlevel) branch' (mutated \<or> mutated_upto xs c (c + 1))"
    using s(1) c(2) by (simp add: Let_def)
  have flag: "(mutated \<or> mutated_upto xs c (c + 1)) \<or> mutated_upto xs (c + 1) (length xs) \<longleftrightarrow> mutated \<or> mutated_upto xs c (length xs)"
    using mutated_upto_join [of c "c + 1" "length xs" xs] c(1) by auto
  have "c + 1 \<le> length xs" using c(1) by simp
  from Cons.IH [OF s(2) c(3) this Cons.prems(4) s(3), of "mutated \<or> mutated_upto xs c (c + 1)"] show ?case
    unfolding step flag .
qed

section \<open>The sweep\<close>

definition sweep_follows :: "uint256 list \<Rightarrow> nat \<Rightarrow> nat \<Rightarrow> nat \<Rightarrow> bool \<Rightarrow> nat option \<Rightarrow> uint256 list \<Rightarrow> bool" where
  "sweep_follows xs pos c l matchh matchlevel branch \<longleftrightarrow>
     (if matchh then tracks xs pos l branch \<and> pos div 2 ^ l = c div 2 ^ l - 1
      else \<exists>m > l. m < 32 \<and> matchlevel = Some m \<and> bit c m \<and> tracks xs pos m branch \<and> pos div 2 ^ m = c div 2 ^ m - 1)"

text \<open>The count is the number of leaves rounded up to the size of the nodes of the level.\<close>

definition rounded :: "uint256 list \<Rightarrow> nat \<Rightarrow> nat \<Rightarrow> bool" where
  "rounded xs c l \<longleftrightarrow> bit c l \<and> 2 ^ l dvd c \<and> length xs \<le> c \<and> c < length xs + 2 ^ l \<and> c \<le> 2 ^ height (length xs)"

lemma rounded_level:
  assumes "rounded xs c l"
  shows "l \<le> height (length xs)" "c = 2 ^ l \<longleftrightarrow> l = height (length xs)" "c \<noteq> 2 ^ l \<Longrightarrow> c + 2 ^ l \<le> 2 ^ height (length xs)"
proof -
  let ?H = "height (length xs)"
  have r: "bit c l" "2 ^ l dvd c" "length xs \<le> c" "c \<le> 2 ^ ?H" using assms by (simp_all add: rounded_def)
  have "0 < c" using r(1) by (cases c) simp_all
  then have "2 ^ l \<le> c" using r(2) by (rule dvd_imp_le [rotated])
  then have "(2 :: nat) ^ l \<le> 2 ^ ?H" using r(4) by (rule le_trans)
  then show le: "l \<le> ?H" by simp
  show top: "c = 2 ^ l \<longleftrightarrow> l = ?H"
  proof
    assume "c = 2 ^ l"
    then show "l = ?H" using r(3) height_bounds(3) [of "length xs" l] le by simp
  next
    assume "l = ?H"
    then show "c = 2 ^ l" using r(4) \<open>2 ^ l \<le> c\<close> by simp
  qed
  show "c + 2 ^ l \<le> 2 ^ ?H" if "c \<noteq> 2 ^ l"
  proof -
    have "l < ?H" using le top that by simp
    then obtain d where d: "(2 :: nat) ^ ?H = 2 ^ l * (2 * d)" by (metis Suc_leI le_Suc_ex mult.assoc power_Suc2 power_add)
    obtain q where q: "c = 2 ^ l * q" "odd q" using r(1,2) by (auto simp: bit_iff_odd elim!: dvdE)
    have "q < 2 * d" using r(4) q d by (cases "q = 2 * d") auto
    then have "2 ^ l * (q + 1) \<le> 2 ^ l * (2 * d)" by (intro mult_le_mono) auto
    then show ?thesis using q d by (simp add: algebra_simps)
  qed
qed

lemma duplicate_step:
  assumes "rounded xs c l" "h = node xs l (c div 2 ^ l - 1)"
  shows "Hash_pair h h = node xs (Suc l) ((c + 2 ^ l) div 2 ^ Suc l - 1)" "2 ^ Suc l dvd c + 2 ^ l"
    "((c + 2 ^ l) div 2 ^ Suc l - 1) * 2 ^ Suc l < length xs"
    "sweep_follows xs pos c l True matchlevel branch \<Longrightarrow> follows xs pos c (c + 2 ^ l) (Suc l) True matchlevel (branch @ [h])"
proof -
  obtain q where q: "c = 2 ^ l * q" "odd q" using assms(1) by (auto simp: rounded_def bit_iff_odd elim!: dvdE)
  then obtain p where p: "q = 2 * p + 1" by (auto elim!: oddE)
  have c': "c + 2 ^ l = 2 ^ Suc l * (p + 1)" using q p by (simp add: algebra_simps)
  have d: "c div 2 ^ l = 2 * p + 1" "(c + 2 ^ l) div 2 ^ Suc l - 1 = p" using q p c' by (simp_all del: power_Suc)
  have lt: "length xs \<le> (2 * p + 1) * 2 ^ l" "p * 2 ^ Suc l < length xs"
    using assms(1) q p by (simp_all add: rounded_def algebra_simps)
  show "2 ^ Suc l dvd c + 2 ^ l" unfolding c' by simp
  show "((c + 2 ^ l) div 2 ^ Suc l - 1) * 2 ^ Suc l < length xs" unfolding d(2) using lt(2) .
  show node: "Hash_pair h h = node xs (Suc l) ((c + 2 ^ l) div 2 ^ Suc l - 1)"
    unfolding d(2) using assms(2) d(1) lt(1) by (simp add: node_Suc right_child_def width_iff)
  assume "sweep_follows xs pos c l True matchlevel branch"
  then have t: "tracks xs pos l branch" "pos div 2 ^ l = 2 * p" using d(1) by (simp_all add: sweep_follows_def)
  have "pos div 2 ^ Suc l = p" using t(2) by (simp add: power_Suc2 div_mult2_eq del: power_Suc)
  moreover have "tracks xs pos (Suc l) (branch @ [h])"
    using t node d(2) assms(2) d(1) calculation by (simp add: tracks_def RootFromBranch_append Let_def bit_iff_odd)
  ultimately show "follows xs pos c (c + 2 ^ l) (Suc l) True matchlevel (branch @ [h])" unfolding follows_def using d(2) by simp
qed

lemma sweep_loop_ok:
  assumes "inner_from xs c (Suc l) inner" "rounded xs c l" "height (length xs) \<le> 31" "h = node xs l (c div 2 ^ l - 1)"
    "want \<longrightarrow> sweep_follows xs pos c l matchh matchlevel branch"
  shows "\<exists>branch'. sweep_loop want matchlevel inner c l h matchh branch = Inr (tree_root xs, branch') \<and>
    (want \<longrightarrow> tracks xs pos (height (length xs)) branch')"
  using assms
proof (induction "32 - l" arbitrary: c l h matchh branch rule: less_induct)
  case less
  note L = rounded_level [OF less.prems(2)]
  have l: "l < 32" using L(1) less.prems(3) by simp
  show ?case
  proof (cases "c = 2 ^ l")
    case True
    then have top: "l = height (length xs)" using L(2) by simp
    have "matchh" if want using less.prems(5) that True by (auto simp: sweep_follows_def bit_exp_iff split: if_splits)
    then have "want \<longrightarrow> tracks xs pos (height (length xs)) branch" using less.prems(5) top by (simp add: sweep_follows_def)
    moreover have "sweep_loop want matchlevel inner c l h matchh branch = Inr (h, branch)"
      using True l by (subst sweep_loop.simps) simp
    moreover have "h = tree_root xs" using True less.prems(4) top by (simp add: tree_root_def)
    ultimately show ?thesis by blast
  next
    case False
    let ?c = "c + 2 ^ l" and ?branch = "if want \<and> matchh then branch @ [h] else branch"
    note D = duplicate_step [OF less.prems(2,4)]
    have le: "?c \<le> 2 ^ height (length xs)" using L(3) False by simp
    moreover have "(2 :: nat) ^ height (length xs) \<le> 2 ^ 31" using less.prems(3) by (simp only: power_increasing_iff)
    ultimately have small: "?c < 2 ^ 32" by simp
    have dvd: "2 ^ l dvd c" using less.prems(2) by (simp add: rounded_def)
    have f: "want \<longrightarrow> follows xs pos c ?c (Suc l) matchh matchlevel ?branch"
      using less.prems(5) D(4) by (auto simp: sweep_follows_def follows_def Suc_le_eq)
    obtain l' h' matchh' branch' mut where r: "combine_loop want ?c matchlevel inner (Suc l) (Hash_pair h h) matchh ?branch False =
        Inr (l', h', matchh', branch', mut)" "Suc l \<le> l'" "l' < 32" "bit ?c l'" "2 ^ l' dvd ?c" "h' = node xs l' (?c div 2 ^ l' - 1)"
        "(?c div 2 ^ l' - 1) * 2 ^ l' < length xs" "want \<longrightarrow> follows xs pos c ?c l' matchh' matchlevel branch'"
      using combine_loop_ok [OF less.prems(1) refl dvd _ D(2) small D(3) D(1) f, of False] by auto
    have above: "?c div 2 ^ m = c div 2 ^ m" "bit ?c m \<longleftrightarrow> bit c m" if "l' < m" for m
      using carry_above [OF refl dvd _ r(5,4) that] r(2) by simp_all
    have inner: "inner_from xs ?c (Suc l') inner"
      using less.prems(1) above r(2) by (auto simp: inner_from_def)
    have "?c = (?c div 2 ^ l' - 1) * 2 ^ l' + 2 ^ l'" using r(4,5) by (cases "?c div 2 ^ l'") (auto simp: bit_iff_odd elim!: dvdE)
    then have round: "rounded xs ?c l'" using r(4,5,7) le less.prems(2) unfolding rounded_def by linarith
    have sf: "want \<longrightarrow> sweep_follows xs pos ?c l' matchh' matchlevel branch'"
    proof (cases matchh')
      case False
      have "\<not> bit c l'" using carry(2) [OF refl dvd _ r(5)] r(2,4) by simp
      then show ?thesis using r(8) above False unfolding follows_def sweep_follows_def by (metis le_neq_implies_less)
    qed (use r(8) in \<open>simp add: follows_def sweep_follows_def\<close>)
    have "sweep_loop want matchlevel inner c l h matchh branch = sweep_loop want matchlevel inner ?c l' h' matchh' branch'"
      using False l small r(1) by (simp add: sweep_loop.simps [of want matchlevel inner c l] Let_def)
    moreover have "32 - l' < 32 - l" using r(2,3) by simp
    ultimately show ?thesis using less.hyps [OF _ inner round less.prems(3) r(6) sf] by simp
  qed
qed

lemma lowest_level_ok:
  "2 ^ l dvd c \<Longrightarrow> 0 < c \<Longrightarrow> c < 2 ^ 32 \<Longrightarrow> \<exists>l'. lowest_level c l = Inr l' \<and> l' < 32 \<and> bit c l' \<and> 2 ^ l' dvd c"
proof (induction "32 - l" arbitrary: l rule: less_induct)
  case less
  have "2 ^ l \<le> c" using less.prems by (auto intro: dvd_imp_le)
  then have "(2 :: nat) ^ l < 2 ^ 32" using less.prems(3) by (rule le_less_trans)
  then have l: "l < 32" by (rule power_less_imp_less_exp [rotated]) simp
  show ?case
  proof (cases "bit c l")
    case True
    then show ?thesis using l less.prems(1) by (simp add: lowest_level.simps [of c l])
  next
    case False
    have "32 - Suc l < 32 - l" using l by simp
    from less.hyps [OF this dvd_Suc_bit [OF less.prems(1) False] less.prems(2,3)] show ?thesis
      using False l by (simp add: lowest_level.simps [of c l])
  qed
qed

section \<open>The computation\<close>

lemma tree_mutated_upto: "tree_mutated xs \<longleftrightarrow> mutated_upto xs 0 (length xs)"
proof
  assume "tree_mutated xs"
  then obtain l k where lk: "(2 * k + 2) * 2 ^ l \<le> length xs" "node xs l (2 * k) = node xs l (2 * k + 1)" unfolding tree_mutated_def by blast
  let ?c = "2 ^ Suc l * (k + 1)"
  have "?c div 2 ^ l = 2 * k + 2" by (simp add: mult.assoc)
  moreover have "?c \<le> length xs" using lk(1) by (simp add: algebra_simps)
  ultimately have "0 < ?c \<and> ?c \<le> length xs \<and> 2 ^ Suc l dvd ?c \<and> node xs l (?c div 2 ^ l - 2) = node xs l (?c div 2 ^ l - 1)"
    using lk(2) by simp
  then show "mutated_upto xs 0 (length xs)" unfolding mutated_upto_def by blast
next
  assume "mutated_upto xs 0 (length xs)"
  then obtain c j where c: "0 < c" "c \<le> length xs" "2 ^ Suc j dvd c" "node xs j (c div 2 ^ j - 2) = node xs j (c div 2 ^ j - 1)"
    unfolding mutated_upto_def by blast
  obtain q where q: "c = 2 ^ Suc j * q" using c(3) by blast
  then obtain k where k: "q = k + 1" using c(1) by (cases q) auto
  have "c div 2 ^ j = 2 * k + 2" "c = (2 * k + 2) * 2 ^ j" using q k by (simp_all add: mult.assoc algebra_simps)
  then have "(2 * k + 2) * 2 ^ j \<le> length xs \<and> node xs j (2 * k) = node xs j (2 * k + 1)" using c(2,4) by simp
  then show "tree_mutated xs" unfolding tree_mutated_def by blast
qed

lemma MerkleComputation_ok:
  assumes "xs \<noteq> []" "length xs \<le> 2 ^ 31" "want \<longrightarrow> pos < length xs"
  shows "\<exists>branch. MerkleComputation want pos xs = Inr (tree_root xs, tree_mutated xs, branch) \<and>
    (want \<longrightarrow> tracks xs pos (height (length xs)) branch)"
proof -
  let ?n = "length xs"
  have n: "0 < ?n" "?n < 2 ^ 32" using assms(1,2) by auto
  have H: "height ?n \<le> 31" using height_bounds(3) [OF assms(2)] .
  have "inner_from xs 0 0 (replicate 32 0)" by (simp add: inner_from_def)
  then obtain inner matchlevel branch where 1: "leaves_loop want pos xs 0 (replicate 32 0) None [] False =
      Inr (?n, inner, matchlevel, branch, tree_mutated xs)" "inner_from xs ?n 0 inner" "want \<longrightarrow> boundary xs pos ?n matchlevel branch"
    using leaves_loop_ok [of xs 0 "replicate 32 0" xs want pos None "[]" False] n by (auto simp: boundary_def tree_mutated_upto)
  obtain l where l: "lowest_level ?n 0 = Inr l" "l < 32" "bit ?n l" "2 ^ l dvd ?n" using lowest_level_ok [of 0 ?n] n by auto
  have h: "vec_index inner l = Inr (node xs l (?n div 2 ^ l - 1))" using 1(2) l(2,3) by (simp add: vec_index_def inner_from_def)
  have upper: "inner_from xs ?n (Suc l) inner" using 1(2) by (simp add: inner_from_def)
  have round: "rounded xs ?n l" using l(3,4) height_bounds(1) by (simp add: rounded_def)
  have "sweep_follows xs pos ?n l (matchlevel = Some l) matchlevel branch" if w: want
  proof -
    obtain m where m: "m < 32" "matchlevel = Some m" "bit ?n m" "tracks xs pos m branch" "pos div 2 ^ m = ?n div 2 ^ m - 1"
      using 1(3) assms(3) w by (auto simp: boundary_def)
    then have "l \<le> m" using low_bits [OF l(4)] not_less by blast
    then show ?thesis using m by (auto simp: sweep_follows_def)
  qed
  from sweep_loop_ok [OF upper round H refl, of want pos "matchlevel = Some l" matchlevel branch] this
  obtain branch' where "sweep_loop want matchlevel inner ?n l (node xs l (?n div 2 ^ l - 1)) (matchlevel = Some l) branch = Inr (tree_root xs, branch')"
    "want \<longrightarrow> tracks xs pos (height ?n) branch'" by blast
  then show ?thesis using 1(1) l(1) h assms(1) by (simp add: MerkleComputation_def)
qed

lemma ComputeMerkleRoot_ok: "xs \<noteq> [] \<Longrightarrow> length xs \<le> 2 ^ 31 \<Longrightarrow> ComputeMerkleRoot xs = Inr (tree_root xs, tree_mutated xs)"
  using MerkleComputation_ok [of xs False "2 ^ 32 - 1"] by (auto simp: ComputeMerkleRoot_def)

section \<open>What the root determines\<close>

text \<open>The pairs that are hashed in the tree of a list of leaves.\<close>

definition tree_pairs :: "uint256 list \<Rightarrow> (uint256 \<times> uint256) set" where
  "tree_pairs xs = {(node xs l (2 * k), right_child xs l k) | l k. l < height (length xs) \<and> k < width (length xs) (Suc l)}"

definition collision :: "(uint256 \<times> uint256) set \<Rightarrow> (uint256 \<times> uint256) set \<Rightarrow> bool" where
  "collision P Q \<longleftrightarrow> (\<exists>(a, b) \<in> P. \<exists>(c, d) \<in> Q. (a, b) \<noteq> (c, d) \<and> Hash_pair a b = Hash_pair c d)"

lemma collisionD: "\<not> collision P Q \<Longrightarrow> (a, b) \<in> P \<Longrightarrow> (c, d) \<in> Q \<Longrightarrow> Hash_pair a b = Hash_pair c d \<Longrightarrow> a = c \<and> b = d"
  unfolding collision_def by blast

lemma tree_pairs_mem: "l < height (length xs) \<Longrightarrow> k < width (length xs) (Suc l) \<Longrightarrow> (node xs l (2 * k), right_child xs l k) \<in> tree_pairs xs"
  unfolding tree_pairs_def by blast

lemma equal_nodes:
  assumes "\<not> collision (tree_pairs xs) (tree_pairs ys)" "l < height (length xs)" "l' < height (length ys)" "k < width (length xs) (Suc l)"
    "k' < width (length ys) (Suc l')" "node xs (Suc l) k = node ys (Suc l') k'"
  shows "node xs l (2 * k) = node ys l' (2 * k')" "right_child xs l k = right_child ys l' k'"
  using collisionD [OF assms(1) tree_pairs_mem [OF assms(2,4)] tree_pairs_mem [OF assms(3,5)]] assms(6) by (simp_all add: node_Suc)

text \<open>A complete node that has the hash of an incomplete one has equal children somewhere below.\<close>

lemma incomplete_mutated:
  assumes "\<not> collision (tree_pairs xs) (tree_pairs xs)" "l \<le> height (length xs)" "(a + 1) * 2 ^ l \<le> length xs" "b * 2 ^ l < length xs"
    "length xs < (b + 1) * 2 ^ l" "node xs l a = node xs l b"
  shows "tree_mutated xs"
  using assms(2-6)
proof (induction l arbitrary: a b)
  case (Suc l)
  have p: "0 < (2 :: nat) ^ l" by simp
  have a2: "(2 * a + 2) * 2 ^ l \<le> length xs" using Suc.prems(2) by (simp add: algebra_simps)
  have "a * 2 ^ Suc l < (2 * a + 2) * 2 ^ l" "(2 * a + 1) * 2 ^ l < (2 * a + 2) * 2 ^ l" by (simp_all add: algebra_simps)
  then have a1: "a * 2 ^ Suc l < length xs" "(2 * a + 1) * 2 ^ l < length xs" using a2 by linarith+
  have w: "a < width (length xs) (Suc l)" "b < width (length xs) (Suc l)" using a1(1) Suc.prems(3) by (simp_all only: width_iff)
  have E: "node xs l (2 * a) = node xs l (2 * b)" "right_child xs l a = right_child xs l b"
    using equal_nodes [OF assms(1) _ _ w] Suc.prems(1,5) by simp_all
  have a: "right_child xs l a = node xs l (2 * a + 1)" "(2 * a + 2) * 2 ^ l \<le> length xs"
    using a1(2) a2 by (simp_all only: right_child_def width_iff if_True)
  show ?case
  proof (cases "(2 * b + 1) * 2 ^ l < length xs")
    case True
    then have "right_child xs l b = node xs l (2 * b + 1)" by (simp add: right_child_def width_iff)
    then have eq: "node xs l (2 * a + 1) = node xs l (2 * b + 1)" using E(2) a(1) by simp
    have "(2 * a + 1 + 1) * 2 ^ l \<le> length xs" "length xs < (2 * b + 1 + 1) * 2 ^ l"
      using a(2) Suc.prems(4) by (simp_all add: algebra_simps)
    then show ?thesis using Suc.IH [of "2 * a + 1" "2 * b + 1"] Suc.prems(1) True eq by simp
  next
    case False
    then have "node xs l (2 * a) = node xs l (2 * a + 1)" using E a(1) by (simp add: right_child_def width_iff)
    then show ?thesis unfolding tree_mutated_def using a(2) by blast
  qed
qed simp

lemma width_Suc: "width n (Suc l) = (width n l + 1) div 2"
proof (rule linorder_cases [of "width n (Suc l)" "(width n l + 1) div 2"])
  have iff: "k < width n (Suc l) \<longleftrightarrow> k < (width n l + 1) div 2" for k
  proof -
    have "k < (width n l + 1) div 2 \<longleftrightarrow> 2 * k < width n l" by auto
    then show ?thesis by (simp add: width_iff algebra_simps)
  qed
  then show "width n (Suc l) < (width n l + 1) div 2 \<Longrightarrow> ?thesis" "(width n l + 1) div 2 < width n (Suc l) \<Longrightarrow> ?thesis"
    by (metis less_irrefl)+
qed

lemma width_height: "0 < n \<Longrightarrow> height n \<le> l \<Longrightarrow> width n l = 1"
proof -
  assume a: "0 < n" "height n \<le> l"
  have "(2 :: nat) ^ height n \<le> 2 ^ l" using a(2) by (rule power_increasing) simp
  then have "n \<le> 2 ^ l" using height_bounds(1) le_trans by blast
  then have "\<not> 1 < width n l" by (simp add: width_iff)
  then show ?thesis using width_pos [OF a(1), of l] by simp
qed

lemma prefix_nodes:
  assumes "\<not> collision (tree_pairs xs) (tree_pairs ys)" "length xs \<le> length ys" "height (length xs) = height (length ys)"
    "tree_root xs = tree_root ys" "xs \<noteq> []" "l \<le> height (length xs)" "k < width (length xs) l"
  shows "node xs l k = node ys l k"
  using assms(6,7)
proof (induction "height (length xs) - l" arbitrary: l k)
  case 0
  then have "l = height (length xs)" by simp
  then show ?case using 0 width_height [of "length xs" l] assms(3-5) by (simp add: tree_root_def)
next
  case (Suc d)
  then have l: "l < height (length xs)" "d = height (length xs) - Suc l" by simp_all
  have k: "k div 2 < width (length xs) (Suc l)" using Suc.prems(2) by (simp add: width_Suc)
  have mono: "j < width (length xs) m \<Longrightarrow> j < width (length ys) m" for j m using assms(2) by (simp add: width_iff)
  have "node xs (Suc l) (k div 2) = node ys (Suc l) (k div 2)" using Suc.hyps(1) [OF l(2) _ k] l(1) by simp
  note E = equal_nodes [OF assms(1) l(1) _ k mono [OF k] this]
  show ?case
  proof (cases "even k")
    case True
    then show ?thesis using E(1) l(1) assms(3) by simp
  next
    case False
    then have "k = 2 * (k div 2) + 1" by simp
    then show ?thesis using E(2) l(1) assms(3) Suc.prems(2) mono [OF Suc.prems(2)] unfolding right_child_def by metis
  qed
qed

lemma shorter_mutated:
  assumes "\<not> collision (tree_pairs xs) (tree_pairs ys)" "\<not> collision (tree_pairs ys) (tree_pairs ys)" "xs \<noteq> []"
    "length xs < length ys" "height (length xs) = height (length ys)" "tree_root xs = tree_root ys"
  shows "tree_mutated ys"
proof -
  let ?n = "length xs" and ?m = "length ys"
  define l where "l = (GREATEST l. width ?n l < width ?m l)"
  have ne: "0 < ?n" "0 < ?m" using assms(3,4) by auto
  have below: "width ?n i < width ?m i \<Longrightarrow> i < height ?n" for i
    using width_height [OF ne(1), of i] width_height [OF ne(2), of i] assms(5) by (cases "height ?n \<le> i") auto
  then have bound: "width ?n i < width ?m i \<Longrightarrow> i \<le> height ?n" for i using less_imp_le by blast
  have "width ?n 0 < width ?m 0" using assms(4) by (simp add: width_def)
  then have l: "width ?n l < width ?m l" unfolding l_def using bound by (rule GreatestI_nat)
  have "\<not> width ?n (Suc l) < width ?m (Suc l)"
  proof
    assume "width ?n (Suc l) < width ?m (Suc l)"
    then have "Suc l \<le> l" unfolding l_def using bound by (rule Greatest_le_nat)
    then show False by simp
  qed
  moreover have "width ?n (Suc l) \<le> width ?m (Suc l)" using assms(4) by (simp add: width_def div_le_mono)
  ultimately have top: "width ?n (Suc l) = width ?m (Suc l)" by simp
  obtain w where w: "width ?n (Suc l) = w + 1" using width_pos [of ?n "Suc l"] assms(3) by (cases "width ?n (Suc l)") auto
  have odd: "width ?n l = 2 * w + 1" "width ?m l = 2 * w + 2" using top w l unfolding width_Suc by linarith+
  have lh: "l < height ?n" using below [OF l] .
  have "node xs (Suc l) w = node ys (Suc l) w" using prefix_nodes [OF assms(1) _ assms(5,6,3)] assms(4) lh w by simp
  note E = equal_nodes [OF assms(1) lh _ _ _ this]
  have "right_child xs l w = node xs l (2 * w)" "right_child ys l w = node ys l (2 * w + 1)" using odd by (simp_all add: right_child_def)
  then have eq: "node ys l (2 * w) = node ys l (2 * w + 1)" using E w top lh assms(5) by simp
  have lt: "(2 * w + 1) * 2 ^ l < ?m" using odd(2) width_iff [of "2 * w + 1" ?m l] by simp
  show ?thesis
  proof (cases "(2 * w + 2) * 2 ^ l \<le> ?m")
    case True
    then show ?thesis unfolding tree_mutated_def using eq by blast
  next
    case False
    then show ?thesis using incomplete_mutated [OF assms(2), of l "2 * w" "2 * w + 1"] lt eq lh assms(5) by simp
  qed
qed

text \<open>Trees of different heights: the root of the lower one is a leaf where the other has a hash.\<close>

lemma lower_leaf:
  assumes "\<not> collision (tree_pairs xs) (tree_pairs ys)" "xs \<noteq> []" "ys \<noteq> []" "height (length xs) < height (length ys)" "tree_root xs = tree_root ys"
  shows "\<exists>(a, b) \<in> tree_pairs ys. Hash_pair a b \<in> set xs"
proof -
  let ?h = "height (length xs)" and ?H = "height (length ys)"
  have zero: "0 < width (length xs) i" "0 < width (length ys) i" for i using width_pos assms(2,3) by simp_all
  have down: "d \<le> ?h \<Longrightarrow> node xs (?h - d) 0 = node ys (?H - d) 0" for d
  proof (induction d)
    case 0
    then show ?case using assms(5) by (simp add: tree_root_def)
  next
    case (Suc d)
    have s: "?h - d = Suc (?h - Suc d)" "?H - d = Suc (?H - Suc d)" using Suc.prems assms(4) by simp_all
    have "?h - Suc d < ?h" "?H - Suc d < ?H" using Suc.prems assms(4) by simp_all
    from equal_nodes(1) [OF assms(1) this zero(1) zero(2)] show ?case using Suc s by simp
  qed
  obtain l where l: "?H - ?h = Suc l" "l < ?H" using assms(4) by (cases "?H - ?h") auto
  have "xs ! 0 = node ys (Suc l) 0" using down [of ?h] l(1) by simp
  then have "Hash_pair (node ys l (2 * 0)) (right_child ys l 0) \<in> set xs" using nth_mem [of 0 xs] assms(2) by (simp add: node_Suc)
  then show ?thesis using tree_pairs_mem [OF l(2) zero(2)] by blast
qed

section \<open>Properties\<close>

text \<open>
  C11. The constant-space computation of merkle.cpp computes the Merkle tree. Up to \<open>2 ^ 31\<close> leaves it
  stays inside its array, makes no meaningless shift and ends; the root is the top of the tree in which every
  node is the hash of its two children, or of its only child twice, and the flag is set exactly when two
  complete siblings are equal.
\<close>

theorem merkle_root_correct:
  assumes "leaves \<noteq> []" "length leaves \<le> 2 ^ 31"
  shows "ComputeMerkleRoot leaves = Inr (node leaves (height (length leaves)) 0, tree_mutated leaves)"
  using ComputeMerkleRoot_ok [OF assms] by (simp add: tree_root_def)

definition six :: "uint256 list" where
  "six = [1, 2, 3, 4, 5, 6]"

lemma six_flag: "tree_mutated (six @ [5, 6])"
proof -
  have "node (six @ [5, 6]) (Suc 0) 2 = node (six @ [5, 6]) (Suc 0) 3" by (simp add: node_Suc right_child_def width_def six_def)
  then have "(2 * 1 + 2) * 2 ^ Suc 0 \<le> length (six @ [5, 6]) \<and> node (six @ [5, 6]) (Suc 0) (2 * 1) = node (six @ [5, 6]) (Suc 0) (2 * 1 + 1)"
    by (simp add: six_def)
  then show ?thesis unfolding tree_mutated_def by blast
qed

theorem merkle_root_correct_witness:
  "\<exists>root. ComputeMerkleRoot (six @ [5, 6]) = Inr (root, True)"
  using merkle_root_correct [of "six @ [5, 6]"] six_flag by (simp add: six_def)

text \<open>
  C12. The branch that \<^verbatim>\<open>ComputeMerkleBranch\<close> returns for a position leads from the leaf there to
  the root when \<^verbatim>\<open>ComputeMerkleRootFromBranch\<close> follows it, and has one hash for each level.
\<close>

theorem merkle_branch_round_trip:
  assumes "pos < length leaves" "length leaves \<le> 2 ^ 31"
  shows "\<exists>branch root mutated. ComputeMerkleBranch leaves pos = Inr branch \<and> ComputeMerkleRoot leaves = Inr (root, mutated) \<and>
    ComputeMerkleRootFromBranch (leaves ! pos) branch pos = root \<and> length branch = height (length leaves)"
proof -
  have ne: "leaves \<noteq> []" using assms(1) by auto
  obtain branch where b: "MerkleComputation True pos leaves = Inr (tree_root leaves, tree_mutated leaves, branch)"
    "tracks leaves pos (height (length leaves)) branch"
    using MerkleComputation_ok [OF ne assms(2), of True pos] assms(1) by auto
  have "pos div 2 ^ height (length leaves) = 0" using height_bounds(1) [of "length leaves"] assms(1) by simp
  then show ?thesis using b ComputeMerkleRoot_ok [OF ne assms(2)] by (simp add: ComputeMerkleBranch_def tracks_def tree_root_def)
qed

theorem merkle_branch_round_trip_witness:
  "\<exists>branch root mutated. ComputeMerkleBranch six 4 = Inr branch \<and> ComputeMerkleRoot six = Inr (root, mutated) \<and>
    ComputeMerkleRootFromBranch 5 branch 4 = root"
  using merkle_branch_round_trip [of 4 six] by (auto simp: six_def)

text \<open>
  C15. Changes of the transactions that keep the Merkle root are detected. Two lists of leaves with the same
  root and without the flag are equal, unless two different pairs that are hashed in the trees collide or a
  leaf is itself the hash of such a pair. In particular repeating transactions at the end of a block
  (CVE-2012-2459) sets the flag.
\<close>

theorem merkle_mutation_detected:
  assumes "ComputeMerkleRoot xs = Inr (root, False)" "ComputeMerkleRoot ys = Inr (root, False)" "xs \<noteq> []" "ys \<noteq> []"
    "length xs \<le> 2 ^ 31" "length ys \<le> 2 ^ 31"
  shows "xs = ys \<or> collision (tree_pairs xs \<union> tree_pairs ys) (tree_pairs xs \<union> tree_pairs ys) \<or>
    (\<exists>(a, b) \<in> tree_pairs xs \<union> tree_pairs ys. Hash_pair a b \<in> set xs \<union> set ys)"
proof (rule ccontr)
  assume no: "\<not> ?thesis"
  have sub: "collision P Q \<Longrightarrow> P \<subseteq> tree_pairs xs \<union> tree_pairs ys \<Longrightarrow> Q \<subseteq> tree_pairs xs \<union> tree_pairs ys \<Longrightarrow> False" for P Q
    using no unfolding collision_def by blast
  have R: "tree_root xs = tree_root ys" "\<not> tree_mutated xs" "\<not> tree_mutated ys"
    using assms ComputeMerkleRoot_ok [OF assms(3,5)] ComputeMerkleRoot_ok [OF assms(4,6)] by simp_all
  have c: "\<not> collision (tree_pairs xs) (tree_pairs ys)" "\<not> collision (tree_pairs ys) (tree_pairs xs)"
    "\<not> collision (tree_pairs xs) (tree_pairs xs)" "\<not> collision (tree_pairs ys) (tree_pairs ys)" using sub by blast+
  have h: "height (length xs) = height (length ys)"
    using lower_leaf [OF c(1) assms(3,4) _ R(1)] lower_leaf [OF c(2) assms(4,3) _ R(1) [symmetric]] no
    by (cases "height (length xs)" "height (length ys)" rule: linorder_cases) blast+
  have len: "length xs = length ys"
    using shorter_mutated [OF c(1,4) assms(3) _ h R(1)] shorter_mutated [OF c(2,3) assms(4) _ h [symmetric] R(1) [symmetric]] R(2,3)
    by (cases "length xs" "length ys" rule: linorder_cases) blast+
  have "xs ! k = ys ! k" if "k < length xs" for k
    using prefix_nodes [OF c(1) _ h R(1) assms(3), of 0 k] that len by (simp add: width_def)
  then show False using len no nth_equalityI [of xs ys] by blast
qed

lemma two_leaves: "ComputeMerkleRoot [1, 2] = Inr (Hash_pair 1 2, False)"
proof -
  have "height 2 \<le> 1" using height_bounds(3) [of 2 1] by simp
  moreover have "height 2 \<noteq> 0" using height_bounds(1) [of 2] by (cases "height 2") simp_all
  ultimately have "height 2 = Suc 0" by simp
  then have h: "height (Suc (Suc 0)) = Suc 0" by (simp only: numeral_2_eq_2)
  have "\<not> tree_mutated [1, 2]"
  proof
    assume "tree_mutated [1, 2]"
    then obtain l k where lk: "(2 * k + 2) * 2 ^ l \<le> length [1, 2 :: uint256]" "node [1, 2] l (2 * k) = node [1, 2] l (2 * k + 1)"
      unfolding tree_mutated_def by blast
    have "(2 :: nat) ^ l \<le> 1" using lk(1) by (simp add: algebra_simps)
    then have l: "l = 0" using less_exp [of l] by linarith
    then have "k = 0" using lk(1) by simp
    then show False using lk(2) l by simp
  qed
  then show ?thesis using ComputeMerkleRoot_ok [of "[1, 2]"] h by (simp add: tree_root_def node_Suc right_child_def width_def)
qed

theorem merkle_mutation_detected_witness:
  "ComputeMerkleRoot [1, 2] = Inr (Hash_pair 1 2, False) \<and>
   ([1, 2] = [1, 2 :: uint256] \<or> collision (tree_pairs [1, 2] \<union> tree_pairs [1, 2]) (tree_pairs [1, 2] \<union> tree_pairs [1, 2]) \<or>
    (\<exists>(a, b) \<in> tree_pairs [1, 2] \<union> tree_pairs [1, 2]. Hash_pair a b \<in> set [1, 2] \<union> set [1, 2]))"
  using two_leaves merkle_mutation_detected [OF two_leaves two_leaves] by simp

end
