(* ===== verification/Merkle_Proof.thy ===== *)
theory Merkle_Proof
  imports Merkle_Root
begin

text \<open>
  Partial Merkle trees: \<^verbatim>\<open>CPartialMerkleTree\<close> computes the same root as the constant-space
  computation, extracting from a tree that was built returns the transactions that were selected, and what a
  tree of any origin proves against a root are transactions of the block, up to collisions of the hash.
\<close>

section \<open>The shape of the tree\<close>

lemma CalcTreeWidth_ok: "n \<le> 2 ^ 30 \<Longrightarrow> l \<le> 30 \<Longrightarrow> CalcTreeWidth n l = Inr (width n l)"
proof -
  assume a: "n \<le> 2 ^ 30" "l \<le> 30"
  have "(2 :: nat) ^ l \<le> 2 ^ 30" using a(2) by (simp only: power_increasing_iff)
  then have "n + 2 ^ l - 1 < 2 ^ 32" using a(1) by simp
  then show ?thesis using a(2) by (simp add: CalcTreeWidth_def width_def)
qed

lemma height_less_iff: "l < height n \<longleftrightarrow> 2 ^ l < n"
proof
  show "l < height n \<Longrightarrow> 2 ^ l < n" by (rule height_bounds(2))
  assume n: "2 ^ l < n"
  show "l < height n"
  proof (rule ccontr)
    assume "\<not> l < height n"
    then have "(2 :: nat) ^ height n \<le> 2 ^ l" by (intro power_increasing) simp_all
    then show False using n height_bounds(1) [of n] by linarith
  qed
qed

lemma height_30: "n \<le> 2 ^ 30 \<Longrightarrow> height n \<le> 30"
  by (rule height_bounds(3))

lemma tree_height_ok: "n \<le> 2 ^ 30 \<Longrightarrow> l \<le> height n \<Longrightarrow> tree_height n l = Inr (height n)"
proof (induction "height n - l" arbitrary: l)
  case 0
  then have "l \<le> 30" "l = height n" using height_30 [of n] by simp_all
  moreover have "\<not> 1 < width n l" using calculation(2) height_bounds(1) [of n] by (simp add: width_iff not_less)
  ultimately show ?case using CalcTreeWidth_ok [OF 0(2), of l] by (subst tree_height.simps) (simp add: CalcTreeWidth_def)
next
  case (Suc d)
  then have l: "l < height n" "l \<le> 30" "d = height n - Suc l" using height_30 [of n] by simp_all
  then have "1 < width n l" by (simp add: width_iff height_less_iff)
  then show ?case using Suc.hyps(1) [OF l(3) Suc.prems(1)] l CalcTreeWidth_ok [OF Suc.prems(1) l(2)]
    by (simp add: tree_height.simps [of n l] CalcTreeWidth_def)
qed

lemma child_width: "k < width n (Suc l) \<Longrightarrow> 2 * k < width n l"
  by (simp add: width_Suc)

lemma CalcHash_ok:
  "length xs \<le> 2 ^ 30 \<Longrightarrow> l \<le> 30 \<Longrightarrow> k < width (length xs) l \<Longrightarrow> CalcHash (length xs) l k xs = Inr (node xs l k)"
proof (induction l arbitrary: k)
  case 0
  then show ?case by (simp add: vec_index_def width_def)
next
  case (Suc l)
  have "CalcHash (length xs) l (k * 2) xs = Inr (node xs l (2 * k))"
    using Suc.IH [of "2 * k"] Suc.prems child_width [OF Suc.prems(3)] by (simp add: mult.commute)
  then show ?case using Suc.IH [of "2 * k + 1"] Suc.prems CalcTreeWidth_ok [of "length xs" l]
    by (simp add: node_Suc right_child_def mult.commute)
qed

section \<open>Building and extracting\<close>

definition leaves_below :: "nat \<Rightarrow> nat \<Rightarrow> nat \<Rightarrow> nat list" where
  "leaves_below n l k = [k * 2 ^ l..<min ((k + 1) * 2 ^ l) n]"

lemma leaves_below_0: "k < width n 0 \<Longrightarrow> leaves_below n 0 k = [k]"
  by (simp add: leaves_below_def width_def)

lemma upt_split: "i \<le> j \<Longrightarrow> j \<le> k \<Longrightarrow> [i..<k] = [i..<j] @ [j..<k]"
  using upt_add_eq_append [of i j "k - j"] by simp

lemma leaves_below_Suc:
  "leaves_below n (Suc l) k = leaves_below n l (2 * k) @ (if 2 * k + 1 < width n l then leaves_below n l (2 * k + 1) else [])"
proof -
  let ?a = "2 * k * 2 ^ l" and ?b = "(2 * k + 1) * 2 ^ l" and ?c = "(2 * k + 2) * 2 ^ l"
  have eq: "k * 2 ^ Suc l = ?a" "(k + 1) * 2 ^ Suc l = ?c" "(2 * k + 1 + 1) * 2 ^ l = ?c" by (simp_all add: algebra_simps)
  have le: "?a \<le> ?b" "?b \<le> ?c" by (simp_all add: algebra_simps)
  show ?thesis
  proof (cases "?b < n")
    case True
    then have "min ?b n = ?b" "?b \<le> min ?c n" using le by simp_all
    then show ?thesis unfolding leaves_below_def eq width_iff using True le(1) upt_split [of ?a ?b "min ?c n"] by simp
  next
    case False
    then have "min ?c n = min ?b n" using le by simp
    then show ?thesis unfolding leaves_below_def eq width_iff using False by simp
  qed
qed

lemma leaves_below_bound: "p \<in> set (leaves_below n l k) \<Longrightarrow> p < n"
  by (simp add: leaves_below_def)

lemma leaves_below_nonempty: "k < width n l \<Longrightarrow> leaves_below n l k \<noteq> []"
  by (simp add: leaves_below_def width_iff min_def)

lemma any_match_ok: "\<forall>p \<in> set ps. p < length ms \<Longrightarrow> any_match ms ps = Inr (\<exists>p \<in> set ps. ms ! p)"
  by (induction ps) (auto simp: vec_index_def)

lemma any_match_below:
  assumes "n \<le> 2 ^ 30" "l \<le> 30" "leaves_below n l k \<noteq> []" "length ms = n"
  shows "any_match ms (match_range n l k) = Inr (\<exists>p \<in> set (leaves_below n l k). ms ! p)"
proof -
  have "k * 2 ^ l < n" using assms(3) by (rule contrapos_np) (simp add: leaves_below_def)
  moreover have "(2 :: nat) ^ l \<le> 2 ^ 30" using assms(2) by (simp only: power_increasing_iff)
  ultimately have "k * 2 ^ l < 2 ^ 32" "(k + 1) * 2 ^ l < 2 ^ 32" using assms(1) by (simp_all add: algebra_simps)
  then have "match_range n l k = leaves_below n l k" by (simp only: match_range_def leaves_below_def mod_less)
  then show ?thesis using any_match_ok [of "leaves_below n l k" ms] leaves_below_bound assms(4) by auto
qed

definition matched :: "bool list \<Rightarrow> nat list \<Rightarrow> nat list" where
  "matched ms ps = filter ((!) ms) ps"

lemma matched_none: "\<not> (\<exists>p \<in> set ps. ms ! p) \<Longrightarrow> matched ms ps = []"
  by (auto simp: matched_def filter_empty_conv)

text \<open>What is stored for a node, and that reading it back gives the hash of the node and the selected leaves.\<close>

definition stores :: "uint256 list \<Rightarrow> bool list \<Rightarrow> nat \<Rightarrow> nat \<Rightarrow> bool list \<Rightarrow> uint256 list \<Rightarrow> bool" where
  "stores xs ms l k bs hs \<longleftrightarrow>
     (\<forall>t. nTransactions t = length xs \<longrightarrow>
        TraverseAndBuild l k xs ms t = Inr (t\<lparr>vBits := vBits t @ bs, vHash := vHash t @ hs\<rparr>)) \<and>
     length hs \<le> length bs \<and> length hs \<le> length (leaves_below (length xs) l k)"

definition reads :: "uint256 list \<Rightarrow> bool list \<Rightarrow> nat \<Rightarrow> nat \<Rightarrow> bool list \<Rightarrow> uint256 list \<Rightarrow> bool" where
  "reads xs ms l k bs hs \<longleftrightarrow>
     (\<forall>t s pre post preh posth. nTransactions t = length xs \<and> vBits t = pre @ bs @ post \<and> vHash t = preh @ hs @ posth \<and>
        nBitsUsed s = length pre \<and> nHashUsed s = length preh \<longrightarrow>
        TraverseAndExtract t l k s =
          Inr (s\<lparr>nBitsUsed := length pre + length bs, nHashUsed := length preh + length hs,
                 ex_vMatch := ex_vMatch s @ map ((!) xs) (matched ms (leaves_below (length xs) l k)),
                 ex_vnIndex := ex_vnIndex s @ matched ms (leaves_below (length xs) l k)\<rparr>, node xs l k))"

lemma stores_leaf:
  assumes "length xs \<le> 2 ^ 30" "length ms = length xs" "k < width (length xs) 0"
  shows "stores xs ms 0 k [ms ! k] [xs ! k]" "reads xs ms 0 k [ms ! k] [xs ! k]"
proof -
  have k: "k < length xs" using assms(3) by (simp add: width_def)
  then show "stores xs ms 0 k [ms ! k] [xs ! k]"
    using assms leaves_below_0 [OF assms(3)] any_match_below [of "length xs" 0 k ms] by (auto simp: stores_def vec_index_def)
  show "reads xs ms 0 k [ms ! k] [xs ! k]"
    unfolding reads_def leaves_below_0 [OF assms(3)] by (auto simp: TraverseAndExtract.simps [of _ 0 k] Let_def matched_def)
qed

lemma stores_unmatched:
  assumes "length xs \<le> 2 ^ 30" "length ms = length xs" "Suc l \<le> 30" "k < width (length xs) (Suc l)"
    "\<not> (\<exists>p \<in> set (leaves_below (length xs) (Suc l) k). ms ! p)"
  shows "stores xs ms (Suc l) k [False] [node xs (Suc l) k]" "reads xs ms (Suc l) k [False] [node xs (Suc l) k]"
proof -
  have "any_match ms (match_range (length xs) (Suc l) k) = Inr False"
    using any_match_below [OF assms(1,3) leaves_below_nonempty [OF assms(4)] assms(2)] assms(5) by simp
  moreover have "CalcHash (length xs) (Suc l) k xs = Inr (node xs (Suc l) k)" using CalcHash_ok assms(1,3,4) by blast
  ultimately show "stores xs ms (Suc l) k [False] [node xs (Suc l) k]"
    using leaves_below_nonempty [OF assms(4)]
    by (auto simp: stores_def Let_def Suc_le_eq simp del: CalcHash.simps)
  show "reads xs ms (Suc l) k [False] [node xs (Suc l) k]"
    unfolding reads_def matched_none [OF assms(5)] by (auto simp: TraverseAndExtract.simps [of _ "Suc l" k] Let_def)
qed

lemma stores_single:
  assumes "length xs \<le> 2 ^ 30" "length ms = length xs" "Suc l \<le> 30" "\<not> 2 * k + 1 < width (length xs) l"
    "\<exists>p \<in> set (leaves_below (length xs) (Suc l) k). ms ! p" "stores xs ms l (2 * k) bs hs" "reads xs ms l (2 * k) bs hs"
  shows "stores xs ms (Suc l) k (True # bs) hs" "reads xs ms (Suc l) k (True # bs) hs"
proof -
  have any: "any_match ms (match_range (length xs) (Suc l) k) = Inr True"
    using any_match_below [OF assms(1,3) _ assms(2), of k] assms(5) by fastforce
  have w: "CalcTreeWidth (length xs) l = Inr (width (length xs) l)" using CalcTreeWidth_ok assms(1,3) by simp
  have below: "leaves_below (length xs) (Suc l) k = leaves_below (length xs) l (2 * k)" using leaves_below_Suc assms(4) by simp
  show "stores xs ms (Suc l) k (True # bs) hs"
    using assms(4,6) any w unfolding stores_def below by (simp add: Let_def mult.commute [of k 2])
  show "reads xs ms (Suc l) k (True # bs) hs"
    unfolding reads_def
  proof (intro allI impI)
    fix t :: CPartialMerkleTree and s :: extraction and pre post preh posth
    assume a: "nTransactions t = length xs \<and> vBits t = pre @ (True # bs) @ post \<and> vHash t = preh @ hs @ posth \<and>
      nBitsUsed s = length pre \<and> nHashUsed s = length preh"
    let ?s = "s\<lparr>nBitsUsed := nBitsUsed s + 1\<rparr>"
    have "TraverseAndExtract t l (2 * k) ?s = Inr (?s\<lparr>nBitsUsed := length (pre @ [True]) + length bs, nHashUsed := length preh + length hs,
        ex_vMatch := ex_vMatch ?s @ map ((!) xs) (matched ms (leaves_below (length xs) l (2 * k))),
        ex_vnIndex := ex_vnIndex ?s @ matched ms (leaves_below (length xs) l (2 * k))\<rparr>, node xs l (2 * k))"
      using assms(7) [unfolded reads_def, rule_format, of t "pre @ [True]" post preh posth ?s] a by simp
    then show "TraverseAndExtract t (Suc l) k s = Inr (s\<lparr>nBitsUsed := length pre + length (True # bs), nHashUsed := length preh + length hs,
        ex_vMatch := ex_vMatch s @ map ((!) xs) (matched ms (leaves_below (length xs) (Suc l) k)),
        ex_vnIndex := ex_vnIndex s @ matched ms (leaves_below (length xs) (Suc l) k)\<rparr>, node xs (Suc l) k)"
      using a w assms(4) below
      by (simp add: TraverseAndExtract.simps [of t "Suc l" k] Let_def mult.commute [of k 2] node_Suc right_child_def)
  qed
qed

lemma stores_both:
  assumes "length xs \<le> 2 ^ 30" "length ms = length xs" "Suc l \<le> 30" "2 * k + 1 < width (length xs) l"
    "\<exists>p \<in> set (leaves_below (length xs) (Suc l) k). ms ! p" "stores xs ms l (2 * k) bs hs" "reads xs ms l (2 * k) bs hs"
    "stores xs ms l (2 * k + 1) bs' hs'" "reads xs ms l (2 * k + 1) bs' hs'" "node xs l (2 * k + 1) \<noteq> node xs l (2 * k)"
  shows "stores xs ms (Suc l) k (True # bs @ bs') (hs @ hs')" "reads xs ms (Suc l) k (True # bs @ bs') (hs @ hs')"
proof -
  have any: "any_match ms (match_range (length xs) (Suc l) k) = Inr True"
    using any_match_below [OF assms(1,3) _ assms(2), of k] assms(5) by fastforce
  have w: "CalcTreeWidth (length xs) l = Inr (width (length xs) l)" using CalcTreeWidth_ok assms(1,3) by simp
  have below: "leaves_below (length xs) (Suc l) k = leaves_below (length xs) l (2 * k) @ leaves_below (length xs) l (2 * k + 1)"
    using leaves_below_Suc assms(4) by simp
  show "stores xs ms (Suc l) k (True # bs @ bs') (hs @ hs')"
    using assms(4,6,8) any w unfolding stores_def below
    by (simp add: Let_def mult.commute [of k 2])
  show "reads xs ms (Suc l) k (True # bs @ bs') (hs @ hs')"
    unfolding reads_def
  proof (intro allI impI)
    fix t :: CPartialMerkleTree and s :: extraction and pre post preh posth
    assume a: "nTransactions t = length xs \<and> vBits t = pre @ (True # bs @ bs') @ post \<and> vHash t = preh @ (hs @ hs') @ posth \<and>
      nBitsUsed s = length pre \<and> nHashUsed s = length preh"
    let ?s = "s\<lparr>nBitsUsed := nBitsUsed s + 1\<rparr>" and ?L = "matched ms (leaves_below (length xs) l (2 * k))"
    let ?s2 = "?s\<lparr>nBitsUsed := length (pre @ [True]) + length bs, nHashUsed := length preh + length hs,
        ex_vMatch := ex_vMatch ?s @ map ((!) xs) ?L, ex_vnIndex := ex_vnIndex ?s @ ?L\<rparr>"
    have "TraverseAndExtract t l (2 * k) ?s = Inr (?s2, node xs l (2 * k))"
      using assms(7) [unfolded reads_def, rule_format, of t "pre @ [True]" "bs' @ post" preh "hs' @ posth" ?s] a by simp
    moreover have "TraverseAndExtract t l (2 * k + 1) ?s2 = Inr (?s2\<lparr>nBitsUsed := length (pre @ [True] @ bs) + length bs',
        nHashUsed := length (preh @ hs) + length hs',
        ex_vMatch := ex_vMatch ?s2 @ map ((!) xs) (matched ms (leaves_below (length xs) l (2 * k + 1))),
        ex_vnIndex := ex_vnIndex ?s2 @ matched ms (leaves_below (length xs) l (2 * k + 1))\<rparr>, node xs l (2 * k + 1))"
      using assms(9) [unfolded reads_def, rule_format, of t "pre @ [True] @ bs" post "preh @ hs" posth ?s2] a by simp
    ultimately show "TraverseAndExtract t (Suc l) k s = Inr (s\<lparr>nBitsUsed := length pre + length (True # bs @ bs'),
        nHashUsed := length preh + length (hs @ hs'),
        ex_vMatch := ex_vMatch s @ map ((!) xs) (matched ms (leaves_below (length xs) (Suc l) k)),
        ex_vnIndex := ex_vnIndex s @ matched ms (leaves_below (length xs) (Suc l) k)\<rparr>, node xs (Suc l) k)"
      using a w assms(4,10) below
      by (simp add: TraverseAndExtract.simps [of t "Suc l" k] Let_def mult.commute [of k 2] node_Suc right_child_def matched_def)
  qed
qed

definition siblings_differ :: "uint256 list \<Rightarrow> bool" where
  "siblings_differ xs \<longleftrightarrow> (\<forall>l k. 2 * k + 1 < width (length xs) l \<longrightarrow> node xs l (2 * k + 1) \<noteq> node xs l (2 * k))"

lemma partial_tree_parts:
  assumes "length xs \<le> 2 ^ 30" "length ms = length xs" "siblings_differ xs" "l \<le> 30" "k < width (length xs) l"
  shows "\<exists>bs hs. stores xs ms l k bs hs \<and> reads xs ms l k bs hs"
  using assms(4,5)
proof (induction l arbitrary: k)
  case 0
  then show ?case using stores_leaf [OF assms(1,2)] by blast
next
  case (Suc l)
  show ?case
  proof (cases "\<exists>p \<in> set (leaves_below (length xs) (Suc l) k). ms ! p")
    case False
    then show ?thesis using stores_unmatched [OF assms(1,2) Suc.prems] by blast
  next
    case True
    obtain bs hs where left: "stores xs ms l (2 * k) bs hs" "reads xs ms l (2 * k) bs hs"
      using Suc.IH [of "2 * k"] Suc.prems child_width by fastforce
    show ?thesis
    proof (cases "2 * k + 1 < width (length xs) l")
      case False
      then show ?thesis using stores_single [OF assms(1,2) Suc.prems(1) False True left] by blast
    next
      case both: True
      then obtain bs' hs' where right: "stores xs ms l (2 * k + 1) bs' hs'" "reads xs ms l (2 * k + 1) bs' hs'"
        using Suc.IH [of "2 * k + 1"] Suc.prems by fastforce
      have "node xs l (2 * k + 1) \<noteq> node xs l (2 * k)" using assms(3) both by (simp add: siblings_differ_def)
      then show ?thesis using stores_both [OF assms(1,2) Suc.prems(1) both True left right] by blast
    qed
  qed
qed

section \<open>What a proof establishes\<close>

text \<open>The pairs that are hashed while a proof is read.\<close>

fun proof_pairs :: "CPartialMerkleTree \<Rightarrow> nat \<Rightarrow> nat \<Rightarrow> extraction \<Rightarrow> (uint256 \<times> uint256) set" where
  "proof_pairs t 0 k s = {}"
| "proof_pairs t (Suc l) k s =
     (if nBitsUsed s \<ge> length (vBits t) \<or> \<not> vBits t ! nBitsUsed s then {}
      else let s = s\<lparr>nBitsUsed := nBitsUsed s + 1\<rparr> in
        case TraverseAndExtract t l (2 * k) s of
          Inl e \<Rightarrow> {}
        | Inr (s', left) \<Rightarrow>
            proof_pairs t l (2 * k) s \<union>
            (if 2 * k + 1 < width (nTransactions t) l then
               (case TraverseAndExtract t l (2 * k + 1) s' of
                  Inl e \<Rightarrow> {} | Inr (_, right) \<Rightarrow> insert (left, right) (proof_pairs t l (2 * k + 1) s'))
             else {(left, left)}))"

lemma extract_inner:
  assumes "TraverseAndExtract t (Suc l) k s = Inr (s', h)" "\<not> ex_fBad s'" "CalcTreeWidth (nTransactions t) l = Inr (width (nTransactions t) l)"
    "nBitsUsed s < length (vBits t)" "vBits t ! nBitsUsed s"
  obtains s2 left where "TraverseAndExtract t l (2 * k) (s\<lparr>nBitsUsed := nBitsUsed s + 1\<rparr>) = Inr (s2, left)"
    "\<not> 2 * k + 1 < width (nTransactions t) l \<Longrightarrow> s' = s2 \<and> h = Hash_pair left left"
    "2 * k + 1 < width (nTransactions t) l \<Longrightarrow> \<exists>right. TraverseAndExtract t l (2 * k + 1) s2 = Inr (s', right) \<and> h = Hash_pair left right"
proof -
  have k: "k * 2 = 2 * k" by simp
  obtain s2 left where L: "TraverseAndExtract t l (2 * k) (s\<lparr>nBitsUsed := nBitsUsed s + 1\<rparr>) = Inr (s2, left)"
    "bind_e (if 2 * k + 1 < width (nTransactions t) l then
                bind_e (TraverseAndExtract t l (2 * k + 1) s2) (\<lambda>(s, right). Inr (if right = left then s\<lparr>ex_fBad := True\<rparr> else s, right))
              else Inr (s2, left)) (\<lambda>(s, right). Inr (s, Hash_pair left right)) = Inr (s', h)"
    using assms(1,3-5) unfolding TraverseAndExtract.simps [of t "Suc l" k] k by (auto simp: Let_def exn_simps simp del: TraverseAndExtract.simps)
  show thesis
  proof (rule that [OF L(1)])
    show "\<not> 2 * k + 1 < width (nTransactions t) l \<Longrightarrow> s' = s2 \<and> h = Hash_pair left left" using L(2) by auto
    show "2 * k + 1 < width (nTransactions t) l \<Longrightarrow> \<exists>right. TraverseAndExtract t l (2 * k + 1) s2 = Inr (s', right) \<and> h = Hash_pair left right"
      using L(2) assms(2) by (auto simp: exn_simps split: if_splits)
  qed
qed

lemma extract_bad:
  "TraverseAndExtract t l k s = Inr (s', h) \<Longrightarrow> ex_fBad s \<Longrightarrow> ex_fBad s'"
proof (induction l arbitrary: k s s' h)
  case 0
  then show ?case by (auto simp: TraverseAndExtract.simps [of t 0 k] Let_def split: if_splits)
next
  case (Suc l)
  show ?case
  proof (cases "nBitsUsed s < length (vBits t) \<and> vBits t ! nBitsUsed s")
    case False
    then show ?thesis using Suc.prems by (auto simp: TraverseAndExtract.simps [of t "Suc l" k] Let_def split: if_splits)
  next
    case True
    then obtain s2 left where s2: "TraverseAndExtract t l (k * 2) (s\<lparr>nBitsUsed := nBitsUsed s + 1\<rparr>) = Inr (s2, left)"
      "s' = s2 \<or> (\<exists>s3 right. TraverseAndExtract t l (k * 2 + 1) s2 = Inr (s3, right) \<and> s' = (if right = left then s3\<lparr>ex_fBad := True\<rparr> else s3))"
      using Suc.prems(1) by (auto simp: TraverseAndExtract.simps [of t "Suc l" k] Let_def exn_simps split: if_splits)
    have "ex_fBad s2" using Suc.IH [OF s2(1)] Suc.prems(2) by simp
    then show ?thesis using s2(2) Suc.IH by auto
  qed
qed

lemma extract_sound:
  assumes "nTransactions t = length xs" "length xs \<le> 2 ^ 30"
  shows "TraverseAndExtract t l k s = Inr (s', node xs l k) \<Longrightarrow> \<not> ex_fBad s' \<Longrightarrow> l \<le> height (length xs) \<Longrightarrow> k < width (length xs) l \<Longrightarrow>
    \<not> collision (proof_pairs t l k s) (tree_pairs xs) \<Longrightarrow>
    \<exists>is. ex_vMatch s' = ex_vMatch s @ map ((!) xs) is \<and> ex_vnIndex s' = ex_vnIndex s @ is \<and> (\<forall>i \<in> set is. i < length xs)"
proof (induction l arbitrary: k s s')
  case 0
  then have k: "k < length xs" by (simp add: width_def)
  show ?case
  proof (cases "vBits t ! nBitsUsed s")
    case True
    then show ?thesis using "0.prems"(1,2) k by (intro exI [of _ "[k]"]) (auto simp: TraverseAndExtract.simps [of t 0 k] Let_def split: if_splits)
  next
    case False
    then show ?thesis using "0.prems"(1,2) by (intro exI [of _ "[]"]) (auto simp: TraverseAndExtract.simps [of t 0 k] Let_def split: if_splits)
  qed
next
  case (Suc l)
  show ?case
  proof (cases "nBitsUsed s < length (vBits t) \<and> vBits t ! nBitsUsed s")
    case False
    then show ?thesis using Suc.prems(1,2)
      by (intro exI [of _ "[]"]) (auto simp: TraverseAndExtract.simps [of t "Suc l" k] Let_def split: if_splits)
  next
    case True
    let ?s = "s\<lparr>nBitsUsed := nBitsUsed s + 1\<rparr>"
    have w: "CalcTreeWidth (nTransactions t) l = Inr (width (nTransactions t) l)"
      using CalcTreeWidth_ok [of "length xs" l] height_30 [OF assms(2)] assms Suc.prems(3) by simp
    obtain s2 left where L: "TraverseAndExtract t l (2 * k) ?s = Inr (s2, left)"
      "\<not> 2 * k + 1 < width (nTransactions t) l \<Longrightarrow> s' = s2 \<and> node xs (Suc l) k = Hash_pair left left"
      "2 * k + 1 < width (nTransactions t) l \<Longrightarrow> \<exists>right. TraverseAndExtract t l (2 * k + 1) s2 = Inr (s', right) \<and> node xs (Suc l) k = Hash_pair left right"
      using extract_inner [OF Suc.prems(1,2) w] True by blast
    have l: "l < height (length xs)" "l \<le> height (length xs)" using Suc.prems(3) by simp_all
    have pair: "left = node xs l (2 * k) \<and> right = right_child xs l k"
      if "(left, right) \<in> proof_pairs t (Suc l) k s" "node xs (Suc l) k = Hash_pair left right" for right
      using collisionD [OF Suc.prems(5) that(1) tree_pairs_mem [OF l(1) Suc.prems(4)]] that(2) by (simp add: node_Suc)
    have nocol: "\<not> collision P (tree_pairs xs)" if "P \<subseteq> proof_pairs t (Suc l) k s" for P
      using Suc.prems(5) that unfolding collision_def by blast
    have open': "\<not> (length (vBits t) \<le> nBitsUsed s \<or> \<not> vBits t ! nBitsUsed s)" using True by simp
    show ?thesis
    proof (cases "2 * k + 1 < width (nTransactions t) l")
      case False
      then have P: "proof_pairs t (Suc l) k s = proof_pairs t l (2 * k) ?s \<union> {(left, left)}" using L(1) open' by (simp add: Let_def)
      have "left = node xs l (2 * k)" using pair [of left] L(2) [OF False] P by simp
      then show ?thesis using Suc.IH [of "2 * k" ?s s'] L(1) L(2) [OF False] Suc.prems(2) l(2) child_width [OF Suc.prems(4)] nocol P by auto
    next
      case both: True
      then obtain right where R: "TraverseAndExtract t l (2 * k + 1) s2 = Inr (s', right)" "node xs (Suc l) k = Hash_pair left right" using L(3) by blast
      have P: "proof_pairs t (Suc l) k s = proof_pairs t l (2 * k) ?s \<union> insert (left, right) (proof_pairs t l (2 * k + 1) s2)"
        using L(1) R(1) both open' by (simp add: Let_def)
      have eq: "left = node xs l (2 * k)" "right = node xs l (2 * k + 1)" using pair [of right] R(2) P both assms(1) by (simp_all add: right_child_def)
      have "\<not> ex_fBad s2" using extract_bad [OF R(1)] Suc.prems(2) by blast
      then obtain is1 where 1: "ex_vMatch s2 = ex_vMatch s @ map ((!) xs) is1" "ex_vnIndex s2 = ex_vnIndex s @ is1" "\<forall>i \<in> set is1. i < length xs"
        using Suc.IH [of "2 * k" ?s s2] L(1) eq(1) l(2) child_width [OF Suc.prems(4)] nocol P by auto
      obtain is2 where "ex_vMatch s' = ex_vMatch s2 @ map ((!) xs) is2" "ex_vnIndex s' = ex_vnIndex s2 @ is2" "\<forall>i \<in> set is2. i < length xs"
        using Suc.IH [of "2 * k + 1" s2 s'] R(1) eq(2) l(2) both assms(1) Suc.prems(2) nocol P by auto
      then show ?thesis using 1 by (intro exI [of _ "is1 @ is2"]) auto
    qed
  qed
qed

section \<open>Properties\<close>

text \<open>
  C14. Partial Merkle trees round-trip. For a block of at most \<^verbatim>\<open>MAX_BLOCK_BASE_SIZE / 60\<close>
  transactions in which no two siblings of the tree are equal, the partial tree of any selection is built
  without an exception, and \<^verbatim>\<open>ExtractMatches\<close> returns exactly the selected transactions with
  their positions, and the root that \<^verbatim>\<open>ComputeMerkleRoot\<close> computes for the block.
\<close>

theorem partial_tree_round_trip:
  assumes "vTxid \<noteq> []" "length vTxid \<le> 1000000 div 60" "length vMatch = length vTxid" "siblings_differ vTxid"
  shows "\<exists>t root mutated. CPartialMerkleTree_new vTxid vMatch = Inr t \<and> ComputeMerkleRoot vTxid = Inr (root, mutated) \<and>
    ExtractMatches t [] = Inr (t, root, map ((!) vTxid) (filter ((!) vMatch) [0..<length vTxid]), filter ((!) vMatch) [0..<length vTxid])"
proof -
  let ?n = "length vTxid"
  have n: "?n \<le> 2 ^ 30" "?n \<le> 2 ^ 31" "?n mod 2 ^ 32 = ?n" "0 < ?n" using assms(1,2) by auto
  obtain bs hs where b: "stores vTxid vMatch (height ?n) 0 bs hs" "reads vTxid vMatch (height ?n) 0 bs hs"
    using partial_tree_parts [OF n(1) assms(3,4) height_30 [OF n(1)] width_pos [OF n(4)]] by blast
  define t where "t = \<lparr>nTransactions = ?n, vBits = bs, vHash = hs, fBad = False\<rparr>"
  have build: "CPartialMerkleTree_new vTxid vMatch = Inr t"
    using b(1) n(3) tree_height_ok [OF n(1), of 0] by (simp add: CPartialMerkleTree_new_def stores_def t_def Let_def)
  have below: "leaves_below ?n (height ?n) 0 = [0..<?n]" using height_bounds(1) [of ?n] by (simp add: leaves_below_def min_def)
  let ?s = "\<lparr>nBitsUsed = 0, nHashUsed = 0, ex_vMatch = [], ex_vnIndex = [], ex_fBad = False\<rparr>"
  have read: "TraverseAndExtract t (height ?n) 0 ?s = Inr (?s\<lparr>nBitsUsed := length bs, nHashUsed := length hs,
      ex_vMatch := map ((!) vTxid) (matched vMatch [0..<?n]), ex_vnIndex := matched vMatch [0..<?n]\<rparr>, tree_root vTxid)"
    using b(2) [unfolded reads_def, rule_format, of t "[]" "[]" "[]" "[]" ?s] below by (simp add: t_def tree_root_def)
  have "length hs \<le> length bs" "length hs \<le> ?n" using b(1) below by (simp_all add: stores_def)
  then have "ExtractMatches t [] = Inr (t, tree_root vTxid, map ((!) vTxid) (matched vMatch [0..<?n]), matched vMatch [0..<?n])"
    using read n(4) assms(2) tree_height_ok [OF n(1), of 0] unfolding ExtractMatches_def by (simp add: t_def)
  then show ?thesis using build ComputeMerkleRoot_ok [OF assms(1) n(2)] by (simp add: matched_def)
qed

lemma two_siblings: "siblings_differ [1, 2]"
proof -
  have "l = 0 \<and> k = 0" if "2 * k + 1 < width 2 l" for l k
  proof -
    have lt: "(2 * k + 1) * 2 ^ l < 2" using that by (simp only: width_iff)
    then have "(2 :: nat) ^ l \<le> 1" by (simp add: algebra_simps)
    then have "l = 0" using less_exp [of l] by linarith
    then show ?thesis using lt by simp
  qed
  then show ?thesis by (fastforce simp: siblings_differ_def numeral_2_eq_2)
qed

theorem partial_tree_round_trip_witness:
  "\<exists>t root mutated. CPartialMerkleTree_new [1, 2] [False, True] = Inr t \<and> ComputeMerkleRoot [1, 2] = Inr (root, mutated) \<and>
    ExtractMatches t [] = Inr (t, root, [2], [1])"
  using partial_tree_round_trip [of "[1, 2]" "[False, True]"] two_siblings by simp

text \<open>
  C13. What a partial tree of the right size proves is true. When \<^verbatim>\<open>ExtractMatches\<close> accepts a tree,
  whoever built it, with the root of a block, and the tree claims the number of transactions the block has, then every match it returns is the transaction of
  the block at the position it gives, unless a pair hashed while reading the proof collides with a different
  pair of the tree of the block.
\<close>

theorem partial_tree_sound:
  assumes "ExtractMatches t [] = Inr (t', root, vMatch, vnIndex)" "root \<noteq> 0" "ComputeMerkleRoot vTxid = Inr (root, mutated)"
    "nTransactions t = length vTxid"
  shows "(vMatch = map ((!) vTxid) vnIndex \<and> (\<forall>i \<in> set vnIndex. i < length vTxid)) \<or>
    collision (proof_pairs t (height (length vTxid)) 0
        \<lparr>nBitsUsed = 0, nHashUsed = 0, ex_vMatch = [], ex_vnIndex = [], ex_fBad = fBad t\<rparr>) (tree_pairs vTxid)"
    (is "?ok \<or> ?collision")
proof -
  let ?n = "length vTxid" and ?s = "\<lparr>nBitsUsed = 0, nHashUsed = 0, ex_vMatch = [], ex_vnIndex = [], ex_fBad = fBad t\<rparr>"
  have n: "0 < ?n" "?n \<le> 2 ^ 30" "?n \<le> 2 ^ 31" "vTxid \<noteq> []" using assms(1,2,4) by (auto simp: ExtractMatches_def split: if_splits)
  have root: "root = node vTxid (height ?n) 0" using ComputeMerkleRoot_ok [OF n(4,3)] assms(3) by (simp add: tree_root_def)
  obtain s' where s': "TraverseAndExtract t (height ?n) 0 ?s = Inr (s', root)" "\<not> ex_fBad s'" "vMatch = ex_vMatch s'" "vnIndex = ex_vnIndex s'"
    using assms(1,2,4) tree_height_ok [OF n(2), of 0] by (auto simp: ExtractMatches_def exn_simps split: if_splits)
  show ?thesis
  proof (cases ?collision)
    case False
    obtain "is" where "ex_vMatch s' = map ((!) vTxid) is" "ex_vnIndex s' = is" "\<forall>i \<in> set is. i < ?n"
      using extract_sound [OF assms(4) n(2), of "height ?n" 0 ?s s'] s'(1,2) root False width_pos [OF n(1)] by auto
    then show ?thesis using s'(3,4) by simp
  qed simp
qed

definition one_tree :: CPartialMerkleTree where
  "one_tree = \<lparr>nTransactions = 1, vBits = [True], vHash = [7], fBad = False\<rparr>"

lemma one_leaf: "height (Suc 0) = 0" "ComputeMerkleRoot [7] = Inr (7, False)"
proof -
  show h: "height (Suc 0) = 0" using height_bounds(3) [of 1 0] by simp
  have "(2 * k + 2) * 2 ^ l \<le> (1 :: nat) \<Longrightarrow> False" for k l :: nat
  proof -
    assume "(2 * k + 2) * 2 ^ l \<le> (1 :: nat)"
    then have "2 * (2 ^ l :: nat) \<le> 1" by (simp add: algebra_simps)
    then show False using zero_less_power [of "2 :: nat" l] by linarith
  qed
  then have "\<not> tree_mutated [7]" unfolding tree_mutated_def by fastforce
  then show "ComputeMerkleRoot [7] = Inr (7, False)" using ComputeMerkleRoot_ok [of "[7]"] h by (simp add: tree_root_def)
qed

lemma one_extract: "ExtractMatches one_tree [] = Inr (one_tree, 7, [7], [0])"
  using one_leaf(1) tree_height_ok [of "Suc 0" 0]
  by (simp add: ExtractMatches_def one_tree_def TraverseAndExtract.simps [of _ 0 0] Let_def)

theorem partial_tree_sound_witness:
  "ExtractMatches one_tree [] = Inr (one_tree, 7, [7], [0]) \<and> ComputeMerkleRoot [7] = Inr (7, False) \<and>
   ([7] = map ((!) [7 :: uint256]) [0] \<and> (\<forall>i \<in> set [0]. i < length [7 :: uint256]) \<or>
    collision (proof_pairs one_tree (height (length [7 :: uint256])) 0
      \<lparr>nBitsUsed = 0, nHashUsed = 0, ex_vMatch = [], ex_vnIndex = [], ex_fBad = fBad one_tree\<rparr>) (tree_pairs [7]))"
proof -
  have "(7 :: uint256) \<noteq> 0" "nTransactions one_tree = length [7 :: uint256]" by (simp_all add: one_tree_def)
  from partial_tree_sound [OF one_extract this(1) one_leaf(2) this(2)] show ?thesis using one_extract one_leaf(2) by blast
qed

text \<open>
  The number of transactions is not part of what the root proves. A tree that claims half the transactions of a
  block of four, and stores the two inner nodes in the place of transactions, is accepted with the root of the
  block, and an inner node is returned as a transaction, unless the two inner nodes are equal. The hypothesis
  on the number of transactions in the theorem before is needed.
\<close>

theorem forged_partial_tree:
  "Hash_pair a b = Hash_pair c d \<or>
   (\<exists>t root mutated. nTransactions t = 2 \<and> ComputeMerkleRoot [a, b, c, d] = Inr (root, mutated) \<and>
      ExtractMatches t [] = Inr (t, root, [Hash_pair a b], [0]))"
proof (cases "Hash_pair a b = Hash_pair c d")
  case False
  let ?t = "\<lparr>nTransactions = 2, vBits = [True, True, False], vHash = [Hash_pair a b, Hash_pair c d], fBad = False\<rparr>"
  have h4: "height (length [a, b, c, d]) = Suc (Suc 0)"
    using height_less_iff [of 1 "length [a, b, c, d]"] height_less_iff [of 2 "length [a, b, c, d]"] by simp
  have h2: "height 2 = 1" using height_less_iff [of 0 2] height_less_iff [of 1 2] by simp
  have root: "tree_root [a, b, c, d] = Hash_pair (Hash_pair a b) (Hash_pair c d)"
    unfolding tree_root_def h4 by (simp add: node_Suc right_child_def width_def)
  have "ExtractMatches ?t [] = Inr (?t, Hash_pair (Hash_pair a b) (Hash_pair c d), [Hash_pair a b], [0])"
    using tree_height_ok [of 2 0] h2 False CalcTreeWidth_ok [of 2 0]
    by (simp add: ExtractMatches_def TraverseAndExtract.simps [of _ "Suc 0" 0] TraverseAndExtract.simps [of _ 0 0] TraverseAndExtract.simps [of _ 0 1] TraverseAndExtract.simps [of _ 0 "Suc 0"]
        Let_def width_def)
  then show ?thesis using ComputeMerkleRoot_ok [of "[a, b, c, d]"] root by (intro disjI2 exI [of _ ?t]) auto
qed simp

end
