(* ===== verification/Versionbits.thy ===== *)
theory Versionbits
  imports Chain_Index
begin

text \<open>
  The deployment of soft forks by version bits, \<^verbatim>\<open>src/src/versionbits.h\<close> and
  \<^verbatim>\<open>versionbits.cpp\<close>: the state of a deployment is computed once per period, backwards to a known
  state and forwards again, with a cache of the states by the hash of the last block before a period. The
  hash that the code computes from the header of an entry is the hash the entry has in the index.
\<close>

section \<open>States, parameters and caches\<close>

datatype ThresholdState = THRESHOLD_DEFINED | THRESHOLD_STARTED | THRESHOLD_LOCKED_IN | THRESHOLD_ACTIVE | THRESHOLD_FAILED

type_synonym ThresholdConditionCache = "uint256 \<rightharpoonup> ThresholdState"

text \<open>The virtual functions of \<^verbatim>\<open>AbstractThresholdConditionChecker\<close>, at the consensus parameters.\<close>

record AbstractThresholdConditionChecker =
  Condition :: "CBlockIndex \<Rightarrow> bool"
  BeginTime :: int
  EndTime :: int
  Period :: int
  Threshold :: int

record BIP9Stats =
  stats_period :: int
  stats_threshold :: int
  stats_elapsed :: int
  stats_count :: int
  stats_possible :: bool

definition PREVHASH :: "block_store \<Rightarrow> nat option \<Rightarrow> cpp_exn + uint256" where
  "PREVHASH st pindexPrev = (case pindexPrev of None \<Rightarrow> Inr 0 | Some p \<Rightarrow> bind_e (deref st p) (\<lambda>b. Inr (hashBlock b)))"

section \<open>The state of a deployment\<close>

text \<open>The last block before the period of the block after an entry. A remainder by zero has no meaning.\<close>

definition period_parent :: "block_store \<Rightarrow> int \<Rightarrow> nat \<Rightarrow> cpp_exn + nat option" where
  "period_parent st nPeriod p =
     bind_e (deref st p) (\<lambda>b.
     if nPeriod = 0 then Inl UndefinedBehaviour else GetAncestor st p (bi_nHeight b - c_mod (bi_nHeight b + 1) nPeriod))"

text \<open>The walk backwards. The head of the list is the end of the vector.\<close>

partial_function (option) back_loop ::
  "chain_params \<Rightarrow> block_store \<Rightarrow> AbstractThresholdConditionChecker \<Rightarrow> ThresholdConditionCache \<Rightarrow> nat option \<Rightarrow> nat list \<Rightarrow>
   (cpp_exn + ThresholdConditionCache \<times> nat option \<times> nat list) option" where
  "back_loop params st c cache pindexPrev vToCompute =
     (case PREVHASH st pindexPrev of
        Inl e \<Rightarrow> Some (Inl e)
      | Inr h \<Rightarrow>
          if cache h \<noteq> None then Some (Inr (cache, pindexPrev, vToCompute))
          else
            (case pindexPrev of
               None \<Rightarrow> Some (Inr (cache(h \<mapsto> THRESHOLD_DEFINED), pindexPrev, vToCompute))
             | Some p \<Rightarrow>
                 (case GetMedianTimePast params st p of
                    Inl e \<Rightarrow> Some (Inl e)
                  | Inr t \<Rightarrow>
                      if t < BeginTime c then Some (Inr (cache(h \<mapsto> THRESHOLD_DEFINED), pindexPrev, vToCompute))
                      else
                        (case bind_e (deref st p) (\<lambda>b. GetAncestor st p (bi_nHeight b - Period c)) of
                           Inl e \<Rightarrow> Some (Inl e)
                         | Inr q \<Rightarrow> back_loop params st c cache q (p # vToCompute)))))"

text \<open>The number of blocks of a period that signal.\<close>

fun count_loop :: "block_store \<Rightarrow> AbstractThresholdConditionChecker \<Rightarrow> nat \<Rightarrow> nat option \<Rightarrow> int \<Rightarrow> cpp_exn + int" where
  "count_loop st c 0 pindexCount count = Inr count"
| "count_loop st c (Suc n) None count = Inl UndefinedBehaviour"
| "count_loop st c (Suc n) (Some p) count =
     bind_e (deref st p) (\<lambda>b. count_loop st c n (pprev b) (if Condition c b then count + 1 else count))"

definition next_state :: "chain_params \<Rightarrow> block_store \<Rightarrow> AbstractThresholdConditionChecker \<Rightarrow> nat \<Rightarrow> ThresholdState \<Rightarrow> cpp_exn + ThresholdState" where
  "next_state params st c p state =
     (case state of
        THRESHOLD_DEFINED \<Rightarrow>
          bind_e (GetMedianTimePast params st p) (\<lambda>t.
          Inr (if t \<ge> EndTime c then THRESHOLD_FAILED else if t \<ge> BeginTime c then THRESHOLD_STARTED else state))
      | THRESHOLD_STARTED \<Rightarrow>
          bind_e (GetMedianTimePast params st p) (\<lambda>t.
          if t \<ge> EndTime c then Inr THRESHOLD_FAILED
          else
            bind_e (count_loop st c (nat (Period c)) (Some p) 0) (\<lambda>count.
            Inr (if count \<ge> Threshold c then THRESHOLD_LOCKED_IN else state)))
      | THRESHOLD_LOCKED_IN \<Rightarrow> Inr THRESHOLD_ACTIVE
      | THRESHOLD_FAILED \<Rightarrow> Inr state
      | THRESHOLD_ACTIVE \<Rightarrow> Inr state)"

fun forward_loop ::
  "chain_params \<Rightarrow> block_store \<Rightarrow> AbstractThresholdConditionChecker \<Rightarrow> ThresholdConditionCache \<Rightarrow> ThresholdState \<Rightarrow> nat list \<Rightarrow>
   cpp_exn + ThresholdConditionCache \<times> ThresholdState" where
  "forward_loop params st c cache state [] = Inr (cache, state)"
| "forward_loop params st c cache state (p # vToCompute) =
     bind_e (next_state params st c p state) (\<lambda>stateNext.
     bind_e (PREVHASH st (Some p)) (\<lambda>h. forward_loop params st c (cache(h \<mapsto> stateNext)) stateNext vToCompute))"

definition compute_states ::
  "chain_params \<Rightarrow> block_store \<Rightarrow> AbstractThresholdConditionChecker \<Rightarrow> ThresholdConditionCache \<times> nat option \<times> nat list \<Rightarrow>
   cpp_exn + ThresholdConditionCache \<times> ThresholdState" where
  "compute_states params st c r =
     (case r of (cache, pindexPrev, vToCompute) \<Rightarrow>
        bind_e (PREVHASH st pindexPrev) (\<lambda>h.
        case cache h of
          None \<Rightarrow> Inl AssertFail
        | Some state \<Rightarrow> forward_loop params st c cache state vToCompute))"

definition GetStateFor ::
  "chain_params \<Rightarrow> block_store \<Rightarrow> AbstractThresholdConditionChecker \<Rightarrow> nat option \<Rightarrow> ThresholdConditionCache \<Rightarrow>
   (cpp_exn + ThresholdConditionCache \<times> ThresholdState) option" where
  "GetStateFor params st c pindexPrev cache =
     (case (case pindexPrev of None \<Rightarrow> Inr None | Some p \<Rightarrow> period_parent st (Period c) p) of
        Inl e \<Rightarrow> Some (Inl e)
      | Inr pindexPrev \<Rightarrow>
          map_option (\<lambda>r. bind_e r (compute_states params st c)) (back_loop params st c cache pindexPrev []))"

section \<open>Statistics and heights\<close>

partial_function (option) stats_loop ::
  "block_store \<Rightarrow> AbstractThresholdConditionChecker \<Rightarrow> int \<Rightarrow> nat option \<Rightarrow> int \<Rightarrow> (cpp_exn + int) option" where
  "stats_loop st c endHeight currentIndex count =
     (case currentIndex of
        None \<Rightarrow> Some (Inl UndefinedBehaviour)
      | Some p \<Rightarrow>
          (case st p of
             None \<Rightarrow> Some (Inl UndefinedBehaviour)
           | Some b \<Rightarrow>
               if endHeight = bi_nHeight b then Some (Inr count)
               else stats_loop st c endHeight (pprev b) (if Condition c b then count + 1 else count)))"

text \<open>The fields of the result that the code does not set keep their contents \<open>stats\<close>.\<close>

definition GetStateStatisticsFor ::
  "block_store \<Rightarrow> AbstractThresholdConditionChecker \<Rightarrow> BIP9Stats \<Rightarrow> nat option \<Rightarrow> (cpp_exn + BIP9Stats) option" where
  "GetStateStatisticsFor st c stats pindex =
     (let stats = stats\<lparr>stats_period := Period c, stats_threshold := Threshold c\<rparr> in
      case pindex of
        None \<Rightarrow> Some (Inr stats)
      | Some p \<Rightarrow>
          (case bind_e (period_parent st (stats_period stats) p) (\<lambda>q.
                bind_e (case q of None \<Rightarrow> Inl UndefinedBehaviour | Some q \<Rightarrow> deref st q) (\<lambda>e.
                bind_e (deref st p) (\<lambda>b. Inr (bi_nHeight e, bi_nHeight b - bi_nHeight e)))) of
             Inl e \<Rightarrow> Some (Inl e)
           | Inr (endHeight, elapsed) \<Rightarrow>
               map_option (\<lambda>r. bind_e r (\<lambda>count.
                 Inr (stats\<lparr>stats_elapsed := elapsed, stats_count := count,
                            stats_possible := (stats_period stats - stats_threshold stats \<ge> elapsed - count)\<rparr>)))
                 (stats_loop st c endHeight (Some p) 0)))"

text \<open>The walk to the first period with the state. The previous entry is not null.\<close>

partial_function (option) since_loop ::
  "chain_params \<Rightarrow> block_store \<Rightarrow> AbstractThresholdConditionChecker \<Rightarrow> ThresholdState \<Rightarrow> ThresholdConditionCache \<Rightarrow> nat \<Rightarrow>
   (cpp_exn + ThresholdConditionCache \<times> int) option" where
  "since_loop params st c initialState cache p =
     (case bind_e (deref st p) (\<lambda>b. bind_e (GetAncestor st p (bi_nHeight b - Period c)) (\<lambda>q. Inr (bi_nHeight b, q))) of
        Inl e \<Rightarrow> Some (Inl e)
      | Inr (height, previousPeriodParent) \<Rightarrow>
          (case previousPeriodParent of
             None \<Rightarrow> Some (Inr (cache, height + 1))
           | Some q \<Rightarrow>
               Option.bind (GetStateFor params st c (Some q) cache) (\<lambda>r.
               case r of
                 Inl e \<Rightarrow> Some (Inl e)
               | Inr (cache, state) \<Rightarrow>
                   if state = initialState then since_loop params st c initialState cache q
                   else Some (Inr (cache, height + 1)))))"

definition GetStateSinceHeightFor ::
  "chain_params \<Rightarrow> block_store \<Rightarrow> AbstractThresholdConditionChecker \<Rightarrow> nat option \<Rightarrow> ThresholdConditionCache \<Rightarrow>
   (cpp_exn + ThresholdConditionCache \<times> int) option" where
  "GetStateSinceHeightFor params st c pindexPrev cache =
     Option.bind (GetStateFor params st c pindexPrev cache) (\<lambda>r.
     case r of
       Inl e \<Rightarrow> Some (Inl e)
     | Inr (cache, initialState) \<Rightarrow>
         if initialState = THRESHOLD_DEFINED then Some (Inr (cache, 0))
         else
           (case pindexPrev of
              None \<Rightarrow> Some (Inl UndefinedBehaviour)
            | Some p \<Rightarrow>
                (case period_parent st (Period c) p of
                   Inl e \<Rightarrow> Some (Inl e)
                 | Inr None \<Rightarrow> Some (Inl UndefinedBehaviour)
                 | Inr (Some p) \<Rightarrow> since_loop params st c initialState cache p)))"

section \<open>Deployments by version bits\<close>

datatype DeploymentPos = DEPLOYMENT_TESTDUMMY | DEPLOYMENT_CSV

datatype DeploymentType = DEPLOYMENT_POW | DEPLOYMENT_WITNESS | DEPLOYMENT_BOTH

record BIP9Deployment =
  deployment_bit :: nat
  nStartTime :: int
  nTimeout :: int
  deployment_type :: DeploymentType

record deployment_params =
  nRuleChangeActivationThreshold :: u32
  nMinerConfirmationWindow :: u32
  vDeployments :: "DeploymentPos \<Rightarrow> BIP9Deployment"

definition VersionBitsMask :: "deployment_params \<Rightarrow> DeploymentPos \<Rightarrow> u32" where
  "VersionBitsMask dparams pos = push_bit (deployment_bit (vDeployments dparams pos)) 1"

definition version_signals :: "u32 \<Rightarrow> u32 \<Rightarrow> bool" where
  "version_signals bits version \<longleftrightarrow> version AND 0xE0000000 = 0x20000000 \<and> version AND bits \<noteq> 0"

definition VersionBitsCondition :: "deployment_params \<Rightarrow> DeploymentPos \<Rightarrow> CBlockIndex \<Rightarrow> bool" where
  "VersionBitsCondition dparams pos b =
     (case deployment_type (vDeployments dparams pos) of
        DEPLOYMENT_POW \<Rightarrow> version_signals (VersionBitsMask dparams pos) (bi_nVersion b)
      | DEPLOYMENT_WITNESS \<Rightarrow> version_signals (VersionBitsMask dparams pos) (nVersionPoW2Witness b)
      | DEPLOYMENT_BOTH \<Rightarrow> version_signals (VersionBitsMask dparams pos) (bi_nVersion b) \<and>
                          version_signals (VersionBitsMask dparams pos) (nVersionPoW2Witness b))"

text \<open>The window and the threshold become signed integers.\<close>

definition VersionBitsConditionChecker :: "deployment_params \<Rightarrow> DeploymentPos \<Rightarrow> AbstractThresholdConditionChecker" where
  "VersionBitsConditionChecker dparams pos =
     \<lparr>Condition = VersionBitsCondition dparams pos,
      BeginTime = nStartTime (vDeployments dparams pos),
      EndTime = nTimeout (vDeployments dparams pos),
      Period = sint (nMinerConfirmationWindow dparams),
      Threshold = sint (nRuleChangeActivationThreshold dparams)\<rparr>"

record VersionBitsCache =
  cachespow :: "DeploymentPos \<Rightarrow> ThresholdConditionCache"
  cacheswitness :: "DeploymentPos \<Rightarrow> ThresholdConditionCache"
  cachescombined :: "DeploymentPos \<Rightarrow> ThresholdConditionCache"

definition caches_get :: "deployment_params \<Rightarrow> VersionBitsCache \<Rightarrow> DeploymentPos \<Rightarrow> ThresholdConditionCache" where
  "caches_get dparams caches pos =
     (case deployment_type (vDeployments dparams pos) of
        DEPLOYMENT_POW \<Rightarrow> cachespow caches pos
      | DEPLOYMENT_WITNESS \<Rightarrow> cacheswitness caches pos
      | DEPLOYMENT_BOTH \<Rightarrow> cachescombined caches pos)"

definition caches_set :: "deployment_params \<Rightarrow> VersionBitsCache \<Rightarrow> DeploymentPos \<Rightarrow> ThresholdConditionCache \<Rightarrow> VersionBitsCache" where
  "caches_set dparams caches pos cache =
     (case deployment_type (vDeployments dparams pos) of
        DEPLOYMENT_POW \<Rightarrow> caches\<lparr>cachespow := (cachespow caches)(pos := cache)\<rparr>
      | DEPLOYMENT_WITNESS \<Rightarrow> caches\<lparr>cacheswitness := (cacheswitness caches)(pos := cache)\<rparr>
      | DEPLOYMENT_BOTH \<Rightarrow> caches\<lparr>cachescombined := (cachescombined caches)(pos := cache)\<rparr>)"

definition VersionBitsState ::
  "chain_params \<Rightarrow> deployment_params \<Rightarrow> block_store \<Rightarrow> nat option \<Rightarrow> DeploymentPos \<Rightarrow> VersionBitsCache \<Rightarrow>
   (cpp_exn + VersionBitsCache \<times> ThresholdState) option" where
  "VersionBitsState params dparams st pindexPrev pos caches =
     map_option (\<lambda>r. bind_e r (\<lambda>(cache, state). Inr (caches_set dparams caches pos cache, state)))
       (GetStateFor params st (VersionBitsConditionChecker dparams pos) pindexPrev (caches_get dparams caches pos))"

definition VersionBitsStatistics ::
  "deployment_params \<Rightarrow> block_store \<Rightarrow> BIP9Stats \<Rightarrow> nat option \<Rightarrow> DeploymentPos \<Rightarrow> (cpp_exn + BIP9Stats) option" where
  "VersionBitsStatistics dparams st stats pindexPrev pos =
     GetStateStatisticsFor st (VersionBitsConditionChecker dparams pos) stats pindexPrev"

definition VersionBitsStateSinceHeight ::
  "chain_params \<Rightarrow> deployment_params \<Rightarrow> block_store \<Rightarrow> nat option \<Rightarrow> DeploymentPos \<Rightarrow> VersionBitsCache \<Rightarrow>
   (cpp_exn + VersionBitsCache \<times> int) option" where
  "VersionBitsStateSinceHeight params dparams st pindexPrev pos caches =
     map_option (\<lambda>r. bind_e r (\<lambda>(cache, height). Inr (caches_set dparams caches pos cache, height)))
       (GetStateSinceHeightFor params st (VersionBitsConditionChecker dparams pos) pindexPrev (caches_get dparams caches pos))"

definition VersionBitsCache_Clear :: VersionBitsCache where
  "VersionBitsCache_Clear =
     \<lparr>cachespow = (\<lambda>_. Map.empty), cacheswitness = (\<lambda>_. Map.empty), cachescombined = (\<lambda>_. Map.empty)\<rparr>"

end
