(* ===== verification/Versionbits_State.thy ===== *)
theory Versionbits_State
  imports Versionbits Chain_Walk
begin

text \<open>
  The states of a deployment: the cached computation of versionbits.cpp agrees with the state machine of BIP 9
  run over the periods of the chain, whatever has been computed before, and every deployment comes to an end.
\<close>

section \<open>The state machine\<close>

text \<open>One step per period, from the median time and the number of signalling blocks at its last block.\<close>

inductive threshold_step :: "AbstractThresholdConditionChecker \<Rightarrow> int \<Rightarrow> int \<Rightarrow> ThresholdState \<Rightarrow> ThresholdState \<Rightarrow> bool" for c mtp count where
  wait: "mtp < BeginTime c \<Longrightarrow> mtp < EndTime c \<Longrightarrow> threshold_step c mtp count THRESHOLD_DEFINED THRESHOLD_DEFINED"
| start: "BeginTime c \<le> mtp \<Longrightarrow> mtp < EndTime c \<Longrightarrow> threshold_step c mtp count THRESHOLD_DEFINED THRESHOLD_STARTED"
| expire: "EndTime c \<le> mtp \<Longrightarrow> s = THRESHOLD_DEFINED \<or> s = THRESHOLD_STARTED \<Longrightarrow> threshold_step c mtp count s THRESHOLD_FAILED"
| lock_in: "mtp < EndTime c \<Longrightarrow> Threshold c \<le> count \<Longrightarrow> threshold_step c mtp count THRESHOLD_STARTED THRESHOLD_LOCKED_IN"
| retry: "mtp < EndTime c \<Longrightarrow> count < Threshold c \<Longrightarrow> threshold_step c mtp count THRESHOLD_STARTED THRESHOLD_STARTED"
| activate: "threshold_step c mtp count THRESHOLD_LOCKED_IN THRESHOLD_ACTIVE"
| final: "s = THRESHOLD_ACTIVE \<or> s = THRESHOLD_FAILED \<Longrightarrow> threshold_step c mtp count s s"

inductive_simps threshold_step_simps:
  "threshold_step c mtp count THRESHOLD_DEFINED s'" "threshold_step c mtp count THRESHOLD_STARTED s'"
  "threshold_step c mtp count THRESHOLD_LOCKED_IN s'" "threshold_step c mtp count THRESHOLD_ACTIVE s'"
  "threshold_step c mtp count THRESHOLD_FAILED s'"

lemma threshold_step_functional: "threshold_step c mtp count s s1 \<Longrightarrow> threshold_step c mtp count s s2 \<Longrightarrow> s1 = s2"
  by (cases s) (auto simp: threshold_step_simps)

text \<open>The number of signalling blocks among the last blocks, the block one period back, and the state that
  the rules of BIP 9 give for the period after a block.\<close>

definition signals :: "block_store \<Rightarrow> AbstractThresholdConditionChecker \<Rightarrow> nat \<Rightarrow> nat \<Rightarrow> int" where
  "signals st c n p = int (card {i. i < n \<and> (\<exists>q b. steps_back st i p = Some q \<and> st q = Some b \<and> Condition c b)})"

definition period_back :: "block_store \<Rightarrow> AbstractThresholdConditionChecker \<Rightarrow> nat \<Rightarrow> nat option" where
  "period_back st c p = (if height_of st p < Period c then None else steps_back st (nat (Period c)) p)"

definition period_end :: "block_store \<Rightarrow> AbstractThresholdConditionChecker \<Rightarrow> nat \<Rightarrow> bool" where
  "period_end st c p \<longleftrightarrow> connected st p \<and> (height_of st p + 1) mod Period c = 0"

inductive deployment_state ::
  "chain_params \<Rightarrow> block_store \<Rightarrow> AbstractThresholdConditionChecker \<Rightarrow> nat option \<Rightarrow> ThresholdState \<Rightarrow> bool" for params st c where
  genesis: "deployment_state params st c None THRESHOLD_DEFINED"
| period: "period_end st c p \<Longrightarrow> GetMedianTimePast params st p = Inr mtp \<Longrightarrow> deployment_state params st c (period_back st c p) s \<Longrightarrow>
     threshold_step c mtp (signals st c (nat (Period c)) p) s s' \<Longrightarrow> deployment_state params st c (Some p) s'"

inductive_simps deployment_state_None [simp]: "deployment_state params st c None s"
inductive_cases deployment_state_SomeE: "deployment_state params st c (Some p) s"

lemma deployment_state_functional:
  "deployment_state params st c p s1 \<Longrightarrow> deployment_state params st c p s2 \<Longrightarrow> s1 = s2"
proof (induction arbitrary: s2 rule: deployment_state.induct)
  case (period p mtp s s')
  obtain mtp' s0 where s0: "GetMedianTimePast params st p = Inr mtp'" "deployment_state params st c (period_back st c p) s0"
    "threshold_step c mtp' (signals st c (nat (Period c)) p) s0 s2"
    using period.prems by (elim deployment_state_SomeE)
  have "s0 = s" "mtp' = mtp" using period.IH [OF s0(2)] period.hyps(2) s0(1) by simp_all
  then show ?case using threshold_step_functional [OF period.hyps(4)] s0(3) by simp
qed simp

text \<open>The two hypotheses on the index: hashes tell blocks apart, and the median time does not fall from the end
  of a period to the end of the next.\<close>

definition hashes_differ :: "block_store \<Rightarrow> bool" where
  "hashes_differ st \<longleftrightarrow> (\<forall>p b. st p = Some b \<longrightarrow> hashBlock b \<noteq> 0 \<and> (\<forall>q b'. st q = Some b' \<and> hashBlock b' = hashBlock b \<longrightarrow> q = p))"

definition times_rise :: "chain_params \<Rightarrow> block_store \<Rightarrow> AbstractThresholdConditionChecker \<Rightarrow> bool" where
  "times_rise params st c \<longleftrightarrow>
     (\<forall>p q t t'. period_end st c p \<and> period_back st c p = Some q \<and> GetMedianTimePast params st p = Inr t \<and>
        GetMedianTimePast params st q = Inr t' \<longrightarrow> t' \<le> t)"

definition schedule_ok :: "chain_params \<Rightarrow> block_store \<Rightarrow> AbstractThresholdConditionChecker \<Rightarrow> bool" where
  "schedule_ok params st c \<longleftrightarrow> index_ok st \<and> hashes_differ st \<and> times_rise params st c \<and> 0 < Period c \<and> BeginTime c \<le> EndTime c"

text \<open>What a cache holds is right.\<close>

definition cache_ok :: "chain_params \<Rightarrow> block_store \<Rightarrow> AbstractThresholdConditionChecker \<Rightarrow> ThresholdConditionCache \<Rightarrow> bool" where
  "cache_ok params st c cache \<longleftrightarrow>
     (\<forall>s. cache 0 = Some s \<longrightarrow> s = THRESHOLD_DEFINED) \<and>
     (\<forall>p b s. st p = Some b \<and> period_end st c p \<and> cache (hashBlock b) = Some s \<longrightarrow> deployment_state params st c (Some p) s)"

lemma cache_ok_empty: "cache_ok params st c Map.empty"
  by (simp add: cache_ok_def)

section \<open>Steps of the code\<close>

lemma median_some:
  assumes "index_ok st" "st p = Some b"
  obtains t where "GetMedianTimePast params st p = Inr t"
proof -
  have pos: "0 < median_span params b" by (simp add: median_span_def)
  have d: "deref st p = Inr b" using assms(2) by (simp add: deref_def)
  have neg: "- int n < int (m * 2)" "- int n < int m" if "0 < m" for n m using that by linarith+
  have "\<exists>t. GetMedianTimePast params st p = Inr t"
    using d neg [OF pos] first_of_window [OF assms pos, of "\<lambda>b. [GetBlockTime b, GetBlockTimePoW2Witness b]"]
      first_of_window [OF assms pos, of "\<lambda>b. [GetBlockTime b]"]
    by (cases "nTimePoW2Witness b = 0") (auto simp: GetMedianTimePast_def Let_def)
  then show thesis using that by blast
qed

lemma period_end_entry:
  assumes "period_end st c p" "index_ok st"
  obtains b where "st p = Some b" "connected st p" "0 \<le> bi_nHeight b" "(bi_nHeight b + 1) mod Period c = 0" "height_of st p = bi_nHeight b"
  using assms index_okD(1) [OF assms(2)] by (auto simp: period_end_def connected_def height_of_def split: option.splits)

lemma period_end_height:
  assumes "period_end st c p" "index_ok st"
  shows "0 \<le> height_of st p" "(height_of st p + 1) mod Period c = 0" "\<exists>b. st p = Some b \<and> height_of st p = bi_nHeight b"
  using assms index_okD(1) [OF assms(2)] by (auto simp: period_end_def connected_def height_of_def split: option.splits)

lemma period_back_entry:
  assumes "index_ok st" "0 < Period c" "period_end st c p" "st p = Some b"
  shows "GetAncestor st p (bi_nHeight b - Period c) = Inr (period_back st c p)"
    "case period_back st c p of None \<Rightarrow> True | Some q \<Rightarrow> period_end st c q \<and> height_of st q = bi_nHeight b - Period c \<and> ancestor st q p"
proof -
  have h: "connected st p" "(bi_nHeight b + 1) mod Period c = 0" "height_of st p = bi_nHeight b" "0 \<le> bi_nHeight b"
    using period_end_entry [OF assms(3,1)] assms(4) by auto
  show "GetAncestor st p (bi_nHeight b - Period c) = Inr (period_back st c p)"
    using GetAncestor_back [OF assms(1,4), of "bi_nHeight b - Period c"] assms(2) h(3) by (auto simp: period_back_def)
  show "case period_back st c p of None \<Rightarrow> True | Some q \<Rightarrow> period_end st c q \<and> height_of st q = bi_nHeight b - Period c \<and> ancestor st q p"
  proof (cases "bi_nHeight b < Period c")
    case False
    obtain q bq where q: "steps_back st (nat (bi_nHeight b - (bi_nHeight b - Period c))) p = Some q" "st q = Some bq"
      "bi_nHeight bq = bi_nHeight b - Period c" "connected st q"
      using steps_back_connected [OF assms(1) h(1) assms(4), of "bi_nHeight b - Period c"] False assms(2) by auto
    have "(bi_nHeight b - Period c + 1) mod Period c = (bi_nHeight b + 1 - Period c) mod Period c" by (simp add: algebra_simps)
    then have "(bi_nHeight b - Period c + 1) mod Period c = 0" using h(2) by simp
    then have "period_end st c q" "height_of st q = bi_nHeight b - Period c" using q by (simp_all add: period_end_def height_of_def)
    moreover have "period_back st c p = Some q" using False q(1) h(3) by (simp add: period_back_def)
    moreover have "ancestor st q p" using q(1) unfolding ancestor_def by blast
    ultimately show ?thesis by simp
  qed (simp add: period_back_def h(3))
qed

lemma signals_Suc:
  assumes "st p = Some b" "pprev b = Some q"
  shows "signals st c (Suc n) p = (if Condition c b then 1 else 0) + signals st c n q"
proof -
  let ?S = "\<lambda>n p. {i. i < n \<and> (\<exists>q b. steps_back st i p = Some q \<and> st q = Some b \<and> Condition c b)}"
  have "?S (Suc n) p = (if Condition c b then {0} else {}) \<union> Suc ` ?S n q"
    using assms by (auto simp: image_iff less_Suc_eq_0_disj)
  moreover have "finite (?S n q)" by simp
  ultimately show ?thesis unfolding signals_def by (auto simp: card_image)
qed

lemma count_loop_signals:
  "index_ok st \<Longrightarrow> st p = Some b \<Longrightarrow> connected st p \<Longrightarrow> int n \<le> bi_nHeight b + 1 \<Longrightarrow>
   count_loop st c n (Some p) k = Inr (k + signals st c n p)"
proof (induction n arbitrary: p b k)
  case 0
  then show ?case by (simp add: signals_def)
next
  case (Suc n)
  have d: "deref st p = Inr b" using Suc.prems(2) by (simp add: deref_def)
  show ?case
  proof (cases n)
    case 0
    have "{i. i < Suc 0 \<and> (\<exists>q b. steps_back st i p = Some q \<and> st q = Some b \<and> Condition c b)} = (if Condition c b then {0} else {})"
      using Suc.prems(2) by auto
    then show ?thesis using 0 d by (simp add: signals_def)
  next
    case (Suc m)
    then have "0 < bi_nHeight b" using Suc.prems(4) by simp
    then obtain q bq where q: "pprev b = Some q" "st q = Some bq" "bi_nHeight bq = bi_nHeight b - 1" "connected st q"
      using connected_prev [OF Suc.prems(1,3,2)] by blast
    then show ?thesis using Suc.IH [OF Suc.prems(1) q(2,4)] Suc.prems(4) d signals_Suc [where st = st and p = p, OF Suc.prems(2) q(1), of c n] by simp
  qed
qed

lemma next_state_step:
  assumes "schedule_ok params st c" "period_end st c p" "deployment_state params st c (period_back st c p) s"
  shows "\<exists>s'. next_state params st c p s = Inr s' \<and> deployment_state params st c (Some p) s'"
proof -
  have ok: "index_ok st" "0 < Period c" using assms(1) by (simp_all add: schedule_ok_def)
  obtain b where b: "st p = Some b" "connected st p" "0 \<le> bi_nHeight b" "(bi_nHeight b + 1) mod Period c = 0"
    using period_end_entry [OF assms(2) ok(1)] by metis
  obtain t where t: "GetMedianTimePast params st p = Inr t" using median_some [OF ok(1) b(1)] by blast
  have "Period c \<le> bi_nHeight b + 1" using b(3,4) by (intro zdvd_imp_le) (auto simp: mod_eq_0_iff_dvd)
  then have "count_loop st c (nat (Period c)) (Some p) 0 = Inr (signals st c (nat (Period c)) p)"
    using count_loop_signals [OF ok(1) b(1,2), of "nat (Period c)" c 0] ok(2) by simp
  then have "\<exists>s'. next_state params st c p s = Inr s' \<and> threshold_step c t (signals st c (nat (Period c)) p) s s'"
    using t assms(1) by (cases s) (auto simp: next_state_def threshold_step_simps schedule_ok_def)
  then show ?thesis using deployment_state.period [OF assms(2) t assms(3)] by blast
qed

section \<open>The loops\<close>

lemma before_start:
  assumes "schedule_ok params st c"
  shows "period_end st c p \<Longrightarrow> GetMedianTimePast params st p = Inr t \<Longrightarrow> t < BeginTime c \<Longrightarrow>
    deployment_state params st c (Some p) THRESHOLD_DEFINED"
proof (induction "nat (height_of st p)" arbitrary: p t rule: less_induct)
  case less
  have ok: "index_ok st" "0 < Period c" "BeginTime c \<le> EndTime c" "times_rise params st c" using assms by (simp_all add: schedule_ok_def)
  obtain b where b: "st p = Some b" "0 \<le> bi_nHeight b" "height_of st p = bi_nHeight b" using period_end_entry [OF less.prems(1) ok(1)] by metis
  have "deployment_state params st c (period_back st c p) THRESHOLD_DEFINED"
  proof (cases "period_back st c p")
    case (Some q)
    then have q: "period_end st c q" "height_of st q = bi_nHeight b - Period c" using period_back_entry(2) [OF ok(1,2) less.prems(1) b(1)] by simp_all
    obtain bq where bq: "st q = Some bq" "0 \<le> bi_nHeight bq" "height_of st q = bi_nHeight bq" using period_end_entry [OF q(1) ok(1)] by metis
    obtain t' where t': "GetMedianTimePast params st q = Inr t'" using median_some [OF ok(1) bq(1)] by blast
    then have "t' \<le> t" using ok(4) less.prems(1,2) Some unfolding times_rise_def by blast
    then show ?thesis using less.hyps [OF _ q(1) t'] less.prems(3) q(2) b bq ok(2) Some by simp
  qed simp
  moreover have "threshold_step c t (signals st c (nat (Period c)) p) THRESHOLD_DEFINED THRESHOLD_DEFINED"
    using less.prems(3) ok(3) by (intro threshold_step.wait) simp_all
  ultimately show ?case by (rule deployment_state.period [OF less.prems(1,2)])
qed

text \<open>The periods from one block to another, the first of them at the head.\<close>

fun periods :: "block_store \<Rightarrow> AbstractThresholdConditionChecker \<Rightarrow> nat option \<Rightarrow> nat list \<Rightarrow> nat option \<Rightarrow> bool" where
  "periods st c q [] p \<longleftrightarrow> q = p"
| "periods st c q (v # vs) p \<longleftrightarrow> period_end st c v \<and> period_back st c v = q \<and> periods st c (Some v) vs p"

lemma periods_snoc: "periods st c q vs (period_back st c p) \<Longrightarrow> period_end st c p \<Longrightarrow> periods st c q (vs @ [p]) (Some p)"
  by (induction vs arbitrary: q) auto

definition known :: "chain_params \<Rightarrow> block_store \<Rightarrow> AbstractThresholdConditionChecker \<Rightarrow> ThresholdConditionCache \<Rightarrow> nat option \<Rightarrow> bool" where
  "known params st c cache p \<longleftrightarrow> (\<exists>h s. PREVHASH st p = Inr h \<and> cache h = Some s \<and> deployment_state params st c p s)"

lemma cache_ok_update:
  assumes "schedule_ok params st c" "cache_ok params st c cache" "PREVHASH st p = Inr h" "deployment_state params st c p s"
  shows "cache_ok params st c (cache(h \<mapsto> s))"
proof (cases p)
  case None
  then show ?thesis using assms unfolding cache_ok_def schedule_ok_def hashes_differ_def by (auto simp: PREVHASH_def)
next
  case (Some r)
  then obtain b where b: "st r = Some b" "h = hashBlock b" using assms(3) by (auto simp: PREVHASH_def deref_def split: option.splits)
  moreover have "hashes_differ st" using assms(1) by (simp add: schedule_ok_def)
  ultimately have "h \<noteq> 0" "\<And>q b'. st q = Some b' \<Longrightarrow> hashBlock b' = h \<Longrightarrow> q = r" unfolding hashes_differ_def by simp_all
  then show ?thesis using assms(2,4) Some unfolding cache_ok_def by (auto split: if_splits)
qed

lemma cache_ok_known:
  assumes "cache_ok params st c cache" "PREVHASH st p = Inr h" "cache h = Some s" "\<And>q. p = Some q \<Longrightarrow> period_end st c q"
  shows "known params st c cache p"
proof (cases p)
  case (Some q)
  then obtain b where "st q = Some b" "h = hashBlock b" using assms(2) by (auto simp: PREVHASH_def deref_def split: option.splits)
  then show ?thesis using assms Some unfolding known_def cache_ok_def by blast
qed (use assms in \<open>auto simp: known_def cache_ok_def PREVHASH_def\<close>)

lemma known_update: "PREVHASH st p = Inr h \<Longrightarrow> deployment_state params st c p s \<Longrightarrow> known params st c (cache(h \<mapsto> s)) p"
  by (auto simp: known_def)

lemma back_loop_periods:
  assumes "schedule_ok params st c" "cache_ok params st c cache"
  shows "(\<And>r. p = Some r \<Longrightarrow> period_end st c r) \<Longrightarrow>
    \<exists>cache' q vs'. back_loop params st c cache p vs = Some (Inr (cache', q, vs' @ vs)) \<and> cache_ok params st c cache' \<and>
      known params st c cache' q \<and> periods st c q vs' p"
proof (induction "case p of None \<Rightarrow> 0 | Some r \<Rightarrow> Suc (nat (height_of st r))" arbitrary: p vs rule: less_induct)
  case less
  have ok: "index_ok st" "0 < Period c" using assms(1) by (simp_all add: schedule_ok_def)
  have stop: ?case if "back_loop params st c cache p vs = Some (Inr (cache', p, vs))" "cache_ok params st c cache'" "known params st c cache' p" for cache'
    using that by (intro exI [of _ cache'] exI [of _ p] exI [of _ "[]"]) simp
  show ?case
  proof (cases p)
    case None
    then have h: "PREVHASH st p = Inr 0" by (simp add: PREVHASH_def)
    show ?thesis
    proof (cases "cache 0")
      case None
      have d: "deployment_state params st c p THRESHOLD_DEFINED" using \<open>p = None\<close> by simp
      have "back_loop params st c cache p vs = Some (Inr (cache(0 \<mapsto> THRESHOLD_DEFINED), p, vs))"
        using h None \<open>p = None\<close> by (subst back_loop.simps) simp
      then show ?thesis by (rule stop [OF _ cache_ok_update [OF assms h d] known_update [OF h d]])
    next
      case (Some s)
      then have "back_loop params st c cache p vs = Some (Inr (cache, p, vs))" using h \<open>p = None\<close> by (subst back_loop.simps) simp
      then show ?thesis using cache_ok_known [OF assms(2) h Some] \<open>p = None\<close> by (intro stop [OF _ assms(2)]) simp_all
    qed
  next
    case (Some r)
    then have r: "period_end st c r" using less.prems by blast
    obtain b where b: "st r = Some b" "0 \<le> bi_nHeight b" "height_of st r = bi_nHeight b" using period_end_entry [OF r ok(1)] by metis
    have h: "PREVHASH st p = Inr (hashBlock b)" using b(1) Some by (simp add: PREVHASH_def deref_def)
    obtain t where t: "GetMedianTimePast params st r = Inr t" using median_some [OF ok(1) b(1)] by blast
    consider s where "cache (hashBlock b) = Some s" | "cache (hashBlock b) = None" "t < BeginTime c"
      | "cache (hashBlock b) = None" "\<not> t < BeginTime c" by fastforce
    then show ?thesis
    proof cases
      case (1 s)
      then have "back_loop params st c cache p vs = Some (Inr (cache, p, vs))" using h by (subst back_loop.simps) simp
      then show ?thesis using cache_ok_known [OF assms(2) h 1] less.prems by (intro stop [OF _ assms(2)]) simp_all
    next
      case 2
      then have d: "deployment_state params st c p THRESHOLD_DEFINED" using before_start [OF assms(1) r t] Some by simp
      have "back_loop params st c cache p vs = Some (Inr (cache(hashBlock b \<mapsto> THRESHOLD_DEFINED), p, vs))"
        using h 2 t Some by (subst back_loop.simps) simp
      then show ?thesis by (rule stop [OF _ cache_ok_update [OF assms h d] known_update [OF h d]])
    next
      case 3
      have prev: "case period_back st c r of None \<Rightarrow> True | Some q \<Rightarrow> period_end st c q \<and> height_of st q = bi_nHeight b - Period c \<and> ancestor st q r"
        by (rule period_back_entry(2) [OF ok r b(1)])
      have "back_loop params st c cache p vs = back_loop params st c cache (period_back st c r) (r # vs)"
        using h 3 t Some b(1) period_back_entry(1) [OF ok r b(1)] by (subst back_loop.simps) (simp add: deref_def)
      moreover have "\<exists>cache' q vs'. back_loop params st c cache (period_back st c r) (r # vs) = Some (Inr (cache', q, vs' @ r # vs)) \<and>
          cache_ok params st c cache' \<and> known params st c cache' q \<and> periods st c q vs' (period_back st c r)"
      proof (rule less.hyps)
        show "(case period_back st c r of None \<Rightarrow> 0 | Some r \<Rightarrow> Suc (nat (height_of st r))) < (case p of None \<Rightarrow> 0 | Some r \<Rightarrow> Suc (nat (height_of st r)))"
          using prev Some b ok(2) by (auto simp: period_back_def split: option.splits if_splits)
        show "\<And>q. period_back st c r = Some q \<Longrightarrow> period_end st c q" using prev by simp
      qed
      ultimately show ?thesis using periods_snoc [OF _ r] Some by fastforce
    qed
  qed
qed

lemma forward_loop_periods:
  assumes "schedule_ok params st c"
  shows "periods st c q vs p \<Longrightarrow> cache_ok params st c cache \<Longrightarrow> deployment_state params st c q s \<Longrightarrow>
    \<exists>cache' s'. forward_loop params st c cache s vs = Inr (cache', s') \<and> cache_ok params st c cache' \<and> deployment_state params st c p s'"
proof (induction vs arbitrary: q cache s)
  case (Cons v vs)
  have v: "period_end st c v" "period_back st c v = q" "periods st c (Some v) vs p" using Cons.prems(1) by simp_all
  have "index_ok st" using assms by (simp add: schedule_ok_def)
  then obtain b where "st v = Some b" using period_end_entry [OF v(1)] by blast
  then have h: "PREVHASH st (Some v) = Inr (hashBlock b)" by (simp add: PREVHASH_def deref_def)
  obtain s' where s': "next_state params st c v s = Inr s'" "deployment_state params st c (Some v) s'"
    using next_state_step [OF assms v(1)] Cons.prems(3) v(2) by blast
  have "forward_loop params st c cache s (v # vs) = forward_loop params st c (cache(hashBlock b \<mapsto> s')) s' vs" using s'(1) h by simp
  then show ?case using Cons.IH [OF v(3) cache_ok_update [OF assms Cons.prems(2) h s'(2)] s'(2)] by (simp only:)
qed simp

text \<open>The end of the last period before the block after an entry.\<close>

definition last_period :: "block_store \<Rightarrow> AbstractThresholdConditionChecker \<Rightarrow> nat \<Rightarrow> nat option" where
  "last_period st c p =
     (let h = height_of st p - (height_of st p + 1) mod Period c in if h < 0 then None else steps_back st (nat (height_of st p - h)) p)"

lemma period_parent_last:
  assumes "index_ok st" "0 < Period c" "connected st p"
  shows "period_parent st (Period c) p = Inr (last_period st c p)"
    "last_period st c p = Some q \<Longrightarrow> period_end st c q \<and> ancestor st q p \<and> height_of st p - Period c < height_of st q"
proof -
  obtain b where b: "st p = Some b" using assms(3) by (auto simp: connected_def split: option.splits)
  have hp: "height_of st p = bi_nHeight b" "0 \<le> bi_nHeight b" using b index_okD(1) [OF assms(1) b] by (simp_all add: height_of_def)
  define h where "h = bi_nHeight b - (bi_nHeight b + 1) mod Period c"
  have bound: "0 \<le> (bi_nHeight b + 1) mod Period c" "(bi_nHeight b + 1) mod Period c < Period c" using assms(2) by simp_all
  show "period_parent st (Period c) p = Inr (last_period st c p)"
    using GetAncestor_back [OF assms(1) b, of h] b assms(2) hp bound by (auto simp: period_parent_def last_period_def deref_def h_def Let_def)
  assume q: "last_period st c p = Some q"
  then have h: "0 \<le> h" "steps_back st (nat (bi_nHeight b - h)) p = Some q" using hp(1) by (auto simp: last_period_def h_def Let_def split: if_splits)
  obtain q' bq where q': "steps_back st (nat (bi_nHeight b - h)) p = Some q'" "st q' = Some bq" "bi_nHeight bq = h" "connected st q'"
    using steps_back_connected [OF assms(1,3) b h(1)] bound(1) h_def by auto
  have "(h + 1) mod Period c = (bi_nHeight b + 1 - (bi_nHeight b + 1) mod Period c) mod Period c" by (simp add: h_def algebra_simps)
  then have "(h + 1) mod Period c = 0" by (simp add: minus_mod_eq_mult_div)
  then show "period_end st c q \<and> ancestor st q p \<and> height_of st p - Period c < height_of st q"
    using q' h(2) hp(1) bound(2) by (auto simp: period_end_def height_of_def ancestor_def h_def)
qed

lemma GetStateFor_state:
  assumes "schedule_ok params st c" "cache_ok params st c cache" "connected st p"
  shows "\<exists>cache' s. GetStateFor params st c (Some p) cache = Some (Inr (cache', s)) \<and> cache_ok params st c cache' \<and>
    deployment_state params st c (last_period st c p) s"
proof -
  have ok: "index_ok st" "0 < Period c" using assms(1) by (simp_all add: schedule_ok_def)
  note parent = period_parent_last [OF ok assms(3)]
  obtain cache' q vs where r: "back_loop params st c cache (last_period st c p) [] = Some (Inr (cache', q, vs @ []))"
    "cache_ok params st c cache'" "known params st c cache' q" "periods st c q vs (last_period st c p)"
    using back_loop_periods [OF assms(1,2), of "last_period st c p" "[]"] parent(2) by blast
  obtain h s where s: "PREVHASH st q = Inr h" "cache' h = Some s" "deployment_state params st c q s" using r(3) by (auto simp: known_def)
  obtain cache'' s' where "forward_loop params st c cache' s vs = Inr (cache'', s')" "cache_ok params st c cache''"
    "deployment_state params st c (last_period st c p) s'"
    using forward_loop_periods [OF assms(1) r(4,2) s(3)] by blast
  then show ?thesis using parent(1) r(1) s(1,2) by (simp add: GetStateFor_def compute_states_def)
qed

section \<open>Periods and ancestors\<close>

lemma period_ancestor:
  assumes "index_ok st" "0 < Period c" "period_end st c p" "period_end st c r" "ancestor st r p" "r \<noteq> p"
  obtains q where "period_back st c p = Some q" "ancestor st r q" "period_end st c q" "height_of st q < height_of st p"
proof -
  obtain b where b: "st p = Some b" "height_of st p = bi_nHeight b" using period_end_height(3) [OF assms(3,1)] by auto
  have bm: "(bi_nHeight b + 1) mod Period c = 0" using period_end_height(2) [OF assms(3,1)] b(2) by simp
  note br = period_end_height(1,2) [OF assms(4,1)]
  have "height_of st r < bi_nHeight b"
    using ancestor_height [OF assms(1) _ assms(5)] same_height_ancestor [OF assms(1) b(1) assms(5)] assms(6) b by fastforce
  moreover have "Period c dvd bi_nHeight b - height_of st r"
    using dvd_diff [of "Period c" "bi_nHeight b + 1" "height_of st r + 1"] bm br(2) by (simp add: mod_eq_0_iff_dvd)
  ultimately have le: "height_of st r \<le> bi_nHeight b - Period c" using zdvd_imp_le [of "Period c" "bi_nHeight b - height_of st r"] by simp
  then have "period_back st c p \<noteq> None"
    using steps_back_connected [OF assms(1) _ b(1), of "bi_nHeight b - Period c"] assms(2,3) b(2) br(1) by (auto simp: period_back_def period_end_def)
  then obtain q where q: "period_back st c p = Some q" by blast
  then have e: "period_end st c q" "height_of st q = bi_nHeight b - Period c" using period_back_entry(2) [OF assms(1-3) b(1)] by simp_all
  have "steps_back st (nat (Period c)) p = Some q" using q by (auto simp: period_back_def split: if_splits)
  then have "ancestor st r q" using ancestor_jump [OF assms(1) b(1)] assms(5) le e(2) by simp
  then show thesis using that q e b(2) assms(2) by simp
qed

lemma last_period_ancestor:
  assumes "index_ok st" "0 < Period c" "connected st p" "period_end st c q" "ancestor st q p"
  obtains r where "last_period st c p = Some r" "period_end st c r" "ancestor st q r"
proof -
  obtain b where b: "st p = Some b" using assms(3) by (auto simp: connected_def split: option.splits)
  then have hb: "height_of st p = bi_nHeight b" by (simp add: height_of_def)
  note bq = period_end_height(1,2) [OF assms(4,1)]
  define h where "h = bi_nHeight b - (bi_nHeight b + 1) mod Period c"
  have "height_of st q \<le> bi_nHeight b" using ancestor_height [OF assms(1) _ assms(5)] b hb by simp
  then have "(height_of st q + 1) div Period c \<le> (bi_nHeight b + 1) div Period c" using assms(2) by (intro zdiv_mono1) simp_all
  then have "(height_of st q + 1) div Period c * Period c \<le> (bi_nHeight b + 1) div Period c * Period c" using assms(2) by (intro mult_right_mono) simp_all
  then have le: "height_of st q \<le> h" using bq(2) minus_mod_eq_div_mult [of "bi_nHeight b + 1" "Period c"] minus_mod_eq_div_mult [of "height_of st q + 1" "Period c"]
    unfolding h_def by linarith
  have "h \<le> bi_nHeight b" using assms(2) by (simp add: h_def)
  then obtain r br where r: "steps_back st (nat (bi_nHeight b - h)) p = Some r" "st r = Some br" "bi_nHeight br = h"
    using steps_back_connected [OF assms(1,3) b] le bq(1) by (metis order_trans)
  have "last_period st c p = Some r" using r(1) le bq(1) hb by (simp add: last_period_def h_def Let_def)
  moreover have "ancestor st q r" using ancestor_jump [OF assms(1) b r(1)] assms(5) r(2,3) le by (simp add: height_of_def)
  ultimately show thesis using that period_parent_last(2) [OF assms(1-3)] by blast
qed

lemma final_stays:
  assumes "schedule_ok params st c" "deployment_state params st c (Some q) s" "s = THRESHOLD_ACTIVE \<or> s = THRESHOLD_FAILED" "period_end st c q"
  shows "period_end st c p \<Longrightarrow> ancestor st q p \<Longrightarrow> deployment_state params st c (Some p) s' \<Longrightarrow> s' = s"
proof (induction "nat (height_of st p)" arbitrary: p s' rule: less_induct)
  case less
  have ok: "index_ok st" "0 < Period c" using assms(1) by (simp_all add: schedule_ok_def)
  show ?case
  proof (cases "q = p")
    case True
    then show ?thesis using deployment_state_functional [OF less.prems(3)] assms(2) by simp
  next
    case False
    then obtain r where r: "period_back st c p = Some r" "ancestor st q r" "period_end st c r" "height_of st r < height_of st p"
      using period_ancestor [OF ok less.prems(1) assms(4) less.prems(2)] by blast
    obtain t s0 where s0: "deployment_state params st c (Some r) s0" "threshold_step c t (signals st c (nat (Period c)) p) s0 s'"
      using less.prems(3) r(1) by (auto elim!: deployment_state_SomeE)
    have "0 \<le> height_of st r" by (rule period_end_height(1) [OF r(3) ok(1)])
    then have "s0 = s" using less.hyps [OF _ r(3,2) s0(1)] r(4) by simp
    then show ?thesis using s0(2) assms(3) by (auto simp: threshold_step_simps)
  qed
qed

lemma timeout_final:
  assumes "deployment_state params st c (Some q) s" "GetMedianTimePast params st q = Inr t" "EndTime c \<le> t"
  shows "s = THRESHOLD_ACTIVE \<or> s = THRESHOLD_FAILED"
proof -
  obtain s0 where "threshold_step c t (signals st c (nat (Period c)) q) s0 s" using assms(1,2) by (auto elim!: deployment_state_SomeE)
  then show ?thesis using assms(3) by (cases s0) (auto simp: threshold_step_simps)
qed

lemma last_period_end: "index_ok st \<Longrightarrow> period_end st c p \<Longrightarrow> last_period st c p = Some p"
  using period_end_height(1,2) [of st c p] by (simp add: last_period_def)

text \<open>The first period with the state of a block: the periods from it on have the same state, the one before
  has another.\<close>

definition first_with_state ::
  "chain_params \<Rightarrow> block_store \<Rightarrow> AbstractThresholdConditionChecker \<Rightarrow> nat \<Rightarrow> ThresholdState \<Rightarrow> nat \<Rightarrow> bool" where
  "first_with_state params st c p s q \<longleftrightarrow>
     period_end st c q \<and> ancestor st q p \<and> \<not> deployment_state params st c (period_back st c q) s \<and>
     (\<forall>r. period_end st c r \<and> ancestor st r p \<and> height_of st q \<le> height_of st r \<longrightarrow> deployment_state params st c (Some r) s)"

lemma first_with_state_back:
  assumes "index_ok st" "0 < Period c" "period_end st c p" "deployment_state params st c (Some p) s" "period_back st c p = Some r"
    "first_with_state params st c r s q"
  shows "first_with_state params st c p s q"
proof -
  obtain b where b: "st p = Some b" using period_end_height(3) [OF assms(3,1)] by auto
  have r: "ancestor st r p" using period_back_entry(2) [OF assms(1-3) b] assms(5) by simp
  have "ancestor st x p" if "ancestor st x r" for x
    using that r back_add [of st] unfolding ancestor_def by (metis Option.bind.bind_lunit)
  moreover have "deployment_state params st c (Some x) s"
    if x: "period_end st c x" "ancestor st x p" "height_of st q \<le> height_of st x" for x
  proof (cases "x = p")
    case False
    then have "ancestor st x r" using period_ancestor [OF assms(1-3) x(1,2)] assms(5) by auto
    then show ?thesis using assms(6) x unfolding first_with_state_def by blast
  qed (use assms(4) in simp)
  ultimately show ?thesis using assms(6) unfolding first_with_state_def by blast
qed

lemma first_with_state_self:
  assumes "index_ok st" "period_end st c p" "deployment_state params st c (Some p) s" "\<not> deployment_state params st c (period_back st c p) s"
  shows "first_with_state params st c p s p"
proof -
  obtain b where b: "st p = Some b" "height_of st p = bi_nHeight b" using period_end_height(3) [OF assms(2,1)] by auto
  have "x = p" if x: "ancestor st x p" "height_of st p \<le> height_of st x" for x
    using ancestor_height [OF assms(1) _ x(1)] same_height_ancestor [OF assms(1) b(1) x(1)] x(2) b by fastforce
  then show ?thesis using assms(2-4) by (auto simp: first_with_state_def)
qed

lemma since_loop_first:
  assumes "schedule_ok params st c" "s \<noteq> THRESHOLD_DEFINED"
  shows "period_end st c p \<Longrightarrow> deployment_state params st c (Some p) s \<Longrightarrow> cache_ok params st c cache \<Longrightarrow>
    \<exists>cache' q. since_loop params st c s cache p = Some (Inr (cache', height_of st q + 1)) \<and> cache_ok params st c cache' \<and>
      first_with_state params st c p s q"
proof (induction "nat (height_of st p)" arbitrary: p cache rule: less_induct)
  case less
  have ok: "index_ok st" "0 < Period c" using assms(1) by (simp_all add: schedule_ok_def)
  obtain b where b: "st p = Some b" "height_of st p = bi_nHeight b" "0 \<le> bi_nHeight b" using period_end_height(1,3) [OF less.prems(1) ok(1)] by auto
  have anc: "GetAncestor st p (bi_nHeight b - Period c) = Inr (period_back st c p)" by (rule period_back_entry(1) [OF ok less.prems(1) b(1)])
  show ?case
  proof (cases "period_back st c p")
    case None
    then have "since_loop params st c s cache p = Some (Inr (cache, height_of st p + 1))"
      using anc b by (subst since_loop.simps) (simp add: deref_def)
    moreover have "first_with_state params st c p s p"
      using first_with_state_self [OF ok(1) less.prems(1,2)] None assms(2) by simp
    ultimately show ?thesis using less.prems(3) by blast
  next
    case (Some r)
    have r: "period_end st c r" "height_of st r = bi_nHeight b - Period c"
      using period_back_entry(2) [OF ok less.prems(1) b(1)] Some by simp_all
    obtain cache' s' where g: "GetStateFor params st c (Some r) cache = Some (Inr (cache', s'))" "cache_ok params st c cache'"
      "deployment_state params st c (Some r) s'"
      using GetStateFor_state [OF assms(1) less.prems(3), of r] last_period_end [OF ok(1) r(1)] r(1) by (auto simp: period_end_def)
    have loop: "since_loop params st c s cache p =
        (if s' = s then since_loop params st c s cache' r else Some (Inr (cache', height_of st p + 1)))"
      using anc b Some g(1) by (subst since_loop.simps) (simp add: deref_def)
    show ?thesis
    proof (cases "s' = s")
      case True
      have "0 \<le> height_of st r" by (rule period_end_height(1) [OF r(1) ok(1)])
      then have "nat (height_of st r) < nat (height_of st p)" using r(2) b ok(2) by simp
      then show ?thesis
        using less.hyps [OF _ r(1) _ g(2)] g(3) loop True first_with_state_back [OF ok less.prems(1,2) Some] by metis
    next
      case False
      then have "first_with_state params st c p s p"
        using first_with_state_self [OF ok(1) less.prems(1,2)] Some deployment_state_functional [OF g(3)] by auto
      then show ?thesis using loop False g(2) by auto
    qed
  qed
qed

section \<open>Statistics\<close>

lemma stats_loop_signals:
  "index_ok st \<Longrightarrow> st p = Some b \<Longrightarrow> connected st p \<Longrightarrow> 0 \<le> h \<Longrightarrow> h + int n = bi_nHeight b \<Longrightarrow>
   stats_loop st c h (Some p) k = Some (Inr (k + signals st c n p))"
proof (induction n arbitrary: p b k)
  case 0
  then show ?case by (subst stats_loop.simps) (simp add: signals_def)
next
  case (Suc n)
  then obtain q bq where q: "pprev b = Some q" "st q = Some bq" "bi_nHeight bq = bi_nHeight b - 1" "connected st q"
    using connected_prev [OF Suc.prems(1,3,2)] by (metis add_strict_increasing2 of_nat_0_less_iff zero_less_Suc)
  then have "stats_loop st c h (Some q) k' = Some (Inr (k' + signals st c n q))" for k'
    using Suc.IH [OF Suc.prems(1) q(2,4) Suc.prems(4)] Suc.prems(5) by simp
  then show ?case using Suc.prems(2,5) q(1) signals_Suc [where st = st and p = p, OF Suc.prems(2) q(1), of c n]
    by (subst stats_loop.simps) simp
qed

text \<open>From the second period on the statistics count the signalling blocks of the current period, and a
  deployment is possible as long as the remaining blocks can reach the threshold. In the first period there is
  no block before the period, and the code follows a null pointer.\<close>

lemma GetStateStatisticsFor_exact:
  assumes "index_ok st" "0 < Period c" "connected st p"
  shows "case last_period st c p of
      None \<Rightarrow> GetStateStatisticsFor st c stats (Some p) = Some (Inl UndefinedBehaviour)
    | Some e \<Rightarrow> \<exists>r. GetStateStatisticsFor st c stats (Some p) = Some (Inr r) \<and> stats_elapsed r = height_of st p - height_of st e \<and>
        stats_count r = signals st c (nat (stats_elapsed r)) p \<and>
        (stats_possible r \<longleftrightarrow> Threshold c \<le> stats_count r + (Period c - stats_elapsed r))"
proof -
  obtain b where b: "st p = Some b" using assms(3) by (auto simp: connected_def split: option.splits)
  note parent = period_parent_last [OF assms]
  show ?thesis
  proof (cases "last_period st c p")
    case None
    then show ?thesis using parent(1) by (simp add: GetStateStatisticsFor_def)
  next
    case (Some e)
    then have e: "period_end st c e" "ancestor st e p" using parent(2) by blast+
    obtain be where be: "st e = Some be" "height_of st e = bi_nHeight be" "0 \<le> bi_nHeight be"
      using period_end_height(1,3) [OF e(1) assms(1)] by auto
    have "bi_nHeight be \<le> bi_nHeight b" using ancestor_height [OF assms(1) _ e(2)] b be(2) by (simp add: height_of_def)
    then have "stats_loop st c (bi_nHeight be) (Some p) 0 = Some (Inr (signals st c (nat (bi_nHeight b - bi_nHeight be)) p))"
      using stats_loop_signals [OF assms(1) b assms(3) be(3), of "nat (bi_nHeight b - bi_nHeight be)"] by simp
    then show ?thesis using Some parent(1) b be by (auto simp: GetStateStatisticsFor_def Let_def deref_def height_of_def)
  qed
qed

section \<open>Properties\<close>

text \<open>
  C16. The cached computation follows BIP 9. On a well-formed index whose blocks have different hashes and in
  which the median time does not fall from one period to the next, and for a deployment that does not time out
  before it starts, \<^verbatim>\<open>GetStateFor\<close> ends without an exception for every connected block and every
  cache with right entries; it returns the state that the state machine of BIP 9 reaches over the periods of
  the chain from the genesis block, and it leaves only right entries in the cache. For a state other than
  DEFINED, \<^verbatim>\<open>GetStateSinceHeightFor\<close> returns the height of the first block of the first period with
  this state, and zero for DEFINED.
\<close>

theorem GetStateFor_correct:
  assumes "schedule_ok params st c" "cache_ok params st c cache" "connected st p"
  shows "\<exists>cache' s cache'' h. GetStateFor params st c (Some p) cache = Some (Inr (cache', s)) \<and> cache_ok params st c cache' \<and>
    (\<forall>s'. deployment_state params st c (last_period st c p) s' \<longleftrightarrow> s' = s) \<and>
    GetStateSinceHeightFor params st c (Some p) cache = Some (Inr (cache'', h)) \<and> cache_ok params st c cache'' \<and>
    (if s = THRESHOLD_DEFINED then h = 0
     else \<exists>e q. last_period st c p = Some e \<and> first_with_state params st c e s q \<and> h = height_of st q + 1)"
proof -
  have ok: "index_ok st" "0 < Period c" using assms(1) by (simp_all add: schedule_ok_def)
  obtain cache' s where g: "GetStateFor params st c (Some p) cache = Some (Inr (cache', s))" "cache_ok params st c cache'"
    "deployment_state params st c (last_period st c p) s" using GetStateFor_state [OF assms] by blast
  have u: "deployment_state params st c (last_period st c p) s' \<longleftrightarrow> s' = s" for s' using deployment_state_functional [OF g(3)] g(3) by blast
  show ?thesis
  proof (cases "s = THRESHOLD_DEFINED")
    case True
    then show ?thesis using g u by (simp add: GetStateSinceHeightFor_def)
  next
    case False
    then obtain e where e: "last_period st c p = Some e" using g(3) by (cases "last_period st c p") auto
    then have pe: "period_end st c e" using period_parent_last(2) [OF ok assms(3)] by blast
    obtain cache'' q where "since_loop params st c s cache' e = Some (Inr (cache'', height_of st q + 1))" "cache_ok params st c cache''"
      "first_with_state params st c e s q" using since_loop_first [OF assms(1) False pe _ g(2)] g(3) e by auto
    then show ?thesis using g(1,2) u e False period_parent_last(1) [OF ok assms(3)] by (simp add: GetStateSinceHeightFor_def) blast
  qed
qed

definition example_deployment :: AbstractThresholdConditionChecker where
  "example_deployment = \<lparr>Condition = (\<lambda>_. True), BeginTime = 500, EndTime = 1000, Period = 2, Threshold = 2\<rparr>"

lemma example_deployment_simps [simp]:
  "BeginTime example_deployment = 500" "EndTime example_deployment = 1000" "Period example_deployment = 2"
  by (simp_all add: example_deployment_def)

lemma example_entries: "example_store p = Some b \<Longrightarrow> p < 3 \<and> unat (hashBlock b) = p + 100 \<and> height_of example_store p = int p"
  by (auto simp: example_store_def example_entry_def height_of_def split: if_splits)

lemma example_schedule: "schedule_ok example_net example_store example_deployment"
proof -
  have "hashBlock b \<noteq> 0 \<and> (\<forall>q b'. example_store q = Some b' \<and> hashBlock b' = hashBlock b \<longrightarrow> q = p)" if b: "example_store p = Some b" for p b
  proof -
    have "hashBlock b \<noteq> 0" using example_entries [OF b] by (intro notI) simp
    moreover have "q = p" if "example_store q = Some b'" "hashBlock b' = hashBlock b" for q b'
      using example_entries [OF b] example_entries [OF that(1)] that(2) by simp
    ultimately show ?thesis by blast
  qed
  then have "hashes_differ example_store" unfolding hashes_differ_def by blast
  moreover have "period_back example_store example_deployment p = None" if pe: "period_end example_store example_deployment p" for p
  proof -
    obtain b where "example_store p = Some b" using period_end_height(3) [OF pe example_store_ok(1)] by blast
    then have "p < 3" "height_of example_store p = int p" using example_entries by blast+
    moreover have "(height_of example_store p + 1) mod 2 = 0" using period_end_height(2) [OF pe example_store_ok(1)] by simp
    ultimately have "p = 1" by presburger
    then show ?thesis by (simp add: period_back_def height_of_def)
  qed
  ultimately show ?thesis using example_store_ok(1) by (auto simp: schedule_ok_def times_rise_def)
qed

theorem GetStateFor_correct_witness:
  "\<exists>cache' s cache'' h. GetStateFor example_net example_store example_deployment (Some 2) Map.empty = Some (Inr (cache', s)) \<and>
    cache_ok example_net example_store example_deployment cache' \<and>
    (\<forall>s'. deployment_state example_net example_store example_deployment (last_period example_store example_deployment 2) s' \<longleftrightarrow> s' = s) \<and>
    GetStateSinceHeightFor example_net example_store example_deployment (Some 2) Map.empty = Some (Inr (cache'', h)) \<and>
    cache_ok example_net example_store example_deployment cache'' \<and>
    (if s = THRESHOLD_DEFINED then h = 0
     else \<exists>e q. last_period example_store example_deployment 2 = Some e \<and>
       first_with_state example_net example_store example_deployment e s q \<and> h = height_of example_store q + 1)"
  by (rule GetStateFor_correct [OF example_schedule cache_ok_empty example_store_ok(5)])

text \<open>
  C17. Every deployment is decided. As soon as the median time at the end of a period has reached the timeout,
  \<^verbatim>\<open>GetStateFor\<close> returns ACTIVE or FAILED for every block that descends from it, and it returns the same
  state for all of them, in whatever order they are asked and whatever was cached before.
\<close>

theorem deployment_settles:
  assumes "schedule_ok params st c" "period_end st c q" "GetMedianTimePast params st q = Inr t" "EndTime c \<le> t"
  shows "\<exists>s. (s = THRESHOLD_ACTIVE \<or> s = THRESHOLD_FAILED) \<and>
    (\<forall>p cache. connected st p \<and> ancestor st q p \<and> cache_ok params st c cache \<longrightarrow>
       (\<exists>cache'. GetStateFor params st c (Some p) cache = Some (Inr (cache', s)) \<and> cache_ok params st c cache'))"
proof -
  have ok: "index_ok st" "0 < Period c" using assms(1) by (simp_all add: schedule_ok_def)
  have "connected st q" using assms(2) by (simp add: period_end_def)
  then obtain s where s: "deployment_state params st c (Some q) s"
    using GetStateFor_state [OF assms(1) cache_ok_empty] last_period_end [OF ok(1) assms(2)] by metis
  note final = timeout_final [OF s assms(3,4)]
  have "\<exists>cache'. GetStateFor params st c (Some p) cache = Some (Inr (cache', s)) \<and> cache_ok params st c cache'"
    if p: "connected st p" "ancestor st q p" "cache_ok params st c cache" for p cache
  proof -
    obtain r where r: "last_period st c p = Some r" "period_end st c r" "ancestor st q r"
      using last_period_ancestor [OF ok p(1) assms(2) p(2)] by blast
    obtain cache' s' where g: "GetStateFor params st c (Some p) cache = Some (Inr (cache', s'))" "cache_ok params st c cache'"
      "deployment_state params st c (Some r) s'" using GetStateFor_state [OF assms(1) p(3,1)] r(1) by auto
    have "s' = s" by (rule final_stays [OF assms(1) s final assms(2) r(2,3) g(3)])
    then show ?thesis using g by blast
  qed
  then show ?thesis using final by blast
qed

lemma example_median: "GetMedianTimePast example_net example_store (Suc 0) = Inr 1000"
proof -
  have "GetBlockTime (example_entry q 0) = 1000" "GetBlockTime (example_entry q 1) = 1150" for q
    by (simp_all add: GetBlockTime_def example_entry_def)
  then show ?thesis by (simp add: GetMedianTimePast_def deref_def median_span_def example_net_def numeral_3_eq_3 Let_def vec_index_def)
qed

theorem deployment_settles_witness:
  "\<exists>s. (s = THRESHOLD_ACTIVE \<or> s = THRESHOLD_FAILED) \<and>
    (\<forall>p cache. connected example_store p \<and> ancestor example_store (Suc 0) p \<and> cache_ok example_net example_store example_deployment cache \<longrightarrow>
       (\<exists>cache'. GetStateFor example_net example_store example_deployment (Some p) cache = Some (Inr (cache', s)) \<and>
          cache_ok example_net example_store example_deployment cache'))"
proof (rule deployment_settles [OF example_schedule _ example_median])
  show "period_end example_store example_deployment (Suc 0)" using example_store_ok(4) by (simp add: period_end_def height_of_def)
qed simp

end
