(* ===== verification/Spec2Isabelle.thy ===== *)
theory Spec2Isabelle
  imports Script_Effects Script_Safety Script_Shape Script_Standard Script_Verify Compact_Target Witness_Safety Chain_Walk Tx_Value Merkle_Proof Versionbits_State
begin

text \<open>
  A verification development for the Munt node, C++ sources under \<^verbatim>\<open>src/src\<close>. It models the rules by which a node
  decides whether a transaction may spend its coins, the data they are stated over, and the indexes they are
  evaluated against. File names below are relative to \<^verbatim>\<open>src/src\<close>.

  \<^bold>\<open>The parts and how they interact.\<close> A transaction (\<^verbatim>\<open>primitives/transaction.h\<close>) is read from and written to bytes
  by the serialization primitives (\<^verbatim>\<open>serialize.h\<close>), and identified by the double SHA-256 of its bytes. Its inputs
  name coins kept in a cache over a database (\<^verbatim>\<open>coins.cpp\<close>). \<^verbatim>\<open>CheckTransaction\<close> and \<^verbatim>\<open>CheckTxInputs\<close>
  (\<^verbatim>\<open>consensus/tx_verify.cpp\<close>) check it against the cache, \<^verbatim>\<open>BuildWitnessBundles\<close> checks what it does to locked
  witness coins, and \<^verbatim>\<open>VerifyScript\<close> (\<^verbatim>\<open>script/interpreter.cpp\<close>) evaluates the scripts, for which it needs script
  numbers, hash functions and signature hashes. \<^verbatim>\<open>UpdateCoins\<close> and \<^verbatim>\<open>DisconnectBlock\<close> (\<^verbatim>\<open>validation/validation.cpp\<close>)
  apply a block to the cache and take it back. Blocks are entries of an index (\<^verbatim>\<open>chain.h\<close>, \<^verbatim>\<open>chain.cpp\<close>), whose work
  is computed with 256-bit integers (\<^verbatim>\<open>arith_uint256.cpp\<close>), whose transactions are committed to by a Merkle root
  (\<^verbatim>\<open>consensus/merkle.cpp\<close>, \<^verbatim>\<open>merkleblock.cpp\<close>), and whose version bits deploy new rules (\<^verbatim>\<open>versionbits.cpp\<close>).

  \<^bold>\<open>Conventions.\<close> Structs are records, enumerations and unions are datatypes, fixed-width unsigned integers are
  words, signed ones are integers with their wrap-around written as \<^verbatim>\<open>i32\<close> and \<^verbatim>\<open>i64\<close>. Code that throws, asserts,
  or reads a vector is in the error monad of \<^verbatim>\<open>Munt_Prelude\<close>: \<^verbatim>\<open>cpp_exn\<close> has the exceptions, \<^verbatim>\<open>AssertFail\<close>, and
  \<^verbatim>\<open>UndefinedBehaviour\<close> for a read outside a vector, a null pointer or a meaningless shift, so that a theorem that a
  result is not an exception is a theorem about the guards of the code. Objects are updated by returning them.
  Virtual functions, callbacks and code outside the repository are parameters: the signature checker and the
  low-S test of the interpreter, the coin lookup of the bundles, the base view of a cache, the undo records, the
  checker of a deployment.

  \<^bold>\<open>Theories.\<close>

  \<^item> \<^verbatim>\<open>Munt_Prelude\<close>: integer types, the error monad, checked vectors, byte codecs, shared lemmas.
  \<^item> \<^verbatim>\<open>Script_Num\<close>, \<^verbatim>\<open>Script_Opcodes\<close>, \<^verbatim>\<open>Script_Base\<close>: script numbers, opcodes, the script container with its
  instruction reader and \<^verbatim>\<open>FindAndDelete\<close> (\<^verbatim>\<open>script/script.h\<close>, \<^verbatim>\<open>script/script.cpp\<close>). Script numbers have exactly one
  encoding; \<^verbatim>\<open>FindAndDelete\<close> equals a one-pass reference.
  \<^item> \<^verbatim>\<open>Sig_Encoding\<close>: the checks on signatures and keys before an operation; the DER check is the DER grammar.
  \<^item> \<^verbatim>\<open>Hash_Functions\<close>: SHA-256, SHA-1, RIPEMD-160 and their double hashes (\<^verbatim>\<open>crypto/\<close>, \<^verbatim>\<open>hash.h\<close>). The streaming classes
  share the locale \<^verbatim>\<open>hash_class\<close>; SHA-256 is that of the standard, with its constants and padding checked.
  \<^item> \<^verbatim>\<open>Script_Interp\<close>: \<^verbatim>\<open>EvalScript\<close> with one definition per opcode. \<^verbatim>\<open>Script_Safety\<close> (no read outside a stack, limits;
  every stack opcode interprets the locale \<^verbatim>\<open>stack_operation\<close>), \<^verbatim>\<open>Script_Effects\<close> (what the opcodes compute,
  \<^verbatim>\<open>OP_CHECKMULTISIG\<close> matches signatures to keys in order), \<^verbatim>\<open>Script_Shape\<close> (a script that succeeds is well formed).
  \<^item> \<^verbatim>\<open>Script_Standard\<close>: templates, destinations and script builders (\<^verbatim>\<open>script/standard.cpp\<close>), with their round trips.
  \<^item> \<^verbatim>\<open>Transaction\<close>, \<^verbatim>\<open>Serialize\<close>, \<^verbatim>\<open>Tx_Serialize\<close>: transactions and both their formats. Every encoding is an
  interpretation of the locales \<^verbatim>\<open>codec\<close> and \<^verbatim>\<open>canonical_codec\<close>; transactions survive a round trip, and equal hashes
  mean equal transactions up to a collision.
  \<^item> \<^verbatim>\<open>Sighash\<close>, \<^verbatim>\<open>Script_Verify\<close>: signature hashes in both versions, the transaction checker, and \<^verbatim>\<open>VerifyScript\<close>.
  \<^item> \<^verbatim>\<open>Arith_Uint256\<close>, \<^verbatim>\<open>Compact_Target\<close>: loops over limbs refine 256-bit words (locale \<^verbatim>\<open>refines\<close>), and the compact form
  of targets.
  \<^item> \<^verbatim>\<open>Witness_Util\<close>, \<^verbatim>\<open>Validation_State\<close>, \<^verbatim>\<open>Witness_Bundles\<close>, \<^verbatim>\<open>Witness_Safety\<close>: witness outputs and weights, the outcome
  of a check, the bundles of a transaction, and what an accepted transaction guarantees to locked coins, with two
  ways in which the code releases a coin that is still locked.
  \<^item> \<^verbatim>\<open>Coins\<close>, \<^verbatim>\<open>Coins_Refine\<close>: the cache with its flags and position index. It simulates a map of unspent coins
  (locale \<^verbatim>\<open>simulation\<close>), and flushing transfers its view; a lookup by position that loses a spend is shown.
  \<^item> \<^verbatim>\<open>Chain_Index\<close>, \<^verbatim>\<open>Chain_Walk\<close>: the block index, skip pointers, the active chain, locators and fork points.
  \<^item> \<^verbatim>\<open>Tx_Verify\<close>, \<^verbatim>\<open>Tx_Coins\<close>, \<^verbatim>\<open>Tx_Undo\<close>, \<^verbatim>\<open>Tx_Value\<close>: the checks of a transaction, connecting and disconnecting, that
  disconnecting restores the coins, that accepted transactions conserve value when inputs name coins by hash, and
  a transaction that names one coin twice and does not.
  \<^item> \<^verbatim>\<open>Merkle\<close>, \<^verbatim>\<open>Merkle_Root\<close>, \<^verbatim>\<open>Merkle_Proof\<close>: the constant-space Merkle computation equals the tree it stands for, its
  branches verify, mutations of the leaves are found, and partial trees prove what they claim for the right number
  of transactions, with the forgery that a wrong number allows.
  \<^item> \<^verbatim>\<open>Versionbits\<close>, \<^verbatim>\<open>Versionbits_State\<close>: the states of a deployment over the periods of a chain. The state machine of
  BIP 9 is the inductive relation \<^verbatim>\<open>threshold_step\<close>, its run over the chain \<^verbatim>\<open>deployment_state\<close>; the cached code
  agrees with it, and every deployment is decided when its time is over.

  \<^bold>\<open>Loops.\<close> Recursion is structural or has a termination proof; loops whose end depends on the links of the index
  are partial functions in which None is a loop that does not end, and their theorems show that the result is not
  None on a well-formed index. There is no fuel. The loops over bits in \<^verbatim>\<open>Merkle\<close> stop at the width of the integer,
  where the code has no meaning. Merkle roots are covered up to 2 to the 31 leaves, partial trees up to the number
  of transactions the code accepts, weights for amounts in the money range and locks below 2 to the 32 blocks.

  \<^bold>\<open>Simplifications.\<close> Heights of blocks are integers without bound. \<^verbatim>\<open>UpdateCoins\<close> works on a cache without the sibling
  view; the operations with it are \<^verbatim>\<open>chained_AddCoin\<close> and \<^verbatim>\<open>chained_SpendCoin\<close>. The product of 256-bit integers is
  that of two different objects. The unused half of the union in an outpoint is kept in the transaction data and
  is zero in bundles. The hash of an index entry is a field of it. The bit of a deployment is below 32.

  \<^bold>\<open>Not modelled.\<close> Networking, the wallet, the RPC and HTTP servers, mining and the user interfaces are threads, I/O
  and rendering around the rules above. The databases and block files are behind the base view and the undo
  parameter. Accepting blocks, choosing the best chain, the witness election and the memory pool
  (\<^verbatim>\<open>validation/validation.cpp\<close>, \<^verbatim>\<open>validation/witnessvalidation.cpp\<close>, \<^verbatim>\<open>validation/validation_mempool.cpp\<close>) are bound to
  files, locks and global state; of them only the updates of the coins are here. Elliptic curve operations are
  calls into the bundled libsecp256k1. The legacy locator, the serialization of partial trees and of coins, the
  hardware variants of SHA-256 and the renderings as text are left out of the components they belong to.
\<close>

end
